(* ===== verification/Wired_Prelude.thy ===== *)
theory Wired_Prelude
  imports Main "HOL-Library.Word" "HOL-Library.Monad_Syntax"
begin

unbundle bit_operations_syntax

text \<open>
  Shared vocabulary of the development: the machine integer types of the SDK, the
  caller-provided output buffer \<open>wired_obuf\<close> of \<^verbatim>\<open>src/common/bytes/span/span.h\<close>, the
  sequencing of fallible writes and reads, and the generic lemmas on lists, options and
  words that the component theories rest on.

  Conventions used everywhere.
  \<^item> \<open>u8\<close>, \<open>u16\<close>, \<open>u32\<close>, \<open>u64\<close> are words of that width, with wrap-around arithmetic.
  \<^item> A byte range \<open>wired_span\<close> \<open>(p, n)\<close> is the list of its \<open>n\<close> bytes; a cursor \<open>usz* off\<close>
    into it is a natural number. A cursor stays within a buffer, whose length is below
    \<open>2 ^ 63\<close> on the 64-bit target, so a cursor plus a small constant does not wrap. Where
    an untrusted 64-bit value is added to a cursor the sum is \<open>usz_add\<close>, which wraps as
    the C expression does.
  \<^item> An output parameter is a component of the result. A reader that returns 0 on
    malformed input returns \<open>None\<close>; its output fields are not read by any caller then.
  \<^item> A writer returns its \<open>int\<close> result and the buffer as it left it, also on failure.
\<close>

section \<open>Machine types\<close>

type_synonym u8 = "8 word"
type_synonym u16 = "16 word"
type_synonym u32 = "32 word"
type_synonym u64 = "64 word"
type_synonym bytes = "8 word list"

named_theorems codec_simps \<open>definitions unfolded when a codec is evaluated\<close>
named_theorems emits_intros \<open>what each writer emits\<close>
named_theorems takes_simps \<open>what each reader returns on its own encoding\<close>

definition usz_add :: "nat \<Rightarrow> nat \<Rightarrow> nat" where
  "usz_add a b = (a + b) mod 2 ^ 64"

lemma usz_add_exact: "a + b < 2 ^ 64 \<Longrightarrow> usz_add a b = a + b"
  by (simp add: usz_add_def)

lemma usz_add_less: "usz_add a b < 2 ^ 64"
  by (simp add: usz_add_def)

section \<open>Bytes in place\<close>

text \<open>
  The copy loop \<^verbatim>\<open>for (i = 0; i < n; i++) p[off + i] = src[i]\<close>, one store per byte.
\<close>

fun write_at :: "'a list \<Rightarrow> nat \<Rightarrow> 'a list \<Rightarrow> 'a list" where
  "write_at p off [] = p"
| "write_at p off (b # bs) = write_at (p[off := b]) (Suc off) bs"

lemma length_write_at [simp]: "length (write_at p off bs) = length p"
  by (induction p off bs rule: write_at.induct) auto

lemma write_at_append:
  "write_at p off (xs @ ys) = write_at (write_at p off xs) (off + length xs) ys"
  by (induction p off xs rule: write_at.induct) auto

lemma write_at_eq:
  "off + length bs \<le> length p \<Longrightarrow>
   write_at p off bs = take off p @ bs @ drop (off + length bs) p"
proof (induction p off bs rule: write_at.induct)
  case (2 p off b bs)
  then have len: "off < length p" by simp
  have "write_at p off (b # bs) = take (Suc off) (p[off := b]) @ bs @ drop (Suc off + length bs) p"
    using 2 by (simp add: drop_update_cancel)
  also have "take (Suc off) (p[off := b]) = take off p @ [b]"
    using len by (simp add: take_Suc_conv_app_nth)
  finally show ?case by simp
qed simp

lemma nth_write_at:
  "i < length p \<Longrightarrow>
   write_at p off bs ! i = (if off \<le> i \<and> i < off + length bs then bs ! (i - off) else p ! i)"
proof (induction p off bs rule: write_at.induct)
  case (2 p off b bs)
  then show ?case
    by (auto simp: nth_list_update nth_Cons' split: if_splits)
qed auto

lemma take_write_at: "n \<le> off \<Longrightarrow> take n (write_at p off bs) = take n p"
  by (rule nth_equalityI) (auto simp: nth_write_at)

section \<open>The output buffer\<close>

text \<open>
  \<open>wired_obuf\<close> (span.h): caller storage \<open>p\<close> of capacity \<open>cap\<close> (its length) and the bytes
  written so far. A writable span with its own cursor, \<open>(wired_mspan, usz* off)\<close>, is the
  same pair.
\<close>

record wired_obuf =
  ob_p :: bytes
  ob_len :: nat

definition obuf_of :: "bytes \<Rightarrow> wired_obuf" where
  "obuf_of p = \<lparr>ob_p = p, ob_len = 0\<rparr>"

definition ob_cap :: "wired_obuf \<Rightarrow> nat" where
  "ob_cap ob = length (ob_p ob)"

definition ob_ok :: "wired_obuf \<Rightarrow> bool" where
  "ob_ok ob \<longleftrightarrow> ob_len ob \<le> ob_cap ob"

definition ob_bytes :: "wired_obuf \<Rightarrow> bytes" where
  "ob_bytes ob = take (ob_len ob) (ob_p ob)"

definition ob_append :: "wired_obuf \<Rightarrow> bytes \<Rightarrow> wired_obuf" where
  "ob_append ob bs = ob\<lparr>ob_p := write_at (ob_p ob) (ob_len ob) bs, ob_len := ob_len ob + length bs\<rparr>"

lemma ob_append_Nil [simp]: "ob_append ob [] = ob"
  by (simp add: ob_append_def)

lemma ob_append_append: "ob_append (ob_append ob xs) ys = ob_append ob (xs @ ys)"
  by (simp add: ob_append_def write_at_append add.assoc)

lemma ob_cap_append [simp]: "ob_cap (ob_append ob bs) = ob_cap ob"
  by (simp add: ob_append_def ob_cap_def)

lemma ob_len_append [simp]: "ob_len (ob_append ob bs) = ob_len ob + length bs"
  by (simp add: ob_append_def)

lemma ob_ok_append: "ob_len ob + length bs \<le> ob_cap ob \<Longrightarrow> ob_ok (ob_append ob bs)"
  by (simp add: ob_ok_def)

lemma ob_ok_obuf_of [simp]: "ob_ok (obuf_of p)"
  by (simp add: ob_ok_def obuf_of_def)

lemma ob_cap_obuf_of [simp]: "ob_cap (obuf_of p) = length p"
  by (simp add: ob_cap_def obuf_of_def)

lemma ob_len_obuf_of [simp]: "ob_len (obuf_of p) = 0"
  by (simp add: obuf_of_def)

lemma ob_p_append_obuf_of:
  "length bs \<le> length p \<Longrightarrow> ob_p (ob_append (obuf_of p) bs) = bs @ drop (length bs) p"
  by (simp add: ob_append_def obuf_of_def write_at_eq)

lemma ob_bytes_append:
  "ob_len ob + length bs \<le> ob_cap ob \<Longrightarrow> ob_bytes (ob_append ob bs) = ob_bytes ob @ bs"
  by (simp add: ob_bytes_def ob_append_def ob_cap_def write_at_eq)

section \<open>Sequencing writers\<close>

text \<open>
  The encoders are chains \<^verbatim>\<open>if (!put_a(o, ..)) return 0; return put_b(o, ..);\<close>. A writer
  maps the buffer to its \<open>int\<close> result and the buffer it left; \<open>put_seq\<close> is the chain.
\<close>

type_synonym writer = "wired_obuf \<Rightarrow> bool \<times> wired_obuf"

fun put_seq :: "writer list \<Rightarrow> writer" where
  "put_seq [] ob = (True, ob)"
| "put_seq (w # ws) ob = (case w ob of (ok, ob') \<Rightarrow> if ok then put_seq ws ob' else (False, ob'))"

text \<open>
  \<open>emits w bs\<close>: the writer appends exactly \<open>bs\<close> when they fit and reports failure when they
  do not. \<open>keeps w\<close>: whatever happens it stays inside the buffer.
\<close>

definition keeps :: "writer \<Rightarrow> bool" where
  "keeps w \<longleftrightarrow> (\<forall>ob. ob_ok ob \<longrightarrow> ob_ok (snd (w ob)) \<and> ob_cap (snd (w ob)) = ob_cap ob)"

definition emits :: "writer \<Rightarrow> bytes \<Rightarrow> bool" where
  "emits w bs \<longleftrightarrow> (\<forall>ob. ob_ok ob \<longrightarrow>
     (if ob_len ob + length bs \<le> ob_cap ob then w ob = (True, ob_append ob bs) else \<not> fst (w ob)))"

lemma keepsD: "keeps w \<Longrightarrow> ob_ok ob \<Longrightarrow> ob_ok (snd (w ob))"
  by (simp add: keeps_def)

lemma keeps_cap: "keeps w \<Longrightarrow> ob_ok ob \<Longrightarrow> ob_cap (snd (w ob)) = ob_cap ob"
  by (simp add: keeps_def)

lemma keeps_put_seq: "\<forall>w \<in> set ws. keeps w \<Longrightarrow> keeps (put_seq ws)"
proof (induction ws)
  case Nil
  then show ?case by (simp add: keeps_def)
next
  case (Cons w ws)
  then have w: "keeps w" and ws: "keeps (put_seq ws)" by auto
  then show ?case
    unfolding keeps_def by (auto split: prod.split simp: keeps_def)
qed

lemma emits_fits:
  "emits w bs \<Longrightarrow> ob_ok ob \<Longrightarrow> ob_len ob + length bs \<le> ob_cap ob \<Longrightarrow> w ob = (True, ob_append ob bs)"
  by (simp add: emits_def)

lemma emits_overflow:
  "emits w bs \<Longrightarrow> ob_ok ob \<Longrightarrow> ob_cap ob < ob_len ob + length bs \<Longrightarrow> \<not> fst (w ob)"
  by (simp add: emits_def)

lemma emits_Nil_seq [emits_intros]: "emits (put_seq []) []"
  by (simp add: emits_def ob_ok_def)

lemma emits_Cons_seq [emits_intros]:
  assumes w: "emits w bs" and ws: "emits (put_seq ws) cs"
  shows "emits (put_seq (w # ws)) (bs @ cs)"
  unfolding emits_def
proof (intro allI impI)
  fix ob assume ok: "ob_ok ob"
  show "if ob_len ob + length (bs @ cs) \<le> ob_cap ob
        then put_seq (w # ws) ob = (True, ob_append ob (bs @ cs))
        else \<not> fst (put_seq (w # ws) ob)"
  proof (cases "ob_len ob + length bs \<le> ob_cap ob")
    case True
    then have "w ob = (True, ob_append ob bs)" and ok': "ob_ok (ob_append ob bs)"
      using w ok by (auto intro: emits_fits ob_ok_append)
    then show ?thesis
      using ws ok' by (auto simp: ob_append_append emits_def)
  next
    case False
    then have "\<not> fst (w ob)" using w ok by (simp add: emits_def)
    with False show ?thesis by (auto split: prod.split)
  qed
qed

lemma emits_single_seq [emits_intros]: "emits w bs \<Longrightarrow> emits (put_seq [w]) bs"
  using emits_Cons_seq [OF _ emits_Nil_seq, of w bs] by simp

text \<open>A chain of writers emits the concatenation of what each emits.\<close>

lemma emits_put_seq: "list_all2 emits ws bss \<Longrightarrow> emits (put_seq ws) (concat bss)"
proof (induction rule: list_all2_induct)
  case Nil
  show ?case unfolding concat.simps by (rule emits_Nil_seq)
next
  case (Cons w ws bs bss)
  then show ?case unfolding concat.simps by (intro emits_Cons_seq)
qed

section \<open>Running an encoder\<close>

text \<open>
  The public encoders \<^verbatim>\<open>usz x_encode(u8* buf, usz cap, const x* f)\<close> run a writer on a fresh
  buffer and return the bytes written, or 0.
\<close>

definition run_put :: "writer \<Rightarrow> bytes \<Rightarrow> nat \<times> bytes" where
  "run_put w buf = (case w (obuf_of buf) of (ok, ob) \<Rightarrow> (if ok then ob_len ob else 0, ob_p ob))"

lemma run_put_fits:
  "emits w bs \<Longrightarrow> length bs \<le> length buf \<Longrightarrow>
   run_put w buf = (length bs, bs @ drop (length bs) buf)"
  using emits_fits [of w bs "obuf_of buf"]
  by (simp add: run_put_def ob_p_append_obuf_of)

lemma run_put_overflow: "emits w bs \<Longrightarrow> length buf < length bs \<Longrightarrow> fst (run_put w buf) = 0"
  using emits_overflow [of w bs "obuf_of buf"]
  by (cases "w (obuf_of buf)") (simp add: run_put_def)

lemma run_put_nonzero:
  assumes "emits w bs" and "fst (run_put w buf) \<noteq> 0"
  shows "run_put w buf = (length bs, bs @ drop (length bs) buf)" and "length bs \<le> length buf"
proof -
  show le: "length bs \<le> length buf"
    using assms run_put_overflow by (meson not_le)
  show "run_put w buf = (length bs, bs @ drop (length bs) buf)"
    using assms(1) le by (rule run_put_fits)
qed

section \<open>Words\<close>

lemma unat_lt_u64 [simp]: "unat (x :: u64) < 18446744073709551616"
  using unsigned_less [of x] by simp

lemma power_2_64: "(2 :: nat) ^ 64 = 18446744073709551616"
  by simp

lemma unat_minus_1_u64: "unat (- 1 :: u64) = 18446744073709551615"
  by (simp add: unsigned_minus_1_eq_mask mask_eq_exp_minus_1)

lemma unat_lt_u8 [simp]: "unat (x :: u8) < 256"
  using unsigned_less [of x] by simp

lemma unat_ucast_u8_u64 [simp]: "unat (ucast (b :: u8) :: u64) = unat b"
proof -
  have "unat b < 2 ^ 64" using unat_lt_u8 [of b] by (rule order_less_trans) simp
  then show ?thesis by (simp add: unsigned_ucast_eq take_bit_eq_mod)
qed

lemma u64_less_mono: "a < (b :: u64) \<longleftrightarrow> unat a < unat b"
  by (rule word_less_nat_alt)

lemma u64_le_mono: "a \<le> (b :: u64) \<longleftrightarrow> unat a \<le> unat b"
  by (rule word_le_nat_alt)

lemma unat_add_u64:
  "unat a + unat b < 2 ^ 64 \<Longrightarrow> unat (a + b :: u64) = unat a + unat b"
  by (simp add: unat_word_ariths)

lemma unat_sub_u64: "b \<le> (a :: u64) \<Longrightarrow> unat (a - b) = unat a - unat b"
  by (rule unat_sub)

lemma and_0xFF: "(v :: 'a :: len word) AND 0xFF = take_bit 8 v"
  by (simp add: take_bit_eq_mask mask_eq_exp_minus_1)

lemma and_0x3F: "(v :: 'a :: len word) AND 0x3F = take_bit 6 v"
  by (simp add: take_bit_eq_mask mask_eq_exp_minus_1)

lemma bit_less_exp:
  assumes "unat (w :: 'a :: len word) < 2 ^ k" and "k \<le> n"
  shows "\<not> bit w n"
proof -
  have "unat w < 2 ^ n" using assms by (meson less_le_trans one_le_numeral power_increasing)
  then have "\<not> bit (unat w) n" by (simp add: bit_iff_odd)
  then show ?thesis by (simp add: bit_unsigned_iff)
qed

lemma unat_less_expI:
  assumes "\<And>n. k \<le> n \<Longrightarrow> \<not> bit (w :: 'a :: len word) n"
  shows "unat w < 2 ^ k"
proof -
  have "take_bit k w = w"
    by (rule bit_word_eqI) (metis assms bit_take_bit_iff not_le)
  then show ?thesis by (metis take_bit_nat_less_exp unsigned_take_bit_eq)
qed

lemma unat_of_nat_u64: "n < 2 ^ 64 \<Longrightarrow> unat (of_nat n :: u64) = n"
  by (simp add: unsigned_of_nat take_bit_eq_mod)

lemma unat_Suc_u64: "unat (x :: u64) < 18446744073709551615 \<Longrightarrow> unat (x + 1) = Suc (unat x)"
  by (subst unat_add_u64) simp_all

section \<open>Searching a table\<close>

text \<open>The loop \<^verbatim>\<open>while (i < cap && P(i)) i++\<close> over the slots of a fixed table.\<close>

function scan :: "(nat \<Rightarrow> bool) \<Rightarrow> nat \<Rightarrow> nat \<Rightarrow> nat" where
  "scan P cap i = (if i < cap \<and> P i then scan P cap (Suc i) else i)"
  by pat_completeness auto
termination
  by (relation "measure (\<lambda>(_, cap, i). cap - i)") auto

declare scan.simps [simp del]

lemma scan_spec:
  "i \<le> cap \<Longrightarrow> i \<le> scan P cap i \<and> scan P cap i \<le> cap \<and> (\<forall>j. i \<le> j \<and> j < scan P cap i \<longrightarrow> P j)
   \<and> (scan P cap i < cap \<longrightarrow> \<not> P (scan P cap i))"
proof (induction P cap i rule: scan.induct)
  case (1 P cap i)
  show ?case
  proof (cases "i < cap \<and> P i")
    case True
    then have IH: "Suc i \<le> scan P cap (Suc i)" "scan P cap (Suc i) \<le> cap"
      "\<forall>j. Suc i \<le> j \<and> j < scan P cap (Suc i) \<longrightarrow> P j" "scan P cap (Suc i) < cap \<longrightarrow> \<not> P (scan P cap (Suc i))"
      using 1 by auto
    have e: "scan P cap i = scan P cap (Suc i)" using True by (simp add: scan.simps [of P cap i])
    have "P j" if "i \<le> j" "j < scan P cap (Suc i)" for j
      using IH(3) that True by (cases "j = i") auto
    then show ?thesis using IH unfolding e by simp
  next
    case False
    then have "scan P cap i = i" by (subst scan.simps) auto
    then show ?thesis using False 1(2) by auto
  qed
qed

lemma scan0:
  "scan P cap 0 \<le> cap" "j < scan P cap 0 \<Longrightarrow> P j" "scan P cap 0 < cap \<Longrightarrow> \<not> P (scan P cap 0)"
  using scan_spec [of 0 cap P] by auto

lemma scan0_full: "scan P cap 0 = cap \<longleftrightarrow> (\<forall>j < cap. P j)"
  using scan_spec [of 0 cap P] by (metis le0 le_neq_implies_less)

lemma scan0_found: "scan P cap 0 \<noteq> cap \<Longrightarrow> scan P cap 0 < cap \<and> \<not> P (scan P cap 0)"
  using scan_spec [of 0 cap P] by auto

lemma scan0_unique:
  assumes "\<not> P i" "i < cap" "\<And>j. j < cap \<Longrightarrow> \<not> P j \<Longrightarrow> j = i"
  shows "scan P cap 0 = i"
  using assms scan_spec [of 0 cap P] by (metis le0 le_neq_implies_less)

text \<open>A pass over all slots that rewrites the selected ones and collects a value from each.\<close>

lemma fold_slots:
  "fold (\<lambda>i (t, out). if P (t ! i) then (t[i := g (t ! i)], out @ [h (t ! i)]) else (t, out)) [0..<length t] (t, out)
   = (map (\<lambda>e. if P e then g e else e) t, out @ map h (filter P t))"
proof -
  let ?b = "\<lambda>i (t, out). if P (t ! i) then (t[i := g (t ! i)], out @ [h (t ! i)]) else (t, out)"
  let ?m = "map (\<lambda>e. if P e then g e else e)"
  have "k \<le> length t \<Longrightarrow> fold ?b [0..<k] (t, out) = (?m (take k t) @ drop k t, out @ map h (filter P (take k t)))" for k
  proof (induction k)
    case (Suc k)
    have d: "drop k t = t ! k # drop (Suc k) t" using Suc.prems by (simp add: Cons_nth_drop_Suc)
    have t: "take (Suc k) t = take k t @ [t ! k]" using Suc.prems by (simp add: take_Suc_conv_app_nth)
    have n: "(?m (take k t) @ drop k t) ! k = t ! k" using Suc.prems by (simp add: nth_append)
    have u: "(?m (take k t) @ drop k t)[k := y] = ?m (take k t) @ y # drop (Suc k) t" for y
      using Suc.prems by (simp add: list_update_append d)
    show ?case using Suc n u by (simp add: t d)
  qed simp
  from this [of "length t"] show ?thesis by simp
qed

lemma sum_list_map_update:
  fixes f :: "'e \<Rightarrow> 'a :: ab_group_add"
  shows "i < length xs \<Longrightarrow> sum_list (map f (xs[i := y])) = sum_list (map f xs) - f (xs ! i) + f y"
  by (induction xs arbitrary: i) (auto simp: algebra_simps split: nat.split)

end
