(* ===== verification/Bytes_Varint.thy ===== *)
theory Bytes_Varint
  imports Wired_Prelude
begin

unbundle bit_operations_syntax

text \<open>
  \<^verbatim>\<open>src/common/bytes\<close>: the RFC 9000 section 16 variable-length integer of
  \<^verbatim>\<open>varint/varint.c\<close>, the cursor copies of \<^verbatim>\<open>util/bytes.h\<close>, the big-endian loads and stores
  of \<^verbatim>\<open>util/be.h\<close>, the scalar helpers of \<^verbatim>\<open>util/num.h\<close> and the constant-time comparisons of
  \<^verbatim>\<open>util/ct.h\<close>. The lemmas show that a varint is written in its shortest form and read
  back, that every failing call leaves the buffer alone, and that the constant-time
  comparisons decide equality.
\<close>

section \<open>util/num.h\<close>

definition u64_min :: "u64 \<Rightarrow> u64 \<Rightarrow> u64" where
  "u64_min a b = (if a < b then a else b)"

definition u64_max :: "u64 \<Rightarrow> u64 \<Rightarrow> u64" where
  "u64_max a b = (if a > b then a else b)"

definition u64_absdiff :: "u64 \<Rightarrow> u64 \<Rightarrow> u64" where
  "u64_absdiff a b = (if a > b then a - b else b - a)"

definition u64_add_ok :: "u64 \<Rightarrow> u64 \<Rightarrow> u64 option" where
  "u64_add_ok a b = (if b > - 1 - a then None else Some (a + b))"

fun u32_in :: "u32 \<Rightarrow> u32 list \<Rightarrow> bool" where
  "u32_in v [] = False"
| "u32_in v (x # xs) = (if x = v then True else u32_in v xs)"

lemma u64_min_eq: "u64_min a b = min a b"
  by (auto simp: u64_min_def min_def)

lemma u64_max_eq: "u64_max a b = max a b"
  by (auto simp: u64_max_def max_def)

lemma u32_in_set: "u32_in v xs \<longleftrightarrow> v \<in> set xs"
  by (induction xs) auto

lemma u64_add_ok_exact:
  "u64_add_ok a b = (if unat a + unat b < 2 ^ 64 then Some (a + b) else None)"
proof -
  have "unat (- 1 - a) = 18446744073709551615 - unat a"
    by (subst unat_sub_u64) (simp_all add: unat_minus_1_u64)
  moreover have "unat a \<le> 18446744073709551615" using unat_lt_u64 [of a] by linarith
  ultimately show ?thesis
    by (auto simp: u64_add_ok_def u64_less_mono)
qed

lemma u64_absdiff_unat:
  "unat (u64_absdiff a b) = (if unat b \<le> unat a then unat a - unat b else unat b - unat a)"
  by (auto simp: u64_absdiff_def u64_less_mono unat_sub_u64 u64_le_mono)

section \<open>util/ct.h\<close>

text \<open>\<open>d |= a[i] ^ b[i]\<close> over the whole range, without an early exit.\<close>

fun ct_diff_acc :: "u8 \<Rightarrow> bytes \<Rightarrow> bytes \<Rightarrow> u8" where
  "ct_diff_acc d (a # as) (b # bs) = ct_diff_acc (d OR (a XOR b)) as bs"
| "ct_diff_acc d _ _ = d"

definition ct_diffn :: "bytes \<Rightarrow> bytes \<Rightarrow> nat \<Rightarrow> u8" where
  "ct_diffn a b n = ct_diff_acc 0 (take n a) (take n b)"

definition ct_diff8 :: "bytes \<Rightarrow> bytes \<Rightarrow> u8" where
  "ct_diff8 a b = ct_diff_acc 0 (take 8 a) (take 8 b)"

definition ct_diff16 :: "bytes \<Rightarrow> bytes \<Rightarrow> u8" where
  "ct_diff16 a b = ct_diff_acc 0 (take 16 a) (take 16 b)"

definition ct_diff32 :: "bytes \<Rightarrow> bytes \<Rightarrow> u8" where
  "ct_diff32 a b = ct_diff_acc 0 (take 32 a) (take 32 b)"

lemma word_or_eq_0: "(a OR b = (0 :: 'a :: len word)) \<longleftrightarrow> a = 0 \<and> b = 0"
  by (metis or.left_neutral or.right_neutral or_eq_0_iff)

lemma word_xor_eq_0: "(a XOR b = (0 :: 'a :: len word)) \<longleftrightarrow> a = b"
  by (metis xor.left_neutral xor.assoc xor_self_eq)

lemma ct_diff_acc_0:
  "length as = length bs \<Longrightarrow> ct_diff_acc d as bs = 0 \<longleftrightarrow> d = 0 \<and> as = bs"
  by (induction d as bs rule: ct_diff_acc.induct) (auto simp: word_or_eq_0 word_xor_eq_0)

lemma ct_diffn_0:
  "n \<le> length a \<Longrightarrow> n \<le> length b \<Longrightarrow> ct_diffn a b n = 0 \<longleftrightarrow> take n a = take n b"
  by (simp add: ct_diffn_def ct_diff_acc_0)

lemma ct_diff8_0: "length a = 8 \<Longrightarrow> length b = 8 \<Longrightarrow> ct_diff8 a b = 0 \<longleftrightarrow> a = b"
  by (simp add: ct_diff8_def ct_diff_acc_0)

lemma ct_diff16_0: "length a = 16 \<Longrightarrow> length b = 16 \<Longrightarrow> ct_diff16 a b = 0 \<longleftrightarrow> a = b"
  by (simp add: ct_diff16_def ct_diff_acc_0)

lemma ct_diff32_0: "length a = 32 \<Longrightarrow> length b = 32 \<Longrightarrow> ct_diff32 a b = 0 \<longleftrightarrow> a = b"
  by (simp add: ct_diff32_def ct_diff_acc_0)

section \<open>varint/varint.c\<close>

definition VARINT_MAX :: u64 where
  "VARINT_MAX = 0x3FFFFFFFFFFFFFFF"

text \<open>The index loop of \<open>varint_len\<close>: how many of the thresholds the value exceeds.\<close>

fun varint_class :: "u64 list \<Rightarrow> u64 \<Rightarrow> nat" where
  "varint_class [] v = 0"
| "varint_class (m # ms) v = (if v > m then Suc (varint_class ms v) else 0)"

definition varint_len :: "u64 \<Rightarrow> nat" where
  "varint_len v = [1, 2, 4, 8, 0] ! varint_class [0x3F, 0x3FFF, 0x3FFFFFFF, VARINT_MAX] v"

text \<open>
  \<open>put_be\<close> stores from the last byte down, at \<open>buf + off\<close>, and then ORs the prefix in.
\<close>

fun put_be_loop :: "bytes \<Rightarrow> nat \<Rightarrow> nat \<Rightarrow> u64 \<Rightarrow> bytes" where
  "put_be_loop buf off 0 v = buf"
| "put_be_loop buf off (Suc i) v =
     put_be_loop (buf[off + i := ucast (v AND 0xFF)]) off i (drop_bit 8 v)"

definition put_be :: "bytes \<Rightarrow> nat \<Rightarrow> u64 \<Rightarrow> nat \<Rightarrow> u8 \<Rightarrow> bytes" where
  "put_be buf off v n prefix =
     (let buf' = put_be_loop buf off n v in buf'[off := buf' ! off OR prefix])"

definition varint_encode :: "bytes \<Rightarrow> nat \<Rightarrow> u64 \<Rightarrow> bytes \<times> nat" where
  "varint_encode buf off v =
     (let n = varint_len v; prefix = [0, 0x00, 0x40, 0, 0x80, 0, 0, 0, 0xC0] ! n
      in if n = 0 then (buf, 0) else (put_be buf off v n prefix, n))"

fun be_fold :: "u64 \<Rightarrow> bytes \<Rightarrow> u64" where
  "be_fold v [] = v"
| "be_fold v (b # bs) = be_fold (push_bit 8 v OR ucast b) bs"

definition get_be :: "bytes \<Rightarrow> nat \<Rightarrow> u64" where
  "get_be buf n = be_fold (ucast (buf ! 0 AND 0x3F)) (take (n - 1) (drop 1 buf))"

definition varint_decode :: "bytes \<Rightarrow> (u64 \<times> nat) option" where
  "varint_decode buf =
     (if buf = [] then None
      else let need = [1, 2, 4, 8] ! unat (drop_bit 6 (buf ! 0))
           in if length buf < need then None else Some (get_be buf need, need))"

definition varint_take :: "bytes \<Rightarrow> nat \<Rightarrow> (u64 \<times> nat) option" where
  "varint_take buf off =
     (if off \<ge> length buf then None
      else case varint_decode (drop off buf) of None \<Rightarrow> None
           | Some (v, used) \<Rightarrow> Some (v, off + used))"

definition varint_put :: "u64 \<Rightarrow> writer" where
  "varint_put v ob =
     (let need = varint_len v
      in if need = 0 \<or> ob_len ob + need > ob_cap ob then (False, ob)
         else case varint_encode (ob_p ob) (ob_len ob) v of
                (p', n) \<Rightarrow> (True, ob\<lparr>ob_p := p', ob_len := ob_len ob + n\<rparr>))"

subsection \<open>The wire form\<close>

fun be_bytes :: "nat \<Rightarrow> u64 \<Rightarrow> bytes" where
  "be_bytes 0 v = []"
| "be_bytes (Suc n) v = be_bytes n (drop_bit 8 v) @ [ucast v]"

definition varint_wire :: "u64 \<Rightarrow> bytes" where
  "varint_wire v =
     (let n = varint_len v; bs = be_bytes n v
      in (hd bs OR [0, 0x00, 0x40, 0, 0x80, 0, 0, 0, 0xC0] ! n) # tl bs)"

lemma length_be_bytes [simp]: "length (be_bytes n v) = n"
  by (induction n arbitrary: v) auto

lemma put_be_loop_eq:
  "off + n \<le> length buf \<Longrightarrow> put_be_loop buf off n v = write_at buf off (be_bytes n v)"
proof (induction n arbitrary: buf v)
  case (Suc n)
  have byte: "(ucast (v AND 0xFF) :: u8) = ucast v"
    by (rule bit_word_eqI) (simp add: bit_simps and_0xFF)
  have "put_be_loop buf off (Suc n) v
        = write_at (buf[off + n := ucast v]) off (be_bytes n (drop_bit 8 v))"
    using Suc by (simp add: byte)
  also have "\<dots> = write_at buf off (be_bytes (Suc n) v)"
    using Suc.prems
    by (intro nth_equalityI) (auto simp: nth_write_at nth_append nth_list_update)
  finally show ?case .
qed simp

lemma varint_len_cases:
  "varint_len v =
     (if v \<le> 0x3F then 1 else if v \<le> 0x3FFF then 2 else if v \<le> 0x3FFFFFFF then 4
      else if v \<le> VARINT_MAX then 8 else 0)"
  by (auto simp: varint_len_def not_less VARINT_MAX_def)

lemma varint_len_pos: "v \<le> VARINT_MAX \<Longrightarrow> 0 < varint_len v \<and> varint_len v \<in> {1, 2, 4, 8}"
  by (simp add: varint_len_cases)

lemma varint_len_0 [simp]: "varint_len v = 0 \<longleftrightarrow> \<not> v \<le> VARINT_MAX"
  by (auto simp: varint_len_cases VARINT_MAX_def u64_le_mono)

lemma length_varint_wire [simp]: "v \<le> VARINT_MAX \<Longrightarrow> length (varint_wire v) = varint_len v"
  using varint_len_pos [of v] by (simp add: varint_wire_def Let_def)

lemma put_be_eq:
  assumes "off + n \<le> length buf" and "0 < n"
  shows "put_be buf off v n prefix =
         write_at buf off ((hd (be_bytes n v) OR prefix) # tl (be_bytes n v))"
proof -
  obtain b bs where bs: "be_bytes n v = b # bs"
    using assms(2) length_be_bytes [of n v] by (metis length_0_conv list.exhaust not_less_zero)
  then have n: "n = Suc (length bs)" using length_be_bytes [of n v] by simp
  have "(write_at buf off (b # bs))[off := b OR prefix] = write_at buf off ((b OR prefix) # bs)"
    using assms n by (intro nth_equalityI) (auto simp: nth_write_at nth_list_update nth_Cons')
  moreover have "write_at buf off (b # bs) ! off = b"
    using assms n by (subst nth_write_at) auto
  ultimately show ?thesis
    using assms by (simp add: put_be_def put_be_loop_eq bs Let_def)
qed

lemma emits_varint_put [emits_intros]: "v \<le> VARINT_MAX \<Longrightarrow> emits (varint_put v) (varint_wire v)"
  unfolding emits_def
proof (intro allI impI)
  fix ob assume v: "v \<le> VARINT_MAX" and ok: "ob_ok ob"
  have n: "varint_len v \<noteq> 0" using v by simp
  show "if ob_len ob + length (varint_wire v) \<le> ob_cap ob
        then varint_put v ob = (True, ob_append ob (varint_wire v)) else \<not> fst (varint_put v ob)"
  proof (cases "ob_len ob + varint_len v \<le> ob_cap ob")
    case True
    then have "put_be (ob_p ob) (ob_len ob) v (varint_len v)
                 ([0, 0x00, 0x40, 0, 0x80, 0, 0, 0, 0xC0] ! varint_len v)
               = write_at (ob_p ob) (ob_len ob) (varint_wire v)"
      using n by (simp only: put_be_eq ob_cap_def varint_wire_def Let_def)
    with True n v show ?thesis
      by (simp add: varint_put_def varint_encode_def Let_def ob_append_def)
  next
    case False
    with v show ?thesis by (simp add: varint_put_def)
  qed
qed

lemma varint_put_too_big: "\<not> v \<le> VARINT_MAX \<Longrightarrow> varint_put v ob = (False, ob)"
  by (simp add: varint_put_def)

lemma keeps_varint_put [simp]: "keeps (varint_put v)"
proof (cases "v \<le> VARINT_MAX")
  case True
  show ?thesis unfolding keeps_def
  proof (intro allI impI)
    fix ob assume ok: "ob_ok ob"
    show "ob_ok (snd (varint_put v ob)) \<and> ob_cap (snd (varint_put v ob)) = ob_cap ob"
    proof (cases "ob_len ob + varint_len v \<le> ob_cap ob")
      case fit: True
      with True ok have "varint_put v ob = (True, ob_append ob (varint_wire v))"
        by (intro emits_fits emits_varint_put) auto
      with fit True show ?thesis by (simp add: ob_ok_append)
    next
      case False
      with ok show ?thesis by (simp add: varint_put_def)
    qed
  qed
qed (simp add: keeps_def varint_put_too_big)

subsection \<open>Reading the wire form back\<close>

lemma be_fold_be_bytes: "n \<le> 8 \<Longrightarrow> be_fold a (be_bytes n v) = push_bit (8 * n) a OR take_bit (8 * n) v"
proof (induction n arbitrary: v)
  case (Suc n)
  have app: "be_fold a (xs @ ys) = be_fold (be_fold a xs) ys" for a xs ys
    by (induction a xs rule: be_fold.induct) auto
  have "be_fold a (be_bytes (Suc n) v)
        = push_bit 8 (push_bit (8 * n) a OR take_bit (8 * n) (drop_bit 8 v)) OR ucast (ucast v :: u8)"
    using Suc by (simp add: app)
  also have "\<dots> = push_bit (8 * Suc n) a OR take_bit (8 * Suc n) v"
    by (rule bit_word_eqI) (auto simp: bit_simps not_le not_less)
  finally show ?case .
qed simp

lemma be_bytes_Cons: "be_bytes (Suc n) v = ucast (drop_bit (8 * n) v) # be_bytes n v"
proof (induction n arbitrary: v)
  case (Suc n)
  have "be_bytes (Suc (Suc n)) v = be_bytes (Suc n) (drop_bit 8 v) @ [ucast v]" by simp
  also have "\<dots> = ucast (drop_bit (8 * n) (drop_bit 8 v)) # be_bytes n (drop_bit 8 v) @ [ucast v]"
    by (simp only: Suc append_Cons)
  finally show ?case by (simp add: add.commute)
qed simp

lemma first_byte:
  assumes "unat (b :: u8) < 64"
  shows "drop_bit 6 (b OR push_bit 6 c) = take_bit 2 c" and "(b OR push_bit 6 c) AND 0x3F = b"
proof -
  have b: "\<not> bit b n" if "6 \<le> n" for n
    using assms that by (intro bit_less_exp [where k = 6]) simp_all
  show "drop_bit 6 (b OR push_bit 6 c) = take_bit 2 c"
    by (rule bit_word_eqI) (auto simp: bit_simps b)
  show "(b OR push_bit 6 c) AND 0x3F = b"
    by (rule bit_word_eqI) (use b not_le in \<open>auto simp: bit_simps and_0x3F\<close>)
qed

lemma be_reassemble:
  assumes "n < 8" and "unat v < 2 ^ (8 * n + 6)"
  shows "be_fold (ucast (ucast (drop_bit (8 * n) v) :: u8)) (be_bytes n v) = v"
proof -
  have b: "k < 8 * n + 6" if "bit v k" for k
    using assms(2) that bit_less_exp not_le by blast
  show ?thesis
    using assms(1)
    by (subst be_fold_be_bytes, simp, intro bit_word_eqI) (auto simp: bit_simps not_le not_less dest: b)
qed

text \<open>The length class of the first byte, with the value's top six bits below it.\<close>

lemma varint_decode_class:
  assumes n: "n < 8" and v: "unat v < 2 ^ (8 * n + 6)"
    and c: "[1, 2, 4, 8] ! unat (take_bit 2 c) = Suc n"
  shows "varint_decode (((ucast (drop_bit (8 * n) v) OR push_bit 6 c) # be_bytes n v) @ rest)
         = Some (v, Suc n)"
proof -
  define b :: u8 where "b = ucast (drop_bit (8 * n) v)"
  have "unat (drop_bit (8 * n) v) < 64"
    using v by (subst unsigned_drop_bit_eq)
      (simp add: drop_bit_eq_div take_bit_eq_mod less_mult_imp_div_less power_add mult.commute)
  then have "unat b < 64"
    by (simp add: b_def unsigned_ucast_eq take_bit_eq_mod)
  note fb = first_byte [OF this, of c]
  define h where "h = b OR push_bit 6 c"
  show ?thesis
    using be_reassemble [OF n v] c
    unfolding b_def [symmetric] h_def [symmetric]
    by (simp add: varint_decode_def get_be_def fb [folded h_def] Let_def)
qed

lemma be_bytes_split:
  "be_bytes 1 v = ucast (drop_bit (8 * 0) v) # be_bytes 0 v"
  "be_bytes 2 v = ucast (drop_bit (8 * 1) v) # be_bytes 1 v"
  "be_bytes 4 v = ucast (drop_bit (8 * 3) v) # be_bytes 3 v"
  "be_bytes 8 v = ucast (drop_bit (8 * 7) v) # be_bytes 7 v"
  using be_bytes_Cons [of 0 v] be_bytes_Cons [of 1 v] be_bytes_Cons [of 3 v] be_bytes_Cons [of 7 v]
  unfolding One_nat_def numeral_2_eq_2 [symmetric]
  by (simp_all only: Suc_numeral) simp_all

lemma varint_decode_wire [takes_simps]:
  assumes "v \<le> VARINT_MAX"
  shows "varint_decode (varint_wire v @ rest) = Some (v, varint_len v)"
proof -
  have v: "unat v \<le> 4611686018427387903"
    using assms by (simp add: u64_le_mono VARINT_MAX_def)
  consider "unat v \<le> 63" | "63 < unat v" "unat v \<le> 16383" | "16383 < unat v" "unat v \<le> 1073741823"
    | "1073741823 < unat v" by linarith
  then show ?thesis
  proof cases
    case 1
    then have "varint_len v = 1" by (simp add: varint_len_cases u64_le_mono)
    with 1 show ?thesis
      using varint_decode_class [of 0 v 0 rest]
      unfolding varint_wire_def Let_def by (simp only: be_bytes_split list.sel nth_Cons_numeral) simp
  next
    case 2
    then have "varint_len v = 2" by (simp add: varint_len_cases u64_le_mono)
    with 2 show ?thesis
      using varint_decode_class [of 1 v 1 rest]
      unfolding varint_wire_def Let_def by (simp only: be_bytes_split list.sel) simp
  next
    case 3
    then have "varint_len v = 4" by (simp add: varint_len_cases u64_le_mono)
    with 3 show ?thesis
      using varint_decode_class [of 3 v 2 rest]
      unfolding varint_wire_def Let_def by (simp only: be_bytes_split list.sel) simp
  next
    case 4
    then have "varint_len v = 8"
      using v by (simp add: varint_len_cases u64_le_mono VARINT_MAX_def)
    with 4 v show ?thesis
      using varint_decode_class [of 7 v 3 rest]
      unfolding varint_wire_def Let_def by (simp only: be_bytes_split list.sel) simp
  qed
qed

lemma varint_take_alt:
  "varint_take buf off =
     (case varint_decode (drop off buf) of None \<Rightarrow> None | Some (v, used) \<Rightarrow> Some (v, off + used))"
  by (simp add: varint_take_def varint_decode_def)

lemma varint_take_wire [takes_simps]:
  assumes "v \<le> VARINT_MAX" and "drop off buf = varint_wire v @ rest"
  shows "varint_take buf off = Some (v, off + varint_len v)"
  using varint_decode_wire [OF assms(1), of rest] assms(2) by (simp add: varint_take_alt)

lemma varint_wire_small: "v \<le> 0x3F \<Longrightarrow> varint_wire v = [ucast v]"
  by (simp add: varint_wire_def varint_len_cases Let_def)

lemma emits_varint_small [emits_intros]: "v \<le> 0x3F \<Longrightarrow> emits (varint_put v) [ucast v]"
  using emits_varint_put [of v] varint_wire_small [of v]
  by (simp add: VARINT_MAX_def u64_le_mono)

lemma emits_varint_byte:
  assumes "v = ucast (b :: u8)" and "b \<le> 0x3F"
  shows "emits (varint_put v) [b]"
proof -
  have "v \<le> 0x3F" using assms by (simp add: u64_le_mono word_le_nat_alt)
  moreover have "(ucast v :: u8) = b"
    unfolding assms(1) by (rule bit_word_eqI) (simp add: bit_simps)
  ultimately show ?thesis using emits_varint_small [of v] by simp
qed

lemma varint_len_le8: "varint_len v \<le> 8"
  by (simp add: varint_len_cases)

subsection \<open>Every decode stays in the input and in the varint range\<close>

lemma u8_class_less: "unat (drop_bit 6 (b :: u8)) < 4"
  by (subst unsigned_drop_bit_eq)
    (simp add: drop_bit_eq_div take_bit_eq_mod less_mult_imp_div_less)

lemma varint_need_cases:
  "[1, 2, 4, 8] ! unat (drop_bit 6 (b :: u8)) \<in> {1, 2, 4, 8 :: nat}"
proof -
  have "unat (drop_bit 6 b) \<in> {0, 1, 2, 3}"
    using u8_class_less [of b] by auto
  then show ?thesis by (auto simp del: unsigned_drop_bit_eq)
qed

lemma be_fold_bound:
  "unat v < 2 ^ k \<Longrightarrow> k + 8 * length bs \<le> 64 \<Longrightarrow> unat (be_fold v bs) < 2 ^ (k + 8 * length bs)"
proof (induction v bs arbitrary: k rule: be_fold.induct)
  case (2 v b bs)
  have nb: "\<not> bit (push_bit 8 v OR ucast b) n" if "8 + k \<le> n" for n
    using bit_less_exp [OF 2(2), of "n - 8"] bit_less_exp [of b 8 n] that
    by (auto simp: bit_simps)
  then have "unat (push_bit 8 v OR ucast b) < 2 ^ (8 + k)"
    by (rule unat_less_expI)
  from 2(1) [OF this] 2(3) show ?case by (simp add: algebra_simps)
qed simp

lemma varint_decode_range:
  assumes "varint_decode buf = Some (v, n)"
  shows "n \<in> {1, 2, 4, 8}" and "n \<le> length buf" and "unat v < 2 ^ (8 * n - 2)"
proof -
  let ?need = "[1, 2, 4, 8] ! unat (drop_bit 6 (buf ! 0)) :: nat"
  have n: "n = ?need" "n \<le> length buf" "v = get_be buf n"
    using assms by (auto simp: varint_decode_def Let_def split: if_splits)
  show c: "n \<in> {1, 2, 4, 8}" unfolding n(1) by (rule varint_need_cases)
  show "n \<le> length buf" by (fact n(2))
  have "unat (ucast (buf ! 0 AND 0x3F) :: u64) < 2 ^ 6"
    by (simp only: unat_ucast_u8_u64 and_0x3F unsigned_take_bit_eq take_bit_nat_less_exp)
  moreover have "length (take (n - 1) (drop 1 buf)) = n - 1" using n(2) c by auto
  moreover have "6 + 8 * (n - 1) \<le> 64" "6 + 8 * (n - 1) = 8 * n - 2" using c by auto
  ultimately show "unat v < 2 ^ (8 * n - 2)"
    unfolding n(3) get_be_def by (metis be_fold_bound)
qed

lemma varint_decode_bounds:
  assumes "varint_decode buf = Some (v, n)"
  shows "0 < n" and "n \<le> length buf" and "v \<le> VARINT_MAX"
proof -
  note r = varint_decode_range [OF assms]
  show "0 < n" using r(1) by auto
  show "n \<le> length buf" by (fact r(2))
  have "(2 :: nat) ^ (8 * n - 2) \<le> 2 ^ 62" using r(1) by (intro power_increasing) auto
  with r(3) have "unat v < 2 ^ 62" by (rule less_le_trans)
  then show "v \<le> VARINT_MAX" by (simp add: VARINT_MAX_def u64_le_mono)
qed

lemma varint_take_bounds:
  assumes "varint_take buf off = Some (v, off')"
  shows "off < off'" and "off' \<le> length buf" and "v \<le> VARINT_MAX"
proof -
  obtain n where n: "off < length buf" "varint_decode (drop off buf) = Some (v, n)" "off' = off + n"
    using assms by (auto simp only: varint_take_def split: if_splits option.splits prod.splits)
  from varint_decode_bounds [OF n(2)] n show "off < off'" "off' \<le> length buf" "v \<le> VARINT_MAX"
    by simp_all
qed

section \<open>util/bytes.h\<close>

definition bytes_put :: "bytes \<Rightarrow> writer" where
  "bytes_put src ob =
     (if ob_len ob + length src > ob_cap ob then (False, ob)
      else (True, ob\<lparr>ob_p := write_at (ob_p ob) (ob_len ob) src, ob_len := ob_len ob + length src\<rparr>))"

definition bytes_take :: "bytes \<Rightarrow> nat \<Rightarrow> nat \<Rightarrow> (bytes \<times> nat) option" where
  "bytes_take buf off n =
     (if off + n > length buf then None else Some (take n (drop off buf), off + n))"

lemma emits_bytes_put [emits_intros]: "emits (bytes_put src) src"
  by (simp add: emits_def bytes_put_def ob_append_def)

lemma keeps_bytes_put: "keeps (bytes_put src)"
  by (simp add: keeps_def bytes_put_def ob_ok_def ob_cap_def)

lemma bytes_take_wire [takes_simps]:
  "off \<le> length buf \<Longrightarrow> drop off buf = w @ rest \<Longrightarrow> bytes_take buf off (length w) = Some (w, off + length w)"
  using length_drop [of off buf] by (auto simp: bytes_take_def)

lemma bytes_take_bounds:
  assumes "bytes_take buf off n = Some (w, off')"
  shows "length w = n" and "off' = off + n" and "off' \<le> length buf"
  using assms by (auto simp: bytes_take_def split: if_splits)

text \<open>
  \<open>bytes_move_down\<close> is a forward copy inside one buffer, \<open>d[i] = s[i]\<close> with \<open>d\<close> at or below
  \<open>s\<close>: each store may overwrite bytes the loop has already read, never one it still needs.
\<close>

fun move_loop :: "bytes \<Rightarrow> nat \<Rightarrow> nat \<Rightarrow> nat \<Rightarrow> bytes" where
  "move_loop m d s 0 = m"
| "move_loop m d s (Suc n) = move_loop (m[d := m ! s]) (Suc d) (Suc s) n"

definition bytes_move_down :: "bytes \<Rightarrow> nat \<Rightarrow> nat \<Rightarrow> nat \<Rightarrow> bytes" where
  "bytes_move_down m d s n = move_loop m d s n"

lemma bytes_move_down_copies:
  "d \<le> s \<Longrightarrow> s + n \<le> length m \<Longrightarrow> bytes_move_down m d s n = write_at m d (take n (drop s m))"
proof (induction n arbitrary: m d s)
  case (Suc n)
  have s: "s < length m" using Suc.prems by simp
  have "take n (drop (Suc s) (m[d := m ! s])) = take n (drop (Suc s) m)"
    using Suc.prems by (simp add: drop_update_cancel)
  moreover have "take (Suc n) (drop s m) = m ! s # take n (drop (Suc s) m)"
    using s by (simp add: Cons_nth_drop_Suc [symmetric])
  ultimately show ?case
    using Suc.IH [of "Suc d" "Suc s" "m[d := m ! s]"] Suc.prems by (simp add: bytes_move_down_def)
qed (simp add: bytes_move_down_def)

definition bytes_memset :: "bytes \<Rightarrow> nat \<Rightarrow> u8 \<Rightarrow> nat \<Rightarrow> bytes" where
  "bytes_memset m off c n = write_at m off (replicate n c)"

definition ascii_lower :: "u8 \<Rightarrow> u8" where
  "ascii_lower c = (if c \<ge> 0x41 \<and> c \<le> 0x5A then c OR 0x20 else c)"

fun ascii_diff :: "u8 \<Rightarrow> bytes \<Rightarrow> bytes \<Rightarrow> u8" where
  "ascii_diff d (a # as) (b # bs) = ascii_diff (d OR (ascii_lower a XOR ascii_lower b)) as bs"
| "ascii_diff d _ _ = d"

definition ascii_dns_eq :: "bytes \<Rightarrow> bytes \<Rightarrow> bool" where
  "ascii_dns_eq a b = (if length a \<noteq> length b then False else ascii_diff 0 a b = 0)"

lemma ascii_diff_0:
  "length a = length b \<Longrightarrow>
   ascii_diff d a b = 0 \<longleftrightarrow> d = 0 \<and> map ascii_lower a = map ascii_lower b"
  by (induction d a b rule: ascii_diff.induct) (auto simp: word_or_eq_0 word_xor_eq_0)

lemma ascii_dns_eq_iff: "ascii_dns_eq a b \<longleftrightarrow> map ascii_lower a = map ascii_lower b"
  by (auto simp: ascii_dns_eq_def ascii_diff_0 dest: map_eq_imp_length_eq)

section \<open>util/be.h\<close>

definition be_put_be16 :: "bytes \<Rightarrow> nat \<Rightarrow> u16 \<Rightarrow> bytes" where
  "be_put_be16 p o1 v = p[o1 := ucast (drop_bit 8 v), o1 + 1 := ucast v]"

definition be_put_be32 :: "bytes \<Rightarrow> nat \<Rightarrow> u32 \<Rightarrow> bytes" where
  "be_put_be32 p o1 v =
     p[o1 := ucast (drop_bit 24 v), o1 + 1 := ucast (drop_bit 16 v),
       o1 + 2 := ucast (drop_bit 8 v), o1 + 3 := ucast v]"

definition be_put_be64 :: "bytes \<Rightarrow> nat \<Rightarrow> u64 \<Rightarrow> bytes" where
  "be_put_be64 p o1 v = be_put_be32 (be_put_be32 p o1 (ucast (drop_bit 32 v))) (o1 + 4) (ucast v)"

definition be_get_be16 :: "bytes \<Rightarrow> u16" where
  "be_get_be16 p = push_bit 8 (ucast (p ! 0)) OR ucast (p ! 1)"

definition be_get_be32 :: "bytes \<Rightarrow> u32" where
  "be_get_be32 p =
     push_bit 24 (ucast (p ! 0)) OR push_bit 16 (ucast (p ! 1)) OR push_bit 8 (ucast (p ! 2))
     OR ucast (p ! 3)"

definition be_get_be64 :: "bytes \<Rightarrow> u64" where
  "be_get_be64 p = push_bit 32 (ucast (be_get_be32 p)) OR ucast (be_get_be32 (drop 4 p))"

definition be32_wire :: "u32 \<Rightarrow> bytes" where
  "be32_wire v = [ucast (drop_bit 24 v), ucast (drop_bit 16 v), ucast (drop_bit 8 v), ucast v]"

lemma length_be32_wire [simp]: "length (be32_wire v) = 4"
  by (simp add: be32_wire_def)

lemma be_put_be32_write: "be_put_be32 p off v = write_at p off (be32_wire v)"
  by (simp add: be_put_be32_def be32_wire_def eval_nat_numeral)

lemma be_get_be32_wire [simp]: "be_get_be32 (be32_wire v @ rest) = v"
proof (rule bit_word_eqI)
  fix n :: nat
  consider "n < 8" | "8 \<le> n" "n < 16" | "16 \<le> n" "n < 24" | "24 \<le> n" by linarith
  then show "bit (be_get_be32 (be32_wire v @ rest)) n = bit v n"
    by cases (auto simp: be_get_be32_def be32_wire_def bit_simps dest: bit_imp_le_length)
qed

lemma be_get_put_be16: "off + 2 \<le> length p \<Longrightarrow> be_get_be16 (drop off (be_put_be16 p off v)) = v"
  by (rule bit_word_eqI) (auto simp: be_get_be16_def be_put_be16_def bit_simps nth_list_update)

lemma be_get_put_be32: "off + 4 \<le> length p \<Longrightarrow> be_get_be32 (drop off (be_put_be32 p off v)) = v"
  by (simp add: be_put_be32_write write_at_eq)

lemma be_get_put_be64:
  assumes "off + 8 \<le> length p"
  shows "be_get_be64 (drop off (be_put_be64 p off v)) = v"
proof -
  let ?hi = "ucast (drop_bit 32 v) :: u32" and ?lo = "ucast v :: u32"
  have "drop off (be_put_be64 p off v) = be32_wire ?hi @ be32_wire ?lo @ drop (off + 8) p"
    using assms by (simp add: be_put_be64_def be_put_be32_write write_at_eq add.commute)
  then show ?thesis
    by (intro bit_word_eqI) (auto simp: be_get_be64_def bit_simps)
qed

section \<open>Properties\<close>

text \<open>
  C37. Storing a value below \<open>2 ^ 62\<close> with \<open>varint_encode\<close> where it fits and reading it with
  \<open>varint_take\<close> at the same cursor returns the value and moves the cursor by exactly the
  encoded length; no byte outside the encoding changes.
\<close>

theorem varint_roundtrip:
  assumes "v \<le> VARINT_MAX" and "off + varint_len v \<le> length buf"
    and "varint_encode buf off v = (buf', n)"
  shows "n = varint_len v \<and> varint_take buf' off = Some (v, off + n)
    \<and> take off buf' = take off buf \<and> drop (off + n) buf' = drop (off + n) buf"
proof -
  let ?ob = "\<lparr>ob_p = buf, ob_len = off\<rparr>"
  have "varint_put v ?ob = (True, ob_append ?ob (varint_wire v))"
    using assms by (intro emits_fits [OF emits_varint_put]) (simp_all add: ob_ok_def ob_cap_def)
  then have "buf' = write_at buf off (varint_wire v)" "n = varint_len v"
    using assms by (simp_all add: varint_put_def ob_cap_def ob_append_def)
  then have b: "buf' = take off buf @ varint_wire v @ drop (off + n) buf" and n: "n = varint_len v"
    using assms by (simp_all add: write_at_eq)
  then have "drop off buf' = varint_wire v @ drop (off + n) buf"
    using assms by simp
  with assms(1,2) b n show ?thesis by (simp add: varint_take_wire)
qed

theorem varint_roundtrip_witness:
  "(1073741824 :: u64) \<le> VARINT_MAX \<and> 2 + varint_len 1073741824 \<le> length (replicate 12 0 :: bytes)
   \<and> varint_take (fst (varint_encode (replicate 12 0) 2 1073741824)) 2 = Some (1073741824, 10)"
proof -
  have v: "(1073741824 :: u64) \<le> VARINT_MAX" and l: "varint_len 1073741824 = 8"
    by (simp_all add: VARINT_MAX_def varint_len_cases)
  then have fit: "2 + varint_len 1073741824 \<le> length (replicate 12 0 :: bytes)" by simp
  obtain buf' n where e: "varint_encode (replicate 12 0) 2 1073741824 = (buf', n)" by fastforce
  from varint_roundtrip [OF v fit e] l v fit e show ?thesis by simp
qed

text \<open>
  The encoder writes the shortest form: whatever bytes \<open>varint_decode\<close> accepts for a value,
  the length \<open>varint_len\<close> chooses for that value is at most the number of bytes read.
\<close>

theorem varint_shortest:
  assumes "varint_decode buf = Some (v, n)"
  shows "0 < varint_len v \<and> varint_len v \<le> n \<and> n \<le> length buf"
proof -
  note r = varint_decode_range [OF assms]
  have v: "v \<le> VARINT_MAX" using varint_decode_bounds [OF assms] by simp
  from r(1) consider "n = 1" | "n = 2" | "n = 4" | "n = 8" by auto
  then have "varint_len v \<le> n"
    using r(3) by cases (simp_all add: varint_len_cases u64_le_mono)
  then show ?thesis using v r(2) varint_len_pos [OF v] by simp
qed

theorem varint_shortest_witness:
  "varint_decode [0x40, 0x25] = Some (0x25, 2) \<and> varint_len 0x25 \<le> 2"
proof -
  have d: "varint_decode [0x40, 0x25] = Some (0x25, 2)"
    by (simp add: varint_decode_def get_be_def Let_def)
  from varint_shortest [OF d] d show ?thesis by simp
qed

end
