(* ===== verification/Frame_Core.thy ===== *)
theory Frame_Core
  imports Bytes_Varint
begin

unbundle bit_operations_syntax

text \<open>
  \<^verbatim>\<open>src/transport/packet/frame/frame\<close>, the frames that carry data: CRYPTO, STREAM and
  CONNECTION_CLOSE (\<^verbatim>\<open>frame.c\<close>, \<^verbatim>\<open>frame_take.c\<close>, \<^verbatim>\<open>stream_bounds.c\<close>), and the contract every
  frame codec of the SDK satisfies, the locale \<open>frame_codec\<close>. A frame's data pointer is the
  list of the bytes it covers.
\<close>

section \<open>The contract of a frame codec\<close>

text \<open>
  \<open>enc buf f\<close> is the returned count and the buffer afterwards; \<open>dec buf\<close> the frame and the
  bytes consumed, \<open>None\<close> for a return of 0. \<open>wire\<close> is the RFC 9000 section 19 layout and \<open>wf\<close>
  the range of frames it can carry. Each codec is an interpretation; the lemmas proved here
  once are the round trip, the prefix-freeness that lets frames be concatenated, and the
  parse of a concatenation.
\<close>

definition dec_len :: "('f \<times> nat) option \<Rightarrow> nat" where
  "dec_len r = (case r of None \<Rightarrow> 0 | Some (f, n) \<Rightarrow> n)"

locale frame_codec =
  fixes enc :: "bytes \<Rightarrow> 'f \<Rightarrow> nat \<times> bytes"
    and dec :: "bytes \<Rightarrow> ('f \<times> nat) option"
    and wire :: "'f \<Rightarrow> bytes"
    and wf :: "'f \<Rightarrow> bool"
  assumes enc_fits: "wf f \<Longrightarrow> length (wire f) \<le> length buf \<Longrightarrow>
      enc buf f = (length (wire f), wire f @ drop (length (wire f)) buf)"
    and enc_overflow: "wf f \<Longrightarrow> length buf < length (wire f) \<Longrightarrow> fst (enc buf f) = 0"
    and dec_wire: "wf f \<Longrightarrow> dec (wire f @ rest) = Some (f, length (wire f))"
    and dec_bounds: "buf \<noteq> [] \<Longrightarrow> dec buf = Some (f, n) \<Longrightarrow> 0 < n \<and> n \<le> length buf"
begin

lemma enc_roundtrip:
  assumes "wf f" and "enc buf f = (n, buf')" and "n \<noteq> 0"
  shows "dec buf' = Some (f, n)" and "n \<le> length buf" and "length buf' = length buf"
    and "drop n buf' = drop n buf"
proof -
  have le: "length (wire f) \<le> length buf"
    using enc_overflow [OF assms(1), of buf] assms(2,3) by (metis fst_conv not_le)
  then have n: "n = length (wire f)" "buf' = wire f @ drop (length (wire f)) buf"
    using enc_fits [OF assms(1) le] assms(2) by simp_all
  show "dec buf' = Some (f, n)" "n \<le> length buf" "length buf' = length buf" "drop n buf' = drop n buf"
    using dec_wire [OF assms(1)] n le by simp_all
qed

lemma wire_prefix_free:
  assumes "wf f" and "wf g" and "wire f @ xs = wire g @ ys"
  shows "f = g" and "xs = ys"
proof -
  have "Some (f, length (wire f)) = Some (g, length (wire g))"
    using dec_wire [OF assms(1), of xs] dec_wire [OF assms(2), of ys] assms(3) by simp
  then show "f = g" by simp
  with assms(3) show "xs = ys" by simp
qed

text \<open>What the frame walker measures: the consumed count, 0 when the decoder rejects.\<close>

lemma measured:
  assumes "wf f"
  shows "dec_len (dec (wire f @ rest)) = length (wire f)" and "wire f \<noteq> [] \<Longrightarrow> 0 < length (wire f)"
  using dec_wire [OF assms, of rest] by (simp_all add: dec_len_def)

lemma measured_bounds: "buf \<noteq> [] \<Longrightarrow> dec_len (dec buf) \<le> length buf"
  using dec_bounds [of buf] by (auto simp: dec_len_def split: option.split)

lemma enc_dec_iff: "wf f \<Longrightarrow> wf g \<Longrightarrow> dec (wire f @ xs) = dec (wire g @ ys) \<longleftrightarrow> f = g"
  using dec_wire by (metis option.inject prod.inject)

end

section \<open>stream_bounds.c\<close>

definition MAX_OFFSET :: u64 where
  "MAX_OFFSET = push_bit 62 1"

definition stream_bounds_ok :: "u64 \<Rightarrow> u64 \<Rightarrow> bool" where
  "stream_bounds_ok offset len =
     (let limit = MAX_OFFSET - 1 in if offset > limit then False else len \<le> limit - offset)"

lemma stream_bounds_ok_iff:
  "stream_bounds_ok offset len \<longleftrightarrow> unat offset + unat len < 2 ^ 62"
proof -
  have lim: "MAX_OFFSET - 1 = (0x3FFFFFFFFFFFFFFF :: u64)"
    by (simp add: MAX_OFFSET_def push_bit_eq_mult)
  then show ?thesis
    unfolding stream_bounds_ok_def lim Let_def
    by (auto simp: u64_less_mono u64_le_mono unat_sub_u64 not_less)
qed

section \<open>frame.c\<close>

definition FRAME_PADDING :: u8 where "FRAME_PADDING = 0x00"
definition FRAME_PING :: u8 where "FRAME_PING = 0x01"
definition FRAME_CRYPTO :: u64 where "FRAME_CRYPTO = 0x06"
definition FRAME_STREAM_BASE :: u8 where "FRAME_STREAM_BASE = 0x08"
definition FRAME_CONN_CLOSE_TPT :: u8 where "FRAME_CONN_CLOSE_TPT = 0x1c"
definition FRAME_CONN_CLOSE_APP :: u8 where "FRAME_CONN_CLOSE_APP = 0x1d"
definition STREAM_FIN :: u8 where "STREAM_FIN = 0x01"
definition STREAM_LEN :: u8 where "STREAM_LEN = 0x02"
definition STREAM_OFF :: u8 where "STREAM_OFF = 0x04"

lemmas frame_consts [simp] =
  FRAME_PADDING_def FRAME_PING_def FRAME_CRYPTO_def FRAME_STREAM_BASE_def
  FRAME_CONN_CLOSE_TPT_def FRAME_CONN_CLOSE_APP_def STREAM_FIN_def STREAM_LEN_def STREAM_OFF_def

record crypto_frame =
  cf_offset :: u64
  cf_length :: u64
  cf_data :: bytes

record stream_frame =
  sf_stream_id :: u64
  sf_offset :: u64
  sf_length :: u64
  sf_data :: bytes
  sf_fin :: bool

record conn_close_frame =
  cc_is_app :: bool
  cc_error_code :: u64
  cc_frame_type :: u64
  cc_reason_len :: u64
  cc_reason :: bytes

definition frame_write_bytes :: "wired_obuf \<Rightarrow> bytes \<Rightarrow> u64 \<Rightarrow> nat \<times> bytes" where
  "frame_write_bytes out src len =
     (if usz_add (ob_len out) (unat len) > ob_cap out then (0, ob_p out)
      else (usz_add (ob_len out) (unat len),
            write_at (ob_p out) (ob_len out) (take (unat len) src)))"

definition frame_view_end :: "bytes \<Rightarrow> nat \<Rightarrow> u64 \<Rightarrow> nat" where
  "frame_view_end inp off len =
     (if usz_add off (unat len) > length inp then 0 else usz_add off (unat len))"

definition frame_put_simple :: "bytes \<Rightarrow> u8 \<Rightarrow> nat \<times> bytes" where
  "frame_put_simple buf type = (if length buf = 0 then (0, buf) else (1, buf[0 := type]))"

definition put_crypto_hdr :: "crypto_frame \<Rightarrow> writer" where
  "put_crypto_hdr f =
     put_seq [varint_put FRAME_CRYPTO, varint_put (cf_offset f), varint_put (cf_length f)]"

text \<open>The three data frames end alike: the header chain, then \<open>frame_write_bytes\<close>.\<close>

definition put_hdr_data :: "writer \<Rightarrow> bytes \<Rightarrow> u64 \<Rightarrow> bytes \<Rightarrow> nat \<times> bytes" where
  "put_hdr_data hdr src len buf =
     (case hdr (obuf_of buf) of
        (ok, out) \<Rightarrow> if \<not> ok then (0, ob_p out) else frame_write_bytes out src len)"

definition frame_put_crypto :: "bytes \<Rightarrow> crypto_frame \<Rightarrow> nat \<times> bytes" where
  "frame_put_crypto buf f = put_hdr_data (put_crypto_hdr f) (cf_data f) (cf_length f) buf"

definition take_crypto_hdr :: "bytes \<Rightarrow> nat \<Rightarrow> ((u64 \<times> u64) \<times> nat) option" where
  "take_crypto_hdr inp off = do {
     (offset, off) \<leftarrow> varint_take inp off;
     (len, off) \<leftarrow> varint_take inp off;
     Some ((offset, len), off)
   }"

definition frame_get_crypto :: "bytes \<Rightarrow> (crypto_frame \<times> nat) option" where
  "frame_get_crypto buf = do {
     ((offset, len), off) \<leftarrow> take_crypto_hdr buf 1;
     let e = frame_view_end buf off len;
     if e = 0 then None
     else Some (\<lparr>cf_offset = offset, cf_length = len, cf_data = take (unat len) (drop off buf)\<rparr>, e)
   }"

definition stream_type :: "stream_frame \<Rightarrow> u8" where
  "stream_type f =
     (let t = FRAME_STREAM_BASE OR STREAM_LEN;
          t = (if sf_offset f \<noteq> 0 then t OR STREAM_OFF else t)
      in if sf_fin f then t OR STREAM_FIN else t)"

definition put_opt_offset :: "u64 \<Rightarrow> writer" where
  "put_opt_offset offset out = (if offset = 0 then (True, out) else varint_put offset out)"

definition put_stream_prefix :: "stream_frame \<Rightarrow> writer" where
  "put_stream_prefix f =
     put_seq [varint_put (ucast (stream_type f)), varint_put (sf_stream_id f)]"

definition put_stream_hdr :: "stream_frame \<Rightarrow> writer" where
  "put_stream_hdr f =
     put_seq [put_stream_prefix f, put_opt_offset (sf_offset f), varint_put (sf_length f)]"

definition frame_put_stream :: "bytes \<Rightarrow> stream_frame \<Rightarrow> nat \<times> bytes" where
  "frame_put_stream buf f = put_hdr_data (put_stream_hdr f) (sf_data f) (sf_length f) buf"

section \<open>frame\_take.c\<close>

definition take_opt_offset :: "bytes \<Rightarrow> nat \<Rightarrow> (u64 \<times> nat) option" where
  "take_opt_offset inp off =
     (if inp ! 0 AND STREAM_OFF = 0 then Some (0, off) else varint_take inp off)"

definition take_opt_length :: "bytes \<Rightarrow> nat \<Rightarrow> (u64 \<times> nat) option" where
  "take_opt_length inp off =
     (if inp ! 0 AND STREAM_LEN = 0 then Some (of_nat (length inp - off), off)
      else varint_take inp off)"

definition take_stream_hdr :: "bytes \<Rightarrow> nat \<Rightarrow> ((u64 \<times> u64 \<times> u64) \<times> nat) option" where
  "take_stream_hdr inp off = do {
     (sid, off) \<leftarrow> varint_take inp off;
     (offset, off) \<leftarrow> take_opt_offset inp off;
     (len, off) \<leftarrow> take_opt_length inp off;
     Some ((sid, offset, len), off)
   }"

definition take_stream_hdr_bounded :: "bytes \<Rightarrow> nat \<Rightarrow> ((u64 \<times> u64 \<times> u64) \<times> nat) option" where
  "take_stream_hdr_bounded inp off = do {
     ((sid, offset, len), off) \<leftarrow> take_stream_hdr inp off;
     if stream_bounds_ok offset len then Some ((sid, offset, len), off) else None
   }"

definition frame_get_stream :: "bytes \<Rightarrow> (stream_frame \<times> nat) option" where
  "frame_get_stream buf = do {
     let fin = (buf ! 0 AND STREAM_FIN \<noteq> 0);
     ((sid, offset, len), off) \<leftarrow> take_stream_hdr_bounded buf 1;
     let e = frame_view_end buf off len;
     if e = 0 then None
     else Some (\<lparr>sf_stream_id = sid, sf_offset = offset, sf_length = len,
                 sf_data = take (unat len) (drop off buf), sf_fin = fin\<rparr>, e)
   }"

definition put_opt_frame_type :: "conn_close_frame \<Rightarrow> writer" where
  "put_opt_frame_type f out = (if cc_is_app f then (True, out) else varint_put (cc_frame_type f) out)"

definition put_cc_prefix :: "conn_close_frame \<Rightarrow> writer" where
  "put_cc_prefix f =
     (let type = (if cc_is_app f then FRAME_CONN_CLOSE_APP else FRAME_CONN_CLOSE_TPT)
      in put_seq [varint_put (ucast type), varint_put (cc_error_code f)])"

definition put_cc_hdr :: "conn_close_frame \<Rightarrow> writer" where
  "put_cc_hdr f = put_seq [put_cc_prefix f, put_opt_frame_type f, varint_put (cc_reason_len f)]"

definition frame_put_conn_close :: "bytes \<Rightarrow> conn_close_frame \<Rightarrow> nat \<times> bytes" where
  "frame_put_conn_close buf f = put_hdr_data (put_cc_hdr f) (cc_reason f) (cc_reason_len f) buf"

definition take_opt_frame_type :: "bytes \<Rightarrow> nat \<Rightarrow> bool \<Rightarrow> (u64 \<times> nat) option" where
  "take_opt_frame_type inp off is_app = (if is_app then Some (0, off) else varint_take inp off)"

definition take_cc_hdr :: "bytes \<Rightarrow> nat \<Rightarrow> bool \<Rightarrow> ((u64 \<times> u64 \<times> u64) \<times> nat) option" where
  "take_cc_hdr inp off is_app = do {
     (code, off) \<leftarrow> varint_take inp off;
     (ftype, off) \<leftarrow> take_opt_frame_type inp off is_app;
     (rlen, off) \<leftarrow> varint_take inp off;
     Some ((code, ftype, rlen), off)
   }"

definition frame_get_conn_close :: "bytes \<Rightarrow> (conn_close_frame \<times> nat) option" where
  "frame_get_conn_close buf = do {
     let is_app = (buf ! 0 = FRAME_CONN_CLOSE_APP);
     ((code, ftype, rlen), off) \<leftarrow> take_cc_hdr buf 1 is_app;
     let e = frame_view_end buf off rlen;
     if e = 0 then None
     else Some (\<lparr>cc_is_app = is_app, cc_error_code = code, cc_frame_type = ftype,
                 cc_reason_len = rlen, cc_reason = take (unat rlen) (drop off buf)\<rparr>, e)
   }"

section \<open>Wire layouts and codec laws\<close>

lemma put_hdr_data_fits:
  assumes "emits w hdr" and "length src = unat len" and "length hdr \<le> 64" and "len \<le> VARINT_MAX"
    and "length (hdr @ src) \<le> length buf"
  shows "put_hdr_data w src len buf = (length (hdr @ src), (hdr @ src) @ drop (length (hdr @ src)) buf)"
proof -
  have "w (obuf_of buf) = (True, ob_append (obuf_of buf) hdr)"
    using assms by (intro emits_fits) simp_all
  moreover have "usz_add (length hdr) (unat len) = length hdr + unat len"
    using assms(3,4) by (intro usz_add_exact) (simp add: u64_le_mono VARINT_MAX_def)
  ultimately show ?thesis
    using assms(2,5)
    by (simp add: put_hdr_data_def frame_write_bytes_def ob_p_append_obuf_of write_at_eq add.commute)
qed

lemma put_hdr_data_overflow:
  assumes "emits w hdr" and "length src = unat len" and "length hdr \<le> 64" and "len \<le> VARINT_MAX"
    and "length buf < length (hdr @ src)"
  shows "fst (put_hdr_data w src len buf) = 0"
proof (cases "length hdr \<le> length buf")
  case True
  then have "w (obuf_of buf) = (True, ob_append (obuf_of buf) hdr)"
    using assms by (intro emits_fits) simp_all
  moreover have "usz_add (length hdr) (unat len) = length hdr + unat len"
    using assms(3,4) by (intro usz_add_exact) (simp add: u64_le_mono VARINT_MAX_def)
  ultimately show ?thesis
    using assms(2,5) by (simp add: put_hdr_data_def frame_write_bytes_def)
next
  case False
  then show ?thesis
    using emits_overflow [OF assms(1), of "obuf_of buf"] by (auto simp: put_hdr_data_def split: prod.split)
qed

lemma frame_view_end_exact:
  assumes "len \<le> VARINT_MAX" and "off < 2 ^ 63"
  shows "frame_view_end inp off len = (if off + unat len > length inp then 0 else off + unat len)"
proof -
  have "usz_add off (unat len) = off + unat len"
    using assms by (intro usz_add_exact) (simp add: u64_le_mono VARINT_MAX_def)
  then show ?thesis by (simp add: frame_view_end_def)
qed

lemma frame_view_end_bound [simp]: "frame_view_end inp off len \<le> length inp"
  by (simp add: frame_view_end_def)

text \<open>The two shapes of encoder, a header with data behind it and a plain chain of fields.\<close>

lemma data_codecI:
  assumes "\<And>f. ok f \<Longrightarrow> emits (hdr f) (hw f)" and "\<And>f. ok f \<Longrightarrow> length (hw f) \<le> 64"
    and "\<And>f. ok f \<Longrightarrow> len f \<le> VARINT_MAX \<and> length (dat f) = unat (len f)"
    and "\<And>f. wire f = hw f @ dat f"
    and "\<And>buf f. enc buf f = put_hdr_data (hdr f) (dat f) (len f) buf"
    and "\<And>f rest. ok f \<Longrightarrow> dec (wire f @ rest) = Some (f, length (wire f))"
    and "\<And>buf f n. buf \<noteq> [] \<Longrightarrow> dec buf = Some (f, n) \<Longrightarrow> 0 < n \<and> n \<le> length buf"
  shows "frame_codec enc dec wire ok"
proof
  fix f :: 'a and buf :: bytes
  assume wf: "ok f"
  note facts = assms(1) [OF wf] _ assms(2) [OF wf]
  show "length (wire f) \<le> length buf \<Longrightarrow>
      enc buf f = (length (wire f), wire f @ drop (length (wire f)) buf)"
    unfolding assms(4,5) by (rule put_hdr_data_fits [OF facts]) (use assms(3) [OF wf] in simp_all)
  show "length buf < length (wire f) \<Longrightarrow> fst (enc buf f) = 0"
    unfolding assms(4,5) by (rule put_hdr_data_overflow [OF facts]) (use assms(3) [OF wf] in simp_all)
qed (fact assms(6,7))+

lemma chain_codecI:
  assumes "\<And>f. ok f \<Longrightarrow> emits (w f) (wire f)" and "\<And>buf f. ok f \<Longrightarrow> enc buf f = run_put (w f) buf"
    and "\<And>f rest. ok f \<Longrightarrow> dec (wire f @ rest) = Some (f, length (wire f))"
    and "\<And>buf f n. buf \<noteq> [] \<Longrightarrow> dec buf = Some (f, n) \<Longrightarrow> 0 < n \<and> n \<le> length buf"
  shows "frame_codec enc dec wire ok"
proof
  fix f :: 'a and buf :: bytes
  assume wf: "ok f"
  show "length (wire f) \<le> length buf \<Longrightarrow>
      enc buf f = (length (wire f), wire f @ drop (length (wire f)) buf)"
    unfolding assms(2) [OF wf] by (rule run_put_fits [OF assms(1) [OF wf]])
  show "length buf < length (wire f) \<Longrightarrow> fst (enc buf f) = 0"
    unfolding assms(2) [OF wf] by (rule run_put_overflow [OF assms(1) [OF wf]])
qed (fact assms(3,4))+

lemmas decode_wire_simps = varint_take_alt varint_decode_wire frame_view_end_exact

lemma varint_len_lt: "varint_len v < 9"
  using varint_len_le8 [of v] by simp

subsection \<open>CRYPTO\<close>

definition crypto_hdr_wire :: "crypto_frame \<Rightarrow> bytes" where
  "crypto_hdr_wire f = [0x06] @ varint_wire (cf_offset f) @ varint_wire (cf_length f)"

definition crypto_wire :: "crypto_frame \<Rightarrow> bytes" where
  "crypto_wire f = crypto_hdr_wire f @ cf_data f"

definition crypto_wf :: "crypto_frame \<Rightarrow> bool" where
  "crypto_wf f \<longleftrightarrow> cf_offset f \<le> VARINT_MAX \<and> cf_length f \<le> VARINT_MAX
     \<and> length (cf_data f) = unat (cf_length f)"

lemma emits_crypto_hdr: "crypto_wf f \<Longrightarrow> emits (put_crypto_hdr f) (crypto_hdr_wire f)"
  unfolding put_crypto_hdr_def crypto_hdr_wire_def
  by (intro emits_Cons_seq emits_single_seq emits_varint_put emits_varint_byte)
    (simp_all add: crypto_wf_def)

interpretation crypto: frame_codec frame_put_crypto frame_get_crypto crypto_wire crypto_wf
proof (rule data_codecI [where hdr = put_crypto_hdr and hw = crypto_hdr_wire
      and dat = cf_data and len = cf_length])
  fix f :: crypto_frame and rest :: bytes
  assume wf: "crypto_wf f"
  then show "length (crypto_hdr_wire f) \<le> 64"
    using varint_len_le8 [of "cf_offset f"] varint_len_le8 [of "cf_length f"]
    by (simp add: crypto_wf_def crypto_hdr_wire_def)
  show "frame_get_crypto (crypto_wire f @ rest) = Some (f, length (crypto_wire f))"
    using wf varint_len_lt [of "cf_offset f"] varint_len_lt [of "cf_length f"]
    by (simp add: crypto_wf_def frame_get_crypto_def take_crypto_hdr_def crypto_wire_def
      crypto_hdr_wire_def decode_wire_simps)
qed (auto simp: crypto_wf_def crypto_wire_def frame_put_crypto_def frame_get_crypto_def Let_def
      bind_eq_Some_conv intro: emits_crypto_hdr split: if_splits)

subsection \<open>STREAM\<close>

definition stream_hdr_wire :: "stream_frame \<Rightarrow> bytes" where
  "stream_hdr_wire f =
     ([stream_type f] @ varint_wire (sf_stream_id f))
     @ (if sf_offset f = 0 then [] else varint_wire (sf_offset f)) @ varint_wire (sf_length f)"

definition stream_wire :: "stream_frame \<Rightarrow> bytes" where
  "stream_wire f = stream_hdr_wire f @ sf_data f"

definition stream_wf :: "stream_frame \<Rightarrow> bool" where
  "stream_wf f \<longleftrightarrow> sf_stream_id f \<le> VARINT_MAX \<and> sf_offset f \<le> VARINT_MAX
     \<and> sf_length f \<le> VARINT_MAX \<and> length (sf_data f) = unat (sf_length f)
     \<and> stream_bounds_ok (sf_offset f) (sf_length f)"

lemma stream_type_le: "stream_type f \<le> 0x3F"
  by (simp add: stream_type_def)

lemma stream_type_bits:
  "stream_type f AND 1 = (if sf_fin f then 1 else 0)" "stream_type f AND 2 = 2"
  "stream_type f AND 4 = (if sf_offset f = 0 then 0 else 4)"
  by (simp_all add: stream_type_def)

lemma emits_put_opt_offset:
  "v \<le> VARINT_MAX \<Longrightarrow> emits (put_opt_offset v) (if v = 0 then [] else varint_wire v)"
  using emits_varint_put [of v] by (auto simp: emits_def put_opt_offset_def ob_ok_def)

lemma emits_stream_hdr: "stream_wf f \<Longrightarrow> emits (put_stream_hdr f) (stream_hdr_wire f)"
  unfolding put_stream_hdr_def put_stream_prefix_def stream_hdr_wire_def
  by (intro emits_Cons_seq emits_single_seq emits_varint_put emits_varint_byte emits_put_opt_offset)
    (simp_all add: stream_wf_def stream_type_le)

interpretation stream: frame_codec frame_put_stream frame_get_stream stream_wire stream_wf
proof (rule data_codecI [where hdr = put_stream_hdr and hw = stream_hdr_wire
      and dat = sf_data and len = sf_length])
  fix f :: stream_frame and rest :: bytes
  assume wf: "stream_wf f"
  note le8 = varint_len_le8 [of "sf_offset f"] varint_len_le8 [of "sf_length f"]
    varint_len_le8 [of "sf_stream_id f"]
  show "length (stream_hdr_wire f) \<le> 64"
    using wf le8 by (simp add: stream_wf_def stream_hdr_wire_def)
  show "frame_get_stream (stream_wire f @ rest) = Some (f, length (stream_wire f))"
    using wf le8
    by (auto simp add: stream_wf_def frame_get_stream_def take_stream_hdr_bounded_def
      take_stream_hdr_def take_opt_offset_def take_opt_length_def stream_wire_def
      stream_hdr_wire_def stream_type_bits decode_wire_simps)
qed (auto simp: stream_wf_def stream_wire_def frame_put_stream_def frame_get_stream_def Let_def
      bind_eq_Some_conv intro: emits_stream_hdr split: if_splits)

subsection \<open>CONNECTION\_CLOSE\<close>

definition cc_hdr_wire :: "conn_close_frame \<Rightarrow> bytes" where
  "cc_hdr_wire f =
     ([if cc_is_app f then 0x1d else 0x1c] @ varint_wire (cc_error_code f))
     @ (if cc_is_app f then [] else varint_wire (cc_frame_type f)) @ varint_wire (cc_reason_len f)"

definition cc_wire :: "conn_close_frame \<Rightarrow> bytes" where
  "cc_wire f = cc_hdr_wire f @ cc_reason f"

definition cc_wf :: "conn_close_frame \<Rightarrow> bool" where
  "cc_wf f \<longleftrightarrow> cc_error_code f \<le> VARINT_MAX \<and> cc_frame_type f \<le> VARINT_MAX
     \<and> (cc_is_app f \<longrightarrow> cc_frame_type f = 0)
     \<and> cc_reason_len f \<le> VARINT_MAX \<and> length (cc_reason f) = unat (cc_reason_len f)"

lemma emits_put_opt_frame_type:
  "cc_frame_type f \<le> VARINT_MAX \<Longrightarrow>
   emits (put_opt_frame_type f) (if cc_is_app f then [] else varint_wire (cc_frame_type f))"
  using emits_varint_put [of "cc_frame_type f"]
  by (auto simp: emits_def put_opt_frame_type_def ob_ok_def)

lemma emits_cc_hdr: "cc_wf f \<Longrightarrow> emits (put_cc_hdr f) (cc_hdr_wire f)"
  unfolding put_cc_hdr_def put_cc_prefix_def cc_hdr_wire_def Let_def
  by (intro emits_Cons_seq emits_single_seq emits_varint_put emits_varint_byte emits_put_opt_frame_type)
    (simp_all add: cc_wf_def)

interpretation conn_close: frame_codec frame_put_conn_close frame_get_conn_close cc_wire cc_wf
proof (rule data_codecI [where hdr = put_cc_hdr and hw = cc_hdr_wire
      and dat = cc_reason and len = cc_reason_len])
  fix f :: conn_close_frame and rest :: bytes
  assume wf: "cc_wf f"
  note le8 = varint_len_le8 [of "cc_error_code f"] varint_len_le8 [of "cc_frame_type f"]
    varint_len_le8 [of "cc_reason_len f"]
  show "length (cc_hdr_wire f) \<le> 64"
    using wf le8 by (simp add: cc_wf_def cc_hdr_wire_def)
  show "frame_get_conn_close (cc_wire f @ rest) = Some (f, length (cc_wire f))"
    using wf le8
    by (cases "cc_is_app f") (simp_all add: cc_wf_def frame_get_conn_close_def take_cc_hdr_def
      take_opt_frame_type_def cc_wire_def cc_hdr_wire_def decode_wire_simps)
qed (auto simp: cc_wf_def cc_wire_def frame_put_conn_close_def frame_get_conn_close_def Let_def
      bind_eq_Some_conv intro: emits_cc_hdr split: if_splits)

end
