(* ===== verification/Frame_Ctl.thy ===== *)
theory Frame_Ctl
  imports Frame_Core
begin

unbundle bit_operations_syntax

text \<open>
  \<^verbatim>\<open>src/transport/packet/frame/frame\<close>, the control frames: flow control (\<^verbatim>\<open>flowctl.c\<close>), stream
  resets (\<^verbatim>\<open>stream_ctl.c\<close>), connection management (\<^verbatim>\<open>connctl.c\<close>), NEW_CONNECTION_ID
  (\<^verbatim>\<open>ncid.c\<close>, \<^verbatim>\<open>ncid_check.c\<close>), the CRYPTO offset checks (\<^verbatim>\<open>crypto_offset.c\<close>) and the routing
  byte of a connection ID (\<^verbatim>\<open>ncid_worker.c\<close>). Every codec is an interpretation of
  \<open>frame_codec\<close>.
\<close>

section \<open>flowctl.c\<close>

definition FRAME_MAX_DATA :: u64 where "FRAME_MAX_DATA = 0x10"
definition FRAME_MAX_STREAM_DATA :: u64 where "FRAME_MAX_STREAM_DATA = 0x11"
definition FRAME_MAX_STREAMS_BIDI :: u64 where "FRAME_MAX_STREAMS_BIDI = 0x12"
definition FRAME_DATA_BLOCKED :: u64 where "FRAME_DATA_BLOCKED = 0x14"
definition FRAME_STREAM_DATA_BLOCKED :: u64 where "FRAME_STREAM_DATA_BLOCKED = 0x15"
definition FRAME_STREAMS_BLOCKED_BIDI :: u64 where "FRAME_STREAMS_BLOCKED_BIDI = 0x16"

lemmas flowctl_consts [simp] =
  FRAME_MAX_DATA_def FRAME_MAX_STREAM_DATA_def FRAME_MAX_STREAMS_BIDI_def
  FRAME_DATA_BLOCKED_def FRAME_STREAM_DATA_BLOCKED_def FRAME_STREAMS_BLOCKED_BIDI_def

record data_frame =
  df_value :: u64

record stream_data_frame =
  sd_stream_id :: u64
  sd_value :: u64

record streams_frame =
  st_max_streams :: u64
  st_uni :: bool

definition put_one_varint_frame :: "u64 \<Rightarrow> u64 \<Rightarrow> writer" where
  "put_one_varint_frame type v = put_seq [varint_put type, varint_put v]"

definition get_one_varint_frame :: "bytes \<Rightarrow> (u64 \<times> nat) option" where
  "get_one_varint_frame buf = varint_take buf 1"

definition put_two_varint_frame :: "u64 \<Rightarrow> stream_data_frame \<Rightarrow> writer" where
  "put_two_varint_frame type f =
     put_seq [put_one_varint_frame type (sd_stream_id f), varint_put (sd_value f)]"

definition get_two_varint_frame :: "bytes \<Rightarrow> (stream_data_frame \<times> nat) option" where
  "get_two_varint_frame buf = do {
     (sid, off) \<leftarrow> get_one_varint_frame buf;
     (v, off) \<leftarrow> varint_take buf off;
     Some (\<lparr>sd_stream_id = sid, sd_value = v\<rparr>, off)
   }"

definition max_data_encode :: "bytes \<Rightarrow> data_frame \<Rightarrow> nat \<times> bytes" where
  "max_data_encode buf f = run_put (put_one_varint_frame FRAME_MAX_DATA (df_value f)) buf"

definition max_data_decode :: "bytes \<Rightarrow> (data_frame \<times> nat) option" where
  "max_data_decode buf = do { (v, off) \<leftarrow> get_one_varint_frame buf; Some (\<lparr>df_value = v\<rparr>, off) }"

definition data_blocked_encode :: "bytes \<Rightarrow> data_frame \<Rightarrow> nat \<times> bytes" where
  "data_blocked_encode buf f = run_put (put_one_varint_frame FRAME_DATA_BLOCKED (df_value f)) buf"

definition data_blocked_decode :: "bytes \<Rightarrow> (data_frame \<times> nat) option" where
  "data_blocked_decode buf =
     do { (v, off) \<leftarrow> get_one_varint_frame buf; Some (\<lparr>df_value = v\<rparr>, off) }"

definition max_stream_data_encode :: "bytes \<Rightarrow> stream_data_frame \<Rightarrow> nat \<times> bytes" where
  "max_stream_data_encode buf f = run_put (put_two_varint_frame FRAME_MAX_STREAM_DATA f) buf"

definition max_stream_data_decode :: "bytes \<Rightarrow> (stream_data_frame \<times> nat) option" where
  "max_stream_data_decode buf = get_two_varint_frame buf"

definition stream_data_blocked_encode :: "bytes \<Rightarrow> stream_data_frame \<Rightarrow> nat \<times> bytes" where
  "stream_data_blocked_encode buf f = run_put (put_two_varint_frame FRAME_STREAM_DATA_BLOCKED f) buf"

definition stream_data_blocked_decode :: "bytes \<Rightarrow> (stream_data_frame \<times> nat) option" where
  "stream_data_blocked_decode buf = get_two_varint_frame buf"

definition streams_type :: "u64 \<Rightarrow> bool \<Rightarrow> u64" where
  "streams_type bidi_type uni = bidi_type + (if uni then 1 else 0)"

definition max_streams_encode :: "bytes \<Rightarrow> streams_frame \<Rightarrow> nat \<times> bytes" where
  "max_streams_encode buf f =
     (let type = streams_type FRAME_MAX_STREAMS_BIDI (st_uni f)
      in run_put (put_one_varint_frame type (st_max_streams f)) buf)"

definition max_streams_decode :: "bytes \<Rightarrow> (streams_frame \<times> nat) option" where
  "max_streams_decode buf = do {
     let uni = (buf ! 0 AND 1 \<noteq> 0);
     (v, off) \<leftarrow> get_one_varint_frame buf;
     Some (\<lparr>st_max_streams = v, st_uni = uni\<rparr>, off)
   }"

definition streams_blocked_encode :: "bytes \<Rightarrow> streams_frame \<Rightarrow> nat \<times> bytes" where
  "streams_blocked_encode buf f =
     (let type = streams_type FRAME_STREAMS_BLOCKED_BIDI (st_uni f)
      in run_put (put_one_varint_frame type (st_max_streams f)) buf)"

definition streams_blocked_decode :: "bytes \<Rightarrow> (streams_frame \<times> nat) option" where
  "streams_blocked_decode buf = do {
     let uni = (buf ! 0 AND 1 \<noteq> 0);
     (v, off) \<leftarrow> get_one_varint_frame buf;
     Some (\<lparr>st_max_streams = v, st_uni = uni\<rparr>, off)
   }"

section \<open>stream\_ctl.c\<close>

definition FRAME_RESET_STREAM :: u64 where "FRAME_RESET_STREAM = 0x04"
definition FRAME_STOP_SENDING :: u64 where "FRAME_STOP_SENDING = 0x05"
definition FRAME_RESET_STREAM_AT :: u64 where "FRAME_RESET_STREAM_AT = 0x24"

record reset_stream_frame =
  rs_stream_id :: u64
  rs_error_code :: u64
  rs_final_size :: u64

record stop_sending_frame =
  ss_stream_id :: u64
  ss_error_code :: u64

record reset_stream_at_frame =
  ra_stream_id :: u64
  ra_error_code :: u64
  ra_final_size :: u64
  ra_reliable_size :: u64

definition put_rs_head :: "reset_stream_frame \<Rightarrow> writer" where
  "put_rs_head f = put_seq [varint_put FRAME_RESET_STREAM, varint_put (rs_stream_id f)]"

definition put_rs_tail :: "reset_stream_frame \<Rightarrow> writer" where
  "put_rs_tail f = put_seq [varint_put (rs_error_code f), varint_put (rs_final_size f)]"

definition reset_stream_encode :: "bytes \<Rightarrow> reset_stream_frame \<Rightarrow> nat \<times> bytes" where
  "reset_stream_encode buf f = run_put (put_seq [put_rs_head f, put_rs_tail f]) buf"

definition take_two :: "bytes \<Rightarrow> nat \<Rightarrow> ((u64 \<times> u64) \<times> nat) option" where
  "take_two inp off = do {
     (a, off) \<leftarrow> varint_take inp off;
     (b, off) \<leftarrow> varint_take inp off;
     Some ((a, b), off)
   }"

definition reset_stream_decode :: "bytes \<Rightarrow> (reset_stream_frame \<times> nat) option" where
  "reset_stream_decode buf = do {
     ((sid, code), off) \<leftarrow> take_two buf 1;
     (fsz, off) \<leftarrow> varint_take buf off;
     Some (\<lparr>rs_stream_id = sid, rs_error_code = code, rs_final_size = fsz\<rparr>, off)
   }"

definition stop_sending_encode :: "bytes \<Rightarrow> stop_sending_frame \<Rightarrow> nat \<times> bytes" where
  "stop_sending_encode buf f =
     run_put (put_seq [put_seq [varint_put FRAME_STOP_SENDING, varint_put (ss_stream_id f)],
                       varint_put (ss_error_code f)]) buf"

definition stop_sending_decode :: "bytes \<Rightarrow> (stop_sending_frame \<times> nat) option" where
  "stop_sending_decode buf = do {
     (sid, off) \<leftarrow> varint_take buf 1;
     (code, off) \<leftarrow> varint_take buf off;
     Some (\<lparr>ss_stream_id = sid, ss_error_code = code\<rparr>, off)
   }"

definition rs_at_size_ok :: "reset_stream_at_frame \<Rightarrow> bool" where
  "rs_at_size_ok f \<longleftrightarrow> ra_reliable_size f \<le> ra_final_size f"

definition put_rsat_head :: "reset_stream_at_frame \<Rightarrow> writer" where
  "put_rsat_head f =
     put_seq [varint_put FRAME_RESET_STREAM_AT, varint_put (ra_stream_id f), varint_put (ra_error_code f)]"

definition put_rsat_tail :: "reset_stream_at_frame \<Rightarrow> writer" where
  "put_rsat_tail f = put_seq [varint_put (ra_final_size f), varint_put (ra_reliable_size f)]"

definition put_rsat_body :: "reset_stream_at_frame \<Rightarrow> writer" where
  "put_rsat_body f = put_seq [put_rsat_head f, put_rsat_tail f]"

definition reset_stream_at_encode :: "bytes \<Rightarrow> reset_stream_at_frame \<Rightarrow> nat \<times> bytes" where
  "reset_stream_at_encode buf f =
     (if \<not> rs_at_size_ok f then (0, buf) else run_put (put_rsat_body f) buf)"

definition take_rsat_body :: "bytes \<Rightarrow> nat \<Rightarrow> (reset_stream_at_frame \<times> nat) option" where
  "take_rsat_body inp off = do {
     ((sid, code), off) \<leftarrow> take_two inp off;
     ((fsz, rsz), off) \<leftarrow> take_two inp off;
     Some (\<lparr>ra_stream_id = sid, ra_error_code = code, ra_final_size = fsz, ra_reliable_size = rsz\<rparr>, off)
   }"

definition reset_stream_at_decode :: "bytes \<Rightarrow> (reset_stream_at_frame \<times> nat) option" where
  "reset_stream_at_decode buf = do {
     (f, off) \<leftarrow> take_rsat_body buf 1;
     if rs_at_size_ok f then Some (f, off) else None
   }"

section \<open>connctl.c\<close>

definition FRAME_NEW_TOKEN :: u64 where "FRAME_NEW_TOKEN = 0x07"
definition FRAME_RETIRE_CID :: u64 where "FRAME_RETIRE_CID = 0x19"
definition FRAME_PATH_CHALLENGE :: u8 where "FRAME_PATH_CHALLENGE = 0x1a"
definition FRAME_PATH_RESPONSE :: u8 where "FRAME_PATH_RESPONSE = 0x1b"
definition FRAME_HANDSHAKE_DONE :: u8 where "FRAME_HANDSHAKE_DONE = 0x1e"
definition PATH_DATA :: nat where "PATH_DATA = 8"

text \<open>\<open>o->p[o->len++] = b\<close> behind its \<open>o->len >= o->cap\<close> guard.\<close>

definition put_u8 :: "u8 \<Rightarrow> writer" where
  "put_u8 b out =
     (if ob_len out \<ge> ob_cap out then (False, out)
      else (True, out\<lparr>ob_p := (ob_p out)[ob_len out := b], ob_len := ob_len out + 1\<rparr>))"

record new_token_frame =
  nt_length :: u64
  nt_token :: bytes

definition put_new_token_head :: "u64 \<Rightarrow> writer" where
  "put_new_token_head len = put_seq [varint_put FRAME_NEW_TOKEN, varint_put len]"

definition new_token_encode :: "bytes \<Rightarrow> new_token_frame \<Rightarrow> nat \<times> bytes" where
  "new_token_encode buf f =
     run_put (put_seq [put_new_token_head (nt_length f),
                       bytes_put (take (unat (nt_length f)) (nt_token f))]) buf"

definition take_token_view :: "bytes \<Rightarrow> nat \<Rightarrow> u64 \<Rightarrow> (bytes \<times> nat) option" where
  "take_token_view inp off len =
     (if usz_add off (unat len) > length inp then None
      else Some (take (unat len) (drop off inp), usz_add off (unat len)))"

definition new_token_decode :: "bytes \<Rightarrow> (new_token_frame \<times> nat) option" where
  "new_token_decode buf = do {
     (len, off) \<leftarrow> varint_take buf 1;
     (token, off) \<leftarrow> take_token_view buf off len;
     if off = 0 then None else Some (\<lparr>nt_length = len, nt_token = token\<rparr>, off)
   }"

definition retire_cid_encode :: "bytes \<Rightarrow> u64 \<Rightarrow> nat \<times> bytes" where
  "retire_cid_encode buf seq = run_put (put_seq [varint_put FRAME_RETIRE_CID, varint_put seq]) buf"

definition retire_cid_decode :: "bytes \<Rightarrow> (u64 \<times> nat) option" where
  "retire_cid_decode buf = varint_take buf 1"

definition path_encode :: "u8 \<Rightarrow> bytes \<Rightarrow> bytes \<Rightarrow> nat \<times> bytes" where
  "path_encode type buf data = run_put (put_seq [put_u8 type, bytes_put (take PATH_DATA data)]) buf"

definition type_is :: "bytes \<Rightarrow> u8 \<Rightarrow> bool" where
  "type_is buf type \<longleftrightarrow> buf \<noteq> [] \<and> buf ! 0 = type"

definition path_decode :: "u8 \<Rightarrow> bytes \<Rightarrow> (bytes \<times> nat) option" where
  "path_decode type buf = (if \<not> type_is buf type then None else bytes_take buf 1 PATH_DATA)"

definition handshake_done_encode :: "bytes \<Rightarrow> nat \<times> bytes" where
  "handshake_done_encode buf =
     (if length buf = 0 then (0, buf) else (1, buf[0 := FRAME_HANDSHAKE_DONE]))"

definition handshake_done_decode :: "bytes \<Rightarrow> nat" where
  "handshake_done_decode buf =
     (if length buf = 0 \<or> buf ! 0 \<noteq> FRAME_HANDSHAKE_DONE then 0 else 1)"

section \<open>ncid.c\<close>

definition FRAME_NEW_CID :: u64 where "FRAME_NEW_CID = 0x18"
definition NCID_TOKEN :: nat where "NCID_TOKEN = 16"
definition NCID_MAX_LEN :: u8 where "NCID_MAX_LEN = 20"

lemmas ctl_consts [simp] =
  FRAME_RESET_STREAM_def FRAME_STOP_SENDING_def FRAME_RESET_STREAM_AT_def FRAME_NEW_TOKEN_def
  FRAME_RETIRE_CID_def FRAME_PATH_CHALLENGE_def FRAME_PATH_RESPONSE_def FRAME_HANDSHAKE_DONE_def
  FRAME_NEW_CID_def

text \<open>\<open>nc_cid\<close> holds the \<open>cid_len\<close> bytes in use of the fixed \<open>cid\<close> array.\<close>

record ncid_frame =
  nc_seq :: u64
  nc_retire_prior_to :: u64
  nc_cid_len :: u8
  nc_cid :: bytes
  nc_token :: bytes

definition ncid_valid :: "ncid_frame \<Rightarrow> bool" where
  "ncid_valid f \<longleftrightarrow> nc_cid_len f \<le> NCID_MAX_LEN \<and> nc_retire_prior_to f \<le> nc_seq f"

definition put_ncid_head :: "ncid_frame \<Rightarrow> writer" where
  "put_ncid_head f =
     put_seq [varint_put FRAME_NEW_CID, varint_put (nc_seq f), varint_put (nc_retire_prior_to f)]"

definition put_ncid_body :: "ncid_frame \<Rightarrow> writer" where
  "put_ncid_body f =
     put_seq [put_u8 (nc_cid_len f), bytes_put (take (unat (nc_cid_len f)) (nc_cid f)),
              bytes_put (take NCID_TOKEN (nc_token f))]"

definition put_ncid :: "ncid_frame \<Rightarrow> writer" where
  "put_ncid f = put_seq [put_ncid_head f, put_ncid_body f]"

definition ncid_encode :: "bytes \<Rightarrow> ncid_frame \<Rightarrow> nat \<times> bytes" where
  "ncid_encode buf f = (if \<not> ncid_valid f then (0, buf) else run_put (put_ncid f) buf)"

definition take_ncid_head :: "bytes \<Rightarrow> nat \<Rightarrow> ((u64 \<times> u64) \<times> nat) option" where
  "take_ncid_head inp off = do {
     (seq, off) \<leftarrow> varint_take inp off;
     (rpt, off) \<leftarrow> varint_take inp off;
     Some ((seq, rpt), off)
   }"

definition cid_len_ok :: "bytes \<Rightarrow> nat \<Rightarrow> bool" where
  "cid_len_ok buf off \<longleftrightarrow> off < length buf \<and> buf ! off - 1 < NCID_MAX_LEN"

definition take_ncid_body :: "bytes \<Rightarrow> nat \<Rightarrow> ((u8 \<times> bytes \<times> bytes) \<times> nat) option" where
  "take_ncid_body inp off =
     (if \<not> cid_len_ok inp off then None
      else do {
        let cid_len = inp ! off;
        (cid, off) \<leftarrow> bytes_take inp (off + 1) (unat cid_len);
        (token, off) \<leftarrow> bytes_take inp off NCID_TOKEN;
        Some ((cid_len, cid, token), off)
      })"

definition ncid_decode :: "bytes \<Rightarrow> (ncid_frame \<times> nat) option" where
  "ncid_decode buf = do {
     ((seq, rpt), off) \<leftarrow> take_ncid_head buf 1;
     ((cid_len, cid, token), off) \<leftarrow> take_ncid_body buf off;
     Some (\<lparr>nc_seq = seq, nc_retire_prior_to = rpt, nc_cid_len = cid_len, nc_cid = cid,
            nc_token = token\<rparr>, off)
   }"

definition ncid_check_cid_len_ok :: "u8 \<Rightarrow> bool" where
  "ncid_check_cid_len_ok cid_len \<longleftrightarrow> cid_len \<ge> 1 \<and> cid_len \<le> 20"

definition ncid_check :: "u64 \<Rightarrow> u64 \<Rightarrow> u8 \<Rightarrow> bool" where
  "ncid_check seq retire_prior_to cid_len \<longleftrightarrow>
     retire_prior_to \<le> seq \<and> ncid_check_cid_len_ok cid_len"

section \<open>crypto\_offset.c\<close>

definition crypto_offset_ok :: "u64 \<Rightarrow> u64 \<Rightarrow> u64 \<Rightarrow> bool" where
  "crypto_offset_ok offset len max_offset =
     (if offset + len < offset then False else offset + len \<le> max_offset)"

definition crypto_contiguous :: "u64 \<Rightarrow> u64 \<Rightarrow> bool" where
  "crypto_contiguous received_upto new_offset \<longleftrightarrow> new_offset \<le> received_upto"

section \<open>ncid\_worker.c\<close>

definition ncid_worker_args_bad :: "nat \<Rightarrow> int \<Rightarrow> bool" where
  "ncid_worker_args_bad cid_len bits \<longleftrightarrow> bits < 1 \<or> bits > 8 \<or> cid_len = 0"

definition ncid_worker_mask :: "int \<Rightarrow> u8" where
  "ncid_worker_mask bits = push_bit (nat (8 - bits)) 0xFF"

definition ncid_worker_encode :: "bytes \<Rightarrow> int \<Rightarrow> u32 \<Rightarrow> int \<times> bytes" where
  "ncid_worker_encode cid bits worker_idx =
     (if ncid_worker_args_bad (length cid) bits then (-1, cid)
      else let mask = ncid_worker_mask bits
           in (0, cid[0 := (cid ! 0 AND NOT mask)
                  OR ucast (push_bit (nat (8 - bits)) worker_idx AND ucast mask)]))"

definition ncid_worker_decode :: "bytes \<Rightarrow> int \<Rightarrow> int" where
  "ncid_worker_decode cid bits =
     (if ncid_worker_args_bad (length cid) bits then -1
      else let mask = ncid_worker_mask bits
           in uint (drop_bit (nat (8 - bits)) (cid ! 0 AND mask)))"

record ncid_route_key =
  rk_k0 :: u64
  rk_k1 :: u64
  rk_k2 :: u64

definition ncid_route_mask :: "bytes \<Rightarrow> ncid_route_key \<Rightarrow> u8" where
  "ncid_route_mask cid key =
     (let w = ucast (cid ! 1) OR push_bit 8 (ucast (cid ! 2)) OR push_bit 16 (ucast (cid ! 3))
              OR push_bit 24 (ucast (cid ! 4));
          x = (w XOR rk_k0 key) * rk_k1 key;
          x = x XOR drop_bit 32 x;
          x = x * rk_k2 key
      in ucast (drop_bit 56 x))"

definition ncid_route_encode :: "bytes \<Rightarrow> u8 \<Rightarrow> ncid_route_key \<Rightarrow> int \<times> bytes" where
  "ncid_route_encode cid core key =
     (if length cid < 5 then (-1, cid) else (0, cid[0 := core XOR ncid_route_mask cid key]))"

definition ncid_route_decode :: "bytes \<Rightarrow> ncid_route_key \<Rightarrow> u8" where
  "ncid_route_decode cid key = cid ! 0 XOR ncid_route_mask cid key"

section \<open>Codec laws\<close>

lemma emits_put_u8 [emits_intros]: "emits (put_u8 b) [b]"
  by (simp add: emits_def put_u8_def ob_append_def)

lemmas put_intros = emits_Cons_seq emits_single_seq emits_varint_put emits_varint_byte
  emits_put_u8 emits_bytes_put

lemmas dec_simps = get_one_varint_frame_def get_two_varint_frame_def take_two_def Let_def

text \<open>A chain of reads that succeeds ends past the type byte and inside the input.\<close>

lemma varint_take_mono: "varint_take buf off = Some (v, n) \<Longrightarrow> 0 < n \<and> n \<le> length buf"
  using varint_take_bounds [of buf off v n] by simp

subsection \<open>Flow control\<close>

definition one_wire :: "u8 \<Rightarrow> u64 \<Rightarrow> bytes" where
  "one_wire t v = [t] @ varint_wire v"

definition two_wire :: "u8 \<Rightarrow> u64 \<Rightarrow> u64 \<Rightarrow> bytes" where
  "two_wire t a b = one_wire t a @ varint_wire b"

lemma emits_one_varint_frame:
  "type = ucast t \<Longrightarrow> t \<le> 0x3F \<Longrightarrow> v \<le> VARINT_MAX \<Longrightarrow>
   emits (put_one_varint_frame type v) (one_wire t v)"
  unfolding put_one_varint_frame_def one_wire_def by (intro put_intros)

lemma emits_two_varint_frame:
  "type = ucast t \<Longrightarrow> t \<le> 0x3F \<Longrightarrow> sd_stream_id f \<le> VARINT_MAX \<Longrightarrow> sd_value f \<le> VARINT_MAX \<Longrightarrow>
   emits (put_two_varint_frame type f) (two_wire t (sd_stream_id f) (sd_value f))"
  unfolding put_two_varint_frame_def two_wire_def by (intro put_intros emits_one_varint_frame)

definition data_wf :: "data_frame \<Rightarrow> bool" where
  "data_wf f \<longleftrightarrow> df_value f \<le> VARINT_MAX"

definition stream_data_wf :: "stream_data_frame \<Rightarrow> bool" where
  "stream_data_wf f \<longleftrightarrow> sd_stream_id f \<le> VARINT_MAX \<and> sd_value f \<le> VARINT_MAX"

definition streams_wf :: "streams_frame \<Rightarrow> bool" where
  "streams_wf f \<longleftrightarrow> st_max_streams f \<le> VARINT_MAX"

definition streams_wire :: "u8 \<Rightarrow> streams_frame \<Rightarrow> bytes" where
  "streams_wire t f = one_wire (if st_uni f then t + 1 else t) (st_max_streams f)"

lemmas flow_wf = data_wf_def stream_data_wf_def streams_wf_def
lemmas flow_wires = one_wire_def two_wire_def streams_wire_def

interpretation max_data: frame_codec max_data_encode max_data_decode
  "\<lambda>f. one_wire 0x10 (df_value f)" data_wf
proof (rule chain_codecI [where w = "\<lambda>f. put_one_varint_frame FRAME_MAX_DATA (df_value f)"], goal_cases)
  case (1 f)
  then show ?case by (intro emits_one_varint_frame) (simp_all add: flow_wf)
next
  case (3 f rest)
  then show ?case by (simp add: flow_wf max_data_decode_def dec_simps flow_wires decode_wire_simps)
qed (auto simp: max_data_encode_def max_data_decode_def dec_simps bind_eq_Some_conv split: if_splits
      dest!: varint_take_mono)

interpretation data_blocked: frame_codec data_blocked_encode data_blocked_decode
  "\<lambda>f. one_wire 0x14 (df_value f)" data_wf
proof (rule chain_codecI [where w = "\<lambda>f. put_one_varint_frame FRAME_DATA_BLOCKED (df_value f)"], goal_cases)
  case (1 f)
  then show ?case by (intro emits_one_varint_frame) (simp_all add: flow_wf)
next
  case (3 f rest)
  then show ?case by (simp add: flow_wf data_blocked_decode_def dec_simps flow_wires decode_wire_simps)
qed (auto simp: data_blocked_encode_def data_blocked_decode_def dec_simps bind_eq_Some_conv split: if_splits
      dest!: varint_take_mono)

interpretation max_stream_data: frame_codec max_stream_data_encode max_stream_data_decode
  "\<lambda>f. two_wire 0x11 (sd_stream_id f) (sd_value f)" stream_data_wf
proof (rule chain_codecI [where w = "put_two_varint_frame FRAME_MAX_STREAM_DATA"], goal_cases)
  case (1 f)
  then show ?case by (intro emits_two_varint_frame) (simp_all add: flow_wf)
next
  case (3 f rest)
  then show ?case by (simp add: flow_wf max_stream_data_decode_def dec_simps flow_wires decode_wire_simps)
qed (auto simp: max_stream_data_encode_def max_stream_data_decode_def dec_simps bind_eq_Some_conv split: if_splits
      dest!: varint_take_mono)

interpretation stream_data_blocked: frame_codec stream_data_blocked_encode stream_data_blocked_decode
  "\<lambda>f. two_wire 0x15 (sd_stream_id f) (sd_value f)" stream_data_wf
proof (rule chain_codecI [where w = "put_two_varint_frame FRAME_STREAM_DATA_BLOCKED"], goal_cases)
  case (1 f)
  then show ?case by (intro emits_two_varint_frame) (simp_all add: flow_wf)
next
  case (3 f rest)
  then show ?case by (simp add: flow_wf stream_data_blocked_decode_def dec_simps flow_wires decode_wire_simps)
qed (auto simp: stream_data_blocked_encode_def stream_data_blocked_decode_def dec_simps bind_eq_Some_conv split: if_splits
      dest!: varint_take_mono)

lemma emits_max_streams:
  "streams_wf f \<Longrightarrow>
   emits (put_one_varint_frame (streams_type FRAME_MAX_STREAMS_BIDI (st_uni f)) (st_max_streams f)) (streams_wire 0x12 f)"
  unfolding streams_wire_def
  by (rule emits_one_varint_frame) (simp_all add: streams_type_def streams_wf_def)

interpretation max_streams: frame_codec max_streams_encode max_streams_decode
  "streams_wire 0x12" streams_wf
proof (rule chain_codecI [where w = "\<lambda>f. put_one_varint_frame (streams_type FRAME_MAX_STREAMS_BIDI (st_uni f)) (st_max_streams f)"], goal_cases)
  case (1 f)
  then show ?case by (intro emits_max_streams) (simp_all add: flow_wf)
next
  case (3 f rest)
  then show ?case by (simp add: flow_wf max_streams_decode_def dec_simps flow_wires decode_wire_simps)
qed (auto simp: max_streams_encode_def max_streams_decode_def dec_simps bind_eq_Some_conv split: if_splits
      dest!: varint_take_mono)

lemma emits_streams_blocked:
  "streams_wf f \<Longrightarrow>
   emits (put_one_varint_frame (streams_type FRAME_STREAMS_BLOCKED_BIDI (st_uni f)) (st_max_streams f)) (streams_wire 0x16 f)"
  unfolding streams_wire_def
  by (rule emits_one_varint_frame) (simp_all add: streams_type_def streams_wf_def)

interpretation streams_blocked: frame_codec streams_blocked_encode streams_blocked_decode
  "streams_wire 0x16" streams_wf
proof (rule chain_codecI [where w = "\<lambda>f. put_one_varint_frame (streams_type FRAME_STREAMS_BLOCKED_BIDI (st_uni f)) (st_max_streams f)"], goal_cases)
  case (1 f)
  then show ?case by (intro emits_streams_blocked) (simp_all add: flow_wf)
next
  case (3 f rest)
  then show ?case by (simp add: flow_wf streams_blocked_decode_def dec_simps flow_wires decode_wire_simps)
qed (auto simp: streams_blocked_encode_def streams_blocked_decode_def dec_simps bind_eq_Some_conv split: if_splits
      dest!: varint_take_mono)

subsection \<open>Stream control\<close>

definition reset_stream_wire :: "reset_stream_frame \<Rightarrow> bytes" where
  "reset_stream_wire f =
     ([0x04] @ varint_wire (rs_stream_id f)) @ varint_wire (rs_error_code f) @ varint_wire (rs_final_size f)"

definition reset_stream_wf :: "reset_stream_frame \<Rightarrow> bool" where
  "reset_stream_wf f \<longleftrightarrow>
     rs_stream_id f \<le> VARINT_MAX \<and> rs_error_code f \<le> VARINT_MAX \<and> rs_final_size f \<le> VARINT_MAX"

lemma emits_reset_stream:
  "reset_stream_wf f \<Longrightarrow> emits (put_seq [put_rs_head f, put_rs_tail f]) (reset_stream_wire f)"
  unfolding put_rs_head_def put_rs_tail_def reset_stream_wire_def
  by (intro put_intros) (simp_all add: reset_stream_wf_def)

interpretation reset_stream: frame_codec reset_stream_encode reset_stream_decode
  reset_stream_wire reset_stream_wf
proof (rule chain_codecI [where w = "\<lambda>f. put_seq [put_rs_head f, put_rs_tail f]"], goal_cases)
  case (1 f)
  then show ?case by (rule emits_reset_stream)
next
  case (3 f rest)
  then show ?case by (simp add: reset_stream_wf_def reset_stream_decode_def dec_simps reset_stream_wire_def decode_wire_simps)
qed (auto simp: reset_stream_wf_def reset_stream_encode_def reset_stream_decode_def dec_simps bind_eq_Some_conv split: if_splits
      dest!: varint_take_mono)

definition stop_sending_wire :: "stop_sending_frame \<Rightarrow> bytes" where
  "stop_sending_wire f = ([0x05] @ varint_wire (ss_stream_id f)) @ varint_wire (ss_error_code f)"

definition stop_sending_wf :: "stop_sending_frame \<Rightarrow> bool" where
  "stop_sending_wf f \<longleftrightarrow> ss_stream_id f \<le> VARINT_MAX \<and> ss_error_code f \<le> VARINT_MAX"

lemma emits_stop_sending:
  "stop_sending_wf f \<Longrightarrow>
   emits (put_seq [put_seq [varint_put FRAME_STOP_SENDING, varint_put (ss_stream_id f)],
                   varint_put (ss_error_code f)]) (stop_sending_wire f)"
  unfolding stop_sending_wire_def
  by (intro put_intros) (simp_all add: stop_sending_wf_def)

interpretation stop_sending: frame_codec stop_sending_encode stop_sending_decode
  stop_sending_wire stop_sending_wf
proof (rule chain_codecI [where w = "\<lambda>f. put_seq [put_seq [varint_put FRAME_STOP_SENDING, varint_put (ss_stream_id f)], varint_put (ss_error_code f)]"], goal_cases)
  case (1 f)
  then show ?case by (rule emits_stop_sending)
next
  case (3 f rest)
  then show ?case by (simp add: stop_sending_wf_def stop_sending_decode_def dec_simps stop_sending_wire_def decode_wire_simps)
qed (auto simp: stop_sending_wf_def stop_sending_encode_def stop_sending_decode_def dec_simps bind_eq_Some_conv split: if_splits
      dest!: varint_take_mono)

definition reset_stream_at_wire :: "reset_stream_at_frame \<Rightarrow> bytes" where
  "reset_stream_at_wire f =
     ([0x24] @ varint_wire (ra_stream_id f) @ varint_wire (ra_error_code f))
     @ varint_wire (ra_final_size f) @ varint_wire (ra_reliable_size f)"

definition reset_stream_at_wf :: "reset_stream_at_frame \<Rightarrow> bool" where
  "reset_stream_at_wf f \<longleftrightarrow>
     ra_stream_id f \<le> VARINT_MAX \<and> ra_error_code f \<le> VARINT_MAX \<and> ra_final_size f \<le> VARINT_MAX
     \<and> ra_reliable_size f \<le> VARINT_MAX \<and> rs_at_size_ok f"

lemma emits_reset_stream_at:
  "reset_stream_at_wf f \<Longrightarrow> emits (put_rsat_body f) (reset_stream_at_wire f)"
  unfolding put_rsat_body_def put_rsat_head_def put_rsat_tail_def reset_stream_at_wire_def
  by (intro put_intros) (simp_all add: reset_stream_at_wf_def)

interpretation reset_stream_at: frame_codec reset_stream_at_encode reset_stream_at_decode
  reset_stream_at_wire reset_stream_at_wf
proof (rule chain_codecI [where w = put_rsat_body], goal_cases)
  case (1 f)
  then show ?case by (rule emits_reset_stream_at)
next
  case (3 f rest)
  then show ?case by (simp add: reset_stream_at_wf_def rs_at_size_ok_def reset_stream_at_decode_def take_rsat_body_def dec_simps reset_stream_at_wire_def decode_wire_simps)
qed (auto simp: reset_stream_at_wf_def reset_stream_at_encode_def reset_stream_at_decode_def take_rsat_body_def dec_simps bind_eq_Some_conv split: if_splits
      dest!: varint_take_mono)

lemma reset_stream_at_decode_size:
  "reset_stream_at_decode buf = Some (f, n) \<Longrightarrow> ra_reliable_size f \<le> ra_final_size f"
  by (auto simp: reset_stream_at_decode_def rs_at_size_ok_def bind_eq_Some_conv split: if_splits)

subsection \<open>Connection control\<close>

definition new_token_wire :: "new_token_frame \<Rightarrow> bytes" where
  "new_token_wire f = ([0x07] @ varint_wire (nt_length f)) @ nt_token f"

definition new_token_wf :: "new_token_frame \<Rightarrow> bool" where
  "new_token_wf f \<longleftrightarrow> nt_length f \<le> VARINT_MAX \<and> length (nt_token f) = unat (nt_length f)"

lemma emits_new_token:
  assumes "new_token_wf f"
  shows "emits (put_seq [put_new_token_head (nt_length f),
           bytes_put (take (unat (nt_length f)) (nt_token f))]) (new_token_wire f)"
proof -
  have "take (unat (nt_length f)) (nt_token f) = nt_token f"
    using assms by (simp add: new_token_wf_def)
  then show ?thesis
    unfolding put_new_token_head_def new_token_wire_def
    using assms by (simp only:) (intro put_intros, simp_all add: new_token_wf_def)
qed

lemma take_token_view_exact:
  assumes "len \<le> VARINT_MAX" and "off < 2 ^ 63"
  shows "take_token_view inp off len =
     (if off + unat len > length inp then None else Some (take (unat len) (drop off inp), off + unat len))"
proof -
  have "usz_add off (unat len) = off + unat len"
    using assms by (intro usz_add_exact) (simp add: u64_le_mono VARINT_MAX_def)
  then show ?thesis by (simp add: take_token_view_def)
qed

interpretation new_token: frame_codec new_token_encode new_token_decode
  new_token_wire new_token_wf
proof (rule chain_codecI [where w = "\<lambda>f. put_seq [put_new_token_head (nt_length f), bytes_put (take (unat (nt_length f)) (nt_token f))]"], goal_cases)
  case (1 f)
  then show ?case by (rule emits_new_token)
next
  case (3 f rest)
  then show ?case
    using varint_len_le8 [of "nt_length f"] by (simp add: new_token_wf_def new_token_decode_def dec_simps new_token_wire_def take_token_view_exact decode_wire_simps)
qed (auto simp: new_token_wf_def new_token_encode_def new_token_decode_def take_token_view_def dec_simps bind_eq_Some_conv split: if_splits
      dest!: varint_take_mono)

definition retire_cid_wf :: "u64 \<Rightarrow> bool" where
  "retire_cid_wf seq \<longleftrightarrow> seq \<le> VARINT_MAX"

lemma emits_retire_cid:
  "retire_cid_wf seq \<Longrightarrow>
   emits (put_seq [varint_put FRAME_RETIRE_CID, varint_put seq]) (one_wire 0x19 seq)"
  unfolding one_wire_def by (intro put_intros) (simp_all add: retire_cid_wf_def)

interpretation retire_cid: frame_codec retire_cid_encode retire_cid_decode
  "one_wire 0x19" retire_cid_wf
proof (rule chain_codecI [where w = "\<lambda>seq. put_seq [varint_put FRAME_RETIRE_CID, varint_put seq]"], goal_cases)
  case (1 f)
  then show ?case by (rule emits_retire_cid)
next
  case (3 f rest)
  then show ?case by (simp add: retire_cid_wf_def retire_cid_decode_def dec_simps one_wire_def decode_wire_simps)
qed (auto simp: retire_cid_wf_def retire_cid_encode_def retire_cid_decode_def dec_simps bind_eq_Some_conv split: if_splits
      dest!: varint_take_mono)

definition path_wf :: "bytes \<Rightarrow> bool" where
  "path_wf data \<longleftrightarrow> length data = PATH_DATA"

lemma emits_path:
  "path_wf data \<Longrightarrow> emits (put_seq [put_u8 t, bytes_put (take PATH_DATA data)]) ([t] @ data)"
  using emits_Cons_seq [OF emits_put_u8 emits_single_seq [OF emits_bytes_put], of t data]
  by (simp add: path_wf_def)

interpretation path: frame_codec "path_encode t" "path_decode t" "\<lambda>data. [t] @ data" path_wf for t
proof (rule chain_codecI [where w = "\<lambda>data. put_seq [put_u8 t, bytes_put (take PATH_DATA data)]"], goal_cases)
  case (1 f)
  then show ?case by (rule emits_path)
qed (auto simp: path_encode_def path_decode_def path_wf_def type_is_def bytes_take_def split: if_splits)

definition ncid_wire :: "ncid_frame \<Rightarrow> bytes" where
  "ncid_wire f =
     ([0x18] @ varint_wire (nc_seq f) @ varint_wire (nc_retire_prior_to f))
     @ [nc_cid_len f] @ nc_cid f @ nc_token f"

definition ncid_wf :: "ncid_frame \<Rightarrow> bool" where
  "ncid_wf f \<longleftrightarrow> nc_seq f \<le> VARINT_MAX \<and> ncid_check (nc_seq f) (nc_retire_prior_to f) (nc_cid_len f)
     \<and> length (nc_cid f) = unat (nc_cid_len f) \<and> length (nc_token f) = NCID_TOKEN"

lemma ncid_wf_simps:
  assumes "ncid_wf f"
  shows "nc_seq f \<le> VARINT_MAX" "nc_retire_prior_to f \<le> VARINT_MAX" "ncid_valid f"
    "take (unat (nc_cid_len f)) (nc_cid f) = nc_cid f" "take NCID_TOKEN (nc_token f) = nc_token f"
    "length (nc_cid f) = unat (nc_cid_len f)" "length (nc_token f) = NCID_TOKEN"
    "nc_cid_len f - 1 < NCID_MAX_LEN"
proof -
  have "unat (nc_cid_len f - 1) = unat (nc_cid_len f) - 1" "unat (nc_cid_len f) \<le> 20"
    "1 \<le> unat (nc_cid_len f)"
    using assms unat_sub [of 1 "nc_cid_len f"]
    by (auto simp: ncid_wf_def ncid_check_def ncid_check_cid_len_ok_def word_le_nat_alt)
  then show "nc_cid_len f - 1 < NCID_MAX_LEN" by (simp add: NCID_MAX_LEN_def word_less_nat_alt)
qed (use assms in \<open>auto simp: ncid_wf_def ncid_check_def ncid_valid_def NCID_MAX_LEN_def
      ncid_check_cid_len_ok_def intro: order_trans\<close>)

lemma emits_ncid: "ncid_wf f \<Longrightarrow> emits (put_ncid f) (ncid_wire f)"
  unfolding put_ncid_def put_ncid_head_def put_ncid_body_def ncid_wire_def
  using emits_bytes_put ncid_wf_simps [of f]
  by (simp only:) (intro put_intros, simp_all)

interpretation ncid: frame_codec ncid_encode ncid_decode ncid_wire ncid_wf
proof (rule chain_codecI [where w = put_ncid], goal_cases)
  case (1 f)
  then show ?case by (rule emits_ncid)
next
  case (2 buf f)
  then show ?case by (simp add: ncid_encode_def ncid_wf_simps)
next
  case (3 f rest)
  then show ?case
    by (simp add: ncid_wf_simps ncid_decode_def take_ncid_head_def take_ncid_body_def cid_len_ok_def
      ncid_wire_def bytes_take_def decode_wire_simps nth_append Let_def)
next
  case (4 buf f n)
  then show ?case
    by (auto simp: ncid_decode_def take_ncid_body_def bytes_take_def bind_eq_Some_conv Let_def
      split: if_splits)
qed

text \<open>
  \<open>ncid_encode\<close> also accepts the zero-length connection ID that \<open>ncid_decode\<close> refuses, and
  \<open>ncid_decode\<close> leaves the order of the two sequence numbers to \<open>ncid_check\<close>.
\<close>

lemma ncid_decode_len:
  assumes "ncid_decode buf = Some (f, n)"
  shows "ncid_check_cid_len_ok (nc_cid_len f)" and "length (nc_cid f) = unat (nc_cid_len f)"
    and "length (nc_token f) = NCID_TOKEN"
proof -
  obtain b where b: "b - 1 < NCID_MAX_LEN" "nc_cid_len f = b" "length (nc_cid f) = unat b"
    "length (nc_token f) = NCID_TOKEN"
    using assms by (fastforce simp: ncid_decode_def take_ncid_body_def cid_len_ok_def bytes_take_def
        bind_eq_Some_conv Let_def split: if_splits)
  have "b \<noteq> 0" using b(1) by (auto simp: NCID_MAX_LEN_def word_less_nat_alt unsigned_minus_1_eq_mask mask_eq_exp_minus_1)
  then have "1 \<le> unat b" by (metis One_nat_def Suc_leI unat_gt_0)
  moreover from this have "unat (b - 1) = unat b - 1" using unat_sub [of 1 b] by (simp add: word_le_nat_alt)
  ultimately show "ncid_check_cid_len_ok (nc_cid_len f)"
    using b(1,2) by (simp add: ncid_check_cid_len_ok_def NCID_MAX_LEN_def word_less_nat_alt word_le_nat_alt)
  show "length (nc_cid f) = unat (nc_cid_len f)" "length (nc_token f) = NCID_TOKEN"
    using b by simp_all
qed

section \<open>CRYPTO offsets\<close>

lemma crypto_offset_ok_iff:
  "crypto_offset_ok offset len m \<longleftrightarrow> unat offset + unat len \<le> unat m"
proof (cases "unat offset + unat len < 2 ^ 64")
  case True
  then show ?thesis by (simp add: crypto_offset_ok_def u64_less_mono u64_le_mono unat_add_u64)
next
  case False
  moreover have "unat offset + unat len - 18446744073709551616 < 18446744073709551616"
    using unat_lt_u64 [of offset] unat_lt_u64 [of len] by linarith
  ultimately have "unat (offset + len) = unat offset + unat len - 18446744073709551616"
    by (simp add: unat_word_ariths le_mod_geq)
  then have "offset + len < offset"
    using unat_lt_u64 [of len] False unfolding u64_less_mono power_2_64 by linarith
  moreover have "\<not> unat offset + unat len \<le> unat m"
    using unat_lt_u64 [of m] False unfolding power_2_64 by linarith
  ultimately show ?thesis by (simp add: crypto_offset_ok_def)
qed

section \<open>The routing byte of a connection ID\<close>

lemma ncid_route_roundtrip:
  assumes "5 \<le> length cid" and "ncid_route_encode cid core key = (r, cid')"
  shows "r = 0" and "ncid_route_decode cid' key = core" and "tl cid' = tl cid"
proof -
  have c: "cid' = cid[0 := core XOR ncid_route_mask cid key]" "r = 0"
    using assms by (simp_all add: ncid_route_encode_def)
  then have "ncid_route_mask cid' key = ncid_route_mask cid key"
    by (simp add: ncid_route_mask_def)
  moreover have "cid' ! 0 = core XOR ncid_route_mask cid key" using c assms(1) by (cases cid) auto
  ultimately show "ncid_route_decode cid' key = core"
    by (simp add: ncid_route_decode_def xor.assoc)
  show "r = 0" "tl cid' = tl cid" using c assms(1) by (cases cid; simp)+
qed

lemma ncid_worker_mask_bit:
  "1 \<le> b \<Longrightarrow> b \<le> 8 \<Longrightarrow> bit (ncid_worker_mask b) n \<longleftrightarrow> nat (8 - b) \<le> n \<and> n < 8"
proof -
  have m: "(0xFF :: u8) = mask 8" by (simp add: mask_eq_exp_minus_1)
  show ?thesis unfolding ncid_worker_mask_def m by (auto simp: bit_simps)
qed

lemma ncid_worker_roundtrip:
  assumes "cid \<noteq> []" and b: "1 \<le> b" "b \<le> 8"
  shows "fst (ncid_worker_encode cid b w) = 0"
    and "ncid_worker_decode (snd (ncid_worker_encode cid b w)) b = uint w mod 2 ^ nat b"
proof -
  show "fst (ncid_worker_encode cid b w) = 0"
    using assms by (simp add: ncid_worker_encode_def ncid_worker_args_bad_def Let_def)
  let ?k = "nat (8 - b)" and ?m = "ncid_worker_mask b"
  have "drop_bit ?k (((cid ! 0 AND NOT ?m) OR ucast (push_bit ?k w AND ucast ?m)) AND ?m)
        = ucast (take_bit (nat b) w)"
    using b by (intro bit_word_eqI) (auto simp: bit_simps ncid_worker_mask_bit)
  moreover have "uint (ucast (take_bit (nat b) w) :: u8) = uint w mod 2 ^ nat b"
  proof -
    have "uint (take_bit (nat b) w) = take_bit (nat b) (uint w)"
      by (simp add: unsigned_take_bit_eq)
    moreover have "take_bit 8 (take_bit (nat b) (uint w)) = take_bit (nat b) (uint w)"
      using b by (simp add: min_absorb2)
    ultimately show ?thesis by (simp add: unsigned_ucast_eq flip: take_bit_eq_mod)
  qed
  ultimately show "ncid_worker_decode (snd (ncid_worker_encode cid b w)) b = uint w mod 2 ^ nat b"
    using assms by (simp add: ncid_worker_encode_def ncid_worker_decode_def ncid_worker_args_bad_def Let_def)
qed

end
