(* ===== verification/Frame_Ack.thy ===== *)
theory Frame_Ack
  imports Frame_Ctl
begin

unbundle bit_operations_syntax

text \<open>
  \<^verbatim>\<open>src/transport/packet/frame/frame\<close>: the ACK frame of \<^verbatim>\<open>ack.c\<close> and \<^verbatim>\<open>ack_take.c\<close> with the range
  checks of \<^verbatim>\<open>ack_range.c\<close>. The acknowledged set is a list of inclusive ranges, descending and
  separated by at least one packet number. The lemmas show that a well-formed frame is
  encoded and read back, that a frame with more ranges than \<open>ACK_MAX_RANGES\<close> is consumed
  whole and cut to its newest ranges, that every decoded frame is well formed, and that the
  encoder refuses every malformed range list.
\<close>

section \<open>ack.c\<close>

definition FRAME_ACK :: u64 where "FRAME_ACK = 0x02"
definition FRAME_ACK_ECN :: u64 where "FRAME_ACK_ECN = 0x03"
definition ACK_MAX_RANGES :: nat where "ACK_MAX_RANGES = 32"

record ack_range =
  ar_hi :: u64
  ar_lo :: u64

text \<open>\<open>af_ranges\<close> holds the \<open>n_ranges\<close> entries in use of the fixed \<open>ranges\<close> array.\<close>

record ack_frame =
  af_ack_delay :: u64
  af_ranges :: "ack_range list"
  af_has_ecn :: bool
  af_ect0 :: u64
  af_ect1 :: u64
  af_ce :: u64

definition put_pair :: "ack_range \<Rightarrow> ack_range \<Rightarrow> writer" where
  "put_pair prev cur =
     put_seq [varint_put (ar_lo prev - ar_hi cur - 2), varint_put (ar_hi cur - ar_lo cur)]"

definition ack_type :: "ack_frame \<Rightarrow> u64" where
  "ack_type f = (if af_has_ecn f then FRAME_ACK_ECN else FRAME_ACK)"

definition put_ack_meta :: "ack_frame \<Rightarrow> writer" where
  "put_ack_meta f =
     put_seq [varint_put (ack_type f), varint_put (ar_hi (af_ranges f ! 0)), varint_put (af_ack_delay f)]"

definition put_two :: "u64 \<Rightarrow> u64 \<Rightarrow> writer" where
  "put_two a b = put_seq [varint_put a, varint_put b]"

definition put_ack_ecn :: "ack_frame \<Rightarrow> writer" where
  "put_ack_ecn f out =
     (if \<not> af_has_ecn f then (True, out)
      else put_seq [put_two (af_ect0 f) (af_ect1 f), varint_put (af_ce f)] out)"

definition put_ack_head :: "ack_frame \<Rightarrow> writer" where
  "put_ack_head f =
     (let r0 = af_ranges f ! 0
      in put_seq [put_ack_meta f, put_two (of_nat (length (af_ranges f)) - 1) (ar_hi r0 - ar_lo r0)])"

text \<open>The loop over the remaining ranges notes a failure and goes on to the next range.\<close>

fun put_pairs_loop :: "bool \<Rightarrow> ack_range \<Rightarrow> ack_range list \<Rightarrow> writer" where
  "put_pairs_loop ok prev [] out = (ok, out)"
| "put_pairs_loop ok prev (cur # rs) out =
     (case put_pair prev cur out of (k, out') \<Rightarrow> put_pairs_loop (if \<not> k then False else ok) cur rs out')"

definition put_ack_pairs :: "ack_frame \<Rightarrow> writer" where
  "put_ack_pairs f = put_pairs_loop True (af_ranges f ! 0) (tl (af_ranges f))"

definition ranges_ok :: "nat \<Rightarrow> bool" where
  "ranges_ok n \<longleftrightarrow> n \<noteq> 0 \<and> n \<le> ACK_MAX_RANGES"

definition put_ack_pairs_ecn :: "ack_frame \<Rightarrow> writer" where
  "put_ack_pairs_ecn f = put_seq [put_ack_pairs f, put_ack_ecn f]"

definition put_ack_body :: "ack_frame \<Rightarrow> writer" where
  "put_ack_body f = put_seq [put_ack_head f, put_ack_pairs_ecn f]"

definition ack_encode :: "bytes \<Rightarrow> ack_frame \<Rightarrow> nat \<times> bytes" where
  "ack_encode buf f =
     (if \<not> ranges_ok (length (af_ranges f)) then (0, buf) else run_put (put_ack_body f) buf)"

section \<open>ack\_take.c\<close>

record ackdec =
  ad_ack_delay :: u64
  ad_largest :: u64
  ad_first :: u64
  ad_count :: u64

definition take_ack_meta :: "bytes \<Rightarrow> nat \<Rightarrow> ((u64 \<times> u64 \<times> u64) \<times> nat) option" where
  "take_ack_meta inp off = do {
     (largest, off) \<leftarrow> varint_take inp off;
     (delay, off) \<leftarrow> varint_take inp off;
     (count, off) \<leftarrow> varint_take inp off;
     Some ((largest, delay, count), off)
   }"

definition take_first :: "bytes \<Rightarrow> nat \<Rightarrow> u64 \<Rightarrow> (u64 \<times> nat) option" where
  "take_first inp off largest = do {
     (first, off) \<leftarrow> varint_take inp off;
     if first \<le> largest then Some (first, off) else None
   }"

definition ack_take_ack_head :: "bytes \<Rightarrow> nat \<Rightarrow> ((ackdec \<times> ack_range) \<times> nat) option" where
  "ack_take_ack_head inp off = do {
     ((largest, delay, count), off) \<leftarrow> take_ack_meta inp off;
     (first, off) \<leftarrow> take_first inp off largest;
     Some ((\<lparr>ad_ack_delay = delay, ad_largest = largest, ad_first = first, ad_count = count\<rparr>,
            \<lparr>ar_hi = largest, ar_lo = largest - first\<rparr>), off)
   }"

definition pair_fits :: "u64 \<Rightarrow> u64 \<Rightarrow> u64 \<Rightarrow> bool" where
  "pair_fits prev_lo gap len \<longleftrightarrow> prev_lo \<ge> gap + 2 \<and> prev_lo - gap - 2 \<ge> len"

definition take_pair :: "bytes \<Rightarrow> nat \<Rightarrow> u64 \<Rightarrow> (ack_range \<times> nat) option" where
  "take_pair inp off prev_lo = do {
     ((gap, len), off) \<leftarrow> take_two inp off;
     if pair_fits prev_lo gap len
     then (let hi = prev_lo - gap - 2 in Some (\<lparr>ar_hi = hi, ar_lo = hi - len\<rparr>, off))
     else None
   }"

text \<open>
  \<open>take_ack_pairs\<close>: \<open>i\<close> is the loop index and \<open>left\<close> the iterations still to run; a range past
  the fixed array is read and dropped (\<open>pair_slot\<close>, \<open>pair_store\<close>).
\<close>

fun take_ack_pairs :: "bytes \<Rightarrow> nat \<Rightarrow> u64 \<Rightarrow> nat \<Rightarrow> nat \<Rightarrow> ack_range list \<Rightarrow> (ack_range list \<times> nat) option" where
  "take_ack_pairs inp off prev_lo i 0 rs = Some (rs, off)"
| "take_ack_pairs inp off prev_lo i (Suc left) rs = do {
     (r, off) \<leftarrow> take_pair inp off prev_lo;
     take_ack_pairs inp off (ar_lo r) (i + 1) left (if i < ACK_MAX_RANGES then rs @ [r] else rs)
   }"

definition ranges_kept :: "u64 \<Rightarrow> nat" where
  "ranges_kept count =
     (if count + 1 \<le> of_nat ACK_MAX_RANGES then unat count + 1 else ACK_MAX_RANGES)"

definition take_ack_ecn :: "bytes \<Rightarrow> nat \<Rightarrow> bool \<Rightarrow> ((u64 \<times> u64 \<times> u64) \<times> nat) option" where
  "take_ack_ecn inp off has_ecn =
     (if \<not> has_ecn then Some ((0, 0, 0), off)
      else do {
        ((ect0, ect1), off) \<leftarrow> take_two inp off;
        (ce, off) \<leftarrow> varint_take inp off;
        Some ((ect0, ect1, ce), off)
      })"

definition ack_decode :: "bytes \<Rightarrow> (ack_frame \<times> nat) option" where
  "ack_decode buf = do {
     let has_ecn = (buf ! 0 = ucast FRAME_ACK_ECN);
     ((d, r0), off) \<leftarrow> ack_take_ack_head buf 1;
     (rs, off) \<leftarrow> take_ack_pairs buf off (ar_lo r0) 1 (unat (ad_count d)) [r0];
     ((ect0, ect1, ce), off) \<leftarrow> take_ack_ecn buf off has_ecn;
     Some (\<lparr>af_ack_delay = ad_ack_delay d, af_ranges = take (ranges_kept (ad_count d)) rs,
            af_has_ecn = has_ecn, af_ect0 = ect0, af_ect1 = ect1, af_ce = ce\<rparr>, off)
   }"

section \<open>ack\_range.c\<close>

definition ack_range_ok :: "u64 \<Rightarrow> u64 \<Rightarrow> bool" where
  "ack_range_ok largest first_range \<longleftrightarrow> first_range \<le> largest"

definition ack_gap_ok :: "u64 \<Rightarrow> u64 \<Rightarrow> u64 \<Rightarrow> bool" where
  "ack_gap_ok smallest gap range_len =
     (if smallest < gap + 2 then False else smallest - gap - 2 \<ge> range_len)"

section \<open>Well-formed range lists\<close>

text \<open>Each range is non-empty and lies at least two below the range before it.\<close>

fun ranges_desc :: "ack_range list \<Rightarrow> bool" where
  "ranges_desc [] = True"
| "ranges_desc [r] = (ar_lo r \<le> ar_hi r)"
| "ranges_desc (r # s # rs) \<longleftrightarrow>
     ar_lo r \<le> ar_hi r \<and> unat (ar_hi s) + 2 \<le> unat (ar_lo r) \<and> ranges_desc (s # rs)"

definition ranges_set :: "ack_range list \<Rightarrow> nat set" where
  "ranges_set rs = (\<Union>r \<in> set rs. {unat (ar_lo r)..unat (ar_hi r)})"

fun pairs_wire :: "ack_range \<Rightarrow> ack_range list \<Rightarrow> bytes" where
  "pairs_wire prev [] = []"
| "pairs_wire prev (r # rs) =
     (varint_wire (ar_lo prev - ar_hi r - 2) @ varint_wire (ar_hi r - ar_lo r)) @ pairs_wire r rs"

definition ecn_wire :: "ack_frame \<Rightarrow> bytes" where
  "ecn_wire f =
     (if af_has_ecn f then (varint_wire (af_ect0 f) @ varint_wire (af_ect1 f)) @ varint_wire (af_ce f)
      else [])"

definition ack_head_wire :: "ack_frame \<Rightarrow> bytes" where
  "ack_head_wire f =
     (let r0 = af_ranges f ! 0
      in ([if af_has_ecn f then 0x03 else 0x02] @ varint_wire (ar_hi r0) @ varint_wire (af_ack_delay f))
         @ varint_wire (of_nat (length (af_ranges f)) - 1) @ varint_wire (ar_hi r0 - ar_lo r0))"

definition ack_wire :: "ack_frame \<Rightarrow> bytes" where
  "ack_wire f = ack_head_wire f @ pairs_wire (af_ranges f ! 0) (tl (af_ranges f)) @ ecn_wire f"

text \<open>\<open>ack_ok\<close> admits any number of ranges a varint can count, \<open>ack_wf\<close> what the array holds.\<close>

definition ack_ok :: "ack_frame \<Rightarrow> bool" where
  "ack_ok f \<longleftrightarrow> af_ranges f \<noteq> [] \<and> length (af_ranges f) \<le> 2 ^ 62 \<and> ranges_desc (af_ranges f)
     \<and> ar_hi (af_ranges f ! 0) \<le> VARINT_MAX \<and> af_ack_delay f \<le> VARINT_MAX
     \<and> af_ect0 f \<le> VARINT_MAX \<and> af_ect1 f \<le> VARINT_MAX \<and> af_ce f \<le> VARINT_MAX
     \<and> (\<not> af_has_ecn f \<longrightarrow> af_ect0 f = 0 \<and> af_ect1 f = 0 \<and> af_ce f = 0)"

definition ack_wf :: "ack_frame \<Rightarrow> bool" where
  "ack_wf f \<longleftrightarrow> ack_ok f \<and> length (af_ranges f) \<le> ACK_MAX_RANGES"

lemma ranges_descD:
  assumes "ranges_desc (r # s # rs)"
  shows "ar_lo r \<le> ar_hi r" "unat (ar_hi s) + 2 \<le> unat (ar_lo r)" "ranges_desc (s # rs)"
    "ar_lo s \<le> ar_hi s"
  using assms by (cases rs; simp)+

lemma ranges_desc_Cons: "ranges_desc (r # rs) \<Longrightarrow> ranges_desc rs \<and> ar_lo r \<le> ar_hi r"
  by (cases rs) auto

lemma gap_values:
  assumes le: "ar_lo s \<le> ar_hi s" and gap: "unat (ar_hi s) + 2 \<le> unat lo" and "lo \<le> VARINT_MAX"
  shows "lo - ar_hi s - 2 \<le> VARINT_MAX" and "ar_hi s - ar_lo s \<le> VARINT_MAX"
    and "pair_fits lo (lo - ar_hi s - 2) (ar_hi s - ar_lo s)"
proof -
  have a: "unat (lo - ar_hi s) = unat lo - unat (ar_hi s)"
    using gap by (intro unat_sub_u64) (simp add: u64_le_mono)
  have b: "unat (lo - ar_hi s - 2) = unat lo - unat (ar_hi s) - 2"
    using gap unat_sub_u64 [of 2 "lo - ar_hi s"] a by (simp add: u64_le_mono)
  have c: "unat (ar_hi s - ar_lo s) = unat (ar_hi s) - unat (ar_lo s)"
    using le by (rule unat_sub_u64)
  show "lo - ar_hi s - 2 \<le> VARINT_MAX" "ar_hi s - ar_lo s \<le> VARINT_MAX"
    using assms(3) b c gap by (auto simp: u64_le_mono)
  have "lo - ar_hi s - 2 + 2 = lo - ar_hi s" "lo - (lo - ar_hi s - 2) - 2 = ar_hi s" by simp_all
  then show "pair_fits lo (lo - ar_hi s - 2) (ar_hi s - ar_lo s)"
    using a c by (simp add: pair_fits_def u64_le_mono)
qed

section \<open>Encoding\<close>

lemma emits_put_pair:
  assumes "ranges_desc (r # s # rs)" and "ar_lo r \<le> VARINT_MAX"
  shows "emits (put_pair r s)
    (varint_wire (ar_lo r - ar_hi s - 2) @ varint_wire (ar_hi s - ar_lo s))"
  unfolding put_pair_def
  using gap_values [OF ranges_descD(4,2) [OF assms(1)] assms(2)] by (intro put_intros) simp_all

lemma put_pairs_loop_failed: "\<not> fst (put_pairs_loop False prev rs out)"
  by (induction rs arbitrary: prev out) (auto split: prod.split)

lemma put_pairs_loop_Cons:
  "put_pairs_loop True prev (r # rs) out = 
     (case put_pair prev r out of (k, out') \<Rightarrow> put_pairs_loop k r rs out')"
  by (auto split: prod.split)

lemma emits_put_pairs:
  "ranges_desc (prev # rs) \<Longrightarrow> ar_lo prev \<le> VARINT_MAX \<Longrightarrow>
   emits (put_pairs_loop True prev rs) (pairs_wire prev rs)"
proof (induction rs arbitrary: prev)
  case Nil
  then show ?case by (simp add: emits_def ob_ok_def)
next
  case (Cons r rs)
  let ?w = "varint_wire (ar_lo prev - ar_hi r - 2) @ varint_wire (ar_hi r - ar_lo r)"
  have pair: "emits (put_pair prev r) ?w"
    using Cons.prems by (rule emits_put_pair)
  have "ar_lo r \<le> ar_lo prev"
    using ranges_descD [OF Cons.prems(1)] by (simp add: u64_le_mono)
  then have rest: "emits (put_pairs_loop True r rs) (pairs_wire r rs)"
    using Cons.IH [of r] ranges_descD(3) [OF Cons.prems(1)] Cons.prems(2) by (simp add: order_trans)
  show ?case
    unfolding emits_def
  proof (intro allI impI)
    fix ob assume ok: "ob_ok ob"
    show "if ob_len ob + length (pairs_wire prev (r # rs)) \<le> ob_cap ob
          then put_pairs_loop True prev (r # rs) ob = (True, ob_append ob (pairs_wire prev (r # rs)))
          else \<not> fst (put_pairs_loop True prev (r # rs) ob)"
    proof (cases "ob_len ob + length ?w \<le> ob_cap ob")
      case True
      then have "put_pair prev r ob = (True, ob_append ob ?w)" and ok': "ob_ok (ob_append ob ?w)"
        using pair ok by (auto intro: emits_fits ob_ok_append simp del: append_assoc)
      then show ?thesis
        using rest ok' unfolding put_pairs_loop_Cons
        by (auto simp: ob_append_append emits_def add.assoc simp del: put_pairs_loop.simps)
    next
      case False
      then have "\<not> fst (put_pair prev r ob)" using pair ok by (simp add: emits_def)
      moreover have "\<not> ob_len ob + length (pairs_wire prev (r # rs)) \<le> ob_cap ob" using False by simp
      ultimately show ?thesis
        unfolding put_pairs_loop_Cons by (auto simp: put_pairs_loop_failed split: prod.split)
    qed
  qed
qed

lemma ack_ok_simps:
  assumes "ack_ok f"
  shows "ar_hi (af_ranges f ! 0) \<le> VARINT_MAX" "af_ack_delay f \<le> VARINT_MAX"
    "af_ect0 f \<le> VARINT_MAX" "af_ect1 f \<le> VARINT_MAX" "af_ce f \<le> VARINT_MAX"
    "of_nat (length (af_ranges f)) - 1 \<le> VARINT_MAX"
    "unat (of_nat (length (af_ranges f)) - 1 :: u64) = length (af_ranges f) - 1"
    "ar_lo (af_ranges f ! 0) \<le> ar_hi (af_ranges f ! 0)"
    "ar_lo (af_ranges f ! 0) \<le> VARINT_MAX"
    "ar_hi (af_ranges f ! 0) - ar_lo (af_ranges f ! 0) \<le> VARINT_MAX"
    "ranges_desc (af_ranges f ! 0 # tl (af_ranges f))"
proof -
  obtain r rs where rs: "af_ranges f = r # rs" using assms by (cases "af_ranges f") (auto simp: ack_ok_def)
  have len: "length (af_ranges f) \<le> 2 ^ 62" using assms by (simp add: ack_ok_def)
  have u: "unat (of_nat (length (af_ranges f)) :: u64) = length (af_ranges f)"
    using len by (simp add: unsigned_of_nat take_bit_eq_mod)
  show "unat (of_nat (length (af_ranges f)) - 1 :: u64) = length (af_ranges f) - 1"
    using unat_sub_u64 [of 1 "of_nat (length (af_ranges f))"] u rs by (simp add: u64_le_mono del: of_nat_Suc)
  then show "of_nat (length (af_ranges f)) - 1 \<le> VARINT_MAX"
    using len by (simp add: u64_le_mono VARINT_MAX_def)
  show le: "ar_lo (af_ranges f ! 0) \<le> ar_hi (af_ranges f ! 0)"
    using assms ranges_desc_Cons [of r rs] by (simp add: ack_ok_def rs)
  show "ar_hi (af_ranges f ! 0) - ar_lo (af_ranges f ! 0) \<le> VARINT_MAX"
    "ar_lo (af_ranges f ! 0) \<le> VARINT_MAX"
    using assms le unat_sub_u64 [OF le] by (auto simp: ack_ok_def u64_le_mono)
qed (use assms in \<open>auto simp: ack_ok_def neq_Nil_conv\<close>)

lemma emits_put_ack_ecn: "ack_ok f \<Longrightarrow> emits (put_ack_ecn f) (ecn_wire f)"
proof (cases "af_has_ecn f")
  case True
  assume "ack_ok f"
  then have "emits (put_seq [put_two (af_ect0 f) (af_ect1 f), varint_put (af_ce f)]) (ecn_wire f)"
    unfolding ecn_wire_def put_two_def using True
    by (simp only: if_True) (intro put_intros, simp_all add: ack_ok_simps)
  moreover have "put_ack_ecn f = put_seq [put_two (af_ect0 f) (af_ect1 f), varint_put (af_ce f)]"
    by (rule ext) (simp only: put_ack_ecn_def True simp_thms if_False)
  ultimately show ?thesis by (simp only:)
qed (simp add: emits_def put_ack_ecn_def ecn_wire_def ob_ok_def)

lemma emits_ack_head: "ack_ok f \<Longrightarrow> emits (put_ack_head f) (ack_head_wire f)"
  unfolding put_ack_head_def ack_head_wire_def put_ack_meta_def put_two_def Let_def
  by (intro put_intros) (simp_all add: ack_ok_simps ack_type_def FRAME_ACK_def FRAME_ACK_ECN_def)

lemma emits_ack: "ack_ok f \<Longrightarrow> emits (put_ack_body f) (ack_wire f)"
  unfolding put_ack_body_def put_ack_pairs_ecn_def put_ack_pairs_def ack_wire_def
  by (intro put_intros emits_ack_head emits_put_pairs emits_put_ack_ecn) (simp_all add: ack_ok_simps)

section \<open>Decoding\<close>

lemma take_two_wire:
  assumes "a \<le> VARINT_MAX" "b \<le> VARINT_MAX" "drop off inp = (varint_wire a @ varint_wire b) @ rest"
  shows "take_two inp off = Some ((a, b), off + length (varint_wire a @ varint_wire b))"
proof -
  have "drop (off + varint_len a) inp = varint_wire b @ rest"
    using assms by (metis append_assoc append_eq_conv_conj drop_drop add.commute length_varint_wire)
  then show ?thesis
    using assms by (simp add: take_two_def varint_take_alt varint_decode_wire)
qed

lemma take_pair_wire:
  assumes "ranges_desc (r # s # rs)" and "ar_lo r \<le> VARINT_MAX"
    and "drop off inp = (varint_wire (ar_lo r - ar_hi s - 2) @ varint_wire (ar_hi s - ar_lo s)) @ rest"
  shows "take_pair inp off (ar_lo r) =
    Some (s, off + length (varint_wire (ar_lo r - ar_hi s - 2) @ varint_wire (ar_hi s - ar_lo s)))"
  using take_two_wire [OF gap_values(1,2) assms(3)] gap_values [of s "ar_lo r"]
    ranges_descD [OF assms(1)] assms(2)
  by (simp add: take_pair_def del: append_assoc)

lemma take_ack_pairs_wire:
  "ranges_desc (prev # rs) \<Longrightarrow> ar_lo prev \<le> VARINT_MAX \<Longrightarrow> drop off inp = pairs_wire prev rs @ rest \<Longrightarrow>
   take_ack_pairs inp off (ar_lo prev) i (length rs) acc
   = Some (acc @ take (ACK_MAX_RANGES - i) rs, off + length (pairs_wire prev rs))"
proof (induction rs arbitrary: prev off i acc)
  case (Cons r rs)
  let ?w = "varint_wire (ar_lo prev - ar_hi r - 2) @ varint_wire (ar_hi r - ar_lo r)"
  have d: "drop off inp = ?w @ (pairs_wire r rs @ rest)" using Cons.prems(3) by simp
  then have "drop (off + length ?w) inp = pairs_wire r rs @ rest"
    by (metis append_eq_conv_conj drop_drop add.commute)
  moreover have "ar_lo r \<le> VARINT_MAX"
    using ranges_descD [OF Cons.prems(1)] Cons.prems(2) by (simp add: u64_le_mono)
  ultimately show ?case
    using Cons.IH [of r "off + length ?w"] take_pair_wire [OF Cons.prems(1,2) d]
      ranges_descD(3) [OF Cons.prems(1)]
    by (auto simp: take_Cons' length_append [of ?w] simp del: append_assoc length_append)
qed simp

lemma ranges_kept_len:
  assumes "ack_ok f"
  shows "ranges_kept (of_nat (length (af_ranges f)) - 1) = min (length (af_ranges f)) ACK_MAX_RANGES"
proof -
  let ?n = "length (af_ranges f)"
  have n: "0 < ?n" "?n \<le> 2 ^ 62" using assms by (auto simp: ack_ok_def)
  then have "unat (of_nat ?n :: u64) = ?n" by (simp add: unsigned_of_nat take_bit_eq_mod)
  then show ?thesis
    using n ack_ok_simps(7) [OF assms]
    by (auto simp: ranges_kept_def ACK_MAX_RANGES_def u64_le_mono)
qed

lemma take_ack_ecn_wire:
  assumes "ack_ok f" and "drop off inp = ecn_wire f @ rest"
  shows "take_ack_ecn inp off (af_has_ecn f)
    = Some ((af_ect0 f, af_ect1 f, af_ce f), off + length (ecn_wire f))"
proof (cases "af_has_ecn f")
  case True
  let ?w = "varint_wire (af_ect0 f) @ varint_wire (af_ect1 f)"
  have d: "drop off inp = ?w @ (varint_wire (af_ce f) @ rest)"
    using assms(2) True by (simp add: ecn_wire_def)
  then have "drop (off + length ?w) inp = varint_wire (af_ce f) @ rest"
    by (metis append_eq_conv_conj drop_drop add.commute)
  then show ?thesis
    using take_two_wire [OF _ _ d] True assms(1)
    by (simp add: take_ack_ecn_def ecn_wire_def ack_ok_simps varint_take_alt varint_decode_wire)
next
  case False
  then show ?thesis using assms(1) by (simp add: take_ack_ecn_def ecn_wire_def ack_ok_def)
qed

text \<open>An ACK frame of any number of ranges is consumed whole; the newest 32 ranges are kept.\<close>

lemma ack_decode_wire:
  assumes "ack_ok f"
  shows "ack_decode (ack_wire f @ rest)
    = Some (f\<lparr>af_ranges := take ACK_MAX_RANGES (af_ranges f)\<rparr>, length (ack_wire f))"
proof -
  define r0 where "r0 = af_ranges f ! 0"
  have rs: "af_ranges f = r0 # tl (af_ranges f)"
    using assms by (cases "af_ranges f") (auto simp: ack_ok_def r0_def)
  let ?buf = "ack_wire f @ rest"
  let ?pw = "pairs_wire r0 (tl (af_ranges f))"
  let ?d = "\<lparr>ad_ack_delay = af_ack_delay f, ad_largest = ar_hi r0, ad_first = ar_hi r0 - ar_lo r0,
             ad_count = of_nat (length (af_ranges f)) - 1\<rparr>"
  note ok = ack_ok_simps [OF assms, folded r0_def]
  have first: "?buf ! 0 = ucast FRAME_ACK_ECN \<longleftrightarrow> af_has_ecn f"
    by (simp add: ack_wire_def ack_head_wire_def FRAME_ACK_ECN_def Let_def)
  have "ar_hi r0 - ar_lo r0 \<le> ar_hi r0" using ok(8) unat_sub_u64 [OF ok(8)] by (simp add: u64_le_mono)
  then have head: "ack_take_ack_head ?buf 1 = Some ((?d, r0), length (ack_head_wire f))"
    using ok by (simp add: ack_take_ack_head_def take_ack_meta_def take_first_def ack_wire_def
      ack_head_wire_def Let_def varint_take_alt varint_decode_wire r0_def [symmetric])
  have "drop (length (ack_head_wire f)) ?buf = ?pw @ (ecn_wire f @ rest)"
    by (simp add: ack_wire_def r0_def)
  then have pairs: "take_ack_pairs ?buf (length (ack_head_wire f)) (ar_lo r0) 1 (length (tl (af_ranges f))) [r0]
      = Some ([r0] @ take (ACK_MAX_RANGES - 1) (tl (af_ranges f)), length (ack_head_wire f) + length ?pw)"
    using ok by (intro take_ack_pairs_wire) simp_all
  have "drop (length (ack_head_wire f) + length ?pw) ?buf = ecn_wire f @ rest"
    by (simp add: ack_wire_def r0_def)
  note ecn = take_ack_ecn_wire [OF assms this]
  have kept: "take (min (length (af_ranges f)) ACK_MAX_RANGES)
      (r0 # take (ACK_MAX_RANGES - 1) (tl (af_ranges f))) = take ACK_MAX_RANGES (af_ranges f)"
    by (subst (2) rs, subst rs) (simp add: take_Cons' ACK_MAX_RANGES_def min_def)
  have len: "length (ack_wire f) = length (ack_head_wire f) + length ?pw + length (ecn_wire f)"
    by (simp add: ack_wire_def r0_def)
  have count: "unat (of_nat (length (af_ranges f)) - 1 :: u64) = length (tl (af_ranges f))"
    using ok(7) by simp
  show ?thesis
    unfolding ack_decode_def Let_def first len
    by (simp only: head pairs ecn count kept ranges_kept_len [OF assms] Option.bind.simps prod.case
        ackdec.simps append_Cons append_Nil) simp
qed

interpretation ack: frame_codec ack_encode ack_decode ack_wire ack_wf
proof (rule chain_codecI [where w = put_ack_body], goal_cases)
  case (1 f)
  then show ?case by (simp add: ack_wf_def emits_ack)
next
  case (2 buf f)
  then show ?case by (auto simp: ack_wf_def ack_ok_def ack_encode_def ranges_ok_def)
next
  case (3 f rest)
  then show ?case using ack_decode_wire [of f rest] by (simp add: ack_wf_def)
next
  case (4 buf f n)
  have pairs: "take_ack_pairs buf off lo i k rs = Some (rs', off') \<Longrightarrow> 0 < off \<and> off \<le> length buf \<Longrightarrow>
      0 < off' \<and> off' \<le> length buf" for off lo i k rs rs' off'
    by (induction k arbitrary: off lo i rs)
      (auto simp: take_pair_def take_two_def bind_eq_Some_conv Let_def split: if_splits dest!: varint_take_mono)
  from 4(2) show ?case
    by (auto simp: ack_decode_def ack_take_ack_head_def take_first_def take_ack_ecn_def take_two_def Let_def
        bind_eq_Some_conv split: if_splits dest!: varint_take_mono pairs)
qed

section \<open>Every decoded frame is well formed\<close>

lemma ranges_desc_snoc:
  "ranges_desc rs \<Longrightarrow> rs \<noteq> [] \<Longrightarrow> unat (ar_hi r) + 2 \<le> unat (ar_lo (last rs)) \<Longrightarrow> ar_lo r \<le> ar_hi r \<Longrightarrow>
   ranges_desc (rs @ [r])"
  by (induction rs rule: ranges_desc.induct) auto

lemma pair_fits_iff:
  assumes "gap \<le> VARINT_MAX"
  shows "pair_fits lo gap len \<longleftrightarrow> unat gap + 2 + unat len \<le> unat lo"
proof -
  have g: "unat (gap + 2) = unat gap + 2"
    using assms by (subst unat_add_u64) (simp_all add: u64_le_mono VARINT_MAX_def)
  have e: "lo - gap - 2 = lo - (gap + 2)" by simp
  show ?thesis
  proof (cases "gap + 2 \<le> lo")
    case True
    then show ?thesis unfolding pair_fits_def e
      using unat_sub_u64 [OF True] g by (auto simp: u64_le_mono)
  next
    case False
    then show ?thesis unfolding pair_fits_def e using g by (auto simp: u64_le_mono)
  qed
qed

lemma ack_gap_ok_pair_fits: "ack_gap_ok lo gap len \<longleftrightarrow> pair_fits lo gap len"
  by (auto simp: ack_gap_ok_def pair_fits_def not_less)

lemma take_pair_desc:
  assumes "take_pair inp off lo = Some (r, off')"
  shows "unat (ar_hi r) + 2 \<le> unat lo" and "ar_lo r \<le> ar_hi r"
proof -
  obtain gap len where gl: "gap \<le> VARINT_MAX" "pair_fits lo gap len"
    and r: "r = \<lparr>ar_hi = lo - gap - 2, ar_lo = lo - gap - 2 - len\<rparr>"
    using assms varint_take_bounds(3)
    by (fastforce simp: take_pair_def take_two_def bind_eq_Some_conv Let_def split: if_splits)
  have fits: "unat gap + 2 + unat len \<le> unat lo" using gl pair_fits_iff by blast
  have g: "unat (gap + 2) = unat gap + 2"
    using gl(1) by (subst unat_add_u64) (simp_all add: u64_le_mono VARINT_MAX_def)
  have e: "lo - gap - 2 = lo - (gap + 2)" by simp
  have hi: "unat (lo - gap - 2) = unat lo - (unat gap + 2)"
    unfolding e using unat_sub_u64 [of "gap + 2" lo] fits g by (simp add: u64_le_mono)
  then have lo: "unat (lo - gap - 2 - len) = unat lo - (unat gap + 2) - unat len"
    using fits by (subst unat_sub_u64) (auto simp: u64_le_mono)
  show "unat (ar_hi r) + 2 \<le> unat lo" "ar_lo r \<le> ar_hi r"
    using fits hi lo by (auto simp: r u64_le_mono)
qed

lemma take_ack_pairs_desc:
  "take_ack_pairs inp off lo i k acc = Some (rs, off') \<Longrightarrow> acc \<noteq> [] \<Longrightarrow> ranges_desc acc \<Longrightarrow>
   length acc = min i ACK_MAX_RANGES \<Longrightarrow> (i \<le> ACK_MAX_RANGES \<Longrightarrow> ar_lo (last acc) = lo) \<Longrightarrow>
   rs \<noteq> [] \<and> hd rs = hd acc \<and> ranges_desc rs \<and> length rs = min (i + k) ACK_MAX_RANGES"
proof (induction k arbitrary: off lo i acc)
  case (Suc k)
  obtain r o1 where r: "take_pair inp off lo = Some (r, o1)"
    and rest: "take_ack_pairs inp o1 (ar_lo r) (i + 1) k (if i < ACK_MAX_RANGES then acc @ [r] else acc)
      = Some (rs, off')"
    using Suc.prems(1) by (auto simp: bind_eq_Some_conv)
  have "i < ACK_MAX_RANGES \<Longrightarrow> ranges_desc (acc @ [r])"
    using take_pair_desc [OF r] Suc.prems by (intro ranges_desc_snoc) auto
  then show ?case
    using Suc.IH [OF rest] Suc.prems by (auto simp: min_def split: if_splits)
qed simp

lemma ranges_desc_take: "ranges_desc rs \<Longrightarrow> ranges_desc (take n rs)"
proof (induction rs arbitrary: n rule: ranges_desc.induct)
  case (3 r s rs)
  have "ranges_desc (take (n - 1) (s # rs))" using 3 by simp
  then show ?case using 3(2) by (cases n; cases "n - 1") auto
qed (auto simp: take_Cons')

lemma ack_decode_sound:
  assumes "ack_decode buf = Some (f, n)"
  shows "ack_wf f"
proof -
  obtain d r0 o1 rs o2 o3 e0 e1 ce where
    head: "ack_take_ack_head buf 1 = Some ((d, r0), o1)" and
    pairs: "take_ack_pairs buf o1 (ar_lo r0) 1 (unat (ad_count d)) [r0] = Some (rs, o2)" and
    ecn: "take_ack_ecn buf o2 (af_has_ecn f) = Some ((e0, e1, ce), o3)" and
    f: "af_ranges f = take (ranges_kept (ad_count d)) rs" "af_ack_delay f = ad_ack_delay d"
      "af_ect0 f = e0" "af_ect1 f = e1" "af_ce f = ce"
    using assms unfolding ack_decode_def Let_def bind_eq_Some_conv by (auto simp: bind_eq_Some_conv)
  obtain first where r0: "ad_count d \<le> VARINT_MAX" "ad_ack_delay d \<le> VARINT_MAX" "ar_hi r0 \<le> VARINT_MAX"
    "ar_lo r0 = ar_hi r0 - first" "first \<le> ar_hi r0"
    using head varint_take_bounds(3)
    by (fastforce simp: ack_take_ack_head_def take_ack_meta_def take_first_def bind_eq_Some_conv split: if_splits)
  then have "ar_lo r0 \<le> ar_hi r0" using unat_sub_u64 [of first "ar_hi r0"] by (simp add: u64_le_mono)
  then have desc: "ranges_desc rs" "rs \<noteq> []" "hd rs = r0"
    using take_ack_pairs_desc [OF pairs] by (auto simp: ACK_MAX_RANGES_def)
  have "0 < ranges_kept (ad_count d)" "ranges_kept (ad_count d) \<le> ACK_MAX_RANGES"
    using r0(1) unat_add_u64 [of "ad_count d" 1]
    by (auto simp: ranges_kept_def ACK_MAX_RANGES_def u64_le_mono VARINT_MAX_def)
  then have "af_ranges f \<noteq> []" "af_ranges f ! 0 = r0" "length (af_ranges f) \<le> ACK_MAX_RANGES"
    "ranges_desc (af_ranges f)"
    using desc by (auto simp: f hd_conv_nth ranges_desc_take)
  moreover have "e0 \<le> VARINT_MAX \<and> e1 \<le> VARINT_MAX \<and> ce \<le> VARINT_MAX \<and>
      (\<not> af_has_ecn f \<longrightarrow> e0 = 0 \<and> e1 = 0 \<and> ce = 0)"
    using ecn varint_take_bounds(3)
    by (fastforce simp: take_ack_ecn_def take_two_def bind_eq_Some_conv VARINT_MAX_def split: if_splits)
  ultimately show ?thesis
    using r0 by (simp add: ack_wf_def ack_ok_def f ACK_MAX_RANGES_def)
qed

section \<open>The encoder refuses malformed range lists\<close>

lemma varint_put_ok: "fst (varint_put v ob) \<Longrightarrow> v \<le> VARINT_MAX"
  using varint_put_too_big [of v ob] by (cases "v \<le> VARINT_MAX") auto

lemma put_seq_ok_Cons: "fst (put_seq (w # ws) ob) \<Longrightarrow> fst (w ob) \<and> fst (put_seq ws (snd (w ob)))"
  by (auto split: prod.splits if_splits)

lemma put_two_ok: "fst (put_seq [varint_put a, varint_put b] ob) \<Longrightarrow> a \<le> VARINT_MAX \<and> b \<le> VARINT_MAX"
  by (auto dest!: put_seq_ok_Cons dest: varint_put_ok simp del: put_seq.simps(2))

lemma u64_diff_small:
  assumes "a \<le> VARINT_MAX" "b \<le> VARINT_MAX" "a - b \<le> VARINT_MAX"
  shows "b \<le> (a :: u64)"
proof (rule ccontr)
  assume "\<not> b \<le> a"
  then have "unat a < unat b" by (simp add: u64_le_mono)
  moreover from this have "unat (a - b) = 18446744073709551616 + unat a - unat b"
    by (simp add: unat_sub_if_size size_word.rep_eq)
  ultimately show False using assms by (simp add: u64_le_mono VARINT_MAX_def)
qed

lemma gap_small:
  assumes "lo \<le> VARINT_MAX" "hi \<le> VARINT_MAX" "lo - hi - 2 \<le> VARINT_MAX"
  shows "unat hi + 2 \<le> unat (lo :: u64)"
proof (rule ccontr)
  assume "\<not> ?thesis"
  moreover have h: "unat (hi + 2) = unat hi + 2"
    using assms(2) by (subst unat_add_u64) (simp_all add: u64_le_mono VARINT_MAX_def)
  ultimately have "unat lo < unat (hi + 2)" by simp
  then have "unat (lo - (hi + 2)) = 18446744073709551616 + unat lo - unat (hi + 2)"
    by (simp add: unat_sub_if_size size_word.rep_eq)
  moreover have e: "lo - hi - 2 = lo - (hi + 2)" by simp
  ultimately show False using assms(1,2) assms(3) [unfolded e] h by (simp add: u64_le_mono VARINT_MAX_def)
qed

lemma put_pairs_loop_desc:
  "fst (put_pairs_loop True prev rs out) \<Longrightarrow> \<forall>r \<in> set (prev # rs). ar_hi r \<le> VARINT_MAX \<and> ar_lo r \<le> VARINT_MAX \<Longrightarrow>
   ar_lo prev \<le> ar_hi prev \<Longrightarrow> ranges_desc (prev # rs)"
proof (induction rs arbitrary: prev out)
  case (Cons r rs)
  let ?p = "put_pair prev r out"
  have p: "fst ?p" using Cons.prems(1) put_pairs_loop_failed
    by (auto split: prod.splits if_splits)
  then have "ar_lo prev - ar_hi r - 2 \<le> VARINT_MAX \<and> ar_hi r - ar_lo r \<le> VARINT_MAX"
    unfolding put_pair_def by (rule put_two_ok)
  then have "unat (ar_hi r) + 2 \<le> unat (ar_lo prev)" "ar_lo r \<le> ar_hi r"
    using Cons.prems(2) gap_small u64_diff_small by auto
  moreover have "fst (put_pairs_loop True r rs (snd ?p))"
    using Cons.prems(1) p by (auto split: prod.splits)
  ultimately show ?case using Cons.IH [of r "snd ?p"] Cons.prems by simp
qed simp

lemma ack_encode_desc:
  assumes "fst (ack_encode buf f) \<noteq> 0"
    and pns: "\<forall>r \<in> set (af_ranges f). ar_hi r \<le> VARINT_MAX \<and> ar_lo r \<le> VARINT_MAX"
  shows "ranges_desc (af_ranges f)" and "length (af_ranges f) \<le> ACK_MAX_RANGES" and "af_ranges f \<noteq> []"
proof -
  have n: "ranges_ok (length (af_ranges f))" and body: "fst (put_ack_body f (obuf_of buf))"
    using assms(1) by (auto simp: ack_encode_def run_put_def split: if_splits prod.splits)
  then show "length (af_ranges f) \<le> ACK_MAX_RANGES" "af_ranges f \<noteq> []" by (auto simp: ranges_ok_def)
  obtain r0 rs where rs: "af_ranges f = r0 # rs" using \<open>af_ranges f \<noteq> []\<close> by (cases "af_ranges f") auto
  let ?h = "put_ack_head f (obuf_of buf)"
  have head: "fst ?h" and rest: "fst (put_ack_pairs_ecn f (snd ?h))"
    using put_seq_ok_Cons [OF body [unfolded put_ack_body_def]]
    by (auto dest!: put_seq_ok_Cons simp del: put_seq.simps(2))
  have "ar_hi r0 - ar_lo r0 \<le> VARINT_MAX"
    using head unfolding put_ack_head_def put_two_def Let_def rs
    by (auto dest!: put_seq_ok_Cons dest: varint_put_ok simp del: put_seq.simps(2))
  then have "ar_lo r0 \<le> ar_hi r0" using pns rs u64_diff_small by simp
  moreover have "fst (put_ack_pairs f (snd ?h))"
    using put_seq_ok_Cons [OF rest [unfolded put_ack_pairs_ecn_def]] by blast
  ultimately show "ranges_desc (af_ranges f)"
    using put_pairs_loop_desc [of r0 rs "snd ?h"] pns unfolding put_ack_pairs_def by (simp add: rs)
qed

section \<open>Properties\<close>

definition ack_example :: ack_frame where
  "ack_example = \<lparr>af_ack_delay = 3, af_ranges = [\<lparr>ar_hi = 20, ar_lo = 18\<rparr>, \<lparr>ar_hi = 10, ar_lo = 10\<rparr>],
     af_has_ecn = True, af_ect0 = 1, af_ect1 = 0, af_ce = 2\<rparr>"

lemma ack_example_wf: "ack_wf ack_example"
  by (simp add: ack_wf_def ack_ok_def ack_example_def ACK_MAX_RANGES_def VARINT_MAX_def)

text \<open>
  The ACK decoder consumes a frame of any number of ranges whole and keeps its newest 32
  ranges; with at most 32 ranges the frame comes back unchanged.
\<close>

theorem ack_decode_keeps_newest:
  assumes "ack_ok f"
  shows "ack_decode (ack_wire f @ rest)
    = Some (f\<lparr>af_ranges := take ACK_MAX_RANGES (af_ranges f)\<rparr>, length (ack_wire f))"
  by (rule ack_decode_wire [OF assms])

theorem ack_decode_keeps_newest_witness:
  "ack_decode (ack_wire ack_example @ [0]) = Some (ack_example, length (ack_wire ack_example))"
  using ack_decode_keeps_newest [of ack_example "[0]"] ack_example_wf
  by (simp add: ack_wf_def)

text \<open>
  C35. Only well-formed ACK frames cross the interface in either direction. Whatever bytes
  arrive, an accepted frame has between 1 and 32 ranges, each with its low end at most its
  high end, descending with a gap of at least one missing packet number. The encoder, given
  packet numbers below 2^62, refuses every range list that is not of this form.
\<close>

theorem ack_wellformed_both_ways:
  "(ack_decode buf = Some (f, n) \<longrightarrow> ranges_desc (af_ranges f) \<and> af_ranges f \<noteq> []
      \<and> length (af_ranges f) \<le> 32 \<and> ar_hi (af_ranges f ! 0) \<le> VARINT_MAX)
   \<and> (fst (ack_encode buf g) \<noteq> 0 \<longrightarrow> (\<forall>r \<in> set (af_ranges g). ar_hi r \<le> VARINT_MAX \<and> ar_lo r \<le> VARINT_MAX) \<longrightarrow>
      ranges_desc (af_ranges g) \<and> af_ranges g \<noteq> [] \<and> length (af_ranges g) \<le> 32)"
  using ack_decode_sound [of buf f n] ack_encode_desc [of buf g]
  by (auto simp: ack_wf_def ack_ok_def ACK_MAX_RANGES_def)

theorem ack_wellformed_both_ways_witness:
  "ranges_desc (af_ranges (fst (the (ack_decode (ack_wire ack_example)))))
   \<and> fst (ack_encode (replicate 30 0) ack_example) \<noteq> 0 \<and> ranges_desc (af_ranges ack_example)"
proof -
  have d: "ack_decode (ack_wire ack_example) = Some (ack_example, length (ack_wire ack_example))"
    using ack.dec_wire [OF ack_example_wf, of "[]"] by simp
  have len: "length (ack_wire ack_example) = 10"
    by (simp add: ack_wire_def ack_head_wire_def ecn_wire_def ack_example_def varint_wire_small Let_def)
  have e: "fst (ack_encode (replicate 30 0) ack_example) \<noteq> 0"
    using ack.enc_fits [OF ack_example_wf, of "replicate 30 0"] len by simp
  show ?thesis
    using ack_wellformed_both_ways [of "ack_wire ack_example" ack_example _ ack_example]
      ack_wellformed_both_ways [of "replicate 30 0" ack_example 0 ack_example] d e
    by simp
qed

end
