(* ===== verification/Frame_Walk.thy ===== *)
theory Frame_Walk
  imports Frame_Ack
begin

unbundle bit_operations_syntax

text \<open>
  Classification and traversal of a packet payload: \<^verbatim>\<open>frame/dispatch.c\<close>, \<^verbatim>\<open>frame/permit.c\<close>, the
  DATAGRAM frame of \<^verbatim>\<open>src/app/datagram/datagram/datagram.c\<close> and the frame walker of
  \<^verbatim>\<open>src/transport/packet/frame/pipeline/framewalk.c\<close>. The main result is that a payload built
  by concatenating encoded frames is walked frame by frame to its end, and that any walk
  makes progress and stays inside the payload.
\<close>

section \<open>dispatch.c\<close>

datatype frame_kind =
  FK_UNKNOWN | FK_PADDING | FK_PING | FK_ACK | FK_RESET_STREAM | FK_STOP_SENDING | FK_CRYPTO
| FK_NEW_TOKEN | FK_STREAM | FK_MAX_DATA | FK_MAX_STREAM_DATA | FK_MAX_STREAMS | FK_DATA_BLOCKED
| FK_STREAM_DATA_BLOCKED | FK_STREAMS_BLOCKED | FK_NEW_CONNECTION_ID | FK_RETIRE_CONNECTION_ID
| FK_PATH_CHALLENGE | FK_PATH_RESPONSE | FK_CONNECTION_CLOSE | FK_HANDSHAKE_DONE | FK_DATAGRAM
| FK_RESET_STREAM_AT

definition frame_table :: "(u64 \<times> frame_kind) list" where
  "frame_table =
    [(0x00, FK_PADDING), (0x01, FK_PING), (0x02, FK_ACK), (0x03, FK_ACK), (0x04, FK_RESET_STREAM),
     (0x05, FK_STOP_SENDING), (0x06, FK_CRYPTO), (0x07, FK_NEW_TOKEN), (0x08, FK_STREAM),
     (0x09, FK_STREAM), (0x0a, FK_STREAM), (0x0b, FK_STREAM), (0x0c, FK_STREAM), (0x0d, FK_STREAM),
     (0x0e, FK_STREAM), (0x0f, FK_STREAM), (0x10, FK_MAX_DATA), (0x11, FK_MAX_STREAM_DATA),
     (0x12, FK_MAX_STREAMS), (0x13, FK_MAX_STREAMS), (0x14, FK_DATA_BLOCKED),
     (0x15, FK_STREAM_DATA_BLOCKED), (0x16, FK_STREAMS_BLOCKED), (0x17, FK_STREAMS_BLOCKED),
     (0x18, FK_NEW_CONNECTION_ID), (0x19, FK_RETIRE_CONNECTION_ID), (0x1a, FK_PATH_CHALLENGE),
     (0x1b, FK_PATH_RESPONSE), (0x1c, FK_CONNECTION_CLOSE), (0x1d, FK_CONNECTION_CLOSE),
     (0x1e, FK_HANDSHAKE_DONE), (0x30, FK_DATAGRAM), (0x31, FK_DATAGRAM), (0x24, FK_RESET_STREAM_AT)]"

fun kind_lookup :: "(u64 \<times> frame_kind) list \<Rightarrow> u64 \<Rightarrow> frame_kind" where
  "kind_lookup [] type = FK_UNKNOWN"
| "kind_lookup ((t, k) # rows) type = (if t = type then k else kind_lookup rows type)"

definition frame_classify :: "u64 \<Rightarrow> frame_kind" where
  "frame_classify type = kind_lookup frame_table type"

definition non_eliciting :: "frame_kind \<Rightarrow> bool" where
  "non_eliciting k \<longleftrightarrow> k = FK_PADDING \<or> k = FK_ACK \<or> k = FK_CONNECTION_CLOSE"

definition frame_ack_eliciting :: "frame_kind \<Rightarrow> bool" where
  "frame_ack_eliciting kind = (if kind = FK_UNKNOWN then False else \<not> non_eliciting kind)"

section \<open>permit.c\<close>

datatype packet_type = PKT_INITIAL | PKT_HANDSHAKE | PKT_0RTT | PKT_1RTT

primrec packet_type_index :: "packet_type \<Rightarrow> nat" where
  "packet_type_index PKT_INITIAL = 0"
| "packet_type_index PKT_HANDSHAKE = 1"
| "packet_type_index PKT_0RTT = 2"
| "packet_type_index PKT_1RTT = 3"

definition PERMIT_ALL :: u8 where
  "PERMIT_ALL = 0x1 OR 0x2 OR 0x4 OR 0x8"

primrec frame_allowed :: "frame_kind \<Rightarrow> u8" where
  "frame_allowed FK_UNKNOWN = 0"
| "frame_allowed FK_PADDING = PERMIT_ALL"
| "frame_allowed FK_PING = PERMIT_ALL"
| "frame_allowed FK_ACK = 0x1 OR 0x2 OR 0x8"
| "frame_allowed FK_RESET_STREAM = 0x4 OR 0x8"
| "frame_allowed FK_STOP_SENDING = 0x4 OR 0x8"
| "frame_allowed FK_CRYPTO = 0x1 OR 0x2 OR 0x8"
| "frame_allowed FK_NEW_TOKEN = 0x8"
| "frame_allowed FK_STREAM = 0x4 OR 0x8"
| "frame_allowed FK_MAX_DATA = 0x4 OR 0x8"
| "frame_allowed FK_MAX_STREAM_DATA = 0x4 OR 0x8"
| "frame_allowed FK_MAX_STREAMS = 0x4 OR 0x8"
| "frame_allowed FK_DATA_BLOCKED = 0x4 OR 0x8"
| "frame_allowed FK_STREAM_DATA_BLOCKED = 0x4 OR 0x8"
| "frame_allowed FK_STREAMS_BLOCKED = 0x4 OR 0x8"
| "frame_allowed FK_NEW_CONNECTION_ID = 0x4 OR 0x8"
| "frame_allowed FK_RETIRE_CONNECTION_ID = 0x4 OR 0x8"
| "frame_allowed FK_PATH_CHALLENGE = 0x4 OR 0x8"
| "frame_allowed FK_PATH_RESPONSE = 0x8"
| "frame_allowed FK_CONNECTION_CLOSE = 0x1 OR 0x2 OR 0x4 OR 0x8"
| "frame_allowed FK_HANDSHAKE_DONE = 0x8"
| "frame_allowed FK_DATAGRAM = 0x4 OR 0x8"
| "frame_allowed FK_RESET_STREAM_AT = 0x4 OR 0x8"

definition frame_permitted :: "frame_kind \<Rightarrow> packet_type \<Rightarrow> bool" where
  "frame_permitted kind pkt \<longleftrightarrow> drop_bit (packet_type_index pkt) (frame_allowed kind) AND 1 \<noteq> 0"

definition frame_server_recv_forbidden :: "frame_kind \<Rightarrow> bool" where
  "frame_server_recv_forbidden kind \<longleftrightarrow> kind = FK_NEW_TOKEN \<or> kind = FK_HANDSHAKE_DONE"

definition frame_is_grease :: "u64 \<Rightarrow> bool" where
  "frame_is_grease type = (if type < 0x21 then False else (type - 0x21) mod 0x1f = 0)"

section \<open>datagram.c\<close>

definition FRAME_DATAGRAM :: u8 where "FRAME_DATAGRAM = 0x30"
definition FRAME_DATAGRAM_LEN :: u8 where "FRAME_DATAGRAM_LEN = 0x31"

record datagram_frame =
  dg_length :: u64
  dg_data :: bytes

definition datagram_type :: "bool \<Rightarrow> u8" where
  "datagram_type with_len = (if with_len then FRAME_DATAGRAM_LEN else FRAME_DATAGRAM)"

definition put_datagram_head :: "datagram_frame \<Rightarrow> bool \<Rightarrow> writer" where
  "put_datagram_head f with_len =
     put_seq [varint_put (ucast (datagram_type with_len)),
              (\<lambda>out. if \<not> with_len then (True, out) else varint_put (dg_length f) out)]"

definition datagram_encode :: "bool \<Rightarrow> bytes \<Rightarrow> datagram_frame \<Rightarrow> nat \<times> bytes" where
  "datagram_encode with_len buf f =
     run_put (put_seq [put_datagram_head f with_len, bytes_put (take (unat (dg_length f)) (dg_data f))]) buf"

definition decode_no_len :: "bytes \<Rightarrow> (datagram_frame \<times> nat) option" where
  "decode_no_len buf =
     Some (\<lparr>dg_length = of_nat (length buf - 1), dg_data = drop 1 buf\<rparr>, length buf)"

definition decode_with_len :: "bytes \<Rightarrow> (datagram_frame \<times> nat) option" where
  "decode_with_len buf = do {
     (len, off) \<leftarrow> varint_take buf 1;
     let e = usz_add off (unat len);
     if e > length buf \<or> e = 0 then None
     else Some (\<lparr>dg_length = len, dg_data = take (unat len) (drop off buf)\<rparr>, e)
   }"

definition datagram_decode :: "bytes \<Rightarrow> (datagram_frame \<times> nat) option" where
  "datagram_decode buf =
     (if length buf = 0 then None
      else if buf ! 0 = FRAME_DATAGRAM then decode_no_len buf else decode_with_len buf)"

definition datagram_allowed :: "u64 \<Rightarrow> u64 \<Rightarrow> bool" where
  "datagram_allowed max_datagram_frame_size frame_len =
     (if max_datagram_frame_size = 0 then False else frame_len \<le> max_datagram_frame_size)"

definition dgdeliver_extract :: "bytes \<Rightarrow> bytes option" where
  "dgdeliver_extract frame = map_option (\<lambda>(f, n). dg_data f) (datagram_decode frame)"

section \<open>framewalk.c\<close>

text \<open>
  The cursor \<open>cur\<close> with its \<open>remaining\<close> count is the list of the remaining bytes; a yielded
  frame is its type and the bytes from its start onward.
\<close>

record framewalk_item =
  fi_type :: u64
  fi_start :: bytes

definition len_table :: "(frame_kind \<times> (bytes \<Rightarrow> nat)) list" where
  "len_table =
    [(FK_ACK, \<lambda>buf. dec_len (ack_decode buf)),
     (FK_CRYPTO, \<lambda>buf. dec_len (frame_get_crypto buf)),
     (FK_STREAM, \<lambda>buf. dec_len (frame_get_stream buf)),
     (FK_CONNECTION_CLOSE, \<lambda>buf. dec_len (frame_get_conn_close buf)),
     (FK_DATAGRAM, \<lambda>buf. dec_len (datagram_decode buf)),
     (FK_RESET_STREAM, \<lambda>buf. dec_len (reset_stream_decode buf)),
     (FK_STOP_SENDING, \<lambda>buf. dec_len (stop_sending_decode buf)),
     (FK_RESET_STREAM_AT, \<lambda>buf. dec_len (reset_stream_at_decode buf)),
     (FK_MAX_DATA, \<lambda>buf. dec_len (max_data_decode buf)),
     (FK_DATA_BLOCKED, \<lambda>buf. dec_len (data_blocked_decode buf)),
     (FK_MAX_STREAM_DATA, \<lambda>buf. dec_len (max_stream_data_decode buf)),
     (FK_STREAM_DATA_BLOCKED, \<lambda>buf. dec_len (stream_data_blocked_decode buf)),
     (FK_MAX_STREAMS, \<lambda>buf. dec_len (max_streams_decode buf)),
     (FK_STREAMS_BLOCKED, \<lambda>buf. dec_len (streams_blocked_decode buf)),
     (FK_NEW_TOKEN, \<lambda>buf. dec_len (new_token_decode buf)),
     (FK_NEW_CONNECTION_ID, \<lambda>buf. dec_len (ncid_decode buf)),
     (FK_RETIRE_CONNECTION_ID, \<lambda>buf. dec_len (retire_cid_decode buf)),
     (FK_PATH_CHALLENGE, \<lambda>buf. dec_len (path_decode FRAME_PATH_CHALLENGE buf)),
     (FK_PATH_RESPONSE, \<lambda>buf. dec_len (path_decode FRAME_PATH_RESPONSE buf))]"

fun len_lookup :: "(frame_kind \<times> (bytes \<Rightarrow> nat)) list \<Rightarrow> frame_kind \<Rightarrow> bytes \<Rightarrow> nat" where
  "len_lookup [] kind buf = 0"
| "len_lookup ((k, fn) # rows) kind buf = (if k = kind then fn buf else len_lookup rows kind buf)"

definition decoded_len :: "frame_kind \<Rightarrow> bytes \<Rightarrow> nat" where
  "decoded_len kind buf = len_lookup len_table kind buf"

definition single_byte :: "frame_kind \<Rightarrow> bool" where
  "single_byte kind \<longleftrightarrow> kind = FK_PADDING \<or> kind = FK_PING \<or> kind = FK_HANDSHAKE_DONE"

definition frame_len :: "u64 \<Rightarrow> bytes \<Rightarrow> nat" where
  "frame_len type buf =
     (let kind = frame_classify type in if single_byte kind then 1 else decoded_len kind buf)"

definition measure_frame :: "bytes \<Rightarrow> (u64 \<times> nat) option" where
  "measure_frame cur =
     (case varint_decode cur of None \<Rightarrow> None
      | Some (type, _) \<Rightarrow>
          let len = frame_len type cur
          in if len > length cur \<or> len = 0 then None else Some (type, len))"

definition framewalk_next :: "bytes \<Rightarrow> (framewalk_item \<times> bytes) option" where
  "framewalk_next cur =
     (if cur = [] then None
      else case measure_frame cur of None \<Rightarrow> None
           | Some (type, len) \<Rightarrow> Some (\<lparr>fi_type = type, fi_start = cur\<rparr>, drop len cur))"

lemma framewalk_next_shorter:
  "framewalk_next cur = Some (it, cur') \<Longrightarrow> length cur' < length cur"
  by (auto simp: framewalk_next_def measure_frame_def Let_def split: if_splits option.splits)

text \<open>The loop \<^verbatim>\<open>while (framewalk_next(&it, &fr)) acc = step(fr, acc)\<close>.\<close>

function framewalk_loop :: "(framewalk_item \<Rightarrow> 'a \<Rightarrow> 'a) \<Rightarrow> bytes \<Rightarrow> 'a \<Rightarrow> 'a" where
  "framewalk_loop step cur acc =
     (case framewalk_next cur of None \<Rightarrow> acc
      | Some (fr, cur') \<Rightarrow> framewalk_loop step cur' (step fr acc))"
  by pat_completeness auto
termination
  by (relation "measure (\<lambda>(_, cur, _). length cur)") (auto dest: framewalk_next_shorter)

declare framewalk_loop.simps [simp del]

definition framewalk_ack_eliciting :: "bytes \<Rightarrow> bool" where
  "framewalk_ack_eliciting pl =
     framewalk_loop (\<lambda>fr e. e \<or> frame_ack_eliciting (frame_classify (fi_type fr))) pl False"

definition framewalk_probing :: "frame_kind \<Rightarrow> bool" where
  "framewalk_probing k \<longleftrightarrow>
     k \<in> {FK_PADDING, FK_NEW_CONNECTION_ID, FK_PATH_CHALLENGE, FK_PATH_RESPONSE}"

definition framewalk_non_probing :: "bytes \<Rightarrow> bool" where
  "framewalk_non_probing pl =
     framewalk_loop (\<lambda>fr np. np \<or> \<not> framewalk_probing (frame_classify (fi_type fr))) pl False"

section \<open>The DATAGRAM codec\<close>

definition datagram_wire :: "datagram_frame \<Rightarrow> bytes" where
  "datagram_wire f = ([0x31] @ varint_wire (dg_length f)) @ dg_data f"

definition datagram_wf :: "datagram_frame \<Rightarrow> bool" where
  "datagram_wf f \<longleftrightarrow> dg_length f \<le> VARINT_MAX \<and> length (dg_data f) = unat (dg_length f)"

lemma emits_datagram:
  assumes "datagram_wf f"
  shows "emits (put_seq [put_datagram_head f True, bytes_put (take (unat (dg_length f)) (dg_data f))])
    (datagram_wire f)"
proof -
  have take: "take (unat (dg_length f)) (dg_data f) = dg_data f"
    using assms by (simp add: datagram_wf_def)
  have "(\<lambda>out. if \<not> True then (True, out) else varint_put (dg_length f) out) = varint_put (dg_length f)"
    by simp
  then have head: "put_datagram_head f True = put_seq [varint_put (ucast (datagram_type True)), varint_put (dg_length f)]"
    unfolding put_datagram_head_def by (simp only:)
  show ?thesis
    unfolding take head datagram_wire_def
    using assms by (intro put_intros) (simp_all add: datagram_wf_def datagram_type_def FRAME_DATAGRAM_LEN_def)
qed

interpretation datagram: frame_codec "datagram_encode True" datagram_decode datagram_wire datagram_wf
proof (rule chain_codecI [where w = "\<lambda>f. put_seq [put_datagram_head f True,
      bytes_put (take (unat (dg_length f)) (dg_data f))]"], goal_cases)
  case (1 f)
  then show ?case by (rule emits_datagram)
next
  case (3 f rest)
  have "usz_add (Suc (varint_len (dg_length f))) (unat (dg_length f))
      = Suc (varint_len (dg_length f)) + unat (dg_length f)"
    using 3 varint_len_le8 [of "dg_length f"]
    by (intro usz_add_exact) (simp add: datagram_wf_def u64_le_mono VARINT_MAX_def)
  with 3 show ?case
    by (simp add: datagram_wf_def datagram_decode_def decode_with_len_def datagram_wire_def
      FRAME_DATAGRAM_def varint_take_alt varint_decode_wire)
qed (auto simp: datagram_encode_def datagram_decode_def decode_with_len_def decode_no_len_def Let_def
      bind_eq_Some_conv split: if_splits)

section \<open>Walking a payload of encoded frames\<close>

datatype frame =
  Padding | Ping | Handshake_Done | Ack ack_frame | Crypto crypto_frame | Stream stream_frame
| Conn_Close conn_close_frame | Datagram datagram_frame | Reset_Stream reset_stream_frame
| Stop_Sending stop_sending_frame | Reset_Stream_At reset_stream_at_frame | Max_Data data_frame
| Data_Blocked data_frame | Max_Stream_Data stream_data_frame | Stream_Data_Blocked stream_data_frame
| Max_Streams streams_frame | Streams_Blocked streams_frame | New_Token new_token_frame
| New_Cid ncid_frame | Retire_Cid u64 | Path_Challenge bytes | Path_Response bytes

primrec frame_wire :: "frame \<Rightarrow> bytes" where
  "frame_wire Padding = [0x00]"
| "frame_wire Ping = [0x01]"
| "frame_wire Handshake_Done = [0x1e]"
| "frame_wire (Ack f) = ack_wire f"
| "frame_wire (Crypto f) = crypto_wire f"
| "frame_wire (Stream f) = stream_wire f"
| "frame_wire (Conn_Close f) = cc_wire f"
| "frame_wire (Datagram f) = datagram_wire f"
| "frame_wire (Reset_Stream f) = reset_stream_wire f"
| "frame_wire (Stop_Sending f) = stop_sending_wire f"
| "frame_wire (Reset_Stream_At f) = reset_stream_at_wire f"
| "frame_wire (Max_Data f) = one_wire 0x10 (df_value f)"
| "frame_wire (Data_Blocked f) = one_wire 0x14 (df_value f)"
| "frame_wire (Max_Stream_Data f) = two_wire 0x11 (sd_stream_id f) (sd_value f)"
| "frame_wire (Stream_Data_Blocked f) = two_wire 0x15 (sd_stream_id f) (sd_value f)"
| "frame_wire (Max_Streams f) = streams_wire 0x12 f"
| "frame_wire (Streams_Blocked f) = streams_wire 0x16 f"
| "frame_wire (New_Token f) = new_token_wire f"
| "frame_wire (New_Cid f) = ncid_wire f"
| "frame_wire (Retire_Cid s) = one_wire 0x19 s"
| "frame_wire (Path_Challenge d) = [0x1a] @ d"
| "frame_wire (Path_Response d) = [0x1b] @ d"

primrec frame_wf :: "frame \<Rightarrow> bool" where
  "frame_wf Padding = True"
| "frame_wf Ping = True"
| "frame_wf Handshake_Done = True"
| "frame_wf (Ack f) = ack_wf f"
| "frame_wf (Crypto f) = crypto_wf f"
| "frame_wf (Stream f) = stream_wf f"
| "frame_wf (Conn_Close f) = cc_wf f"
| "frame_wf (Datagram f) = datagram_wf f"
| "frame_wf (Reset_Stream f) = reset_stream_wf f"
| "frame_wf (Stop_Sending f) = stop_sending_wf f"
| "frame_wf (Reset_Stream_At f) = reset_stream_at_wf f"
| "frame_wf (Max_Data f) = data_wf f"
| "frame_wf (Data_Blocked f) = data_wf f"
| "frame_wf (Max_Stream_Data f) = stream_data_wf f"
| "frame_wf (Stream_Data_Blocked f) = stream_data_wf f"
| "frame_wf (Max_Streams f) = streams_wf f"
| "frame_wf (Streams_Blocked f) = streams_wf f"
| "frame_wf (New_Token f) = new_token_wf f"
| "frame_wf (New_Cid f) = ncid_wf f"
| "frame_wf (Retire_Cid s) = retire_cid_wf s"
| "frame_wf (Path_Challenge d) = path_wf d"
| "frame_wf (Path_Response d) = path_wf d"

primrec kind_of :: "frame \<Rightarrow> frame_kind" where
  "kind_of Padding = FK_PADDING"
| "kind_of Ping = FK_PING"
| "kind_of Handshake_Done = FK_HANDSHAKE_DONE"
| "kind_of (Ack f) = FK_ACK"
| "kind_of (Crypto f) = FK_CRYPTO"
| "kind_of (Stream f) = FK_STREAM"
| "kind_of (Conn_Close f) = FK_CONNECTION_CLOSE"
| "kind_of (Datagram f) = FK_DATAGRAM"
| "kind_of (Reset_Stream f) = FK_RESET_STREAM"
| "kind_of (Stop_Sending f) = FK_STOP_SENDING"
| "kind_of (Reset_Stream_At f) = FK_RESET_STREAM_AT"
| "kind_of (Max_Data f) = FK_MAX_DATA"
| "kind_of (Data_Blocked f) = FK_DATA_BLOCKED"
| "kind_of (Max_Stream_Data f) = FK_MAX_STREAM_DATA"
| "kind_of (Stream_Data_Blocked f) = FK_STREAM_DATA_BLOCKED"
| "kind_of (Max_Streams f) = FK_MAX_STREAMS"
| "kind_of (Streams_Blocked f) = FK_STREAMS_BLOCKED"
| "kind_of (New_Token f) = FK_NEW_TOKEN"
| "kind_of (New_Cid f) = FK_NEW_CONNECTION_ID"
| "kind_of (Retire_Cid s) = FK_RETIRE_CONNECTION_ID"
| "kind_of (Path_Challenge d) = FK_PATH_CHALLENGE"
| "kind_of (Path_Response d) = FK_PATH_RESPONSE"

lemma u8_ucast_ucast: "(ucast (ucast (b :: u8) :: u64) :: u8) = b"
  by (rule bit_word_eqI) (simp add: bit_simps)

lemma varint_decode_small:
  assumes "b \<le> (0x3F :: u8)"
  shows "varint_decode (b # bs) = Some (ucast b, 1)"
proof -
  have v: "ucast b \<le> (0x3F :: u64)"
    using assms by (simp add: u64_le_mono word_le_nat_alt)
  then have "varint_wire (ucast b :: u64) = [b]"
    using varint_wire_small [OF v] by (simp add: u8_ucast_ucast)
  moreover have "ucast b \<le> VARINT_MAX" using v by (simp add: u64_le_mono VARINT_MAX_def)
  ultimately show ?thesis
    using varint_decode_wire [of "ucast b" bs] v by (simp add: varint_len_cases)
qed

lemma stream_type_cases: "stream_type f \<in> {0x0a, 0x0b, 0x0e, 0x0f}"
  by (simp add: stream_type_def)

lemmas first_bytes = ack_wire_def ack_head_wire_def crypto_wire_def crypto_hdr_wire_def
  stream_wire_def stream_hdr_wire_def cc_wire_def cc_hdr_wire_def datagram_wire_def
  reset_stream_wire_def stop_sending_wire_def reset_stream_at_wire_def one_wire_def two_wire_def
  streams_wire_def new_token_wire_def ncid_wire_def Let_def

lemma frame_first_byte:
  "frame_wire f \<noteq> []" "hd (frame_wire f) \<le> 0x3F"
  "frame_classify (ucast (hd (frame_wire f))) = kind_of f"
proof -
  show "frame_wire f \<noteq> []" by (cases f) (simp_all add: first_bytes)
  show "hd (frame_wire f) \<le> 0x3F"
    using stream_type_le by (cases f) (simp_all add: first_bytes)
  show "frame_classify (ucast (hd (frame_wire f))) = kind_of f"
  proof (cases f)
    case (Stream x)
    then show ?thesis
      using stream_type_cases [of x] by (auto simp: first_bytes frame_classify_def frame_table_def)
  qed (simp_all add: first_bytes frame_classify_def frame_table_def)
qed

lemma path_measured:
  "path_wf d \<Longrightarrow> dec_len (path_decode t (t # d @ rest)) = Suc (length d)"
  using path.measured(1) [of d t rest] by simp

lemmas measured_all = ack.measured(1) crypto.measured(1) stream.measured(1) conn_close.measured(1)
  datagram.measured(1) reset_stream.measured(1) stop_sending.measured(1) reset_stream_at.measured(1)
  max_data.measured(1) data_blocked.measured(1) max_stream_data.measured(1)
  stream_data_blocked.measured(1) max_streams.measured(1) streams_blocked.measured(1)
  new_token.measured(1) ncid.measured(1) retire_cid.measured(1) path_measured

lemma frame_decoded_len:
  "frame_wf f \<Longrightarrow> \<not> single_byte (kind_of f) \<Longrightarrow>
   decoded_len (kind_of f) (frame_wire f @ rest) = length (frame_wire f)"
  by (cases f) (simp_all add: decoded_len_def len_table_def single_byte_def measured_all)

lemma frame_single_byte: "single_byte (kind_of f) \<Longrightarrow> length (frame_wire f) = 1"
  by (cases f) (simp_all add: single_byte_def)

lemma measure_frame_wire:
  assumes "frame_wf f"
  shows "measure_frame (frame_wire f @ rest) = Some (ucast (hd (frame_wire f)), length (frame_wire f))"
proof -
  have "frame_wire f @ rest = hd (frame_wire f) # (tl (frame_wire f) @ rest)"
    using frame_first_byte(1) [of f] by simp
  then have type: "varint_decode (frame_wire f @ rest) = Some (ucast (hd (frame_wire f)), 1)"
    using varint_decode_small [OF frame_first_byte(2) [of f]] by metis
  have len: "frame_len (ucast (hd (frame_wire f))) (frame_wire f @ rest) = length (frame_wire f)"
    using assms frame_decoded_len [of f rest] frame_single_byte [of f]
    by (simp add: frame_len_def frame_first_byte(3) Let_def)
  show ?thesis
    using frame_first_byte(1) [of f] by (simp add: measure_frame_def type len)
qed

definition walk_items :: "bytes \<Rightarrow> framewalk_item list" where
  "walk_items pl = framewalk_loop (\<lambda>fr acc. acc @ [fr]) pl []"

lemma framewalk_loop_items:
  "framewalk_loop (\<lambda>fr acc. acc @ [fr]) cur acc = acc @ walk_items cur"
proof (induction "length cur" arbitrary: cur acc rule: less_induct)
  case less
  show ?case
  proof (cases "framewalk_next cur")
    case None
    then show ?thesis by (simp add: walk_items_def framewalk_loop.simps)
  next
    case (Some r)
    obtain fr cur' where r: "r = (fr, cur')" by (cases r)
    have "length cur' < length cur" using framewalk_next_shorter Some r by simp
    then have IH: "framewalk_loop (\<lambda>fr acc. acc @ [fr]) cur' a = a @ walk_items cur'" for a
      by (rule less)
    show ?thesis
      unfolding walk_items_def [of cur]
      using Some r IH by (subst (1 2) framewalk_loop.simps) simp
  qed
qed

lemma walk_items_rec:
  "walk_items cur = (case framewalk_next cur of None \<Rightarrow> [] | Some (fr, cur') \<Rightarrow> fr # walk_items cur')"
  unfolding walk_items_def [of cur]
  by (subst framewalk_loop.simps) (simp add: framewalk_loop_items split: option.split)

text \<open>Every loop over the walker is a fold over the frames it yields.\<close>

lemma framewalk_loop_fold: "framewalk_loop step cur acc = fold step (walk_items cur) acc"
proof (induction "length cur" arbitrary: cur acc rule: less_induct)
  case less
  then show ?case
    by (subst framewalk_loop.simps, subst walk_items_rec)
      (auto split: option.split dest: framewalk_next_shorter)
qed

fun items_of :: "frame list \<Rightarrow> framewalk_item list" where
  "items_of [] = []"
| "items_of (f # fs) =
     \<lparr>fi_type = ucast (hd (frame_wire f)), fi_start = concat (map frame_wire (f # fs))\<rparr> # items_of fs"

lemma walk_items_concat:
  "list_all frame_wf fs \<Longrightarrow> walk_items (concat (map frame_wire fs)) = items_of fs"
proof (induction fs)
  case Nil
  then show ?case by (subst walk_items_rec) (simp add: framewalk_next_def)
next
  case (Cons f fs)
  then have "framewalk_next (concat (map frame_wire (f # fs)))
      = Some (\<lparr>fi_type = ucast (hd (frame_wire f)), fi_start = concat (map frame_wire (f # fs))\<rparr>,
              concat (map frame_wire fs))"
    using measure_frame_wire [of f "concat (map frame_wire fs)"] frame_first_byte(1) [of f]
    by (simp add: framewalk_next_def)
  with Cons show ?case by (subst walk_items_rec) simp
qed

lemma items_of_kinds: "map (\<lambda>it. frame_classify (fi_type it)) (items_of fs) = map kind_of fs"
  by (induction fs) (simp_all add: frame_first_byte(3))

lemma fold_or: "fold (\<lambda>x acc. acc \<or> P x) xs b \<longleftrightarrow> b \<or> (\<exists>x \<in> set xs. P x)"
  by (induction xs arbitrary: b) auto

lemma walk_eliciting:
  assumes "list_all frame_wf fs"
  shows "framewalk_ack_eliciting (concat (map frame_wire fs)) \<longleftrightarrow>
    (\<exists>f \<in> set fs. frame_ack_eliciting (kind_of f))"
proof -
  have "(\<exists>x \<in> set (items_of fs). frame_ack_eliciting (frame_classify (fi_type x))) \<longleftrightarrow>
      (\<exists>k \<in> set (map (\<lambda>it. frame_classify (fi_type it)) (items_of fs)). frame_ack_eliciting k)"
    by simp
  then show ?thesis
    unfolding items_of_kinds
    by (simp add: framewalk_ack_eliciting_def framewalk_loop_fold walk_items_concat [OF assms] fold_or)
qed

text \<open>On any payload, encoded by this SDK or not, the walker yields shrinking suffixes.\<close>

lemma framewalk_next_suffix:
  assumes "framewalk_next cur = Some (fr, cur')"
  shows "fi_start fr = cur" and "\<exists>p. p \<noteq> [] \<and> cur = p @ cur'"
proof -
  obtain type len where m: "measure_frame cur = Some (type, len)" and r: "fi_start fr = cur" "cur' = drop len cur"
    using assms by (auto simp: framewalk_next_def split: if_splits option.splits)
  have "0 < len" "len \<le> length cur"
    using m by (auto simp: measure_frame_def Let_def split: if_splits option.splits)
  then have "take len cur \<noteq> []" by (cases cur) auto
  then show "\<exists>p. p \<noteq> [] \<and> cur = p @ cur'" using r(2) by (metis append_take_drop_id)
  show "fi_start fr = cur" by (fact r(1))
qed

lemma walk_items_suffixes:
  "walk_items pl = xs @ x # ys \<Longrightarrow>
   (\<exists>p. pl = p @ fi_start x) \<and> fi_start x \<noteq> [] \<and> (\<forall>y \<in> set ys. length (fi_start y) < length (fi_start x))"
proof (induction "length pl" arbitrary: pl xs x ys rule: less_induct)
  case less
  note rec = less.prems [unfolded walk_items_rec [of pl]]
  then obtain fr cur' where n: "framewalk_next pl = Some (fr, cur')"
    by (cases "framewalk_next pl") auto
  have items: "fr # walk_items cur' = xs @ x # ys"
    using rec n by simp
  obtain p where p: "fi_start fr = pl" "p \<noteq> []" "pl = p @ cur'"
    using framewalk_next_suffix [OF n] by blast
  then have short: "length cur' < length pl" by simp
  have sub: "length (fi_start y) \<le> length cur'" if "y \<in> set (walk_items cur')" for y
  proof -
    from that obtain us vs where "walk_items cur' = us @ y # vs" by (meson split_list)
    from less.hyps [OF short this] show ?thesis by auto
  qed
  show ?case
  proof (cases xs)
    case Nil
    then have "x = fr" "ys = walk_items cur'" using items by simp_all
    moreover have "length (fi_start y) < length pl" if "y \<in> set (walk_items cur')" for y
      using sub [OF that] short by linarith
    ultimately show ?thesis using p by auto
  next
    case (Cons a xs')
    then have "walk_items cur' = xs' @ x # ys" using items by simp
    from less.hyps [OF short this] obtain q where
      "cur' = q @ fi_start x" "fi_start x \<noteq> []" "\<forall>y \<in> set ys. length (fi_start y) < length (fi_start x)"
      by blast
    moreover from this p(3) have "pl = (p @ q) @ fi_start x" by simp
    ultimately show ?thesis by blast
  qed
qed

section \<open>Table 3 of RFC 9000\<close>

lemma frame_permitted_table:
  "frame_permitted k PKT_INITIAL \<longleftrightarrow> k \<in> {FK_PADDING, FK_PING, FK_ACK, FK_CRYPTO, FK_CONNECTION_CLOSE}"
  "frame_permitted k PKT_HANDSHAKE \<longleftrightarrow> frame_permitted k PKT_INITIAL"
  "frame_permitted k PKT_0RTT \<longleftrightarrow>
     k \<notin> {FK_UNKNOWN, FK_ACK, FK_CRYPTO, FK_NEW_TOKEN, FK_PATH_RESPONSE, FK_HANDSHAKE_DONE}"
  "frame_permitted k PKT_1RTT \<longleftrightarrow> k \<noteq> FK_UNKNOWN"
  by (cases k; simp add: frame_permitted_def PERMIT_ALL_def)+

lemma frame_is_grease_iff: "frame_is_grease t \<longleftrightarrow> (\<exists>n. unat t = 0x1f * n + 0x21)"
proof (cases "t < 0x21")
  case True
  then show ?thesis by (auto simp: frame_is_grease_def u64_less_mono)
next
  case False
  then have le: "0x21 \<le> t" by simp
  have "unat ((t - 0x21) mod 0x1f) = (unat t - 0x21) mod 0x1f"
    using unat_sub_u64 [OF le] by (simp add: unat_mod)
  then have "(t - 0x21) mod 0x1f = 0 \<longleftrightarrow> (unat t - 0x21) mod 0x1f = 0"
    by (metis unat_eq_zero)
  also have "\<dots> \<longleftrightarrow> (\<exists>n. unat t = 0x1f * n + 0x21)"
    using le by (auto simp: u64_le_mono mod_eq_0_iff_dvd dvd_def) (metis le_add_diff_inverse2)
  finally show ?thesis using False by (simp add: frame_is_grease_def)
qed

section \<open>All codecs at once\<close>

text \<open>The encoder the code provides for each frame; the one-byte frames are stored directly.\<close>

primrec encode_frame :: "bytes \<Rightarrow> frame \<Rightarrow> nat \<times> bytes" where
  "encode_frame buf Padding = run_put (put_u8 0x00) buf"
| "encode_frame buf Ping = run_put (put_u8 0x01) buf"
| "encode_frame buf Handshake_Done = run_put (put_u8 0x1e) buf"
| "encode_frame buf (Ack f) = ack_encode buf f"
| "encode_frame buf (Crypto f) = frame_put_crypto buf f"
| "encode_frame buf (Stream f) = frame_put_stream buf f"
| "encode_frame buf (Conn_Close f) = frame_put_conn_close buf f"
| "encode_frame buf (Datagram f) = datagram_encode True buf f"
| "encode_frame buf (Reset_Stream f) = reset_stream_encode buf f"
| "encode_frame buf (Stop_Sending f) = stop_sending_encode buf f"
| "encode_frame buf (Reset_Stream_At f) = reset_stream_at_encode buf f"
| "encode_frame buf (Max_Data f) = max_data_encode buf f"
| "encode_frame buf (Data_Blocked f) = data_blocked_encode buf f"
| "encode_frame buf (Max_Stream_Data f) = max_stream_data_encode buf f"
| "encode_frame buf (Stream_Data_Blocked f) = stream_data_blocked_encode buf f"
| "encode_frame buf (Max_Streams f) = max_streams_encode buf f"
| "encode_frame buf (Streams_Blocked f) = streams_blocked_encode buf f"
| "encode_frame buf (New_Token f) = new_token_encode buf f"
| "encode_frame buf (New_Cid f) = ncid_encode buf f"
| "encode_frame buf (Retire_Cid s) = retire_cid_encode buf s"
| "encode_frame buf (Path_Challenge d) = path_encode FRAME_PATH_CHALLENGE buf d"
| "encode_frame buf (Path_Response d) = path_encode FRAME_PATH_RESPONSE buf d"

text \<open>The decoder a payload handler calls for the kind \<open>frame_classify\<close> reports.\<close>

definition decode_frame :: "bytes \<Rightarrow> (frame \<times> nat) option" where
  "decode_frame buf =
     (case varint_decode buf of None \<Rightarrow> None
      | Some (type, _) \<Rightarrow> (case frame_classify type of
          FK_UNKNOWN \<Rightarrow> None
        | FK_PADDING \<Rightarrow> Some (Padding, 1)
        | FK_PING \<Rightarrow> Some (Ping, 1)
        | FK_HANDSHAKE_DONE \<Rightarrow> Some (Handshake_Done, 1)
        | FK_ACK \<Rightarrow> map_option (apfst Ack) (ack_decode buf)
        | FK_CRYPTO \<Rightarrow> map_option (apfst Crypto) (frame_get_crypto buf)
        | FK_STREAM \<Rightarrow> map_option (apfst Stream) (frame_get_stream buf)
        | FK_CONNECTION_CLOSE \<Rightarrow> map_option (apfst Conn_Close) (frame_get_conn_close buf)
        | FK_DATAGRAM \<Rightarrow> map_option (apfst Datagram) (datagram_decode buf)
        | FK_RESET_STREAM \<Rightarrow> map_option (apfst Reset_Stream) (reset_stream_decode buf)
        | FK_STOP_SENDING \<Rightarrow> map_option (apfst Stop_Sending) (stop_sending_decode buf)
        | FK_RESET_STREAM_AT \<Rightarrow> map_option (apfst Reset_Stream_At) (reset_stream_at_decode buf)
        | FK_MAX_DATA \<Rightarrow> map_option (apfst Max_Data) (max_data_decode buf)
        | FK_DATA_BLOCKED \<Rightarrow> map_option (apfst Data_Blocked) (data_blocked_decode buf)
        | FK_MAX_STREAM_DATA \<Rightarrow> map_option (apfst Max_Stream_Data) (max_stream_data_decode buf)
        | FK_STREAM_DATA_BLOCKED \<Rightarrow> map_option (apfst Stream_Data_Blocked) (stream_data_blocked_decode buf)
        | FK_MAX_STREAMS \<Rightarrow> map_option (apfst Max_Streams) (max_streams_decode buf)
        | FK_STREAMS_BLOCKED \<Rightarrow> map_option (apfst Streams_Blocked) (streams_blocked_decode buf)
        | FK_NEW_TOKEN \<Rightarrow> map_option (apfst New_Token) (new_token_decode buf)
        | FK_NEW_CONNECTION_ID \<Rightarrow> map_option (apfst New_Cid) (ncid_decode buf)
        | FK_RETIRE_CONNECTION_ID \<Rightarrow> map_option (apfst Retire_Cid) (retire_cid_decode buf)
        | FK_PATH_CHALLENGE \<Rightarrow> map_option (apfst Path_Challenge) (path_decode FRAME_PATH_CHALLENGE buf)
        | FK_PATH_RESPONSE \<Rightarrow> map_option (apfst Path_Response) (path_decode FRAME_PATH_RESPONSE buf)))"

lemma emits_byte: "emits (put_u8 b) [b]"
  using emits_put_u8 by simp

lemmas byte_fits = run_put_fits [OF emits_byte]
lemmas byte_overflow = run_put_overflow [OF emits_byte]

lemma path_enc_fits:
  "path_wf d \<Longrightarrow> Suc (length d) \<le> length buf \<Longrightarrow>
   path_encode t buf d = (Suc (length d), t # d @ drop (Suc (length d)) buf)"
  using path.enc_fits [of d t buf] by simp

lemma path_enc_overflow:
  "path_wf d \<Longrightarrow> length buf < Suc (length d) \<Longrightarrow> fst (path_encode t buf d) = 0"
  using path.enc_overflow [of d buf t] by simp

lemma path_dec_wire: "path_wf d \<Longrightarrow> path_decode t (t # d @ rest) = Some (d, Suc (length d))"
  using path.dec_wire [of d t rest] by simp

lemmas enc_fits_all = ack.enc_fits crypto.enc_fits stream.enc_fits conn_close.enc_fits
  datagram.enc_fits reset_stream.enc_fits stop_sending.enc_fits reset_stream_at.enc_fits
  max_data.enc_fits data_blocked.enc_fits max_stream_data.enc_fits stream_data_blocked.enc_fits
  max_streams.enc_fits streams_blocked.enc_fits new_token.enc_fits ncid.enc_fits retire_cid.enc_fits
  path_enc_fits byte_fits

lemmas enc_overflow_all = ack.enc_overflow crypto.enc_overflow stream.enc_overflow conn_close.enc_overflow
  datagram.enc_overflow reset_stream.enc_overflow stop_sending.enc_overflow reset_stream_at.enc_overflow
  max_data.enc_overflow data_blocked.enc_overflow max_stream_data.enc_overflow
  stream_data_blocked.enc_overflow max_streams.enc_overflow streams_blocked.enc_overflow
  new_token.enc_overflow ncid.enc_overflow retire_cid.enc_overflow path_enc_overflow byte_overflow

lemmas dec_wire_all = ack.dec_wire crypto.dec_wire stream.dec_wire conn_close.dec_wire
  datagram.dec_wire reset_stream.dec_wire stop_sending.dec_wire reset_stream_at.dec_wire
  max_data.dec_wire data_blocked.dec_wire max_stream_data.dec_wire stream_data_blocked.dec_wire
  max_streams.dec_wire streams_blocked.dec_wire new_token.dec_wire ncid.dec_wire retire_cid.dec_wire
  path_dec_wire

lemma encode_frame_fits:
  "frame_wf f \<Longrightarrow> length (frame_wire f) \<le> length buf \<Longrightarrow>
   encode_frame buf f = (length (frame_wire f), frame_wire f @ drop (length (frame_wire f)) buf)"
  by (cases f) (simp_all add: enc_fits_all FRAME_PATH_CHALLENGE_def FRAME_PATH_RESPONSE_def)

lemma encode_frame_overflow:
  "frame_wf f \<Longrightarrow> length buf < length (frame_wire f) \<Longrightarrow> fst (encode_frame buf f) = 0"
  by (cases f) (simp_all add: enc_overflow_all)

lemma frame_wire_type: "varint_decode (frame_wire f @ rest) = Some (ucast (hd (frame_wire f)), 1)"
proof -
  have "frame_wire f @ rest = hd (frame_wire f) # (tl (frame_wire f) @ rest)"
    using frame_first_byte(1) [of f] by simp
  then show ?thesis using varint_decode_small [OF frame_first_byte(2) [of f]] by metis
qed

lemma decode_frame_wire:
  assumes "frame_wf f"
  shows "decode_frame (frame_wire f @ rest) = Some (f, length (frame_wire f))"
  unfolding decode_frame_def frame_wire_type option.case prod.case frame_first_byte(3)
  using assms by (cases f)
    (simp_all add: dec_wire_all FRAME_PATH_CHALLENGE_def FRAME_PATH_RESPONSE_def)

interpretation frames: frame_codec encode_frame "\<lambda>b. decode_frame b" frame_wire frame_wf
proof
  show "0 < n \<and> n \<le> length buf" if "buf \<noteq> []" "decode_frame buf = Some (f, n)" for buf f n
    using that
    by (auto simp: decode_frame_def apfst_def map_prod_def length_greater_0_conv [symmetric] Suc_le_eq
        simp del: length_greater_0_conv split: option.splits frame_kind.splits
        dest: ack.dec_bounds crypto.dec_bounds stream.dec_bounds conn_close.dec_bounds
  datagram.dec_bounds reset_stream.dec_bounds stop_sending.dec_bounds reset_stream_at.dec_bounds
  max_data.dec_bounds data_blocked.dec_bounds max_stream_data.dec_bounds stream_data_blocked.dec_bounds
  max_streams.dec_bounds streams_blocked.dec_bounds new_token.dec_bounds ncid.dec_bounds retire_cid.dec_bounds
  path.dec_bounds)
qed (fact encode_frame_fits encode_frame_overflow decode_frame_wire)+

lemma items_of_decoded:
  "list_all frame_wf fs \<Longrightarrow> map (\<lambda>it. map_option fst (decode_frame (fi_start it))) (items_of fs) = map Some fs"
  by (induction fs) (simp_all add: decode_frame_wire)

lemma walk_non_probing:
  assumes "list_all frame_wf fs"
  shows "framewalk_non_probing (concat (map frame_wire fs)) \<longleftrightarrow>
    (\<exists>f \<in> set fs. \<not> framewalk_probing (kind_of f))"
proof -
  have "(\<exists>x \<in> set (items_of fs). \<not> framewalk_probing (frame_classify (fi_type x))) \<longleftrightarrow>
      (\<exists>k \<in> set (map (\<lambda>it. frame_classify (fi_type it)) (items_of fs)). \<not> framewalk_probing k)"
    by simp
  then show ?thesis
    unfolding items_of_kinds
    by (simp add: framewalk_non_probing_def framewalk_loop_fold walk_items_concat [OF assms] fold_or)
qed

section \<open>Properties\<close>

text \<open>
  C15. Every frame codec is exact. For each of the 22 frame kinds, the encoder returns 0 exactly
  when the frame does not fit; otherwise it returns the bytes written, leaves the rest of the
  buffer alone, and the decoder chosen by the frame's type returns the same frame and the same
  count.
\<close>

theorem frame_roundtrip:
  assumes "frame_wf f" and "encode_frame buf f = (n, buf')"
  shows "(n = 0 \<longleftrightarrow> length buf < length (frame_wire f)) \<and>
    (n \<noteq> 0 \<longrightarrow> decode_frame buf' = Some (f, n) \<and> n \<le> length buf \<and> length buf' = length buf
       \<and> drop n buf' = drop n buf)"
proof (cases "length buf < length (frame_wire f)")
  case True
  then show ?thesis using encode_frame_overflow [OF assms(1) True] assms(2) by simp
next
  case False
  then show ?thesis
    using encode_frame_fits [OF assms(1), of buf] assms(2) frame_first_byte(1) [of f]
      frames.enc_roundtrip [OF assms] by simp
qed

theorem frame_roundtrip_witness:
  "decode_frame (snd (encode_frame (replicate 6 0)
     (Stop_Sending \<lparr>ss_stream_id = 4, ss_error_code = 9\<rparr>)))
   = Some (Stop_Sending \<lparr>ss_stream_id = 4, ss_error_code = 9\<rparr>, 3)"
proof -
  let ?f = "Stop_Sending \<lparr>ss_stream_id = 4, ss_error_code = 9\<rparr>"
  have wf: "frame_wf ?f" by (simp add: stop_sending_wf_def VARINT_MAX_def)
  have len: "length (frame_wire ?f) = 3" by (simp add: stop_sending_wire_def varint_wire_small)
  obtain n b where e: "encode_frame (replicate 6 0) ?f = (n, b)" by (meson surj_pair)
  have "n = 3" using encode_frame_fits [OF wf, of "replicate 6 0"] len e by simp
  then show ?thesis using frame_roundtrip [OF wf e] by (simp only: e) simp
qed

text \<open>
  C16. A payload made by concatenating encoded frames is walked to its end: the walker stops
  at each frame in order, and at each stop the decoder for its type recovers that frame. The
  two summaries the receive path takes, ack-eliciting and non-probing, are those of the frames.
\<close>

theorem walk_exact:
  assumes "list_all frame_wf fs"
  shows "map (\<lambda>it. map_option fst (decode_frame (fi_start it))) (walk_items (concat (map frame_wire fs))) = map Some fs
    \<and> map (\<lambda>it. frame_classify (fi_type it)) (walk_items (concat (map frame_wire fs))) = map kind_of fs
    \<and> (framewalk_ack_eliciting (concat (map frame_wire fs)) \<longleftrightarrow>
         (\<exists>f \<in> set fs. kind_of f \<notin> {FK_PADDING, FK_ACK, FK_CONNECTION_CLOSE}))
    \<and> (framewalk_non_probing (concat (map frame_wire fs)) \<longleftrightarrow>
         (\<exists>f \<in> set fs. \<not> framewalk_probing (kind_of f)))"
proof -
  have "frame_ack_eliciting (kind_of f) \<longleftrightarrow> kind_of f \<notin> {FK_PADDING, FK_ACK, FK_CONNECTION_CLOSE}" for f
    by (cases f) (simp_all add: frame_ack_eliciting_def non_eliciting_def)
  then show ?thesis
    using walk_items_concat [OF assms] items_of_kinds [of fs] items_of_decoded [OF assms]
      walk_eliciting [OF assms] walk_non_probing [OF assms] by simp
qed

theorem walk_exact_witness:
  "map (\<lambda>it. frame_classify (fi_type it)) (walk_items (concat (map frame_wire [Padding, Path_Challenge [1,2,3,4,5,6,7,8], Ping])))
     = [FK_PADDING, FK_PATH_CHALLENGE, FK_PING]
   \<and> framewalk_ack_eliciting (concat (map frame_wire [Padding, Path_Challenge [1,2,3,4,5,6,7,8], Ping]))"
  using walk_exact [of "[Padding, Path_Challenge [1,2,3,4,5,6,7,8], Ping]"]
  by (simp add: path_wf_def PATH_DATA_def del: concat.simps)



text \<open>
  The permission bitmap is Table 3 of RFC 9000 with RFC 9221 and RESET\_STREAM\_AT: which
  frame kinds may appear in Initial, Handshake, 0-RTT and 1-RTT packets.
\<close>

theorem frame_permitted_exact:
  "(frame_permitted k PKT_INITIAL \<longleftrightarrow> k \<in> {FK_PADDING, FK_PING, FK_ACK, FK_CRYPTO, FK_CONNECTION_CLOSE})
   \<and> (frame_permitted k PKT_HANDSHAKE \<longleftrightarrow> frame_permitted k PKT_INITIAL)
   \<and> (frame_permitted k PKT_0RTT \<longleftrightarrow>
       k \<notin> {FK_UNKNOWN, FK_ACK, FK_CRYPTO, FK_NEW_TOKEN, FK_PATH_RESPONSE, FK_HANDSHAKE_DONE})
   \<and> (frame_permitted k PKT_1RTT \<longleftrightarrow> k \<noteq> FK_UNKNOWN)"
  by (simp only: frame_permitted_table)

end
