(* ===== verification/Packet_Number.thy ===== *)
theory Packet_Number
  imports Bytes_Varint
begin

unbundle bit_operations_syntax

text \<open>
  Packet numbers: truncation and recovery (\<^verbatim>\<open>src/transport/packet/header/packet/pnum.c\<close>,
  \<^verbatim>\<open>pnlen.c\<close>) and the sliding window of received numbers
  (\<^verbatim>\<open>src/transport/conn/pnspace/recvpn/recvpn.c\<close>). The recovered number is the one that was
  truncated whenever it lies within half a window of the expected one, which the chosen
  length guarantees for a packet sent above the receiver's largest; the window refines the
  set of recorded numbers, exactly down to 64 below the largest.
\<close>

section \<open>pnum.c and pnlen.c\<close>

function pnum_len_loop :: "u64 \<Rightarrow> nat \<Rightarrow> nat" where
  "pnum_len_loop need b =
     (if b < 4 \<and> need \<ge> push_bit (8 * b) 1 then pnum_len_loop need (b + 1) else b)"
  by pat_completeness auto
termination by (relation "measure (\<lambda>(_, b). 4 - b)") auto

definition pnum_len :: "u64 \<Rightarrow> u64 \<Rightarrow> nat" where
  "pnum_len full_pn largest_acked = pnum_len_loop ((full_pn - largest_acked) * 2) 1"

definition pnum_encode :: "bytes \<Rightarrow> nat \<Rightarrow> u64 \<Rightarrow> nat \<Rightarrow> nat \<times> bytes" where
  "pnum_encode buf off full_pn nbytes = (nbytes, put_be_loop buf off nbytes full_pn)"

definition read_be :: "bytes \<Rightarrow> nat \<Rightarrow> u64" where
  "read_be buf nbytes = be_fold 0 (take nbytes buf)"

definition below_window :: "u64 \<Rightarrow> u64 \<Rightarrow> u64 \<Rightarrow> bool" where
  "below_window candidate expected win \<longleftrightarrow>
     candidate + win div 2 \<le> expected \<and> candidate + win > candidate"

definition above_window :: "u64 \<Rightarrow> u64 \<Rightarrow> u64 \<Rightarrow> bool" where
  "above_window candidate expected win \<longleftrightarrow>
     candidate > expected + win div 2 \<and> candidate \<ge> win"

definition nearest :: "u64 \<Rightarrow> u64 \<Rightarrow> u64 \<Rightarrow> u64" where
  "nearest candidate expected win =
     (if below_window candidate expected win then candidate + win
      else if above_window candidate expected win then candidate - win
      else candidate)"

definition pnum_decode :: "bytes \<Rightarrow> nat \<Rightarrow> u64 \<Rightarrow> u64" where
  "pnum_decode buf nbytes largest_pn =
     (let truncated = read_be buf nbytes;
          bits = nbytes * 8;
          win = push_bit bits 1;
          expected = largest_pn + 1;
          candidate = (expected AND NOT (win - 1)) OR truncated
      in nearest candidate expected win)"

function pnlen_loop :: "u64 \<Rightarrow> nat \<Rightarrow> nat" where
  "pnlen_loop num_unacked b =
     (if b < 4 \<and> drop_bit (8 * b - 1) num_unacked \<noteq> 0 then pnlen_loop num_unacked (b + 1) else b)"
  by pat_completeness auto
termination by (relation "measure (\<lambda>(_, b). 4 - b)") auto

definition pnlen_needed :: "u64 \<Rightarrow> u64 \<Rightarrow> nat" where
  "pnlen_needed pn largest_acked = pnlen_loop (pn - largest_acked) 1"

declare pnum_len_loop.simps [simp del] pnlen_loop.simps [simp del]

section \<open>recvpn.c\<close>

definition RECVPN_WINDOW :: u64 where "RECVPN_WINDOW = 64"

record recvpn =
  rp_largest :: u64
  rp_bitmap :: u64
  rp_any :: bool

definition recvpn_init :: recvpn where
  "recvpn_init = \<lparr>rp_largest = 0, rp_bitmap = 0, rp_any = False\<rparr>"

definition below_seen :: "recvpn \<Rightarrow> u64 \<Rightarrow> bool" where
  "below_seen r pn =
     (let delta = rp_largest r - pn
      in if delta > RECVPN_WINDOW then False
         else drop_bit (unat (delta - 1)) (rp_bitmap r) AND 1 \<noteq> 0)"

definition seen_at_or_above :: "recvpn \<Rightarrow> u64 \<Rightarrow> bool" where
  "seen_at_or_above r pn =
     (if pn = rp_largest r then True else if pn > rp_largest r then False else below_seen r pn)"

definition recvpn_seen :: "recvpn \<Rightarrow> u64 \<Rightarrow> bool" where
  "recvpn_seen r pn = (if \<not> rp_any r then False else seen_at_or_above r pn)"

definition recvpn_advance :: "recvpn \<Rightarrow> u64 \<Rightarrow> recvpn" where
  "recvpn_advance r pn =
     (let step = pn - rp_largest r;
          shifted = (if step \<ge> 64 then 0 else push_bit (unat step) (rp_bitmap r));
          old_bit = (if step \<le> 64 then push_bit (unat (step - 1)) 1 else 0)
      in r\<lparr>rp_bitmap := shifted OR old_bit, rp_largest := pn\<rparr>)"

definition mark_below :: "recvpn \<Rightarrow> u64 \<Rightarrow> recvpn" where
  "mark_below r pn =
     (let delta = rp_largest r - pn
      in if delta = 0 \<or> delta > RECVPN_WINDOW then r
         else r\<lparr>rp_bitmap := rp_bitmap r OR push_bit (unat (delta - 1)) 1\<rparr>)"

definition recvpn_record :: "recvpn \<Rightarrow> u64 \<Rightarrow> recvpn" where
  "recvpn_record r pn =
     (if \<not> rp_any r then r\<lparr>rp_any := True, rp_largest := pn\<rparr>
      else if pn > rp_largest r then recvpn_advance r pn
      else mark_below r pn)"

definition run_continues :: "recvpn \<Rightarrow> nat \<Rightarrow> bool" where
  "run_continues r i \<longleftrightarrow> i < unat RECVPN_WINDOW \<and> drop_bit i (rp_bitmap r) AND 1 \<noteq> 0"

function first_range_loop :: "recvpn \<Rightarrow> nat \<Rightarrow> nat" where
  "first_range_loop r count = (if run_continues r count then first_range_loop r (count + 1) else count)"
  by pat_completeness auto
termination
  by (relation "measure (\<lambda>(_, c). 64 - c)") (auto simp: run_continues_def RECVPN_WINDOW_def)

declare first_range_loop.simps [simp del]

definition recvpn_first_range :: "recvpn \<Rightarrow> nat" where
  "recvpn_first_range r = (if \<not> rp_any r then 0 else first_range_loop r 0)"

section \<open>Recovering a truncated packet number\<close>

lemma pnum_len_range: "1 \<le> pnum_len pn la \<and> pnum_len pn la \<le> 4"
proof -
  have "1 \<le> b \<Longrightarrow> b \<le> 4 \<Longrightarrow> 1 \<le> pnum_len_loop need b \<and> pnum_len_loop need b \<le> 4" for need b
    by (induction need b rule: pnum_len_loop.induct) (subst (1 2) pnum_len_loop.simps, auto)
  then show ?thesis by (simp add: pnum_len_def)
qed

lemma unat_win:
  assumes "k < 64"
  shows "unat (push_bit k 1 :: u64) = 2 ^ k"
proof -
  have "(2 :: nat) ^ k < 2 ^ 64" using assms by (intro power_strict_increasing) auto
  then have "unat (of_nat (2 ^ k) :: u64) = 2 ^ k"
    by (simp only: unsigned_of_nat take_bit_eq_mod len_num1 len_bit0) simp
  then show ?thesis by (simp add: push_bit_eq_mult)
qed

lemma unat_double: "unat x < 2 ^ 63 \<Longrightarrow> unat (x * 2 :: u64) = 2 * unat x"
  by (simp add: unat_word_ariths)

lemma unat_push_bit_u64:
  assumes "k < 64" and "unat q * 2 ^ k < 18446744073709551616"
  shows "unat (push_bit k q :: u64) = unat q * 2 ^ k"
proof -
  define w where "w = push_bit k (1 :: u64)"
  have "push_bit k q = q * w" by (simp add: push_bit_eq_mult w_def)
  moreover have "unat w = 2 ^ k" unfolding w_def using assms(1) by (rule unat_win)
  ultimately show ?thesis using assms(2) by (simp add: unat_word_ariths)
qed

lemma pnum_len_loop_enough:
  "1 \<le> b \<Longrightarrow> b \<le> 4 \<Longrightarrow> unat need < 2 ^ 32 \<Longrightarrow> unat need < 2 ^ (8 * pnum_len_loop need b)"
proof (induction need b rule: pnum_len_loop.induct)
  case (1 need b)
  show ?case
  proof (cases "b < 4 \<and> need \<ge> push_bit (8 * b) 1")
    case True
    then show ?thesis using 1 by (subst pnum_len_loop.simps) simp
  next
    case False
    then show ?thesis
      using 1 unat_win [of "8 * b"] by (subst pnum_len_loop.simps) (auto simp: u64_le_mono not_le)
  qed
qed

lemma pnum_len_enough:
  assumes "la \<le> pn" and "unat pn - unat la < 2 ^ 31"
  shows "2 * (unat pn - unat la) < 2 ^ (8 * pnum_len pn la)"
proof -
  have "unat (pn - la) = unat pn - unat la" using assms(1) by (rule unat_sub_u64)
  then have u: "unat ((pn - la) * 2) = 2 * (unat pn - unat la)"
    using assms(2) unat_double [of "pn - la"] by simp
  then show ?thesis
    using pnum_len_loop_enough [of 1 "(pn - la) * 2"] assms(2) by (simp add: pnum_len_def)
qed

lemma read_be_encode:
  assumes "n \<le> 8" and "off + n \<le> length buf"
  shows "read_be (drop off (snd (pnum_encode buf off pn n))) n = take_bit (8 * n) pn"
proof -
  have "drop off (snd (pnum_encode buf off pn n)) = be_bytes n pn @ drop (off + n) buf"
    using assms by (simp add: pnum_encode_def put_be_loop_eq write_at_eq)
  then show ?thesis
    using be_fold_be_bytes [of n 0 pn] assms by (simp add: read_be_def)
qed

lemma candidate_unat:
  assumes "k < 64"
  shows "unat ((e AND NOT (push_bit k 1 - 1)) OR take_bit k (t :: u64)) = unat e div 2 ^ k * 2 ^ k + unat t mod 2 ^ k"
proof -
  have m: "push_bit k 1 - 1 = (mask k :: u64)" by (simp add: mask_eq_exp_minus_1 push_bit_eq_mult)
  have s: "(e AND NOT (mask k)) OR take_bit k t = push_bit k (drop_bit k e) + take_bit k t"
  proof -
    have "push_bit k (drop_bit k e) AND take_bit k t = 0"
      by (rule bit_word_eqI) (auto simp: bit_simps)
    then have "push_bit k (drop_bit k e) + take_bit k t = push_bit k (drop_bit k e) OR take_bit k t"
      by (rule disjunctive_add_eq_or)
    moreover have "e AND NOT (mask k) = push_bit k (drop_bit k e)"
      by (rule bit_word_eqI) (auto simp: bit_simps)
    ultimately show ?thesis by simp
  qed
  have hi: "unat (push_bit k (drop_bit k e)) = unat e div 2 ^ k * 2 ^ k"
  proof -
    have "unat e div 2 ^ k * 2 ^ k < 18446744073709551616"
      using unat_lt_u64 [of e] by (meson div_times_less_eq_dividend le_less_trans)
    moreover have "unat (drop_bit k e) = unat e div 2 ^ k"
      by (subst unsigned_drop_bit_eq) (simp add: drop_bit_eq_div take_bit_eq_mod)
    ultimately show ?thesis using assms by (simp add: unat_push_bit_u64)
  qed
  have lo: "unat (take_bit k t) = unat t mod 2 ^ k"
    by (simp only: unsigned_take_bit_eq) (simp only: take_bit_eq_mod)
  have "unat e < 2 ^ (64 - k) * 2 ^ k"
    using assms unat_lt_u64 [of e] by (simp flip: power_add)
  then have "unat e div 2 ^ k < 2 ^ (64 - k)" by (rule less_mult_imp_div_less)
  then have "(unat e div 2 ^ k + 1) * 2 ^ k \<le> 2 ^ (64 - k) * 2 ^ k" by (intro mult_right_mono) simp_all
  then have "unat e div 2 ^ k * 2 ^ k + 2 ^ k \<le> 2 ^ 64"
    using assms by (simp flip: power_add)
  moreover have "unat t mod 2 ^ k < 2 ^ k" by simp
  ultimately have "unat e div 2 ^ k * 2 ^ k + unat t mod 2 ^ k < 2 ^ 64" by linarith
  then show ?thesis
    unfolding m s using hi lo by (simp add: unat_add_u64)
qed

text \<open>RFC 9000 A.3 on the naturals: the residue within half a window \<open>H\<close> of the expected number.\<close>

lemma nearest_nat:
  fixes E c P H :: nat
  assumes "0 < H" and "c mod (2 * H) = P mod (2 * H)" and "c < E + 2 * H" and "E < c + 2 * H"
    and "E < P + H" and "P \<le> E + H"
  shows "P = (if c + H \<le> E then c + 2 * H else if c > E + H then c - 2 * H else c)"
    and "E + H < c \<Longrightarrow> 2 * H \<le> c"
proof -
  define M where "M = 2 * int H"
  have "int P mod M = int c mod M"
    using assms(2) unfolding M_def by (metis of_nat_mult of_nat_numeral zmod_int)
  then obtain k where k: "int P - int c = M * k"
    unfolding mod_eq_dvd_iff dvd_def by blast
  have M: "0 < M" "int (2 * H) = M" using assms(1) by (simp_all add: M_def)
  have "k < 2"
  proof (rule ccontr)
    assume "\<not> ?thesis"
    then have "M * 2 \<le> M * k" using M by (intro mult_left_mono) simp_all
    then show False using assms k M by linarith
  qed
  moreover have "- 2 < k"
  proof (rule ccontr)
    assume "\<not> ?thesis"
    then have "M * k \<le> M * - 2" using M by (intro mult_left_mono) simp_all
    then show False using assms k M by linarith
  qed
  ultimately have "k = - 1 \<or> k = 0 \<or> k = 1" by presburger
  then have "M * k = - M \<or> M * k = 0 \<or> M * k = M" by auto
  then have "c = P + 2 * H \<or> P = c \<or> P = c + 2 * H"
    using k M(2) by (elim disjE) linarith+
  then show "P = (if c + H \<le> E then c + 2 * H else if c > E + H then c - 2 * H else c)"
    and "E + H < c \<Longrightarrow> 2 * H \<le> c"
    using assms(1,3-6) by (elim disjE; simp)+
qed

lemma nearest_unat:
  assumes c: "unat c < 2 ^ 63" and e: "unat e < 2 ^ 63" and k: "1 \<le> k" "k \<le> 32"
    and win: "win = push_bit k (1 :: u64)"
  shows "unat (nearest c e win) =
    (if unat c + 2 ^ (k - 1) \<le> unat e then unat c + 2 ^ k
     else if unat c > unat e + 2 ^ (k - 1) \<and> unat c \<ge> 2 ^ k then unat c - 2 ^ k
     else unat c)"
proof -
  have w: "unat win = 2 ^ k" unfolding win using k by (intro unat_win) simp
  have wb: "(2 :: nat) ^ k \<le> 2 ^ 32" using k by (intro power_increasing) auto
  have "(2 :: nat) ^ k div 2 = 2 ^ (k - 1)" using k by (cases k) auto
  then have w2: "unat (win div 2) = 2 ^ (k - 1)" using w by (simp add: unat_div)
  have wb2: "(2 :: nat) ^ (k - 1) \<le> 2 ^ 32" using k by (intro power_increasing) auto
  have cw: "unat (c + win) = unat c + 2 ^ k" "unat (c + win div 2) = unat c + 2 ^ (k - 1)"
    "unat (e + win div 2) = unat e + 2 ^ (k - 1)"
    using c e w w2 wb wb2 by (simp_all add: unat_add_u64)
  have below: "below_window c e win \<longleftrightarrow> unat c + 2 ^ (k - 1) \<le> unat e"
    using cw by (simp add: below_window_def u64_le_mono u64_less_mono)
  have above: "above_window c e win \<longleftrightarrow> unat c > unat e + 2 ^ (k - 1) \<and> unat c \<ge> 2 ^ k"
    using cw w by (simp add: above_window_def u64_le_mono u64_less_mono)
  have "above_window c e win \<Longrightarrow> unat (c - win) = unat c - 2 ^ k"
    using w by (subst unat_sub_u64) (auto simp: above_window_def)
  then show ?thesis
    using cw below above by (simp add: nearest_def)
qed

lemma pnum_decode_truncated:
  assumes n: "1 \<le> n" "n \<le> 4" and fit: "off + n \<le> length buf"
    and enc: "pnum_encode buf off pn n = (m, buf')"
    and lr: "unat lr < 2 ^ 62" and pn: "unat pn < 2 ^ 62"
    and lo: "unat lr + 1 < unat pn + 2 ^ (8 * n - 1)" and hi: "unat pn \<le> unat lr + 1 + 2 ^ (8 * n - 1)"
  shows "pnum_decode (drop off buf') n lr = pn"
proof -
  let ?k = "8 * n"
  have k: "1 \<le> ?k" "?k \<le> 32" "n * 8 = ?k" using n by auto
  define e where "e = lr + 1"
  define win where "win = push_bit ?k (1 :: u64)"
  define c where "c = (e AND NOT (win - 1)) OR take_bit ?k pn"
  define H :: nat where "H = 2 ^ (?k - 1)"
  have "?k = Suc (?k - 1)" using n by simp
  then have H: "2 ^ ?k = 2 * H" "0 < H" unfolding H_def by (metis power_Suc) simp
  have eu: "unat e = unat lr + 1" using lr by (simp add: e_def unat_add_u64)
  have t: "read_be (drop off buf') n = take_bit ?k pn"
    using read_be_encode [of n off buf pn] n fit enc by simp
  have cu: "unat c = unat e div (2 * H) * (2 * H) + unat pn mod (2 * H)"
    unfolding c_def win_def H(1) [symmetric] using k by (intro candidate_unat) simp
  have "(2 :: nat) ^ ?k \<le> 2 ^ 32" using k by (intro power_increasing) auto
  then have Hb: "2 * H \<le> 4294967296" using H by simp
  have pm: "unat pn mod (2 * H) < 2 * H" using H by simp
  have em: "unat e div (2 * H) * (2 * H) + unat e mod (2 * H) = unat e" "unat e mod (2 * H) < 2 * H"
    using H(2) by (simp_all only: div_mult_mod_eq) simp
  have lr': "unat lr < 4611686018427387904" using lr by simp
  have cb: "unat c < 9223372036854775808" "unat e < 9223372036854775808"
    using cu pm em Hb eu lr' by linarith+
  have near: "unat c mod (2 * H) = unat pn mod (2 * H)" by (simp add: cu)
  have "unat c < unat e + 2 * H" "unat e < unat c + 2 * H" using cu pm em by linarith+
  note near = near this
  have "unat e < unat pn + H" "unat pn \<le> unat e + H" using lo hi eu by (simp_all add: H_def)
  note p = nearest_nat [OF H(2) near this]
  have "unat (nearest c e win) = unat pn"
  proof -
    have "unat (nearest c e win) = (if unat c + H \<le> unat e then unat c + 2 * H
        else if unat c > unat e + H \<and> unat c \<ge> 2 * H then unat c - 2 * H else unat c)"
      using nearest_unat [OF _ _ k(1,2) win_def, of c e] cb unfolding H(1) H_def [symmetric] by simp
    with p show ?thesis by presburger
  qed
  then have "nearest c e win = pn" by (simp add: word_unat_eq_iff)
  then show ?thesis
    unfolding pnum_decode_def Let_def t k(3) e_def [symmetric] win_def [symmetric] c_def [symmetric] .
qed

section \<open>The window refines the set of recorded numbers\<close>

definition recvpn_ok :: "recvpn \<Rightarrow> nat set \<Rightarrow> bool" where
  "recvpn_ok r S \<longleftrightarrow>
     (if rp_any r
      then unat (rp_largest r) \<in> S \<and> (\<forall>x \<in> S. x \<le> unat (rp_largest r))
        \<and> (\<forall>i < 64. bit (rp_bitmap r) i \<longleftrightarrow> i < unat (rp_largest r) \<and> unat (rp_largest r) - 1 - i \<in> S)
      else S = {} \<and> rp_bitmap r = 0)"

lemma bit_and_1: "drop_bit n (w :: u64) AND 1 \<noteq> 0 \<longleftrightarrow> bit w n"
  by (simp add: bit_iff_odd_drop_bit and_one_eq odd_iff_mod_2_eq_one)

lemma recvpn_ok_init: "recvpn_ok recvpn_init {}"
  by (simp add: recvpn_ok_def recvpn_init_def)

lemma recvpn_advance_ok:
  assumes ok: "recvpn_ok r S" and any: "rp_any r" and gt: "pn > rp_largest r"
  shows "recvpn_ok (recvpn_advance r pn) (insert (unat pn) S)"
proof -
  let ?L = "unat (rp_largest r)" and ?P = "unat pn"
  define st where "st = pn - rp_largest r"
  have LP: "?L < ?P" using gt by (simp add: u64_less_mono)
  have st: "unat st = ?P - ?L" unfolding st_def using gt by (intro unat_sub_u64) simp
  have st1: "unat (st - 1) = ?P - ?L - 1"
    using st LP unat_sub_u64 [of 1 st] by (simp add: u64_le_mono)
  have S: "?L \<in> S" "\<forall>x \<in> S. x \<le> ?L"
    and bits: "\<And>i. i < 64 \<Longrightarrow> bit (rp_bitmap r) i \<longleftrightarrow> i < ?L \<and> ?L - 1 - i \<in> S"
    using ok any by (auto simp: recvpn_ok_def)
  have "bit (rp_bitmap (recvpn_advance r pn)) i \<longleftrightarrow> i < ?P \<and> ?P - 1 - i \<in> insert ?P S" if i: "i < 64" for i
  proof -
    have b: "bit (rp_bitmap (recvpn_advance r pn)) i \<longleftrightarrow>
        (unat st < 64 \<and> unat st \<le> i \<and> bit (rp_bitmap r) (i - unat st)) \<or> (unat st \<le> 64 \<and> i = unat st - 1)"
      using i st st1 LP
      by (auto simp: recvpn_advance_def Let_def st_def [symmetric] bit_simps u64_le_mono u64_less_mono)
    consider "i < unat st - 1" | "i = unat st - 1" | "unat st \<le> i" using LP st by linarith
    then show ?thesis
    proof cases
      case 1
      then have "?P - 1 - i > ?L" "?P - 1 - i \<noteq> ?P" using st LP by linarith+
      then have "?P - 1 - i \<notin> insert ?P S" using S(2) by (auto simp: not_le [symmetric])
      then show ?thesis using b 1 by auto
    next
      case 2
      then have "?P - 1 - i = ?L" "i < ?P" using st LP by linarith+
      then show ?thesis using b 2 i S(1) LP st by auto
    next
      case 3
      have "?P - 1 - i = ?L - 1 - (i - unat st)" "i < ?P \<longleftrightarrow> i - unat st < ?L"
        using 3 st LP by linarith+
      then show ?thesis using b 3 bits [of "i - unat st"] i LP st by auto
    qed
  qed
  moreover have "rp_largest (recvpn_advance r pn) = pn" "rp_any (recvpn_advance r pn)"
    using any by (simp_all add: recvpn_advance_def Let_def)
  moreover have "\<forall>x \<in> insert ?P S. x \<le> ?P" using S(2) LP by auto
  ultimately show ?thesis by (simp add: recvpn_ok_def)
qed

lemma mark_below_ok:
  assumes ok: "recvpn_ok r S" and any: "rp_any r" and le: "pn \<le> rp_largest r"
  shows "recvpn_ok (mark_below r pn) (insert (unat pn) S)"
proof -
  let ?L = "unat (rp_largest r)" and ?P = "unat pn"
  define dl where "dl = rp_largest r - pn"
  have LP: "?P \<le> ?L" using le by (simp add: u64_le_mono)
  have dl: "unat dl = ?L - ?P" unfolding dl_def using le by (rule unat_sub_u64)
  have S: "?L \<in> S" "\<forall>x \<in> S. x \<le> ?L"
    and bits: "\<And>i. i < 64 \<Longrightarrow> bit (rp_bitmap r) i \<longleftrightarrow> i < ?L \<and> ?L - 1 - i \<in> S"
    using ok any by (auto simp: recvpn_ok_def)
  have keep: "rp_largest (mark_below r pn) = rp_largest r" "rp_any (mark_below r pn)"
    using any by (simp_all add: mark_below_def Let_def)
  have "bit (rp_bitmap (mark_below r pn)) i \<longleftrightarrow> i < ?L \<and> ?L - 1 - i \<in> insert ?P S" if i: "i < 64" for i
  proof (cases "dl = 0 \<or> dl > RECVPN_WINDOW")
    case True
    then have "i < ?L \<Longrightarrow> ?L - 1 - i = ?P \<Longrightarrow> ?P \<in> S"
      using dl i LP S(1) by (auto simp: RECVPN_WINDOW_def u64_less_mono)
    then show ?thesis using True bits [OF i] by (auto simp: mark_below_def Let_def dl_def [symmetric])
  next
    case False
    then have "0 < unat dl" "unat dl \<le> 64"
      by (auto simp: RECVPN_WINDOW_def u64_less_mono unat_gt_0)
    then have d1: "unat (dl - 1) = ?L - ?P - 1" using dl unat_sub_u64 [of 1 dl] by (simp add: u64_le_mono)
    have "bit (rp_bitmap (mark_below r pn)) i \<longleftrightarrow> bit (rp_bitmap r) i \<or> i = ?L - ?P - 1"
      using False i d1 by (auto simp: mark_below_def Let_def dl_def [symmetric] bit_simps)
    moreover have "i < ?L \<and> ?L - 1 - i = ?P \<longleftrightarrow> i = ?L - ?P - 1"
      using \<open>0 < unat dl\<close> dl LP by linarith
    ultimately show ?thesis using bits [OF i] by auto
  qed
  then show ?thesis using keep S LP by (simp add: recvpn_ok_def)
qed

lemma recvpn_record_ok: "recvpn_ok r S \<Longrightarrow> recvpn_ok (recvpn_record r pn) (insert (unat pn) S)"
proof (cases "rp_any r")
  case True
  assume "recvpn_ok r S"
  with True show ?thesis
    using recvpn_advance_ok [of r S pn] mark_below_ok [of r S pn] by (simp add: recvpn_record_def)
next
  case False
  assume "recvpn_ok r S"
  with False show ?thesis by (auto simp: recvpn_record_def recvpn_ok_def)
qed

lemma recvpn_seen_iff:
  assumes ok: "recvpn_ok r S" and any: "rp_any r"
  shows "recvpn_seen r pn \<longleftrightarrow> unat pn \<in> S \<and> unat (rp_largest r) \<le> unat pn + 64"
proof -
  let ?L = "unat (rp_largest r)" and ?P = "unat pn"
  have S: "?L \<in> S" "\<forall>x \<in> S. x \<le> ?L"
    and bits: "\<And>i. i < 64 \<Longrightarrow> bit (rp_bitmap r) i \<longleftrightarrow> i < ?L \<and> ?L - 1 - i \<in> S"
    using ok any by (auto simp: recvpn_ok_def)
  consider "pn = rp_largest r" | "pn > rp_largest r" | "pn < rp_largest r" by fastforce
  then show ?thesis
  proof cases
    case 3
    then have LP: "?P < ?L" by (simp add: u64_less_mono)
    define dl where "dl = rp_largest r - pn"
    have dl: "unat dl = ?L - ?P" unfolding dl_def using 3 by (intro unat_sub_u64) simp
    have d1: "unat (dl - 1) = ?L - ?P - 1" using dl LP unat_sub_u64 [of 1 dl] by (simp add: u64_le_mono)
    have "recvpn_seen r pn \<longleftrightarrow> \<not> dl > RECVPN_WINDOW \<and> bit (rp_bitmap r) (?L - ?P - 1)"
      using 3 any d1 by (auto simp: recvpn_seen_def seen_at_or_above_def below_seen_def Let_def
          dl_def [symmetric] bit_and_1)
    moreover have "\<not> dl > RECVPN_WINDOW \<longleftrightarrow> ?L \<le> ?P + 64"
      using dl by (auto simp: RECVPN_WINDOW_def u64_less_mono)
    moreover have "?L - 1 - (?L - ?P - 1) = ?P" using LP by linarith
    moreover have "?L \<le> ?P + 64 \<Longrightarrow> ?L - ?P - 1 < 64" "?L - ?P - 1 < ?L" using LP by linarith+
    ultimately show ?thesis using bits [of "?L - ?P - 1"] by metis
  qed (use any S in \<open>auto simp: recvpn_seen_def seen_at_or_above_def u64_less_mono\<close>)
qed

lemma first_range_loop_spec:
  "\<forall>i < c. bit (rp_bitmap r) i \<Longrightarrow> c \<le> 64 \<Longrightarrow>
   c \<le> first_range_loop r c \<and> first_range_loop r c \<le> 64 \<and> (\<forall>i < first_range_loop r c. bit (rp_bitmap r) i)
   \<and> (first_range_loop r c < 64 \<longrightarrow> \<not> bit (rp_bitmap r) (first_range_loop r c))"
proof (induction r c rule: first_range_loop.induct)
  case (1 r c)
  show ?case
  proof (cases "run_continues r c")
    case True
    then have "c < 64" "bit (rp_bitmap r) c"
      by (auto simp: run_continues_def RECVPN_WINDOW_def bit_and_1)
    moreover from this have "\<forall>i < c + 1. bit (rp_bitmap r) i" using 1(2) less_Suc_eq by auto
    ultimately show ?thesis using 1(1) [OF True] True
      by (subst (1 2 3 4 5) first_range_loop.simps) auto
  next
    case False
    then show ?thesis using 1(2,3)
      by (subst (1 2 3 4 5) first_range_loop.simps) (auto simp: run_continues_def RECVPN_WINDOW_def bit_and_1)
  qed
qed

lemma recvpn_fold_ok: "recvpn_ok r S \<Longrightarrow> recvpn_ok (fold (\<lambda>pn r. recvpn_record r pn) pns r) (S \<union> unat ` set pns)"
proof (induction pns arbitrary: r S)
  case (Cons pn pns)
  from Cons.IH [OF recvpn_record_ok [OF Cons.prems, of pn]] show ?case by simp
qed simp

section \<open>Properties\<close>

text \<open>
  C33. A packet number the sender truncates to \<open>pnum_len\<close> bytes is recovered exactly by a
  receiver whose largest received number lies between the largest the sender knows to be
  acknowledged and the packet itself, as long as fewer than \<open>2 ^ 31\<close> numbers are unacknowledged.
\<close>

theorem pnum_roundtrip:
  assumes "la \<le> lr" and "lr < pn" and "unat pn < 2 ^ 62" and "unat pn - unat la < 2 ^ 31"
    and "off + pnum_len pn la \<le> length buf" and "pnum_encode buf off pn (pnum_len pn la) = (n, buf')"
  shows "pnum_decode (drop off buf') n lr = pn"
proof -
  have n: "n = pnum_len pn la" using assms(6) by (simp add: pnum_encode_def)
  have r: "1 \<le> n" "n \<le> 4" using pnum_len_range [of pn la] n by simp_all
  have lt: "unat la \<le> unat lr" "unat lr < unat pn"
    using assms(1,2) by (simp_all add: u64_le_mono u64_less_mono)
  have "la \<le> pn" using lt by (simp add: u64_le_mono)
  then have len: "2 * (unat pn - unat la) < 2 ^ (8 * n)" using pnum_len_enough assms(4) n by simp
  have "8 * n = Suc (8 * n - 1)" using r by simp
  then have "(2 :: nat) ^ (8 * n) = 2 * 2 ^ (8 * n - 1)" by (metis power_Suc)
  with len have "unat pn - unat la < 2 ^ (8 * n - 1)" by linarith
  moreover have "0 < (2 :: nat) ^ (8 * n - 1)" by simp
  moreover have "unat lr < 2 ^ 62" using lt(2) assms(3) by (rule less_trans)
  moreover have "unat lr + 1 < unat pn + 2 ^ (8 * n - 1)" "unat pn \<le> unat lr + 1 + 2 ^ (8 * n - 1)"
    using lt calculation by linarith+
  ultimately show ?thesis
    using pnum_decode_truncated [of n off buf pn n buf' lr] r assms(3,5,6) n by simp
qed

theorem pnum_roundtrip_witness:
  "pnum_decode (drop 1 (snd (pnum_encode (replicate 8 0) 1 70000 (pnum_len 70000 65000)))) 2 69990 = 70000"
proof -
  have len: "pnum_len 70000 65000 = 2" by (simp add: pnum_len_def pnum_len_loop.simps)
  obtain n buf' where e: "pnum_encode (replicate 8 0) 1 70000 (pnum_len 70000 65000) = (n, buf')" by fastforce
  then have "n = 2" using len by (simp add: pnum_encode_def)
  with pnum_roundtrip [OF _ _ _ _ _ e, of 69990] e len show ?thesis by simp
qed

text \<open>
  C32. After any sequence of \<open>recvpn_record\<close> calls the window answers \<open>recvpn_seen\<close> exactly for
  the recorded numbers that are at most 64 below the largest of them: no false positive ever,
  no false negative inside the window, and every older number reported as new.
\<close>

theorem recvpn_exact:
  assumes "pns \<noteq> []"
  shows "recvpn_seen (fold (\<lambda>pn r. recvpn_record r pn) pns recvpn_init) pn \<longleftrightarrow>
    pn \<in> set pns \<and> Max (unat ` set pns) \<le> unat pn + 64"
proof -
  let ?r = "fold (\<lambda>pn r. recvpn_record r pn) pns recvpn_init" and ?S = "unat ` set pns"
  have ok: "recvpn_ok ?r ?S" using recvpn_fold_ok [OF recvpn_ok_init, of pns] by simp
  have any: "rp_any ?r" using ok assms by (auto simp: recvpn_ok_def split: if_splits)
  have "unat (rp_largest ?r) = Max ?S"
    using ok any by (intro Max_eqI [symmetric]) (auto simp: recvpn_ok_def)
  moreover have "inj (unat :: u64 \<Rightarrow> nat)" by (rule injI) (simp only: word_unat_eq_iff)
  then have "unat pn \<in> ?S \<longleftrightarrow> pn \<in> set pns" by (rule inj_image_mem_iff)
  ultimately show ?thesis using recvpn_seen_iff [OF ok any, of pn] by simp
qed

theorem recvpn_exact_witness:
  "recvpn_seen (fold (\<lambda>pn r. recvpn_record r pn) [5, 3, 40] recvpn_init) 3
   \<and> \<not> recvpn_seen (fold (\<lambda>pn r. recvpn_record r pn) [5, 3, 100] recvpn_init) 3"
  using recvpn_exact [of "[5, 3, 40]" 3] recvpn_exact [of "[5, 3, 100]" 3] by simp

end
