(* ===== verification/Packet_Header.thy ===== *)
theory Packet_Header
  imports Packet_Number
begin

unbundle bit_operations_syntax

text \<open>
  \<^verbatim>\<open>src/transport/packet/header\<close>: the invariant header (\<^verbatim>\<open>packet/header.c\<close>), the short header
  (\<^verbatim>\<open>packet/short.c\<close>, \<^verbatim>\<open>shorthdr/shorthdr.c\<close>), packet types per version (\<^verbatim>\<open>packet/ptype.c\<close>,
  \<^verbatim>\<open>version/version/v2types.c\<close>), the Initial token (\<^verbatim>\<open>packet/inittoken.c\<close>), the complete long
  header (\<^verbatim>\<open>lhdr/\<close>), datagram splitting (\<^verbatim>\<open>packet/coalesce.c\<close>), Version Negotiation and Retry
  (\<^verbatim>\<open>packet/vneg.c\<close>, \<^verbatim>\<open>packet/retry.c\<close>) and the routing connection ID (\<^verbatim>\<open>dcidresolve/\<close>). A
  connection ID with its length is the list of its bytes.
\<close>

section \<open>header.c\<close>

definition WIRED_MAX_CID_LEN :: nat where "WIRED_MAX_CID_LEN = 20"

record wired_header =
  wh_long :: bool
  wh_long_type :: u8
  wh_version :: u32
  wh_dcid :: bytes
  wh_scid :: bytes

definition cid_fits :: "nat \<Rightarrow> nat \<Rightarrow> nat \<Rightarrow> bool" where
  "cid_fits len off n \<longleftrightarrow> len \<le> WIRED_MAX_CID_LEN \<and> off + 1 + len \<le> n"

definition read_cid :: "bytes \<Rightarrow> nat \<Rightarrow> (bytes \<times> nat) option" where
  "read_cid buf off =
     (if off \<ge> length buf then None
      else let len = unat (buf ! off)
           in if \<not> cid_fits len off (length buf) then None
              else Some (take len (drop (off + 1) buf), off + 1 + len))"

definition read_cids :: "bytes \<Rightarrow> nat \<Rightarrow> ((bytes \<times> bytes) \<times> nat) option" where
  "read_cids buf off = do {
     (d, off) \<leftarrow> read_cid buf off;
     (s, off) \<leftarrow> read_cid buf off;
     Some ((d, s), off)
   }"

definition header_parse_long :: "bytes \<Rightarrow> (wired_header \<times> nat) option" where
  "header_parse_long buf =
     (if length buf < 5 then None
      else do {
        ((d, s), off) \<leftarrow> read_cids buf 5;
        Some (\<lparr>wh_long = True, wh_long_type = drop_bit 4 (buf ! 0) AND 0x3,
               wh_version = be_get_be32 (drop 1 buf), wh_dcid = d, wh_scid = s\<rparr>, off)
      })"

definition header_parse_short :: "bytes \<Rightarrow> nat \<Rightarrow> (wired_header \<times> nat) option" where
  "header_parse_short buf dcid_len =
     (if \<not> cid_fits dcid_len 0 (length buf) then None
      else Some (\<lparr>wh_long = False, wh_long_type = 0, wh_version = 0,
                  wh_dcid = take dcid_len (drop 1 buf), wh_scid = []\<rparr>, 1 + dcid_len))"

definition wired_header_parse :: "bytes \<Rightarrow> nat \<Rightarrow> (wired_header \<times> nat) option" where
  "wired_header_parse buf dcid_len =
     (if length buf = 0 then None
      else if buf ! 0 AND 0x80 \<noteq> 0 then header_parse_long buf
      else header_parse_short buf dcid_len)"

definition write_cid :: "bytes \<Rightarrow> writer" where
  "write_cid cid out =
     (if ob_len out + 1 + length cid > ob_cap out then (False, out)
      else (True, out\<lparr>ob_p := write_at ((ob_p out)[ob_len out := of_nat (length cid)]) (ob_len out + 1) cid,
                      ob_len := ob_len out + (1 + length cid)\<rparr>))"

definition put_long_prefix :: "bytes \<Rightarrow> wired_header \<Rightarrow> nat \<times> bytes" where
  "put_long_prefix buf h =
     (if length buf < 5 then (0, buf)
      else (5, buf[0 := 0xC0 OR push_bit 4 (wh_long_type h),
                   1 := ucast (drop_bit 24 (wh_version h)), 2 := ucast (drop_bit 16 (wh_version h)),
                   3 := ucast (drop_bit 8 (wh_version h)), 4 := ucast (wh_version h)]))"

text \<open>A connection ID that does not fit resets the length and the loop goes on to the next.\<close>

fun write_cids_loop :: "bytes list \<Rightarrow> wired_obuf \<Rightarrow> wired_obuf" where
  "write_cids_loop [] out = out"
| "write_cids_loop (cid # cids) out =
     (case write_cid cid out of
        (ok, out') \<Rightarrow> write_cids_loop cids (if \<not> ok then out'\<lparr>ob_len := 0\<rparr> else out'))"

definition write_cids :: "wired_obuf \<Rightarrow> wired_header \<Rightarrow> wired_obuf" where
  "write_cids out h = write_cids_loop [wh_dcid h, wh_scid h] out"

definition wired_header_build_long :: "bytes \<Rightarrow> wired_header \<Rightarrow> nat \<times> bytes" where
  "wired_header_build_long buf h =
     (case put_long_prefix buf h of
        (n, buf') \<Rightarrow>
          let out = \<lparr>ob_p = buf', ob_len = n\<rparr>;
              out = (if n \<noteq> 0 then write_cids out h else out)
          in (ob_len out, ob_p out))"

section \<open>short.c and shorthdr.c\<close>

record short_desc =
  sh_dcid :: bytes
  sh_spin :: u8
  sh_key_phase :: u8
  sh_pn :: u64
  sh_pn_len :: nat

definition short_ok :: "nat \<Rightarrow> short_desc \<Rightarrow> bool" where
  "short_ok cap d =
     (if sh_pn_len d < 1 \<or> sh_pn_len d > 4 then False
      else 1 + length (sh_dcid d) + sh_pn_len d \<le> cap)"

definition short_byte0 :: "u8 \<Rightarrow> u8 \<Rightarrow> nat \<Rightarrow> u8" where
  "short_byte0 spin key_phase pn_len =
     0x40 OR push_bit 5 (spin AND 1) OR push_bit 2 (key_phase AND 1) OR of_nat (pn_len - 1)"

definition put_pn :: "bytes \<Rightarrow> nat \<Rightarrow> u64 \<Rightarrow> nat \<Rightarrow> bytes" where
  "put_pn buf off pn pn_len =
     write_at buf off (map (\<lambda>i. ucast (drop_bit ((pn_len - 1 - i) * 8) pn)) [0..<pn_len])"

definition short_build :: "bytes \<Rightarrow> short_desc \<Rightarrow> nat \<times> bytes" where
  "short_build buf d =
     (if \<not> short_ok (length buf) d then (0, buf)
      else let buf = buf[0 := short_byte0 (sh_spin d) (sh_key_phase d) (sh_pn_len d)];
               out = snd (bytes_put (sh_dcid d) \<lparr>ob_p = buf, ob_len = 1\<rparr>)
           in (ob_len out + sh_pn_len d, put_pn (ob_p out) (ob_len out) (sh_pn d) (sh_pn_len d)))"

definition shorthdr_byte0 :: "u8 \<Rightarrow> u8 \<Rightarrow> u8 \<Rightarrow> u8" where
  "shorthdr_byte0 spin key_phase pn_len =
     0x40 OR push_bit 5 (spin AND 1) OR push_bit 2 (key_phase AND 1) OR (pn_len - 1)"

section \<open>ptype.c and v2types.c\<close>

definition VERSION_1 :: u32 where "VERSION_1 = 0x00000001"
definition VERSION_2 :: u32 where "VERSION_2 = 0x6b3343cf"

datatype logical_type = LT_INITIAL | LT_0RTT | LT_HANDSHAKE | LT_RETRY | LT_INVALID

primrec logical_index :: "logical_type \<Rightarrow> int" where
  "logical_index LT_INITIAL = 0"
| "logical_index LT_0RTT = 1"
| "logical_index LT_HANDSHAKE = 2"
| "logical_index LT_RETRY = 3"
| "logical_index LT_INVALID = -1"

definition V2_WIRE :: "int list" where
  "V2_WIRE = [1, 2, 3, 0]"

definition lt_in_range :: "int \<Rightarrow> bool" where
  "lt_in_range v \<longleftrightarrow> v \<ge> 0 \<and> v < 4"

definition v1_packet_type :: "logical_type \<Rightarrow> int" where
  "v1_packet_type lt = (if lt_in_range (logical_index lt) then logical_index lt else -1)"

definition v2_packet_type :: "logical_type \<Rightarrow> int" where
  "v2_packet_type lt = (if lt_in_range (logical_index lt) then V2_WIRE ! nat (logical_index lt) else -1)"

definition v1_logical_type :: "int \<Rightarrow> logical_type" where
  "v1_logical_type wire =
     (if lt_in_range wire then [LT_INITIAL, LT_0RTT, LT_HANDSHAKE, LT_RETRY] ! nat wire else LT_INVALID)"

fun v2_lookup :: "logical_type list \<Rightarrow> int \<Rightarrow> logical_type" where
  "v2_lookup [] wire = LT_INVALID"
| "v2_lookup (lt # lts) wire = (if V2_WIRE ! nat (logical_index lt) = wire then lt else v2_lookup lts wire)"

definition v2_logical_type :: "int \<Rightarrow> logical_type" where
  "v2_logical_type wire = v2_lookup [LT_INITIAL, LT_0RTT, LT_HANDSHAKE, LT_RETRY] wire"

definition packet_is_long :: "u8 \<Rightarrow> bool" where
  "packet_is_long byte0 \<longleftrightarrow> byte0 AND 0x80 \<noteq> 0"

definition wire_bits :: "u8 \<Rightarrow> int" where
  "wire_bits byte0 = uint (drop_bit 4 byte0 AND 0x3)"

definition logical_for :: "int \<Rightarrow> u32 \<Rightarrow> logical_type" where
  "logical_for wire version =
     (if version = VERSION_1 then v1_logical_type wire
      else if version = VERSION_2 then v2_logical_type wire
      else LT_INVALID)"

definition packet_long_type :: "u8 \<Rightarrow> u32 \<Rightarrow> int" where
  "packet_long_type byte0 version =
     (if \<not> packet_is_long byte0 then -1
      else let lt = logical_for (wire_bits byte0) version
           in if lt = LT_INVALID then -1 else logical_index lt)"

section \<open>inittoken.c\<close>

definition inittoken_put :: "bytes \<Rightarrow> bytes \<Rightarrow> nat \<times> bytes" where
  "inittoken_put buf token = run_put (put_seq [varint_put (of_nat (length token)), bytes_put token]) buf"

definition take_tlen :: "bytes \<Rightarrow> nat \<Rightarrow> (u64 \<times> nat) option" where
  "take_tlen inp off = do {
     (tlen, off) \<leftarrow> varint_take inp off;
     if unat tlen \<le> length inp - off then Some (tlen, off) else None
   }"

definition inittoken_get :: "bytes \<Rightarrow> (bytes \<times> nat) option" where
  "inittoken_get buf = do {
     (tlen, off) \<leftarrow> take_tlen buf 0;
     Some (take (unat tlen) (drop off buf), off + unat tlen)
   }"

section \<open>lhdr\_build.c\<close>

record lhdr_desc =
  ld_byte0 :: u8
  ld_version :: u32
  ld_dcid :: bytes
  ld_scid :: bytes
  ld_is_initial :: bool
  ld_token :: bytes
  ld_payload_len :: nat
  ld_pn :: u64
  ld_pn_len :: u8

definition lhdr_byte0_pnlen :: "u8 \<Rightarrow> u8 \<Rightarrow> u8" where
  "lhdr_byte0_pnlen byte0 pn_len = (byte0 AND 0xFC) OR ((pn_len - 1) AND 0x3)"

definition cids_ok :: "lhdr_desc \<Rightarrow> bool" where
  "cids_ok d \<longleftrightarrow> length (ld_dcid d) \<le> WIRED_MAX_CID_LEN \<and> length (ld_scid d) \<le> WIRED_MAX_CID_LEN"

definition lhdr_put_prefix :: "lhdr_desc \<Rightarrow> bytes \<Rightarrow> nat \<times> bytes" where
  "lhdr_put_prefix d buf =
     (if \<not> cids_ok d then (0, buf)
      else case wired_header_build_long buf
                  \<lparr>wh_long = False, wh_long_type = 0, wh_version = ld_version d,
                   wh_dcid = ld_dcid d, wh_scid = ld_scid d\<rparr> of
             (w, buf') \<Rightarrow>
               if w \<noteq> 5 + 1 + length (ld_dcid d) + 1 + length (ld_scid d) then (0, buf')
               else (w, buf'[0 := lhdr_byte0_pnlen (ld_byte0 d) (ld_pn_len d)]))"

definition put_token :: "lhdr_desc \<Rightarrow> writer" where
  "put_token d out =
     (if \<not> ld_is_initial d then (True, out)
      else case inittoken_put (drop (ob_len out) (ob_p out)) (ld_token d) of
             (w, sub) \<Rightarrow>
               let out = out\<lparr>ob_p := take (ob_len out) (ob_p out) @ sub\<rparr>
               in if w = 0 then (False, out) else (True, out\<lparr>ob_len := ob_len out + w\<rparr>))"

definition put_len_pn :: "lhdr_desc \<Rightarrow> writer" where
  "put_len_pn d out =
     (let remaining = ucast (ld_pn_len d) + of_nat (ld_payload_len d) + 16
      in case varint_put remaining out of
           (ok, out) \<Rightarrow>
             if \<not> ok then (False, out)
             else if ob_len out + unat (ld_pn_len d) > ob_cap out then (False, out)
             else case pnum_encode (ob_p out) (ob_len out) (ld_pn d) (unat (ld_pn_len d)) of
                    (n, p) \<Rightarrow> (True, out\<lparr>ob_p := p, ob_len := ob_len out + n\<rparr>))"

text \<open>The result: the header length or 0, the buffer, and \<open>*length_off_out\<close>.\<close>

definition lhdr_build :: "lhdr_desc \<Rightarrow> bytes \<Rightarrow> nat \<times> bytes \<times> nat" where
  "lhdr_build d buf =
     (case lhdr_put_prefix d buf of
        (n, buf) \<Rightarrow>
          if n = 0 then (0, buf, 0)
          else case put_token d \<lparr>ob_p = buf, ob_len = n\<rparr> of
                 (ok, out) \<Rightarrow>
                   if \<not> ok then (0, ob_p out, 0)
                   else case put_len_pn d out of
                          (ok', out') \<Rightarrow> (if ok' then ob_len out' else 0, ob_p out', ob_len out))"

section \<open>lhdr\_parse.c\<close>

record lhdr =
  lh_dcid :: bytes
  lh_scid :: bytes
  lh_token :: bytes
  lh_length :: u64
  lh_pn_off :: nat

definition is_long_header :: "bytes \<Rightarrow> bool" where
  "is_long_header pkt \<longleftrightarrow> pkt \<noteq> [] \<and> pkt ! 0 AND 0x80 \<noteq> 0"

definition locate_cids :: "bytes \<Rightarrow> wired_header \<Rightarrow> bytes \<times> bytes" where
  "locate_cids pkt h =
     (take (length (wh_dcid h)) (drop 6 pkt),
      take (length (wh_scid h)) (drop (7 + length (wh_dcid h)) pkt))"

definition read_token :: "bytes \<Rightarrow> bool \<Rightarrow> nat \<Rightarrow> (bytes \<times> nat) option" where
  "read_token pkt is_initial off =
     (if \<not> is_initial then Some ([], off)
      else do {
        (token, used) \<leftarrow> inittoken_get (drop off pkt);
        if used = 0 then None else Some (token, off + used)
      })"

definition lhdr_take_prefix :: "bytes \<Rightarrow> ((bytes \<times> bytes) \<times> nat) option" where
  "lhdr_take_prefix pkt =
     (if \<not> is_long_header pkt then None
      else do {
        (h, off) \<leftarrow> wired_header_parse pkt 0;
        Some (locate_cids pkt h, off)
      })"

definition lhdr_pn_len :: "u8 \<Rightarrow> nat" where
  "lhdr_pn_len byte0 = unat (byte0 AND 0x03) + 1"

definition lhdr_parse :: "bytes \<Rightarrow> bool \<Rightarrow> lhdr option" where
  "lhdr_parse pkt is_initial = do {
     ((dcid, scid), off) \<leftarrow> lhdr_take_prefix pkt;
     (token, off) \<leftarrow> read_token pkt is_initial off;
     (len, off) \<leftarrow> varint_take pkt off;
     Some \<lparr>lh_dcid = dcid, lh_scid = scid, lh_token = token, lh_length = len, lh_pn_off = off\<rparr>
   }"

section \<open>coalesce.c\<close>

record coalesce_iter =
  ci_dgram :: bytes
  ci_off :: nat

definition coalesce_begin :: "bytes \<Rightarrow> coalesce_iter" where
  "coalesce_begin dgram = \<lparr>ci_dgram = dgram, ci_off = 0\<rparr>"

definition skip_cid :: "bytes \<Rightarrow> nat \<Rightarrow> nat option" where
  "skip_cid buf p =
     (if p \<ge> length buf then None
      else let p' = p + (1 + unat (buf ! p)) in if p' \<le> length buf then Some p' else None)"

definition has_token :: "bytes \<Rightarrow> bool" where
  "has_token buf \<longleftrightarrow> packet_long_type (buf ! 0) (be_get_be32 (drop 1 buf)) = 0"

definition skip_token :: "bytes \<Rightarrow> nat \<Rightarrow> nat option" where
  "skip_token buf p = do {
     (tlen, p) \<leftarrow> varint_take buf p;
     let p' = usz_add p (unat tlen);
     if p' \<le> length buf then Some p' else None
   }"

definition skip_long_prefix :: "bytes \<Rightarrow> nat \<Rightarrow> nat option" where
  "skip_long_prefix buf p =
     (let p = p + 5
      in if p > length buf then None else do { p \<leftarrow> skip_cid buf p; skip_cid buf p })"

definition has_prefix_room :: "bytes \<Rightarrow> nat \<Rightarrow> bool" where
  "has_prefix_room buf p \<longleftrightarrow> length buf - p \<ge> 5"

definition skip_optional_token :: "bytes \<Rightarrow> bytes \<Rightarrow> nat \<Rightarrow> nat option" where
  "skip_optional_token buf pkt_start p =
     (if \<not> has_token pkt_start then Some p else skip_token buf p)"

definition skip_to_length :: "bytes \<Rightarrow> nat \<Rightarrow> nat option" where
  "skip_to_length buf p =
     (if \<not> has_prefix_room buf p then None
      else do { p' \<leftarrow> skip_long_prefix buf p; skip_optional_token buf (drop p buf) p' })"

definition take_length_bound :: "bytes \<Rightarrow> nat \<Rightarrow> nat \<Rightarrow> nat" where
  "take_length_bound buf off p =
     (case varint_take buf p of None \<Rightarrow> 0
      | Some (len, p) \<Rightarrow>
          if usz_add p (unat len) > length buf then 0 else usz_add (p - off) (unat len))"

definition long_packet_len :: "bytes \<Rightarrow> nat \<Rightarrow> nat" where
  "long_packet_len buf off =
     (case skip_to_length buf off of None \<Rightarrow> 0 | Some p \<Rightarrow> take_length_bound buf off p)"

definition coalesce_emit :: "coalesce_iter \<Rightarrow> nat \<Rightarrow> (bytes \<times> coalesce_iter) option" where
  "coalesce_emit it len =
     (if len = 0 then None
      else Some (take len (drop (ci_off it) (ci_dgram it)), it\<lparr>ci_off := ci_off it + len\<rparr>))"

definition coalesce_next :: "coalesce_iter \<Rightarrow> (bytes \<times> coalesce_iter) option" where
  "coalesce_next it =
     (let total = length (ci_dgram it); rest = total - ci_off it
      in if ci_off it \<ge> total then None
         else if ci_dgram it ! ci_off it AND 0x80 = 0 then coalesce_emit it rest
         else coalesce_emit it (long_packet_len (ci_dgram it) (ci_off it)))"

section \<open>vneg.c\<close>

record vneg_desc =
  vd_dcid :: bytes
  vd_scid :: bytes
  vd_versions :: "u32 list"

definition vneg_put_cid :: "bytes \<Rightarrow> writer" where
  "vneg_put_cid cid out =
     (if ob_len out + 1 + length cid > ob_cap out then (False, out)
      else bytes_put cid (out\<lparr>ob_p := (ob_p out)[ob_len out := of_nat (length cid)], ob_len := ob_len out + 1\<rparr>))"

definition vneg_fits :: "nat \<Rightarrow> vneg_desc \<Rightarrow> bool" where
  "vneg_fits cap d \<longleftrightarrow>
     length (vd_versions d) \<noteq> 0 \<and>
     5 + 1 + length (vd_dcid d) + 1 + length (vd_scid d) + length (vd_versions d) * 4 \<le> cap"

fun put_versions :: "u32 list \<Rightarrow> wired_obuf \<Rightarrow> wired_obuf" where
  "put_versions [] out = out"
| "put_versions (v # vs) out =
     put_versions vs (out\<lparr>ob_p := be_put_be32 (ob_p out) (ob_len out) v, ob_len := ob_len out + 4\<rparr>)"

definition vneg_build :: "bytes \<Rightarrow> vneg_desc \<Rightarrow> nat \<times> bytes" where
  "vneg_build buf d =
     (if \<not> vneg_fits (length buf) d then (0, buf)
      else let out = \<lparr>ob_p = be_put_be32 (buf[0 := 0xc0]) 1 0, ob_len = 5\<rparr>;
               out = snd (vneg_put_cid (vd_dcid d) out);
               out = snd (vneg_put_cid (vd_scid d) out);
               out = put_versions (vd_versions d) out
           in (ob_len out, ob_p out))"

definition vneg_take_cid :: "bytes \<Rightarrow> nat \<Rightarrow> (bytes \<times> nat) option" where
  "vneg_take_cid buf off =
     (if off \<ge> length buf then None
      else let len = unat (buf ! off)
           in if len > WIRED_MAX_CID_LEN then None else bytes_take buf (off + 1) len)"

definition version_zero :: "bytes \<Rightarrow> bool" where
  "version_zero buf \<longleftrightarrow> be_get_be32 (drop 1 buf) = 0"

definition vneg_head_ok :: "bytes \<Rightarrow> bool" where
  "vneg_head_ok buf =
     (if length buf < 7 then False else if buf ! 0 AND 0x80 = 0 then False else version_zero buf)"

definition vneg_take_cids :: "bytes \<Rightarrow> nat \<Rightarrow> ((bytes \<times> bytes) \<times> nat) option" where
  "vneg_take_cids buf off = do {
     (d, off) \<leftarrow> vneg_take_cid buf off;
     (s, off) \<leftarrow> vneg_take_cid buf off;
     Some ((d, s), off)
   }"

definition versions_whole :: "nat \<Rightarrow> bool" where
  "versions_whole rest = (if rest = 0 then False else rest mod 4 = 0)"

text \<open>\<open>vp_versions\<close> is the view of the \<open>count * 4\<close> version bytes.\<close>

record vneg_packet =
  vp_dcid :: bytes
  vp_scid :: bytes
  vp_versions :: bytes
  vp_count :: nat

definition vneg_parse_after_head :: "bytes \<Rightarrow> vneg_packet option" where
  "vneg_parse_after_head buf = do {
     ((d, s), off) \<leftarrow> vneg_take_cids buf 5;
     let rest = length buf - off;
     if \<not> versions_whole rest then None
     else Some \<lparr>vp_dcid = d, vp_scid = s, vp_versions = drop off buf, vp_count = rest div 4\<rparr>
   }"

definition vneg_parse :: "bytes \<Rightarrow> (vneg_packet \<times> nat) option" where
  "vneg_parse buf =
     (if \<not> vneg_head_ok buf then None
      else do { v \<leftarrow> vneg_parse_after_head buf; Some (v, length buf) })"

definition vneg_respond :: "bytes \<Rightarrow> vneg_desc \<Rightarrow> nat \<times> bytes" where
  "vneg_respond buf recv =
     vneg_build buf \<lparr>vd_dcid = vd_scid recv, vd_scid = vd_dcid recv, vd_versions = vd_versions recv\<rparr>"

section \<open>retry.c\<close>

definition RETRY_TAG_LEN :: nat where "RETRY_TAG_LEN = 16"

record retry_desc =
  rd_version :: u32
  rd_dcid :: bytes
  rd_scid :: bytes
  rd_token :: bytes
  rd_tag :: bytes

definition retry_fits :: "nat \<Rightarrow> retry_desc \<Rightarrow> bool" where
  "retry_fits cap d \<longleftrightarrow>
     5 + 1 + length (rd_dcid d) + 1 + length (rd_scid d) + length (rd_token d) + RETRY_TAG_LEN \<le> cap"

definition retry_byte0 :: "u32 \<Rightarrow> u8" where
  "retry_byte0 version =
     (let wire = (if version = VERSION_2 then v2_packet_type LT_RETRY else v1_packet_type LT_RETRY)
      in 0xC0 OR of_int (push_bit 4 wire))"

definition retry_put_cid :: "bytes \<Rightarrow> writer" where
  "retry_put_cid cid out =
     (if ob_len out + 1 + length cid > ob_cap out then (False, out)
      else bytes_put cid (out\<lparr>ob_p := (ob_p out)[ob_len out := of_nat (length cid)], ob_len := ob_len out + 1\<rparr>))"

definition retry_build :: "bytes \<Rightarrow> retry_desc \<Rightarrow> nat \<times> bytes" where
  "retry_build buf d =
     (if \<not> retry_fits (length buf) d then (0, buf)
      else let out = \<lparr>ob_p = be_put_be32 (buf[0 := retry_byte0 (rd_version d)]) 1 (rd_version d), ob_len = 5\<rparr>;
               out = snd (retry_put_cid (rd_dcid d) out);
               out = snd (retry_put_cid (rd_scid d) out);
               out = snd (bytes_put (rd_token d) out);
               out = snd (bytes_put (take RETRY_TAG_LEN (rd_tag d)) out)
           in (ob_len out, ob_p out))"

definition retry_take_cid :: "bytes \<Rightarrow> nat \<Rightarrow> (bytes \<times> nat) option" where
  "retry_take_cid buf off =
     (if off \<ge> length buf then None
      else let len = unat (buf ! off)
           in if len > WIRED_MAX_CID_LEN then None else bytes_take buf (off + 1) len)"

definition retry_head_ok :: "bytes \<Rightarrow> bool" where
  "retry_head_ok buf =
     (if length buf < 5 + 1 + 1 + RETRY_TAG_LEN then False else buf ! 0 AND 0xF0 = 0xF0)"

definition retry_take_cids :: "bytes \<Rightarrow> nat \<Rightarrow> ((bytes \<times> bytes) \<times> nat) option" where
  "retry_take_cids buf off = do {
     (d, off) \<leftarrow> retry_take_cid buf off;
     (s, off) \<leftarrow> retry_take_cid buf off;
     Some ((d, s), off)
   }"

definition take_token_tag :: "bytes \<Rightarrow> nat \<Rightarrow> (bytes \<times> bytes) option" where
  "take_token_tag buf off =
     (let tag_off = length buf - RETRY_TAG_LEN
      in if off > tag_off then None
         else do {
           (tag, _) \<leftarrow> bytes_take buf tag_off RETRY_TAG_LEN;
           Some (take (tag_off - off) (drop off buf), tag)
         })"

definition retry_parse_after_head :: "bytes \<Rightarrow> retry_desc option" where
  "retry_parse_after_head buf = do {
     ((d, s), off) \<leftarrow> retry_take_cids buf 5;
     (token, tag) \<leftarrow> take_token_tag buf off;
     Some \<lparr>rd_version = be_get_be32 (drop 1 buf), rd_dcid = d, rd_scid = s, rd_token = token, rd_tag = tag\<rparr>
   }"

definition retry_parse :: "bytes \<Rightarrow> (retry_desc \<times> nat) option" where
  "retry_parse buf =
     (if \<not> retry_head_ok buf then None
      else do { r \<leftarrow> retry_parse_after_head buf; Some (r, length buf) })"

section \<open>dcidresolve.c\<close>

definition dcidresolve_is_long :: "bytes \<Rightarrow> bool" where
  "dcidresolve_is_long dg \<longleftrightarrow> length dg \<ge> 1 \<and> dg ! 0 AND 0x80 \<noteq> 0"

definition dcidresolve_short_len :: "bytes \<Rightarrow> u8 \<Rightarrow> int" where
  "dcidresolve_short_len dg short_hdr_len = (if length dg \<ge> 1 then uint short_hdr_len else -1)"

definition dcidresolve_long_len :: "bytes \<Rightarrow> int" where
  "dcidresolve_long_len dg = (if length dg \<ge> 6 then uint (dg ! 5) else -1)"

definition dcidresolve_len :: "bytes \<Rightarrow> u8 \<Rightarrow> int" where
  "dcidresolve_len dg short_hdr_len =
     (if dcidresolve_is_long dg then dcidresolve_long_len dg else dcidresolve_short_len dg short_hdr_len)"

definition dcidresolve_offset :: "bytes \<Rightarrow> nat" where
  "dcidresolve_offset dg = (if dcidresolve_is_long dg then 6 else 1)"

definition dcidresolve_dcid :: "bytes \<Rightarrow> int \<Rightarrow> bytes" where
  "dcidresolve_dcid dg dcid_len =
     (let off = dcidresolve_offset dg
      in if dcid_len < 0 \<or> off + nat dcid_len > length dg then []
         else take (nat dcid_len) (drop off dg))"

section \<open>Connection IDs on the wire\<close>

definition cid_wire :: "bytes \<Rightarrow> bytes" where
  "cid_wire cid = of_nat (length cid) # cid"

lemma length_cid_wire [simp]: "length (cid_wire cid) = Suc (length cid)"
  by (simp add: cid_wire_def)

lemma unat_of_nat_u8: "n < 256 \<Longrightarrow> unat (of_nat n :: u8) = n"
  by (simp add: unsigned_of_nat take_bit_eq_mod)

lemma emits_write_cid: "emits (write_cid cid) (cid_wire cid)"
  by (simp add: emits_def write_cid_def ob_append_def cid_wire_def)

lemma put_cid_eq: "vneg_put_cid cid = write_cid cid" "retry_put_cid cid = write_cid cid"
  by (auto simp: fun_eq_iff vneg_put_cid_def retry_put_cid_def write_cid_def bytes_put_def ob_cap_def)

lemma cid_at:
  assumes "drop off buf = cid_wire cid @ rest" and "length cid < 256"
  shows "off < length buf" "unat (buf ! off) = length cid" "off + 1 + length cid \<le> length buf"
    "take (length cid) (drop (off + 1) buf) = cid" "drop (off + 1 + length cid) buf = rest"
proof -
  have len: "length buf - off = Suc (length cid) + length rest"
    using arg_cong [OF assms(1), of length] by simp
  show lt: "off < length buf" using len by simp
  show "off + 1 + length cid \<le> length buf" using len lt by simp
  have "buf ! off = drop off buf ! 0" using lt by simp
  then show "unat (buf ! off) = length cid" using assms by (simp add: cid_wire_def unat_of_nat_u8)
  have "drop (off + 1) buf = drop 1 (drop off buf)" by (simp only: drop_drop add.commute)
  then have t: "drop (off + 1) buf = cid @ rest" unfolding assms(1) by (simp add: cid_wire_def)
  show "take (length cid) (drop (off + 1) buf) = cid" unfolding t by simp
  have "drop (off + 1 + length cid) buf = drop (length cid) (drop (off + 1) buf)"
    by (simp only: drop_drop ac_simps)
  then show "drop (off + 1 + length cid) buf = rest" unfolding t by simp
qed

lemma read_cid_wire:
  assumes "drop off buf = cid_wire cid @ rest" and "length cid \<le> WIRED_MAX_CID_LEN"
  shows "read_cid buf off = Some (cid, off + 1 + length cid)"
    and "vneg_take_cid buf off = Some (cid, off + 1 + length cid)"
    and "retry_take_cid buf off = Some (cid, off + 1 + length cid)"
    and "skip_cid buf off = Some (off + 1 + length cid)"
proof -
  have "length cid < 256" using assms(2) by (simp add: WIRED_MAX_CID_LEN_def)
  note c = cid_at [OF assms(1) this]
  show "read_cid buf off = Some (cid, off + 1 + length cid)"
    "vneg_take_cid buf off = Some (cid, off + 1 + length cid)"
    "retry_take_cid buf off = Some (cid, off + 1 + length cid)"
    "skip_cid buf off = Some (off + 1 + length cid)"
    using c assms(2)
    by (simp_all add: read_cid_def vneg_take_cid_def retry_take_cid_def skip_cid_def cid_fits_def
        bytes_take_def Let_def)
qed

lemma read_cids_wire:
  assumes "drop off buf = cid_wire d @ cid_wire s @ rest"
    and "length d \<le> WIRED_MAX_CID_LEN" "length s \<le> WIRED_MAX_CID_LEN"
  shows "read_cids buf off = Some ((d, s), off + (1 + length d) + (1 + length s))"
    and "vneg_take_cids buf off = Some ((d, s), off + (1 + length d) + (1 + length s))"
    and "retry_take_cids buf off = Some ((d, s), off + (1 + length d) + (1 + length s))"
    and "drop (off + (1 + length d) + (1 + length s)) buf = rest"
proof -
  have l: "length d < 256" "length s < 256" using assms(2,3) by (simp_all add: WIRED_MAX_CID_LEN_def)
  have s: "drop (off + 1 + length d) buf = cid_wire s @ rest"
    using cid_at(5) [OF assms(1) l(1)] .
  note rd = read_cid_wire [OF assms(1,2)] and rs = read_cid_wire [OF s assms(3)]
  show "read_cids buf off = Some ((d, s), off + (1 + length d) + (1 + length s))"
    "vneg_take_cids buf off = Some ((d, s), off + (1 + length d) + (1 + length s))"
    "retry_take_cids buf off = Some ((d, s), off + (1 + length d) + (1 + length s))"
    using rd rs by (simp_all add: read_cids_def vneg_take_cids_def retry_take_cids_def add.assoc)
  show "drop (off + (1 + length d) + (1 + length s)) buf = rest"
    using cid_at(5) [OF s l(2)] by (simp add: add.assoc)
qed

section \<open>The invariant long header\<close>

definition long_wire :: "u8 \<Rightarrow> u32 \<Rightarrow> bytes \<Rightarrow> bytes \<Rightarrow> bytes" where
  "long_wire b0 ver d s = b0 # be32_wire ver @ cid_wire d @ cid_wire s"

lemma length_long_wire [simp]: "length (long_wire b0 ver d s) = 7 + length d + length s"
  by (simp add: long_wire_def)

lemma put_long_prefix_eq:
  "5 \<le> length buf \<Longrightarrow>
   put_long_prefix buf h =
     (5, (0xC0 OR push_bit 4 (wh_long_type h)) # be32_wire (wh_version h) @ drop 5 buf)"
  unfolding put_long_prefix_def be32_wire_def
  by (cases buf; cases "tl buf"; cases "tl (tl buf)"; cases "tl (tl (tl buf))"; cases "tl (tl (tl (tl buf)))")
    auto

lemma header_build_long_fits:
  assumes fit: "7 + length (wh_dcid h) + length (wh_scid h) \<le> length buf"
  shows "wired_header_build_long buf h =
    (7 + length (wh_dcid h) + length (wh_scid h),
     long_wire (0xC0 OR push_bit 4 (wh_long_type h)) (wh_version h) (wh_dcid h) (wh_scid h)
       @ drop (7 + length (wh_dcid h) + length (wh_scid h)) buf)"
proof -
  let ?pre = "(0xC0 OR push_bit 4 (wh_long_type h)) # be32_wire (wh_version h)"
  let ?o = "\<lparr>ob_p = ?pre @ drop 5 buf, ob_len = 5\<rparr>"
  let ?d = "cid_wire (wh_dcid h)" and ?s = "cid_wire (wh_scid h)"
  have ok: "ob_ok ?o" using fit by (simp add: ob_ok_def ob_cap_def)
  have d: "write_cid (wh_dcid h) ?o = (True, ob_append ?o ?d)"
    using fit by (intro emits_fits [OF emits_write_cid ok]) (simp add: ob_cap_def)
  have s: "write_cid (wh_scid h) (ob_append ?o ?d) = (True, ob_append (ob_append ?o ?d) ?s)"
    using fit by (intro emits_fits [OF emits_write_cid]) (simp_all add: ob_ok_def ob_cap_def ob_append_def)
  have w: "write_cids ?o h = ob_append ?o (?d @ ?s)"
    using d s by (simp add: write_cids_def ob_append_append)
  have p: "put_long_prefix buf h = (5, ?pre @ drop 5 buf)"
    using put_long_prefix_eq [of buf h] fit by simp
  have "write_at (?pre @ drop 5 buf) 5 (?d @ ?s) = take 5 (?pre @ drop 5 buf) @ (?d @ ?s)
      @ drop (5 + length (?d @ ?s)) (?pre @ drop 5 buf)"
    using fit by (intro write_at_eq) simp
  also have "take 5 (?pre @ drop 5 buf) = ?pre" by simp
  also have "drop (5 + length (?d @ ?s)) (?pre @ drop 5 buf)
      = drop (7 + length (wh_dcid h) + length (wh_scid h)) buf"
    by (subst drop_append) (simp add: ac_simps)
  finally have "write_at (?pre @ drop 5 buf) 5 (?d @ ?s)
      = ?pre @ (?d @ ?s) @ drop (7 + length (wh_dcid h) + length (wh_scid h)) buf" .
  then show ?thesis
    unfolding wired_header_build_long_def p prod.case Let_def
    by (simp only: w if_True) (simp add: w ob_append_def long_wire_def)
qed

lemma header_build_long_short:
  assumes "length buf < 7 + length (wh_dcid h) + length (wh_scid h)"
  shows "fst (wired_header_build_long buf h) \<noteq> 7 + length (wh_dcid h) + length (wh_scid h)"
  using assms
  by (auto simp: wired_header_build_long_def put_long_prefix_def write_cids_def write_cid_def ob_cap_def
      Let_def split: if_splits)

lemma header_parse_long_wire:
  assumes "length d \<le> WIRED_MAX_CID_LEN" "length s \<le> WIRED_MAX_CID_LEN" and "b0 AND 0x80 \<noteq> 0"
  shows "wired_header_parse (long_wire b0 ver d s @ rest) k =
    Some (\<lparr>wh_long = True, wh_long_type = drop_bit 4 b0 AND 3, wh_version = ver, wh_dcid = d, wh_scid = s\<rparr>,
          7 + length d + length s)"
proof -
  let ?buf = "long_wire b0 ver d s @ rest"
  have d5: "drop 5 ?buf = cid_wire d @ cid_wire s @ rest"
    by (simp add: long_wire_def be32_wire_def)
  have d1: "drop 1 ?buf = be32_wire ver @ cid_wire d @ cid_wire s @ rest"
    by (simp add: long_wire_def)
  have b0: "?buf ! 0 = b0" by (simp add: long_wire_def)
  have v: "be_get_be32 (drop 1 ?buf) = ver" unfolding d1 by simp
  show ?thesis
    unfolding wired_header_parse_def header_parse_long_def b0 v
    using read_cids_wire(1) [OF d5 assms(1,2)] assms(3) by simp
qed

section \<open>The complete long header\<close>

definition token_wire :: "lhdr_desc \<Rightarrow> bytes" where
  "token_wire d = (if ld_is_initial d then varint_wire (of_nat (length (ld_token d))) @ ld_token d else [])"

definition lhdr_remaining :: "lhdr_desc \<Rightarrow> u64" where
  "lhdr_remaining d = ucast (ld_pn_len d) + of_nat (ld_payload_len d) + 16"

definition lhdr_pre_wire :: "lhdr_desc \<Rightarrow> bytes" where
  "lhdr_pre_wire d = long_wire (lhdr_byte0_pnlen (ld_byte0 d) (ld_pn_len d)) (ld_version d) (ld_dcid d) (ld_scid d)"

definition lhdr_wire :: "lhdr_desc \<Rightarrow> bytes" where
  "lhdr_wire d = lhdr_pre_wire d @ token_wire d @ varint_wire (lhdr_remaining d)
     @ be_bytes (unat (ld_pn_len d)) (ld_pn d)"

definition lhdr_ok :: "lhdr_desc \<Rightarrow> bool" where
  "lhdr_ok d \<longleftrightarrow> cids_ok d \<and> ld_byte0 d AND 0x80 \<noteq> 0 \<and> 1 \<le> unat (ld_pn_len d) \<and> unat (ld_pn_len d) \<le> 4
     \<and> length (ld_token d) < 2 ^ 62 \<and> ld_payload_len d + 20 < 2 ^ 62"

lemma lhdr_remaining_unat:
  assumes "lhdr_ok d"
  shows "unat (lhdr_remaining d) = unat (ld_pn_len d) + ld_payload_len d + 16" and "lhdr_remaining d \<le> VARINT_MAX"
proof -
  have p: "unat (of_nat (ld_payload_len d) :: u64) = ld_payload_len d"
    using assms by (intro unat_of_nat_u64) (simp add: lhdr_ok_def)
  have a: "unat (ucast (ld_pn_len d) + of_nat (ld_payload_len d) :: u64) = unat (ld_pn_len d) + ld_payload_len d"
    using assms p by (subst unat_add_u64) (simp_all add: lhdr_ok_def)
  then show u: "unat (lhdr_remaining d) = unat (ld_pn_len d) + ld_payload_len d + 16"
    unfolding lhdr_remaining_def using assms by (subst unat_add_u64) (simp_all add: lhdr_ok_def)
  show "lhdr_remaining d \<le> VARINT_MAX" using u assms by (simp add: u64_le_mono VARINT_MAX_def lhdr_ok_def)
qed

lemma token_len_ok: "lhdr_ok d \<Longrightarrow> of_nat (length (ld_token d)) \<le> VARINT_MAX"
  by (simp add: lhdr_ok_def u64_le_mono VARINT_MAX_def unat_of_nat_u64)

lemma emits_put_token:
  assumes "lhdr_ok d"
  shows "emits (put_token d) (token_wire d)"
proof (cases "ld_is_initial d")
  case False
  then show ?thesis by (simp add: emits_def put_token_def token_wire_def ob_ok_def)
next
  case True
  let ?w = "varint_wire (of_nat (length (ld_token d))) @ ld_token d"
  have e: "emits (put_seq [varint_put (of_nat (length (ld_token d))), bytes_put (ld_token d)]) ?w"
    using token_len_ok [OF assms] by (intro emits_Cons_seq emits_single_seq emits_varint_put emits_bytes_put)
  have pos: "0 < length ?w"
    using token_len_ok [OF assms] varint_len_pos [of "of_nat (length (ld_token d))"] by simp
  show ?thesis
    unfolding emits_def
  proof (intro allI impI)
    fix ob assume ok: "ob_ok ob"
    let ?sub = "drop (ob_len ob) (ob_p ob)"
    show "if ob_len ob + length (token_wire d) \<le> ob_cap ob
        then put_token d ob = (True, ob_append ob (token_wire d)) else \<not> fst (put_token d ob)"
    proof (cases "ob_len ob + length ?w \<le> ob_cap ob")
      case fits: True
      then have "inittoken_put ?sub (ld_token d) = (length ?w, ?w @ drop (length ?w) ?sub)"
        unfolding inittoken_put_def by (intro run_put_fits [OF e]) (simp add: ob_cap_def)
      then show ?thesis
        using True fits pos ok
        by (simp add: put_token_def token_wire_def ob_append_def write_at_eq ob_cap_def ob_ok_def Let_def add.commute)
    next
      case False
      moreover have "ob_len ob \<le> ob_cap ob" using ok by (simp add: ob_ok_def)
      ultimately have "length ?sub < length ?w" by (simp add: ob_cap_def)
      then have "fst (inittoken_put ?sub (ld_token d)) = 0"
        unfolding inittoken_put_def by (rule run_put_overflow [OF e])
      then show ?thesis using True False by (auto simp: put_token_def token_wire_def Let_def split: prod.split)
    qed
  qed
qed

lemma put_len_pn_alt:
  "put_len_pn d out = (case varint_put (lhdr_remaining d) out of
     (ok, out) \<Rightarrow>
       if \<not> ok then (False, out)
       else if ob_len out + unat (ld_pn_len d) > ob_cap out then (False, out)
       else (True, out\<lparr>ob_p := put_be_loop (ob_p out) (ob_len out) (unat (ld_pn_len d)) (ld_pn d),
                      ob_len := ob_len out + unat (ld_pn_len d)\<rparr>))"
  by (simp add: put_len_pn_def lhdr_remaining_def Let_def pnum_encode_def split: prod.split)

lemma emits_put_len_pn:
  assumes "lhdr_ok d"
  shows "emits (put_len_pn d) (varint_wire (lhdr_remaining d) @ be_bytes (unat (ld_pn_len d)) (ld_pn d))"
  unfolding emits_def
proof (intro allI impI)
  fix ob assume ok: "ob_ok ob"
  let ?v = "varint_wire (lhdr_remaining d)" and ?b = "be_bytes (unat (ld_pn_len d)) (ld_pn d)"
  have e: "emits (varint_put (lhdr_remaining d)) ?v"
    using lhdr_remaining_unat(2) [OF assms] by (rule emits_varint_put)
  show "if ob_len ob + length (?v @ ?b) \<le> ob_cap ob
      then put_len_pn d ob = (True, ob_append ob (?v @ ?b)) else \<not> fst (put_len_pn d ob)"
  proof (cases "ob_len ob + length ?v \<le> ob_cap ob")
    case True
    then have "varint_put (lhdr_remaining d) ob = (True, ob_append ob ?v)"
      using e ok by (intro emits_fits)
    then show ?thesis
      using True
      by (auto simp: put_len_pn_alt put_be_loop_eq ob_append_def ob_cap_def write_at_append add.assoc)
  next
    case False
    then have "\<not> fst (varint_put (lhdr_remaining d) ob)" using e ok by (simp add: emits_def)
    with False show ?thesis by (auto simp: put_len_pn_alt split: prod.split)
  qed
qed

lemma lhdr_put_prefix_fits:
  assumes ok: "lhdr_ok d" and fit: "length (lhdr_pre_wire d) \<le> length buf"
  shows "lhdr_put_prefix d buf =
    (length (lhdr_pre_wire d), lhdr_pre_wire d @ drop (length (lhdr_pre_wire d)) buf)"
proof -
  have "wired_header_build_long buf \<lparr>wh_long = False, wh_long_type = 0, wh_version = ld_version d,
      wh_dcid = ld_dcid d, wh_scid = ld_scid d\<rparr> =
    (7 + length (ld_dcid d) + length (ld_scid d),
     long_wire 0xC0 (ld_version d) (ld_dcid d) (ld_scid d)
       @ drop (7 + length (ld_dcid d) + length (ld_scid d)) buf)"
    using fit by (subst header_build_long_fits) (simp_all add: lhdr_pre_wire_def)
  then show ?thesis
    using ok by (simp add: lhdr_put_prefix_def lhdr_ok_def lhdr_pre_wire_def long_wire_def add.assoc)
qed

lemma lhdr_put_prefix_short:
  assumes "length buf < length (lhdr_pre_wire d)"
  shows "fst (lhdr_put_prefix d buf) = 0"
  using header_build_long_short [of buf "\<lparr>wh_long = False, wh_long_type = 0, wh_version = ld_version d,
      wh_dcid = ld_dcid d, wh_scid = ld_scid d\<rparr>"] assms
  by (auto simp: lhdr_put_prefix_def lhdr_pre_wire_def split: prod.split)

lemma lhdr_build_fits:
  assumes ok: "lhdr_ok d" and fit: "length (lhdr_wire d) \<le> length buf"
  shows "lhdr_build d buf =
    (length (lhdr_wire d), lhdr_wire d @ drop (length (lhdr_wire d)) buf,
     length (lhdr_pre_wire d @ token_wire d))"
proof -
  let ?p = "lhdr_pre_wire d" and ?t = "token_wire d"
  let ?l = "varint_wire (lhdr_remaining d) @ be_bytes (unat (ld_pn_len d)) (ld_pn d)"
  let ?o = "\<lparr>ob_p = ?p @ drop (length ?p) buf, ob_len = length ?p\<rparr>"
  have le: "length ?p + length ?t + length ?l \<le> length buf" using fit by (simp add: lhdr_wire_def)
  have pre: "lhdr_put_prefix d buf = (length ?p, ?p @ drop (length ?p) buf)"
    using lhdr_put_prefix_fits [OF ok] le by simp
  have tok: "put_token d ?o = (True, ob_append ?o ?t)"
    using le by (intro emits_fits [OF emits_put_token [OF ok]]) (simp_all add: ob_ok_def ob_cap_def)
  have lpn: "put_len_pn d (ob_append ?o ?t) = (True, ob_append (ob_append ?o ?t) ?l)"
    using le by (intro emits_fits [OF emits_put_len_pn [OF ok]])
      (simp_all add: ob_ok_def ob_cap_def ob_append_def)
  have "ob_p (ob_append ?o (?t @ ?l)) = lhdr_wire d @ drop (length (lhdr_wire d)) buf"
    using le by (simp add: ob_append_def write_at_eq lhdr_wire_def ac_simps)
  then show ?thesis
    using pre tok lpn by (simp add: lhdr_build_def ob_append_append lhdr_wire_def lhdr_pre_wire_def add.assoc)
qed

lemma lhdr_build_overflow:
  assumes ok: "lhdr_ok d" and over: "length buf < length (lhdr_wire d)"
  shows "fst (lhdr_build d buf) = 0"
proof (cases "length (lhdr_pre_wire d) \<le> length buf")
  case True
  let ?p = "lhdr_pre_wire d" and ?t = "token_wire d"
  let ?l = "varint_wire (lhdr_remaining d) @ be_bytes (unat (ld_pn_len d)) (ld_pn d)"
  let ?o = "\<lparr>ob_p = ?p @ drop (length ?p) buf, ob_len = length ?p\<rparr>"
  have pre: "lhdr_put_prefix d buf = (length ?p, ?p @ drop (length ?p) buf)"
    using lhdr_put_prefix_fits [OF ok True] .
  have oko: "ob_ok ?o" "ob_cap ?o = length buf" using True by (simp_all add: ob_ok_def ob_cap_def)
  show ?thesis
  proof (cases "length ?p + length ?t \<le> length buf")
    case fits: True
    then have tok: "put_token d ?o = (True, ob_append ?o ?t)"
      using oko by (intro emits_fits [OF emits_put_token [OF ok]]) simp_all
    have "\<not> fst (put_len_pn d (ob_append ?o ?t))"
      using over fits oko by (intro emits_overflow [OF emits_put_len_pn [OF ok]])
        (simp_all add: ob_ok_def lhdr_wire_def)
    then show ?thesis using pre tok by (auto simp: lhdr_build_def split: prod.split)
  next
    case False
    then have "\<not> fst (put_token d ?o)"
      using oko by (intro emits_overflow [OF emits_put_token [OF ok]]) simp_all
    then show ?thesis using pre by (auto simp: lhdr_build_def split: prod.split)
  qed
next
  case False
  then show ?thesis
    using lhdr_put_prefix_short [of buf d] by (auto simp: lhdr_build_def split: prod.split)
qed

lemma and_0x80: "(x :: u8) AND 0x80 = 0 \<longleftrightarrow> \<not> bit x 7"
  using and_exp_eq_0_iff_not_bit [of x 7] by simp

lemma lhdr_byte0_facts:
  assumes "1 \<le> unat n" "unat n \<le> 4"
  shows "lhdr_pn_len (lhdr_byte0_pnlen b n) = unat n"
    and "b AND 0x80 \<noteq> 0 \<Longrightarrow> lhdr_byte0_pnlen b n AND 0x80 \<noteq> 0"
    and "drop_bit 4 (lhdr_byte0_pnlen b n) = drop_bit 4 b"
proof -
  have m: "(3 :: u8) = mask 2" "(0xFC :: u8) = NOT (mask 2)"
    by (simp_all add: mask_eq_exp_minus_1)
  have a: "lhdr_byte0_pnlen b n AND 3 = take_bit 2 (n - 1)"
    unfolding lhdr_byte0_pnlen_def m by (rule bit_word_eqI) (auto simp: bit_simps)
  have "unat (n - 1) = unat n - 1" using unat_sub [of 1 n] assms(1) by (simp add: word_le_nat_alt)
  then have "unat (take_bit 2 (n - 1)) = unat n - 1"
    using assms by (simp only: unsigned_take_bit_eq) (simp add: take_bit_eq_mod)
  then show "lhdr_pn_len (lhdr_byte0_pnlen b n) = unat n" using a assms by (simp add: lhdr_pn_len_def)
  have "bit (lhdr_byte0_pnlen b n) 7 = bit b 7"
    unfolding lhdr_byte0_pnlen_def m by (simp add: bit_simps)
  then show "b AND 0x80 \<noteq> 0 \<Longrightarrow> lhdr_byte0_pnlen b n AND 0x80 \<noteq> 0" by (simp add: and_0x80)
  show "drop_bit 4 (lhdr_byte0_pnlen b n) = drop_bit 4 b"
    unfolding lhdr_byte0_pnlen_def m by (rule bit_word_eqI) (auto simp: bit_simps dest: bit_imp_le_length)
qed

definition lhdr_of :: "lhdr_desc \<Rightarrow> lhdr" where
  "lhdr_of d = \<lparr>lh_dcid = ld_dcid d, lh_scid = ld_scid d, lh_token = (if ld_is_initial d then ld_token d else []),
     lh_length = lhdr_remaining d, lh_pn_off = length (lhdr_wire d) - unat (ld_pn_len d)\<rparr>"

text \<open>
  Parsing depends neither on the low bits of the first byte nor on the packet number and what follows
  it: both may still be protected.
\<close>

lemma lhdr_parse_any:
  assumes ok: "lhdr_ok d" and b0: "hb AND 0x80 \<noteq> 0"
  shows "lhdr_parse (long_wire hb (ld_version d) (ld_dcid d) (ld_scid d) @ token_wire d @ varint_wire (lhdr_remaining d) @ rest)
    (ld_is_initial d) = Some (lhdr_of d)"
proof -
  let ?t = "token_wire d" and ?v = "varint_wire (lhdr_remaining d)"
  define p where "p = long_wire hb (ld_version d) (ld_dcid d) (ld_scid d)"
  define pkt where "pkt = p @ ?t @ ?v @ rest"
  have cids: "length (ld_dcid d) \<le> WIRED_MAX_CID_LEN" "length (ld_scid d) \<le> WIRED_MAX_CID_LEN"
    using ok by (simp_all add: lhdr_ok_def cids_ok_def)
  have first: "pkt \<noteq> []" "pkt ! 0 = hb" by (simp_all add: pkt_def p_def long_wire_def)
  have locate: "take (length (ld_dcid d)) (drop 6 pkt) = ld_dcid d"
    "take (length (ld_scid d)) (drop (7 + length (ld_dcid d)) pkt) = ld_scid d"
    by (simp_all add: pkt_def p_def long_wire_def be32_wire_def cid_wire_def eval_nat_numeral)
  have prefix: "lhdr_take_prefix pkt = Some ((ld_dcid d, ld_scid d), length p)"
    using header_parse_long_wire [OF cids b0, of "ld_version d" "?t @ ?v @ rest" 0] first b0 locate
    by (simp add: lhdr_take_prefix_def is_long_header_def locate_cids_def p_def [symmetric] pkt_def [symmetric]) (simp add: p_def)
  have token: "read_token pkt (ld_is_initial d) (length p)
      = Some (if ld_is_initial d then ld_token d else [], length p + length ?t)"
  proof (cases "ld_is_initial d")
    case True
    let ?n = "of_nat (length (ld_token d)) :: u64"
    have n: "?n \<le> VARINT_MAX" "unat ?n = length (ld_token d)" "0 < varint_len ?n"
      using token_len_ok [OF ok] ok varint_len_pos [OF token_len_ok [OF ok]]
      by (simp_all add: lhdr_ok_def unat_of_nat_u64)
    have "drop (length p) pkt = varint_wire ?n @ ld_token d @ ?v @ rest"
      by (simp add: pkt_def token_wire_def True)
    moreover have "inittoken_get (varint_wire ?n @ ld_token d @ ?v @ rest)
        = Some (ld_token d, varint_len ?n + length (ld_token d))"
      using n by (simp add: inittoken_get_def take_tlen_def varint_take_alt varint_decode_wire)
    ultimately show ?thesis using True n by (simp add: read_token_def token_wire_def)
  qed (simp add: read_token_def token_wire_def)
  have "drop (length p + length ?t) pkt = ?v @ rest" by (simp add: pkt_def)
  then have "varint_take pkt (length p + length ?t)
      = Some (lhdr_remaining d, length p + length ?t + varint_len (lhdr_remaining d))"
    using lhdr_remaining_unat(2) [OF ok] by (intro varint_take_wire)
  moreover have "length p + length ?t + varint_len (lhdr_remaining d) = length (lhdr_wire d) - unat (ld_pn_len d)"
    using lhdr_remaining_unat(2) [OF ok] by (simp add: p_def lhdr_wire_def lhdr_pre_wire_def)
  ultimately have "lhdr_parse pkt (ld_is_initial d) = Some (lhdr_of d)"
    unfolding lhdr_parse_def prefix lhdr_of_def by (simp add: token)
  then show ?thesis by (simp add: pkt_def p_def)
qed

lemma lhdr_parse_wire:
  assumes "lhdr_ok d"
  shows "lhdr_parse (lhdr_wire d @ rest) (ld_is_initial d) = Some (lhdr_of d)"
  using lhdr_parse_any [OF assms, of "lhdr_byte0_pnlen (ld_byte0 d) (ld_pn_len d)"] lhdr_byte0_facts(2) assms
  by (simp add: lhdr_wire_def lhdr_pre_wire_def lhdr_ok_def)

section \<open>Splitting a datagram\<close>

lemma skip_to_length_wire:
  assumes ok: "lhdr_ok d" and at: "drop off buf = lhdr_wire d @ rest"
    and type: "packet_long_type (ld_byte0 d) (ld_version d) = 0 \<longleftrightarrow> ld_is_initial d"
    and small: "length buf < 18446744073709551616"
  shows "skip_to_length buf off = Some (off + length (lhdr_pre_wire d) + length (token_wire d))"
proof -
  let ?t = "token_wire d" and ?v = "varint_wire (lhdr_remaining d)"
  let ?b = "be_bytes (unat (ld_pn_len d)) (ld_pn d)"
  let ?hb = "lhdr_byte0_pnlen (ld_byte0 d) (ld_pn_len d)"
  let ?D = "length (ld_dcid d)" and ?S = "length (ld_scid d)"
  have cids: "?D \<le> WIRED_MAX_CID_LEN" "?S \<le> WIRED_MAX_CID_LEN"
    using ok by (simp_all add: lhdr_ok_def cids_ok_def)
  have l: "?D < 256" using cids by (simp add: WIRED_MAX_CID_LEN_def)
  have len: "length buf = off + length (lhdr_wire d @ rest)" "off \<le> length buf"
    using arg_cong [OF at, of length] by (auto simp: lhdr_wire_def lhdr_pre_wire_def)
  have "drop (off + 5) buf = drop 5 (drop off buf)" by (simp only: drop_drop add.commute)
  then have d5: "drop (off + 5) buf = cid_wire (ld_dcid d) @ cid_wire (ld_scid d) @ ?t @ ?v @ ?b @ rest"
    unfolding at by (simp add: lhdr_wire_def lhdr_pre_wire_def long_wire_def be32_wire_def)
  note s1 = read_cid_wire(4) [OF d5 cids(1)]
  note s2 = read_cid_wire(4) [OF cid_at(5) [OF d5 l] cids(2)]
  have room: "has_prefix_room buf off" using len by (simp add: has_prefix_room_def lhdr_wire_def lhdr_pre_wire_def)
  have pre: "skip_long_prefix buf off = Some (off + length (lhdr_pre_wire d))"
    using s1 s2 len by (simp add: skip_long_prefix_def lhdr_pre_wire_def lhdr_wire_def ac_simps)
  have d0: "drop off buf ! 0 = ?hb" "be_get_be32 (drop 1 (drop off buf)) = ld_version d"
    unfolding at by (simp_all add: lhdr_wire_def lhdr_pre_wire_def long_wire_def)
  have "packet_long_type ?hb (ld_version d) = packet_long_type (ld_byte0 d) (ld_version d)"
    using ok lhdr_byte0_facts(2,3) [of "ld_pn_len d" "ld_byte0 d"]
    by (simp add: packet_long_type_def wire_bits_def packet_is_long_def lhdr_ok_def)
  then have ht: "has_token (drop off buf) \<longleftrightarrow> ld_is_initial d"
    using type d0 by (simp add: has_token_def)
  have "skip_optional_token buf (drop off buf) (off + length (lhdr_pre_wire d))
      = Some (off + length (lhdr_pre_wire d) + length ?t)"
  proof (cases "ld_is_initial d")
    case True
    let ?n = "of_nat (length (ld_token d)) :: u64"
    let ?o = "off + length (lhdr_pre_wire d)"
    have n: "?n \<le> VARINT_MAX" "unat ?n = length (ld_token d)"
      using token_len_ok [OF ok] ok by (simp_all add: lhdr_ok_def unat_of_nat_u64)
    have "drop ?o buf = drop (length (lhdr_pre_wire d)) (drop off buf)" by (simp only: drop_drop add.commute)
    then have "drop ?o buf = varint_wire ?n @ ld_token d @ ?v @ ?b @ rest"
      unfolding at by (simp add: lhdr_wire_def token_wire_def True)
    then have v: "varint_take buf ?o = Some (?n, ?o + varint_len ?n)"
      using n(1) by (intro varint_take_wire)
    have "?o + varint_len ?n + length (ld_token d) \<le> length buf"
      using len n by (simp add: lhdr_wire_def token_wire_def True)
    then show ?thesis
      using True ht v n small usz_add_exact [of "?o + varint_len ?n" "length (ld_token d)"]
      by (simp add: skip_optional_token_def skip_token_def token_wire_def Let_def add.assoc)
  qed (simp add: skip_optional_token_def ht token_wire_def)
  with room pre show ?thesis by (simp add: skip_to_length_def)
qed

definition long_packet_ok :: "lhdr_desc \<times> bytes \<Rightarrow> bool" where
  "long_packet_ok = (\<lambda>(d, body). lhdr_ok d \<and> length body = ld_payload_len d + 16
     \<and> (packet_long_type (ld_byte0 d) (ld_version d) = 0 \<longleftrightarrow> ld_is_initial d))"

definition long_packet :: "lhdr_desc \<times> bytes \<Rightarrow> bytes" where
  "long_packet = (\<lambda>(d, body). lhdr_wire d @ body)"

lemma long_packet_len_wire:
  assumes ok: "long_packet_ok x" and at: "drop off buf = long_packet x @ rest"
    and small: "length buf < 18446744073709551616"
  shows "long_packet_len buf off = length (long_packet x)"
proof -
  obtain d body where x: "x = (d, body)" by (cases x)
  have d: "lhdr_ok d" "length body = ld_payload_len d + 16"
    "packet_long_type (ld_byte0 d) (ld_version d) = 0 \<longleftrightarrow> ld_is_initial d"
    using ok by (simp_all add: x long_packet_ok_def)
  have at': "drop off buf = lhdr_wire d @ (body @ rest)" using at by (simp add: x long_packet_def)
  let ?h = "length (lhdr_pre_wire d) + length (token_wire d)" and ?v = "varint_len (lhdr_remaining d)"
  have skip: "skip_to_length buf off = Some (off + ?h)"
    using skip_to_length_wire [OF d(1) at' d(3) small] by (simp add: add.assoc)
  have rem: "unat (lhdr_remaining d) = unat (ld_pn_len d) + length body" "lhdr_remaining d \<le> VARINT_MAX"
    using lhdr_remaining_unat [OF d(1)] d(2) by simp_all
  have "drop (off + ?h) buf = drop ?h (drop off buf)" by (simp only: drop_drop add.commute)
  then have "drop (off + ?h) buf = varint_wire (lhdr_remaining d)
      @ be_bytes (unat (ld_pn_len d)) (ld_pn d) @ body @ rest"
    unfolding at' by (simp add: lhdr_wire_def)
  then have take: "varint_take buf (off + ?h) = Some (lhdr_remaining d, off + ?h + ?v)"
    using rem(2) by (intro varint_take_wire)
  have hl: "length (lhdr_wire d) = ?h + ?v + unat (ld_pn_len d)" using rem(2) by (simp add: lhdr_wire_def)
  have "0 < ?v" using varint_len_pos [OF rem(2)] by simp
  moreover have "length buf - off = length (lhdr_wire d) + length body + length rest"
    using arg_cong [OF at', of length] by simp
  ultimately have len: "off + length (lhdr_wire d) + length body \<le> length buf"
    using hl by linarith
  have "usz_add (off + ?h + ?v) (unat (lhdr_remaining d)) = off + ?h + ?v + unat (lhdr_remaining d)"
    "usz_add (?h + ?v) (unat (lhdr_remaining d)) = ?h + ?v + unat (lhdr_remaining d)"
    using len hl rem small by (intro usz_add_exact; simp)+
  moreover have "off + ?h + ?v - off = ?h + ?v" by simp
  ultimately show ?thesis
    using len hl rem by (simp add: long_packet_len_def skip take_length_bound_def take x long_packet_def
        add.assoc)
qed

lemma long_packet_first:
  assumes "long_packet_ok x"
  shows "long_packet x \<noteq> []" "long_packet x ! 0 AND 0x80 \<noteq> 0"
  using assms lhdr_byte0_facts(2)
  by (auto simp: long_packet_ok_def long_packet_def lhdr_wire_def lhdr_pre_wire_def long_wire_def lhdr_ok_def
      split: prod.splits)

lemma skip_to_length_ge:
  assumes "skip_to_length buf off = Some p" and "length buf < 2 ^ 63"
  shows "off \<le> p"
proof -
  have cid: "skip_cid buf a = Some b \<Longrightarrow> a \<le> b" for a b
    by (auto simp: skip_cid_def Let_def split: if_splits)
  have token: "skip_token buf a = Some b \<Longrightarrow> a \<le> b" for a b
  proof -
    assume "skip_token buf a = Some b"
    then obtain len q where v: "varint_take buf a = Some (len, q)" "b = usz_add q (unat len)"
      by (auto simp: skip_token_def bind_eq_Some_conv Let_def split: if_splits)
    note vb = varint_take_bounds [OF v(1)]
    then have "usz_add q (unat len) = q + unat len"
      using assms(2) by (intro usz_add_exact) (simp add: u64_le_mono VARINT_MAX_def)
    with vb v(2) show "a \<le> b" by simp
  qed
  show ?thesis
    using assms(1)
    by (auto simp: skip_to_length_def skip_long_prefix_def skip_optional_token_def bind_eq_Some_conv Let_def
        split: if_splits dest!: cid token)
qed

lemma coalesce_next_bounds:
  assumes "coalesce_next it = Some (pkt, it')" and "length (ci_dgram it) < 2 ^ 63"
  shows "pkt \<noteq> []" "ci_dgram it' = ci_dgram it" "ci_off it' = ci_off it + length pkt"
    "ci_off it' \<le> length (ci_dgram it)" "pkt = take (length pkt) (drop (ci_off it) (ci_dgram it))"
proof -
  let ?n = "length (ci_dgram it)" and ?o = "ci_off it"
  have long: "long_packet_len (ci_dgram it) ?o \<le> ?n - ?o"
  proof (cases "skip_to_length (ci_dgram it) ?o")
    case (Some p)
    show ?thesis
    proof (cases "varint_take (ci_dgram it) p")
      case None
      then show ?thesis using Some by (simp add: long_packet_len_def take_length_bound_def)
    next
      case vt: (Some r)
      obtain len q where r: "r = (len, q)" by (cases r)
      have b: "q \<le> ?n" "unat len \<le> 4611686018427387903"
        using varint_take_bounds [OF vt [unfolded r]] by (simp_all add: u64_le_mono VARINT_MAX_def)
      then have "usz_add q (unat len) = q + unat len" "usz_add (q - ?o) (unat len) = q - ?o + unat len"
        using assms(2) by (intro usz_add_exact; simp)+
      moreover have "?o \<le> q"
        using skip_to_length_ge [OF Some assms(2)] varint_take_bounds(1) [OF vt [unfolded r]] by simp
      ultimately show ?thesis
        using Some vt r by (auto simp: long_packet_len_def take_length_bound_def)
    qed
  qed (simp add: long_packet_len_def)
  define len where
    "len = (if ci_dgram it ! ?o AND 0x80 = 0 then ?n - ?o else long_packet_len (ci_dgram it) ?o)"
  have e: "?o < ?n" "coalesce_emit it len = Some (pkt, it')"
    using assms(1) by (auto simp: coalesce_next_def len_def Let_def split: if_splits)
  then have r: "pkt = take len (drop ?o (ci_dgram it))" "it' = it\<lparr>ci_off := ?o + len\<rparr>" "0 < len"
    by (auto simp: coalesce_emit_def split: if_splits)
  have len: "0 < len" "len \<le> ?n - ?o" "?o < ?n" using r e long by (auto simp: len_def)
  show "pkt \<noteq> []" "ci_dgram it' = ci_dgram it" "ci_off it' = ci_off it + length pkt"
    "ci_off it' \<le> length (ci_dgram it)" "pkt = take (length pkt) (drop (ci_off it) (ci_dgram it))"
    using len r by auto
qed

lemma coalesce_next_progress:
  "coalesce_next it = Some (pkt, it') \<Longrightarrow>
   ci_dgram it' = ci_dgram it \<and> ci_off it < ci_off it' \<and> ci_off it < length (ci_dgram it)"
  by (auto simp: coalesce_next_def coalesce_emit_def Let_def split: if_splits)

text \<open>The loop every caller runs, \<^verbatim>\<open>while (coalesce_next(&it, &pkt))\<close>.\<close>

function coalesce_list :: "coalesce_iter \<Rightarrow> bytes list" where
  "coalesce_list it = (case coalesce_next it of None \<Rightarrow> [] | Some (pkt, it') \<Rightarrow> pkt # coalesce_list it')"
  by pat_completeness auto
termination
  by (relation "measure (\<lambda>it. length (ci_dgram it) - ci_off it)") (auto dest!: coalesce_next_progress)

declare coalesce_list.simps [simp del]

lemma coalesce_list_slices:
  "length (ci_dgram it) < 2 ^ 63 \<Longrightarrow> ci_off it \<le> length (ci_dgram it) \<Longrightarrow>
   \<exists>rest. drop (ci_off it) (ci_dgram it) = concat (coalesce_list it) @ rest \<and> [] \<notin> set (coalesce_list it)"
proof (induction it rule: coalesce_list.induct)
  case (1 it)
  show ?case
  proof (cases "coalesce_next it")
    case None
    then show ?thesis by (subst (1 2) coalesce_list.simps) simp
  next
    case (Some r)
    obtain pkt it' where r: "r = (pkt, it')" by (cases r)
    note b = coalesce_next_bounds [OF Some [unfolded r] 1(2)]
    obtain rest where rest: "drop (ci_off it') (ci_dgram it') = concat (coalesce_list it') @ rest"
      "[] \<notin> set (coalesce_list it')"
      using 1(1) [OF Some r [symmetric]] 1(2) b by force
    have "drop (ci_off it) (ci_dgram it) = pkt @ drop (ci_off it') (ci_dgram it')"
      using b by (metis append_take_drop_id drop_drop add.commute)
    then show ?thesis
      using rest Some r b(1) by (subst (1 2) coalesce_list.simps) auto
  qed
qed

lemma coalesce_list_packets:
  "\<forall>x \<in> set xs. long_packet_ok x \<Longrightarrow> short = [] \<or> short ! 0 AND 0x80 = 0 \<Longrightarrow>
   drop off dgram = concat (map long_packet xs) @ short \<Longrightarrow> length dgram < 18446744073709551616 \<Longrightarrow>
   coalesce_list \<lparr>ci_dgram = dgram, ci_off = off\<rparr> = map long_packet xs @ (if short = [] then [] else [short])"
proof (induction xs arbitrary: off)
  case Nil
  then have d: "drop off dgram = short" by simp
  show ?case
  proof (cases "short = []")
    case True
    then have "length dgram \<le> off" using d by simp
    then show ?thesis using True by (subst coalesce_list.simps) (simp add: coalesce_next_def Let_def)
  next
    case False
    then have lt: "off < length dgram" using d by (metis drop_all not_le)
    then have "dgram ! off = short ! 0" using d by (metis add.right_neutral nth_drop less_imp_le)
    then have "coalesce_next \<lparr>ci_dgram = dgram, ci_off = off\<rparr>
        = Some (short, \<lparr>ci_dgram = dgram, ci_off = length dgram\<rparr>)"
      using Nil False lt d by (auto simp: coalesce_next_def coalesce_emit_def Let_def)
    moreover have "coalesce_list \<lparr>ci_dgram = dgram, ci_off = length dgram\<rparr> = []"
      by (subst coalesce_list.simps) (simp add: coalesce_next_def Let_def)
    ultimately show ?thesis using False by (subst coalesce_list.simps) simp
  qed
next
  case (Cons x xs)
  let ?rest = "concat (map long_packet xs) @ short"
  have at: "drop off dgram = long_packet x @ ?rest" using Cons.prems(3) by simp
  have ok: "long_packet_ok x" using Cons.prems(1) by simp
  note f = long_packet_first [OF ok]
  have lt: "off < length dgram" using at f(1) by (metis drop_all not_le append_is_Nil_conv)
  have "dgram ! off = drop off dgram ! 0" using lt by simp
  then have "dgram ! off = long_packet x ! 0" unfolding at using f(1) by (simp add: nth_append)
  then have "coalesce_next \<lparr>ci_dgram = dgram, ci_off = off\<rparr>
      = Some (long_packet x, \<lparr>ci_dgram = dgram, ci_off = off + length (long_packet x)\<rparr>)"
    using f lt long_packet_len_wire [OF ok at Cons.prems(4)] at
    by (simp add: coalesce_next_def coalesce_emit_def Let_def)
  moreover have "drop (off + length (long_packet x)) dgram = ?rest"
  proof -
    have "drop (off + length (long_packet x)) dgram = drop (length (long_packet x)) (drop off dgram)"
      by (simp only: drop_drop add.commute)
    then show ?thesis unfolding at by simp
  qed
  ultimately show ?case
    using Cons by (subst coalesce_list.simps) simp
qed

section \<open>Version Negotiation and Retry\<close>

lemma prefix5:
  assumes "5 \<le> length buf"
  shows "be_put_be32 (buf[0 := b]) 1 v = (b # be32_wire v) @ drop 5 buf"
proof -
  obtain a c where buf: "buf = a # c" "4 \<le> length c" using assms by (cases buf) auto
  have "be_put_be32 (b # c) 1 v = take 1 (b # c) @ be32_wire v @ drop (1 + 4) (b # c)"
    using buf(2) by (subst be_put_be32_write, subst write_at_eq) simp_all
  then show ?thesis using buf(1) by simp
qed

lemma put_versions_eq:
  "ob_len out + 4 * length vs \<le> ob_cap out \<Longrightarrow>
   put_versions vs out = ob_append out (concat (map be32_wire vs))"
proof (induction vs arbitrary: out)
  case (Cons v vs)
  have "put_versions (v # vs) out = put_versions vs (ob_append out (be32_wire v))"
    by (simp add: be_put_be32_write ob_append_def)
  then show ?case using Cons by (simp add: ob_append_append)
qed simp

lemma ob_append_prefix:
  assumes "length pre = n" and "n + length bs \<le> length buf"
  shows "ob_p (ob_append \<lparr>ob_p = pre @ drop n buf, ob_len = n\<rparr> bs) = pre @ bs @ drop (n + length bs) buf"
proof -
  have "write_at (pre @ drop n buf) n bs = take n (pre @ drop n buf) @ bs @ drop (n + length bs) (pre @ drop n buf)"
    using assms by (intro write_at_eq) simp
  then show ?thesis using assms(1) by (simp add: ob_append_def add.commute)
qed

definition vneg_wire :: "vneg_desc \<Rightarrow> bytes" where
  "vneg_wire d = (0xC0 # be32_wire 0) @ cid_wire (vd_dcid d) @ cid_wire (vd_scid d)
     @ concat (map be32_wire (vd_versions d))"

lemma length_concat_be32: "length (concat (map be32_wire vs)) = 4 * length vs"
  by (induction vs) simp_all

lemma vneg_build_fits:
  assumes "vd_versions d \<noteq> []" and "length (vneg_wire d) \<le> length buf"
  shows "vneg_build buf d = (length (vneg_wire d), vneg_wire d @ drop (length (vneg_wire d)) buf)"
proof -
  let ?d = "cid_wire (vd_dcid d)" and ?s = "cid_wire (vd_scid d)" and ?v = "concat (map be32_wire (vd_versions d))"
  let ?o = "\<lparr>ob_p = (0xC0 # be32_wire 0) @ drop 5 buf, ob_len = 5\<rparr>"
  have le: "5 + length ?d + length ?s + length ?v \<le> length buf" using assms(2) by (simp add: vneg_wire_def)
  have fits: "vneg_fits (length buf) d"
    using assms(1) le by (simp add: vneg_fits_def length_concat_be32)
  have pre: "be_put_be32 (buf[0 := 0xC0]) 1 0 = (0xC0 # be32_wire 0) @ drop 5 buf" using le by (intro prefix5) simp
  have d: "vneg_put_cid (vd_dcid d) ?o = (True, ob_append ?o ?d)"
    unfolding put_cid_eq using le by (intro emits_fits [OF emits_write_cid]) (simp_all add: ob_ok_def ob_cap_def)
  have s: "vneg_put_cid (vd_scid d) (ob_append ?o ?d) = (True, ob_append (ob_append ?o ?d) ?s)"
    unfolding put_cid_eq using le
    by (intro emits_fits [OF emits_write_cid]) (simp_all add: ob_ok_def ob_cap_def ob_append_def)
  have v: "put_versions (vd_versions d) (ob_append (ob_append ?o ?d) ?s) = ob_append ?o (?d @ ?s @ ?v)"
  proof -
    have "ob_len (ob_append (ob_append ?o ?d) ?s) + 4 * length (vd_versions d)
        \<le> ob_cap (ob_append (ob_append ?o ?d) ?s)"
      using le by (simp add: length_concat_be32) (simp add: ob_cap_def)
    from put_versions_eq [OF this] show ?thesis by (simp only: ob_append_append append_assoc)
  qed
  have "ob_p (ob_append ?o (?d @ ?s @ ?v)) = vneg_wire d @ drop (length (vneg_wire d)) buf"
    using le by (subst ob_append_prefix) (simp_all add: vneg_wire_def add.assoc)
  then show ?thesis
    unfolding vneg_build_def Let_def pre d s snd_conv v using fits by (simp add: vneg_wire_def add.assoc)
qed

lemma vneg_parse_wire:
  assumes "vd_versions d \<noteq> []" and "length (vd_dcid d) \<le> WIRED_MAX_CID_LEN"
    and "length (vd_scid d) \<le> WIRED_MAX_CID_LEN"
  shows "vneg_parse (vneg_wire d) =
    Some (\<lparr>vp_dcid = vd_dcid d, vp_scid = vd_scid d, vp_versions = concat (map be32_wire (vd_versions d)),
           vp_count = length (vd_versions d)\<rparr>, length (vneg_wire d))"
proof -
  let ?v = "concat (map be32_wire (vd_versions d))"
  have d5: "drop 5 (vneg_wire d) = cid_wire (vd_dcid d) @ cid_wire (vd_scid d) @ ?v"
    by (simp add: vneg_wire_def)
  note c = read_cids_wire [OF d5 assms(2,3)]
  have "be_get_be32 (drop 1 (vneg_wire d)) = 0" by (simp add: vneg_wire_def)
  then have head: "vneg_head_ok (vneg_wire d)"
    using assms(1) by (simp add: vneg_head_ok_def version_zero_def) (simp add: vneg_wire_def length_concat_be32)
  have rest: "length (vneg_wire d) - (5 + (1 + length (vd_dcid d)) + (1 + length (vd_scid d))) = 4 * length (vd_versions d)"
    by (simp add: vneg_wire_def length_concat_be32)
  have whole: "versions_whole (4 * length (vd_versions d))" using assms(1) by (simp add: versions_whole_def)
  show ?thesis
    unfolding vneg_parse_def vneg_parse_after_head_def
    by (simp only: head c(2,4) Let_def Option.bind.simps prod.case rest whole) simp
qed

definition retry_wire :: "retry_desc \<Rightarrow> bytes" where
  "retry_wire d = (retry_byte0 (rd_version d) # be32_wire (rd_version d)) @ cid_wire (rd_dcid d)
     @ cid_wire (rd_scid d) @ rd_token d @ rd_tag d"

lemma retry_build_fits:
  assumes "length (rd_tag d) = RETRY_TAG_LEN" and "length (retry_wire d) \<le> length buf"
  shows "retry_build buf d = (length (retry_wire d), retry_wire d @ drop (length (retry_wire d)) buf)"
proof -
  let ?b = "retry_byte0 (rd_version d)" and ?d = "cid_wire (rd_dcid d)" and ?s = "cid_wire (rd_scid d)"
  let ?o = "\<lparr>ob_p = (?b # be32_wire (rd_version d)) @ drop 5 buf, ob_len = 5\<rparr>"
  have le: "5 + length ?d + length ?s + length (rd_token d) + length (rd_tag d) \<le> length buf"
    using assms(2) by (simp add: retry_wire_def)
  have fits: "retry_fits (length buf) d" using assms(1) le by (simp add: retry_fits_def)
  have pre: "be_put_be32 (buf[0 := ?b]) 1 (rd_version d) = (?b # be32_wire (rd_version d)) @ drop 5 buf"
    using le by (intro prefix5) simp
  have tag: "take RETRY_TAG_LEN (rd_tag d) = rd_tag d" using assms(1) by simp
  have chain: "emits w bs \<Longrightarrow> ob_len (ob_append ?o xs) + length bs \<le> length buf \<Longrightarrow>
      snd (w (ob_append ?o xs)) = ob_append ?o (xs @ bs)" for w bs xs
    using emits_fits [of w bs "ob_append ?o xs"] le
    by (simp add: ob_append_append) (simp add: ob_ok_def ob_cap_def ob_append_def)
  have d: "snd (retry_put_cid (rd_dcid d) ?o) = ob_append ?o ?d"
    using chain [OF emits_write_cid, of "[]" "rd_dcid d"] le by (simp add: put_cid_eq)
  have s: "snd (retry_put_cid (rd_scid d) (ob_append ?o ?d)) = ob_append ?o (?d @ ?s)"
    unfolding put_cid_eq using le by (intro chain emits_write_cid) simp
  have t: "snd (bytes_put (rd_token d) (ob_append ?o (?d @ ?s))) = ob_append ?o ((?d @ ?s) @ rd_token d)"
    using le by (intro chain emits_bytes_put) simp
  have g: "snd (bytes_put (rd_tag d) (ob_append ?o ((?d @ ?s) @ rd_token d)))
      = ob_append ?o (((?d @ ?s) @ rd_token d) @ rd_tag d)"
    using le by (intro chain emits_bytes_put) simp
  have "ob_p (ob_append ?o (((?d @ ?s) @ rd_token d) @ rd_tag d)) = retry_wire d @ drop (length (retry_wire d)) buf"
    using le by (subst ob_append_prefix) (simp_all add: retry_wire_def add.assoc)
  then show ?thesis
    unfolding retry_build_def Let_def pre d s t tag g using fits by (simp add: retry_wire_def add.assoc)
qed

lemma retry_parse_wire:
  assumes "rd_version d \<noteq> VERSION_2" and "length (rd_tag d) = RETRY_TAG_LEN"
    and "length (rd_dcid d) \<le> WIRED_MAX_CID_LEN" and "length (rd_scid d) \<le> WIRED_MAX_CID_LEN"
  shows "retry_parse (retry_wire d) = Some (d, length (retry_wire d))"
proof -
  have d5: "drop 5 (retry_wire d) = cid_wire (rd_dcid d) @ cid_wire (rd_scid d) @ rd_token d @ rd_tag d"
    by (simp add: retry_wire_def)
  note c = read_cids_wire [OF d5 assms(3,4)]
  let ?off = "5 + (1 + length (rd_dcid d)) + (1 + length (rd_scid d))"
  have v: "be_get_be32 (drop 1 (retry_wire d)) = rd_version d" by (simp add: retry_wire_def)
  have b0: "retry_byte0 (rd_version d) = 0xF0"
    using assms(1) by (simp add: retry_byte0_def v1_packet_type_def lt_in_range_def)
  have head: "retry_head_ok (retry_wire d)"
    using assms(2) by (simp add: retry_head_ok_def retry_wire_def b0)
  have len: "length (retry_wire d) - RETRY_TAG_LEN = ?off + length (rd_token d)"
    using assms(2) by (simp add: retry_wire_def)
  have "drop (?off + length (rd_token d)) (retry_wire d) = drop (length (rd_token d)) (drop ?off (retry_wire d))"
    by (simp only: drop_drop add.commute)
  then have tag: "drop (?off + length (rd_token d)) (retry_wire d) = rd_tag d" unfolding c(4) by simp
  have tt: "take_token_tag (retry_wire d) ?off = Some (rd_token d, rd_tag d)"
    unfolding take_token_tag_def Let_def len bytes_take_def tag c(4)
    using assms(2) by (simp add: retry_wire_def)
  show ?thesis
    unfolding retry_parse_def retry_parse_after_head_def v
    by (simp only: head c(3) tt Option.bind.simps prod.case) simp
qed

lemma retry_v2_rejected: "rd_version d = VERSION_2 \<Longrightarrow> retry_parse (retry_wire d @ rest) = None"
  by (simp add: retry_parse_def retry_head_ok_def retry_wire_def retry_byte0_def v2_packet_type_def
      lt_in_range_def V2_WIRE_def)

lemma logical_types_inverse:
  "lt \<noteq> LT_INVALID \<Longrightarrow> v1_logical_type (v1_packet_type lt) = lt \<and> v2_logical_type (v2_packet_type lt) = lt"
  by (cases lt) (simp_all add: v1_logical_type_def v1_packet_type_def v2_logical_type_def v2_packet_type_def
      lt_in_range_def V2_WIRE_def)

section \<open>Properties\<close>

text \<open>
  C26. A long header assembled by \<open>lhdr_build\<close> and followed by any payload is read back by
  \<open>lhdr_parse\<close>: the connection IDs, the Initial token, a Length covering packet number, payload
  and 16-byte tag, and the packet number offset; the first byte yields the packet number
  length and the bytes at the offset the truncated packet number. Everything past the header
  in the buffer is untouched.
\<close>

theorem lhdr_roundtrip:
  assumes ok: "lhdr_ok d" and build: "lhdr_build d buf = (n, buf', loff)" and "n \<noteq> 0"
  shows "\<exists>h. lhdr_parse (take n buf' @ payload) (ld_is_initial d) = Some h
    \<and> lh_dcid h = ld_dcid d \<and> lh_scid h = ld_scid d
    \<and> lh_token h = (if ld_is_initial d then ld_token d else [])
    \<and> unat (lh_length h) = unat (ld_pn_len d) + ld_payload_len d + 16
    \<and> lh_pn_off h + unat (ld_pn_len d) = n
    \<and> lhdr_pn_len (buf' ! 0) = unat (ld_pn_len d)
    \<and> read_be (drop (lh_pn_off h) buf') (unat (ld_pn_len d)) = take_bit (8 * unat (ld_pn_len d)) (ld_pn d)
    \<and> n \<le> length buf \<and> drop n buf' = drop n buf"
proof -
  have fit: "length (lhdr_wire d) \<le> length buf"
    using lhdr_build_overflow [OF ok, of buf] build \<open>n \<noteq> 0\<close> by (metis fst_conv not_le)
  then have b: "n = length (lhdr_wire d)" "buf' = lhdr_wire d @ drop (length (lhdr_wire d)) buf"
    using lhdr_build_fits [OF ok fit] build by simp_all
  let ?k = "unat (ld_pn_len d)" and ?pre = "lhdr_pre_wire d @ token_wire d @ varint_wire (lhdr_remaining d)"
  have k: "1 \<le> ?k" "?k \<le> 4" using ok by (simp_all add: lhdr_ok_def)
  have w: "lhdr_wire d = ?pre @ be_bytes ?k (ld_pn d)" by (simp add: lhdr_wire_def)
  have off: "lh_pn_off (lhdr_of d) = length ?pre" by (simp only: lhdr_of_def lhdr.simps w) simp
  have "buf' ! 0 = lhdr_byte0_pnlen (ld_byte0 d) (ld_pn_len d)"
    by (simp add: b lhdr_wire_def lhdr_pre_wire_def long_wire_def)
  then have "lhdr_pn_len (buf' ! 0) = ?k" using lhdr_byte0_facts(1) k by simp
  moreover have "drop (length ?pre) buf' = be_bytes ?k (ld_pn d) @ drop n buf"
    by (simp only: b w) simp
  then have "read_be (drop (length ?pre) buf') ?k = take_bit (8 * ?k) (ld_pn d)"
    using be_fold_be_bytes [of ?k 0 "ld_pn d"] k by (simp add: read_be_def)
  moreover have "lhdr_parse (take n buf' @ payload) (ld_is_initial d) = Some (lhdr_of d)"
    using lhdr_parse_wire [OF ok, of payload] by (simp add: b)
  moreover have "length ?pre + ?k = n" by (simp only: b(1) w) simp
  ultimately show ?thesis
    using off lhdr_remaining_unat(1) [OF ok] fit b
    by (intro exI [of _ "lhdr_of d"]) (simp add: lhdr_of_def)
qed

definition lhdr_example :: lhdr_desc where
  "lhdr_example = \<lparr>ld_byte0 = 0xC0, ld_version = VERSION_1, ld_dcid = [1, 2, 3, 4], ld_scid = [9],
     ld_is_initial = True, ld_token = [7, 7], ld_payload_len = 30, ld_pn = 5, ld_pn_len = 2\<rparr>"

lemma lhdr_example_ok: "lhdr_ok lhdr_example"
  by (simp add: lhdr_ok_def cids_ok_def lhdr_example_def WIRED_MAX_CID_LEN_def)

lemma lhdr_example_len: "length (lhdr_wire lhdr_example) = 18"
  by (simp add: lhdr_wire_def lhdr_pre_wire_def token_wire_def lhdr_example_def lhdr_remaining_def
      varint_wire_small)

theorem lhdr_roundtrip_witness:
  "\<exists>h. lhdr_parse (take 18 (fst (snd (lhdr_build lhdr_example (replicate 40 0)))) @ [1]) True = Some h
    \<and> lh_dcid h = [1, 2, 3, 4] \<and> lh_token h = [7, 7] \<and> lh_pn_off h + 2 = 18"
proof -
  have fit: "length (lhdr_wire lhdr_example) \<le> length (replicate 40 0 :: bytes)" by (simp add: lhdr_example_len)
  obtain n buf' loff where b: "lhdr_build lhdr_example (replicate 40 0) = (n, buf', loff)" using prod_cases3 by blast
  then have n: "n = 18" using lhdr_build_fits [OF lhdr_example_ok fit] by (simp add: lhdr_example_len)
  from lhdr_roundtrip [OF lhdr_example_ok b, of "[1]"] show ?thesis
    unfolding b n by (auto simp: lhdr_example_def)
qed

text \<open>
  \<open>lhdr_build\<close> reports failure exactly when the header does not fit: it never writes a
  shortened header as if it were complete.
\<close>

theorem lhdr_build_exact:
  assumes "lhdr_ok d"
  shows "fst (lhdr_build d buf) = 0 \<longleftrightarrow> length buf < length (lhdr_wire d)"
  using lhdr_build_fits [OF assms] lhdr_build_overflow [OF assms]
  by (cases "length (lhdr_wire d) \<le> length buf") (auto simp: lhdr_wire_def lhdr_pre_wire_def)

theorem lhdr_build_exact_witness:
  "fst (lhdr_build lhdr_example (replicate 17 0)) = 0 \<and> fst (lhdr_build lhdr_example (replicate 18 0)) \<noteq> 0"
  using lhdr_build_exact [OF lhdr_example_ok, of "replicate 17 0"]
    lhdr_build_exact [OF lhdr_example_ok, of "replicate 18 0"] by (simp add: lhdr_example_len)

text \<open>
  C24. A datagram made of long-header packets, each a header from \<open>lhdr_build\<close> with the payload
  and tag its Length announces, optionally followed by one short-header packet, is split by
  \<open>coalesce_next\<close> into exactly those packets in order.
\<close>

theorem coalesce_splits:
  assumes "\<forall>x \<in> set xs. long_packet_ok x" and "short = [] \<or> short ! 0 AND 0x80 = 0"
    and "length (concat (map long_packet xs) @ short) < 2 ^ 64"
  shows "coalesce_list (coalesce_begin (concat (map long_packet xs) @ short))
    = map long_packet xs @ (if short = [] then [] else [short])"
  using coalesce_list_packets [OF assms(1,2), of 0 "concat (map long_packet xs) @ short"] assms(3)
  by (simp add: coalesce_begin_def)

theorem coalesce_splits_witness:
  "coalesce_list (coalesce_begin (long_packet (lhdr_example, replicate 46 1) @ [0x40, 5]))
   = [long_packet (lhdr_example, replicate 46 1), [0x40, 5]]"
proof -
  have t: "packet_long_type (ld_byte0 lhdr_example) (ld_version lhdr_example) = 0"
    by (simp add: lhdr_example_def packet_long_type_def packet_is_long_def logical_for_def wire_bits_def
        VERSION_1_def v1_logical_type_def lt_in_range_def)
  have ok: "\<forall>x \<in> set [(lhdr_example, replicate 46 1)]. long_packet_ok x"
    using lhdr_example_ok t by (simp add: long_packet_ok_def) (simp add: lhdr_example_def)
  have "length (concat (map long_packet [(lhdr_example, replicate 46 1)]) @ [0x40, 5]) < 2 ^ 64"
    by (simp add: long_packet_def lhdr_example_len)
  from coalesce_splits [OF ok _ this] show ?thesis by simp
qed

text \<open>
  On any datagram the packets yielded are non-empty consecutive slices from its start: no
  byte is delivered twice or out of order and nothing outside the datagram is read.
\<close>

theorem coalesce_partition:
  assumes "length dgram < 2 ^ 63"
  shows "\<exists>rest. dgram = concat (coalesce_list (coalesce_begin dgram)) @ rest
    \<and> [] \<notin> set (coalesce_list (coalesce_begin dgram))"
  using coalesce_list_slices [of "coalesce_begin dgram"] assms by (simp add: coalesce_begin_def)

theorem coalesce_partition_witness:
  "length [0x40, 1, 2 :: u8] < 2 ^ 63
   \<and> (\<exists>rest. [0x40, 1, 2] = concat (coalesce_list (coalesce_begin [0x40, 1, 2])) @ rest)"
  using coalesce_partition [of "[0x40, 1, 2]"] by auto



text \<open>
  C38. A Version Negotiation packet that fits is parsed back to the same connection IDs and
  version list, and a Retry of any version but 2 to the same fields; a version 2 Retry that
  \<open>retry_build\<close> wrote is refused by \<open>retry_parse\<close>, whatever follows it.
\<close>

theorem vneg_retry_roundtrip:
  assumes "length (vneg_wire v) \<le> length buf" and "vd_versions v \<noteq> []"
    and "length (vd_dcid v) \<le> 20" and "length (vd_scid v) \<le> 20"
    and "length (retry_wire r) \<le> length buf" and "length (rd_tag r) = 16"
    and "length (rd_dcid r) \<le> 20" and "length (rd_scid r) \<le> 20"
  shows "vneg_parse (take (fst (vneg_build buf v)) (snd (vneg_build buf v)))
      = Some (\<lparr>vp_dcid = vd_dcid v, vp_scid = vd_scid v, vp_versions = concat (map be32_wire (vd_versions v)),
               vp_count = length (vd_versions v)\<rparr>, fst (vneg_build buf v))
    \<and> retry_parse (take (fst (retry_build buf r)) (snd (retry_build buf r)))
      = (if rd_version r = VERSION_2 then None else Some (r, fst (retry_build buf r)))"
proof -
  have t: "length (rd_tag r) = RETRY_TAG_LEN" using assms(6) by (simp add: RETRY_TAG_LEN_def)
  have "vneg_build buf v = (length (vneg_wire v), vneg_wire v @ drop (length (vneg_wire v)) buf)"
    using assms by (intro vneg_build_fits)
  moreover have "retry_build buf r = (length (retry_wire r), retry_wire r @ drop (length (retry_wire r)) buf)"
    using t assms(5) by (rule retry_build_fits)
  moreover have "retry_parse (retry_wire r)
      = (if rd_version r = VERSION_2 then None else Some (r, length (retry_wire r)))"
    using retry_parse_wire [OF _ t] retry_v2_rejected [of r "[]"] assms
    by (simp add: WIRED_MAX_CID_LEN_def)
  ultimately show ?thesis
    using vneg_parse_wire [of v] assms by (simp add: WIRED_MAX_CID_LEN_def)
qed

theorem vneg_retry_roundtrip_witness:
  "retry_parse (take (fst (retry_build (replicate 60 0) \<lparr>rd_version = VERSION_2, rd_dcid = [1], rd_scid = [2],
       rd_token = [3], rd_tag = replicate 16 4\<rparr>))
     (snd (retry_build (replicate 60 0) \<lparr>rd_version = VERSION_2, rd_dcid = [1], rd_scid = [2],
       rd_token = [3], rd_tag = replicate 16 4\<rparr>))) = None"
  using vneg_retry_roundtrip [of "\<lparr>vd_dcid = [1], vd_scid = [2], vd_versions = [1]\<rparr>" "replicate 60 0"
    "\<lparr>rd_version = VERSION_2, rd_dcid = [1], rd_scid = [2], rd_token = [3], rd_tag = replicate 16 4\<rparr>"]
  by (simp add: vneg_wire_def retry_wire_def)

end
