(* ===== verification/Stream_Flow.thy ===== *)
theory Stream_Flow
  imports Frame_Ctl
begin

unbundle bit_operations_syntax

text \<open>
  Streams: identifiers, roles and limits (\<^verbatim>\<open>src/transport/stream/data\<close>), flow control, final
  size and reassembly (\<^verbatim>\<open>src/transport/stream/flow\<close>), and the CRYPTO stream receiver of
  \<^verbatim>\<open>src/transport/conn/pnspace/crypto_stream/crypto_rx.c\<close>. The counters are 64-bit words as in
  the code. A store outside the reassembly buffer, undefined in C, is the value \<open>None\<close>.
\<close>

section \<open>stream\_id.c, stream\_role.c, stream\_limit.c\<close>

definition STREAM_INITIATOR_BIT :: u64 where "STREAM_INITIATOR_BIT = 0x1"
definition STREAM_DIR_BIT :: u64 where "STREAM_DIR_BIT = 0x2"

definition stream_is_client_initiated :: "u64 \<Rightarrow> bool" where
  "stream_is_client_initiated sid \<longleftrightarrow> sid AND STREAM_INITIATOR_BIT = 0"

definition stream_is_uni :: "u64 \<Rightarrow> bool" where
  "stream_is_uni sid \<longleftrightarrow> sid AND STREAM_DIR_BIT \<noteq> 0"

definition stream_id :: "bool \<Rightarrow> bool \<Rightarrow> u64 \<Rightarrow> u64" where
  "stream_id is_server is_uni index =
     push_bit 2 index OR ((if is_server then STREAM_INITIATOR_BIT else 0) OR (if is_uni then STREAM_DIR_BIT else 0))"

definition am_initiator :: "bool \<Rightarrow> u64 \<Rightarrow> bool" where
  "am_initiator am_client sid \<longleftrightarrow> am_client = stream_is_client_initiated sid"

definition stream_can_send :: "bool \<Rightarrow> u64 \<Rightarrow> bool" where
  "stream_can_send am_client sid = (if \<not> stream_is_uni sid then True else am_initiator am_client sid)"

definition stream_can_receive :: "bool \<Rightarrow> u64 \<Rightarrow> bool" where
  "stream_can_receive am_client sid = (if \<not> stream_is_uni sid then True else \<not> am_initiator am_client sid)"

definition MAX_STREAMS_LIMIT :: u64 where "MAX_STREAMS_LIMIT = push_bit 60 1"

definition stream_max_streams_ok :: "u64 \<Rightarrow> bool" where
  "stream_max_streams_ok max_streams \<longleftrightarrow> max_streams \<le> MAX_STREAMS_LIMIT"

record stream_kind =
  sk_is_server :: bool
  sk_is_uni :: bool

definition stream_max_id :: "stream_kind \<Rightarrow> u64 \<Rightarrow> u64 option" where
  "stream_max_id k max_streams =
     (if max_streams = 0 then None
      else if \<not> stream_max_streams_ok max_streams then None
      else Some (stream_id (sk_is_server k) (sk_is_uni k) (max_streams - 1)))"

section \<open>streams.c, stream\_credit.c\<close>

record streams =
  sm_limit :: u64
  sm_opened :: u64

definition streams_init :: "u64 \<Rightarrow> streams" where
  "streams_init limit = \<lparr>sm_limit = limit, sm_opened = 0\<rparr>"

definition streams_set_max :: "streams \<Rightarrow> u64 \<Rightarrow> bool \<times> streams" where
  "streams_set_max s new_limit =
     (if new_limit \<le> sm_limit s then (False, s) else (True, s\<lparr>sm_limit := new_limit\<rparr>))"

definition streams_may_open :: "streams \<Rightarrow> u64 \<Rightarrow> bool" where
  "streams_may_open s index \<longleftrightarrow> index < sm_limit s"

definition streams_opened :: "streams \<Rightarrow> streams" where
  "streams_opened s = s\<lparr>sm_opened := sm_opened s + 1\<rparr>"

definition streams_observe :: "streams \<Rightarrow> u64 \<Rightarrow> streams" where
  "streams_observe s index =
     (let needed = index + 1 in if needed > sm_opened s then s\<lparr>sm_opened := needed\<rparr> else s)"

record stream_credit =
  sc_max_streams :: u64
  sc_count :: u64

definition stream_credit_init :: "u64 \<Rightarrow> stream_credit" where
  "stream_credit_init max_streams = \<lparr>sc_max_streams = max_streams, sc_count = 0\<rparr>"

definition stream_credit_open :: "stream_credit \<Rightarrow> bool \<times> stream_credit" where
  "stream_credit_open s =
     (if sc_count s \<ge> sc_max_streams s then (False, s) else (True, s\<lparr>sc_count := sc_count s + 1\<rparr>))"

definition stream_credit_grant :: "stream_credit \<Rightarrow> u64 \<Rightarrow> stream_credit" where
  "stream_credit_grant s new_max =
     (if new_max > sc_max_streams s then s\<lparr>sc_max_streams := new_max\<rparr> else s)"

section \<open>streamstate.c\<close>

definition locally_initiated :: "bool \<Rightarrow> u64 \<Rightarrow> bool" where
  "locally_initiated am_server sid \<longleftrightarrow> am_server = (\<not> stream_is_client_initiated sid)"

definition direction_ok :: "bool \<Rightarrow> u64 \<Rightarrow> bool \<Rightarrow> bool" where
  "direction_ok am_server sid needs_send =
     (let other_is_client = am_server in
      if \<not> stream_is_uni sid then True
      else if needs_send then stream_can_send other_is_client sid
      else stream_can_receive other_is_client sid)"

definition creation_ok :: "bool \<Rightarrow> u64 \<Rightarrow> streams \<Rightarrow> bool" where
  "creation_ok am_server sid local_streams =
     (if \<not> locally_initiated am_server sid then True else drop_bit 2 sid < sm_opened local_streams)"

definition streamstate_ok :: "bool \<Rightarrow> u64 \<Rightarrow> bool \<Rightarrow> streams \<Rightarrow> bool" where
  "streamstate_ok am_server sid needs_send local_streams =
     (if \<not> direction_ok am_server sid needs_send then False else creation_ok am_server sid local_streams)"

section \<open>credit.c, stream\_flow.c, dual\_flow.c\<close>

record flow_credit =
  fc_consumed :: u64
  fc_max_data :: u64
  fc_window :: u64

definition flow_credit_init :: "u64 \<Rightarrow> flow_credit" where
  "flow_credit_init initial_max = \<lparr>fc_consumed = 0, fc_max_data = initial_max, fc_window = initial_max\<rparr>"

definition flow_credit_consume :: "flow_credit \<Rightarrow> u64 \<Rightarrow> u64 \<times> flow_credit" where
  "flow_credit_consume c n =
     (let c1 = c\<lparr>fc_consumed := fc_consumed c + n\<rparr>;
          c2 = c1\<lparr>fc_max_data := fc_consumed c1 + fc_window c1\<rparr>
      in (fc_max_data c2, c2))"

definition flow_credit_violation :: "flow_credit \<Rightarrow> u64 \<Rightarrow> bool" where
  "flow_credit_violation c received_total \<longleftrightarrow> received_total > fc_max_data c"

record stream_flow =
  fl_consumed :: u64
  fl_max_stream_data :: u64
  fl_window :: u64

definition stream_flow_init :: "u64 \<Rightarrow> stream_flow" where
  "stream_flow_init window = \<lparr>fl_consumed = 0, fl_max_stream_data = window, fl_window = window\<rparr>"

definition stream_flow_consume :: "stream_flow \<Rightarrow> u64 \<Rightarrow> u64 \<times> stream_flow" where
  "stream_flow_consume s n =
     (let s1 = s\<lparr>fl_consumed := fl_consumed s + n\<rparr>;
          s2 = s1\<lparr>fl_max_stream_data := fl_consumed s1 + fl_window s1\<rparr>
      in (fl_max_stream_data s2, s2))"

definition stream_flow_violation :: "u64 \<Rightarrow> u64 \<Rightarrow> bool" where
  "stream_flow_violation received max_stream_data \<longleftrightarrow> received > max_stream_data"

record flow_usage =
  fu_used :: u64
  fu_max :: u64

definition dual_flow_ok :: "flow_usage \<Rightarrow> flow_usage \<Rightarrow> bool" where
  "dual_flow_ok stream conn \<longleftrightarrow> fu_used stream \<le> fu_max stream \<and> fu_used conn \<le> fu_max conn"

section \<open>flowviol.c, closeframe.c, maxstreams.c\<close>

definition EC_FLOW_CONTROL_ERROR :: u64 where "EC_FLOW_CONTROL_ERROR = 0x03"
definition EC_STREAM_LIMIT_ERROR :: u64 where "EC_STREAM_LIMIT_ERROR = 0x04"
definition EC_CRYPTO_BUFFER_EXCEEDED :: u64 where "EC_CRYPTO_BUFFER_EXCEEDED = 0x0d"

definition data_violation :: "u64 \<Rightarrow> u64 \<Rightarrow> bool" where
  "data_violation received_total max_data = flow_credit_violation (flow_credit_init max_data) received_total"

definition stream_violation :: "u64 \<Rightarrow> u64 \<Rightarrow> bool" where
  "stream_violation stream_count max_streams =
     (\<not> fst (stream_credit_open ((stream_credit_init max_streams)\<lparr>sc_count := stream_count\<rparr>)))"

text \<open>The error code to close with, or \<open>None\<close> within the limits.\<close>

definition flowviol_check :: "flow_usage \<Rightarrow> flow_usage \<Rightarrow> u64 option" where
  "flowviol_check data strms =
     (if data_violation (fu_used data) (fu_max data) then Some EC_FLOW_CONTROL_ERROR
      else if stream_violation (fu_used strms) (fu_max strms) then Some EC_STREAM_LIMIT_ERROR
      else None)"

record flowviol_err =
  fe_error_code :: u64
  fe_frame_type :: u64
  fe_reason :: bytes

definition flowviol_close_frame :: "bytes \<Rightarrow> flowviol_err \<Rightarrow> nat \<times> bytes" where
  "flowviol_close_frame buf e =
     frame_put_conn_close buf \<lparr>cc_is_app = False, cc_error_code = fe_error_code e,
       cc_frame_type = fe_frame_type e, cc_reason_len = of_nat (length (fe_reason e)), cc_reason = fe_reason e\<rparr>"

definition maxstreams_frame :: "bool \<Rightarrow> u64 \<Rightarrow> bytes \<Rightarrow> nat \<times> bytes" where
  "maxstreams_frame uni mx buf = max_streams_encode buf \<lparr>st_max_streams = mx, st_uni = uni\<rparr>"

definition maxstreams_parse :: "bytes \<Rightarrow> (bool \<times> u64) option" where
  "maxstreams_parse inp = map_option (\<lambda>(f, n). (st_uni f, st_max_streams f)) (max_streams_decode inp)"

definition maxstreams_blocked_frame :: "bool \<Rightarrow> u64 \<Rightarrow> bytes \<Rightarrow> nat \<times> bytes" where
  "maxstreams_blocked_frame uni limit buf = streams_blocked_encode buf \<lparr>st_max_streams = limit, st_uni = uni\<rparr>"

definition maxstreams_can_open :: "u64 \<Rightarrow> u64 \<Rightarrow> bool" where
  "maxstreams_can_open opened max_streams \<longleftrightarrow> opened < max_streams"

section \<open>finalsize.c\<close>

record finalsize =
  fs_highest :: u64
  fs_final_size :: u64
  fs_known :: bool

definition finalsize_init :: finalsize where
  "finalsize_init = \<lparr>fs_highest = 0, fs_final_size = 0, fs_known = False\<rparr>"

definition note_highest :: "finalsize \<Rightarrow> u64 \<Rightarrow> u64 \<Rightarrow> u64 \<times> finalsize" where
  "note_highest f offset len =
     (let e = offset + len in (e, if e > fs_highest f then f\<lparr>fs_highest := e\<rparr> else f))"

definition finalsize_data :: "finalsize \<Rightarrow> u64 \<Rightarrow> u64 \<Rightarrow> bool \<times> finalsize" where
  "finalsize_data f offset len =
     (let (e, f) = note_highest f offset len
      in if \<not> fs_known f then (True, f) else (e \<le> fs_final_size f, f))"

definition size_consistent :: "finalsize \<Rightarrow> u64 \<Rightarrow> bool" where
  "size_consistent f sz = (if fs_known f then sz = fs_final_size f else sz \<ge> fs_highest f)"

definition finalsize_set :: "finalsize \<Rightarrow> u64 \<Rightarrow> bool \<times> finalsize" where
  "finalsize_set f sz =
     (if \<not> size_consistent f sz then (False, f)
      else (True, f\<lparr>fs_final_size := sz, fs_known := True\<rparr>))"

section \<open>reassemble.c\<close>

definition REASM_CAP :: nat where "REASM_CAP = 4096"

record reasm =
  ra_buf :: bytes
  ra_have :: "bool list"
  ra_delivered :: u64
  ra_final_size :: u64
  ra_have_final :: bool

text \<open>\<open>reasm_init\<close> clears everything but the bytes of the buffer it is given.\<close>

definition reasm_init :: "reasm \<Rightarrow> reasm" where
  "reasm_init r = r\<lparr>ra_have := replicate REASM_CAP False, ra_delivered := 0, ra_final_size := 0,
     ra_have_final := False\<rparr>"

definition insert_fits :: "reasm \<Rightarrow> u64 \<Rightarrow> nat \<Rightarrow> bool" where
  "insert_fits r offset len =
     (if offset + of_nat len > of_nat REASM_CAP then False
      else \<not> ra_have_final r \<or> offset + of_nat len \<le> ra_final_size r)"

text \<open>The loop of \<open>reasm_insert\<close>: \<open>at\<close> is \<open>offset + i\<close>. An index outside the arrays is \<open>None\<close>.\<close>

fun reasm_store :: "reasm \<Rightarrow> u64 \<Rightarrow> bytes \<Rightarrow> reasm option" where
  "reasm_store r at [] = Some r"
| "reasm_store r at (b # bs) =
     (if unat at < REASM_CAP
      then reasm_store (r\<lparr>ra_buf := (ra_buf r)[unat at := b], ra_have := (ra_have r)[unat at := True]\<rparr>) (at + 1) bs
      else None)"

definition reasm_insert :: "reasm \<Rightarrow> u64 \<Rightarrow> bytes \<Rightarrow> (bool \<times> reasm) option" where
  "reasm_insert r offset data =
     (if \<not> insert_fits r offset (length data) then Some (False, r)
      else map_option (Pair True) (reasm_store r offset data))"

definition reasm_set_final :: "reasm \<Rightarrow> u64 \<Rightarrow> bool \<times> reasm" where
  "reasm_set_final r final_size =
     (if final_size > of_nat REASM_CAP then (False, r)
      else (True, r\<lparr>ra_final_size := final_size, ra_have_final := True\<rparr>))"

function deliver_loop :: "bool list \<Rightarrow> u64 \<Rightarrow> u64" where
  "deliver_loop have d =
     (if d < of_nat REASM_CAP \<and> have ! unat d then deliver_loop have (d + 1) else d)"
  by pat_completeness auto
termination
proof (relation "measure (\<lambda>(_, d). REASM_CAP - unat d)", goal_cases)
  case (2 have' d)
  then have "unat d < REASM_CAP" by (simp add: u64_less_mono REASM_CAP_def)
  moreover from this have "unat (d + 1) = unat d + 1"
    by (subst unat_add_u64) (simp_all add: REASM_CAP_def)
  ultimately show ?case by simp
qed simp

declare deliver_loop.simps [simp del]

definition reasm_deliver :: "reasm \<Rightarrow> u64 \<times> reasm" where
  "reasm_deliver r =
     (let d = deliver_loop (ra_have r) (ra_delivered r) in (d, r\<lparr>ra_delivered := d\<rparr>))"

section \<open>stream\_read.c\<close>

record stream_read =
  sr_r :: reasm
  sr_read_off :: u64

definition stream_read_init :: "stream_read \<Rightarrow> stream_read" where
  "stream_read_init s = \<lparr>sr_r = reasm_init (sr_r s), sr_read_off = 0\<rparr>"

definition stream_read_push :: "stream_read \<Rightarrow> u64 \<Rightarrow> bytes \<Rightarrow> (bool \<times> stream_read) option" where
  "stream_read_push s offset data =
     map_option (\<lambda>(ok, r). (ok, s\<lparr>sr_r := r\<rparr>)) (reasm_insert (sr_r s) offset data)"

definition readable :: "stream_read \<Rightarrow> nat \<Rightarrow> nat \<times> stream_read" where
  "readable s cap =
     (let (d, r) = reasm_deliver (sr_r s);
          avail = d - sr_read_off s
      in (if unat avail < cap then unat avail else cap, s\<lparr>sr_r := r\<rparr>))"

text \<open>The pulled bytes \<open>out->p[0..out->len)\<close> and the new state.\<close>

definition stream_read_pull :: "stream_read \<Rightarrow> nat \<Rightarrow> bytes \<times> stream_read" where
  "stream_read_pull s cap =
     (let (n, s) = readable s cap
      in (map (\<lambda>i. ra_buf (sr_r s) ! unat (sr_read_off s + of_nat i)) [0..<n],
          s\<lparr>sr_read_off := sr_read_off s + of_nat n\<rparr>))"

section \<open>crypto\_rx.c\<close>

record crypto_rx =
  cx_reasm :: reasm
  cx_read_upto :: u64

definition crypto_stream_rx_init :: "crypto_rx \<Rightarrow> crypto_rx" where
  "crypto_stream_rx_init r = \<lparr>cx_reasm = reasm_init (cx_reasm r), cx_read_upto = 0\<rparr>"

definition crypto_stream_recv :: "crypto_rx \<Rightarrow> u64 \<Rightarrow> bytes \<Rightarrow> (bool \<times> crypto_rx) option" where
  "crypto_stream_recv r offset data =
     map_option (\<lambda>(ok, q). (ok, r\<lparr>cx_reasm := q\<rparr>)) (reasm_insert (cx_reasm r) offset data)"

text \<open>\<open>Inl\<close> carries \<open>*error_code\<close>; the receiver is unchanged then.\<close>

definition crypto_stream_recv_ec :: "crypto_rx \<Rightarrow> u64 \<Rightarrow> bytes \<Rightarrow> (u64 + crypto_rx) option" where
  "crypto_stream_recv_ec r offset data =
     map_option (\<lambda>(ok, r'). if ok then Inr r' else Inl EC_CRYPTO_BUFFER_EXCEEDED) (crypto_stream_recv r offset data)"

definition crypto_stream_read :: "crypto_rx \<Rightarrow> nat \<Rightarrow> bytes option \<times> crypto_rx" where
  "crypto_stream_read r cap =
     (let (d, q) = reasm_deliver (cx_reasm r);
          r = r\<lparr>cx_reasm := q\<rparr>;
          avail = d - cx_read_upto r
      in if unat avail > cap then (None, r)
         else (Some (map (\<lambda>i. ra_buf q ! unat (cx_read_upto r + of_nat i)) [0..<unat avail]),
               r\<lparr>cx_read_upto := cx_read_upto r + avail\<rparr>))"

section \<open>Stream identifiers\<close>

lemma stream_bits:
  "stream_is_client_initiated sid \<longleftrightarrow> even (unat sid)"
  "stream_is_uni sid \<longleftrightarrow> odd (unat sid div 2)"
proof -
  have "sid AND 1 = 0 \<longleftrightarrow> \<not> bit sid 0"
    using and_exp_eq_0_iff_not_bit [of sid 0] by (simp only: power_0)
  moreover have "bit sid 0 \<longleftrightarrow> odd (unat sid)"
    using bit_unsigned_iff [of sid 0, where 'a = nat] by (simp add: bit_0)
  ultimately show "stream_is_client_initiated sid \<longleftrightarrow> even (unat sid)"
    by (simp only: stream_is_client_initiated_def STREAM_INITIATOR_BIT_def not_not)
  have "sid AND 2 = 0 \<longleftrightarrow> \<not> bit sid 1"
    using and_exp_eq_0_iff_not_bit [of sid 1] by simp
  moreover have "bit sid 1 \<longleftrightarrow> odd (unat sid div 2)"
    using bit_unsigned_iff [of sid 1, where 'a = nat] by (simp add: bit_iff_odd)
  ultimately show "stream_is_uni sid \<longleftrightarrow> odd (unat sid div 2)"
    by (simp add: stream_is_uni_def STREAM_DIR_BIT_def)
qed

lemma unat_drop_bit_2: "unat (drop_bit 2 (x :: u64)) = unat x div 4"
  by (subst unsigned_drop_bit_eq) (simp add: drop_bit_eq_div take_bit_nat_eq_self)

lemma unat_stream_id:
  assumes "unat i < 2 ^ 62"
  shows "unat (stream_id s u i) = 4 * unat i + (if s then 1 else 0) + (if u then 2 else 0)"
proof -
  let ?low = "(if s then 1 else 0) + (if u then 2 else 0) :: u64"
  have low: "(if s then STREAM_INITIATOR_BIT else 0) OR (if u then STREAM_DIR_BIT else 0) = ?low"
    by (simp add: STREAM_INITIATOR_BIT_def STREAM_DIR_BIT_def)
  have b: "\<not> bit ?low n" if "2 \<le> n" for n
  proof -
    have "(2 :: nat) ^ 2 \<le> 2 ^ n" using that by (rule power_increasing) simp
    moreover have "unat ?low < 4" by simp
    ultimately have "unat ?low div 2 ^ n = 0" by simp
    then show ?thesis using bit_unsigned_iff [of ?low n, where 'a = nat] by (simp add: bit_iff_odd)
  qed
  have "stream_id s u i = push_bit 2 i + ?low"
    unfolding stream_id_def low
    using b by (subst disjunctive_add_eq_or) (auto intro!: bit_word_eqI simp: bit_simps)
  moreover have "unat (push_bit 2 i) = 4 * unat i"
    using assms by (simp add: push_bit_eq_mult unat_word_ariths)
  moreover have "unat ?low = (if s then 1 else 0) + (if u then 2 else 0)" by simp
  ultimately show ?thesis
    using assms by (simp add: unat_word_ariths del: unsigned_push_bit_eq)
qed

lemma stream_id_split:
  assumes "unat i < 2 ^ 62"
  shows "stream_is_client_initiated (stream_id s u i) \<longleftrightarrow> \<not> s" "stream_is_uni (stream_id s u i) \<longleftrightarrow> u"
    "drop_bit 2 (stream_id s u i) = i"
proof -
  note n = unat_stream_id [OF assms, of s u]
  have d: "unat (stream_id s u i) div 4 = unat i" "odd (unat (stream_id s u i) div 2) \<longleftrightarrow> u"
    "even (unat (stream_id s u i)) \<longleftrightarrow> \<not> s"
    unfolding n by (cases s; cases u; simp; presburger)+
  then show "stream_is_client_initiated (stream_id s u i) \<longleftrightarrow> \<not> s" "stream_is_uni (stream_id s u i) \<longleftrightarrow> u"
    by (simp_all add: stream_bits)
  show "drop_bit 2 (stream_id s u i) = i"
    using d(1) unat_drop_bit_2 [of "stream_id s u i"] by (metis word_unat_eq_iff)
qed

lemma unat_sid_parts:
  "unat sid = 4 * (unat sid div 4) + (if odd (unat sid) then 1 else 0) + (if odd (unat sid div 2) then 2 else 0)"
  by (cases "odd (unat sid)"; cases "odd (unat sid div 2)"; simp; presburger)

lemma stream_id_rebuild:
  "stream_id (\<not> stream_is_client_initiated sid) (stream_is_uni sid) (drop_bit 2 sid) = sid"
proof -
  have "unat (drop_bit 2 sid) < 2 ^ 62"
    unfolding unat_drop_bit_2 by (rule less_mult_imp_div_less) simp
  then have "unat (stream_id (\<not> stream_is_client_initiated sid) (stream_is_uni sid) (drop_bit 2 sid)) = unat sid"
    unfolding unat_stream_id [OF \<open>unat (drop_bit 2 sid) < 2 ^ 62\<close>] unat_drop_bit_2 stream_bits
    using unat_sid_parts [of sid] by simp
  then show ?thesis by (simp add: word_unat_eq_iff)
qed

lemma unat_MAX_STREAMS_LIMIT: "unat MAX_STREAMS_LIMIT = 2 ^ 60"
  by (simp add: MAX_STREAMS_LIMIT_def push_bit_eq_mult)

lemma stream_max_id_covers:
  assumes "stream_max_id k n = Some m" and "stream_is_client_initiated sid \<longleftrightarrow> \<not> sk_is_server k"
    and "stream_is_uni sid \<longleftrightarrow> sk_is_uni k"
  shows "sid \<le> m \<longleftrightarrow> drop_bit 2 sid < n"
proof -
  have n: "n \<noteq> 0" "unat n \<le> 2 ^ 60" and m: "m = stream_id (sk_is_server k) (sk_is_uni k) (n - 1)"
    using assms(1) unat_MAX_STREAMS_LIMIT
    by (auto simp: stream_max_id_def stream_max_streams_ok_def u64_le_mono split: if_splits)
  have n1: "unat (n - 1) = unat n - 1" using n(1) by (simp add: unat_minus_one)
  have pos: "0 < unat n" using n(1) by (simp add: word_greater_zero_iff unat_gt_0)
  have "unat m = 4 * (unat n - 1) + (if sk_is_server k then 1 else 0) + (if sk_is_uni k then 2 else 0)"
    unfolding m using n by (subst unat_stream_id) (simp_all add: n1)
  moreover have "unat sid = 4 * (unat sid div 4) + (if sk_is_server k then 1 else 0) + (if sk_is_uni k then 2 else 0)"
    using unat_sid_parts [of sid] assms(2,3) by (simp add: stream_bits)
  ultimately have "unat sid \<le> unat m \<longleftrightarrow> unat sid div 4 \<le> unat n - 1" by linarith
  then show ?thesis
    using pos by (simp add: word_le_nat_alt word_less_nat_alt unat_drop_bit_2) linarith
qed

section \<open>Limits and credit\<close>

lemma streams_limit_monotone:
  "sm_limit (snd (streams_set_max s n)) = max (sm_limit s) n"
  "fst (streams_set_max s n) \<longleftrightarrow> sm_limit s < n"
  "sm_opened (snd (streams_set_max s n)) = sm_opened s"
  by (auto simp: streams_set_max_def max_def)

text \<open>Observing every index of a list leaves the count just above the highest one.\<close>

lemma streams_observe_max:
  assumes "\<forall>i \<in> set ixs. i < 2 ^ 62"
  shows "unat (sm_opened (fold (\<lambda>i s. streams_observe s i) ixs s))
    = Max (insert (unat (sm_opened s)) ((\<lambda>i. unat i + 1) ` set ixs))"
  using assms
proof (induction ixs arbitrary: s)
  case (Cons i ixs)
  have "unat i < 2 ^ 62" using Cons.prems by (simp add: word_less_nat_alt)
  then have "unat (i + 1) = unat i + 1" by (subst unat_add_u64) simp_all
  then have "unat (sm_opened (streams_observe s i)) = max (unat (sm_opened s)) (unat i + 1)"
    by (simp add: streams_observe_def Let_def word_less_nat_alt)
  then show ?case
    using Cons by (cases "ixs = []") (simp_all add: max.assoc max.left_commute)
qed simp

fun open_many :: "nat \<Rightarrow> stream_credit \<Rightarrow> bool list \<times> stream_credit" where
  "open_many 0 s = ([], s)"
| "open_many (Suc n) s =
     (let (ok, s) = stream_credit_open s; (oks, s) = open_many n s in (ok # oks, s))"

lemma stream_credit_open_count:
  assumes "sc_count s \<le> sc_max_streams s"
  shows "sc_count (snd (stream_credit_open s)) \<le> sc_max_streams (snd (stream_credit_open s))"
    and "unat (sc_count (snd (stream_credit_open s)))
      = unat (sc_count s) + (if fst (stream_credit_open s) then 1 else 0)"
    and "fst (stream_credit_open s) \<longleftrightarrow> sc_count s < sc_max_streams s"
proof -
  have "unat (sc_count s + 1) = unat (sc_count s) + 1" if "sc_count s < sc_max_streams s"
  proof -
    have "unat (sc_count s) + 1 < 2 ^ 64"
      using that unat_lt_u64 [of "sc_max_streams s"] unfolding word_less_nat_alt power_2_64 by linarith
    then show ?thesis by (subst unat_add_u64) simp_all
  qed
  then show "sc_count (snd (stream_credit_open s)) \<le> sc_max_streams (snd (stream_credit_open s))"
    "unat (sc_count (snd (stream_credit_open s)))
      = unat (sc_count s) + (if fst (stream_credit_open s) then 1 else 0)"
    "fst (stream_credit_open s) \<longleftrightarrow> sc_count s < sc_max_streams s"
    using assms by (auto simp: stream_credit_open_def word_le_nat_alt word_less_nat_alt)
qed

lemma open_many_count:
  "sc_count s \<le> sc_max_streams s \<Longrightarrow>
   fst (open_many n s) = map (\<lambda>i. i < unat (sc_max_streams s) - unat (sc_count s)) [0..<n]"
proof (induction n arbitrary: s)
  case (Suc n)
  let ?s = "snd (stream_credit_open s)"
  have m: "sc_max_streams ?s = sc_max_streams s" by (simp add: stream_credit_open_def)
  have IH: "fst (open_many n ?s) = map (\<lambda>i. i < unat (sc_max_streams s) - unat (sc_count ?s)) [0..<n]"
    using Suc.IH [of ?s] stream_credit_open_count(1) [OF Suc.prems] m by simp
  have "fst (open_many (Suc n) s) = fst (stream_credit_open s) # fst (open_many n ?s)"
    by (simp add: Let_def split: prod.split)
  also have "\<dots> = map (\<lambda>i. i < unat (sc_max_streams s) - unat (sc_count s)) (0 # map Suc [0..<n])"
    unfolding IH using stream_credit_open_count(2,3) [OF Suc.prems] Suc.prems
    by (auto simp: word_less_nat_alt word_le_nat_alt)
  also have "0 # map Suc [0..<n] = [0..<Suc n]" by (simp add: map_Suc_upt upt_conv_Cons del: upt_Suc)
  finally show ?case .
qed simp

section \<open>Final size\<close>

datatype fs_op = FsData u64 u64 | FsSet u64

fun fs_apply :: "finalsize \<Rightarrow> fs_op \<Rightarrow> bool \<times> finalsize" where
  "fs_apply f (FsData offset len) = finalsize_data f offset len"
| "fs_apply f (FsSet sz) = finalsize_set f sz"

text \<open>Whether every operation of a history is accepted.\<close>

fun fs_accepts :: "finalsize \<Rightarrow> fs_op list \<Rightarrow> bool" where
  "fs_accepts f [] = True"
| "fs_accepts f (x # xs) = (let (ok, f) = fs_apply f x in ok \<and> fs_accepts f xs)"

definition fs_ends :: "fs_op list \<Rightarrow> u64 set" where
  "fs_ends xs = {offset + len | offset len. FsData offset len \<in> set xs}"

definition fs_sets :: "fs_op list \<Rightarrow> u64 set" where
  "fs_sets xs = {sz. FsSet sz \<in> set xs}"

definition fs_consistent :: "u64 set \<Rightarrow> u64 set \<Rightarrow> bool" where
  "fs_consistent E S \<longleftrightarrow> (\<forall>s \<in> S. \<forall>s' \<in> S. s = s') \<and> (\<forall>s \<in> S. \<forall>e \<in> E. e \<le> s)"

definition fs_inv :: "finalsize \<Rightarrow> u64 set \<Rightarrow> u64 set \<Rightarrow> bool" where
  "fs_inv f E S \<longleftrightarrow> (\<forall>e \<in> E. e \<le> fs_highest f) \<and> (fs_highest f \<in> E \<or> fs_highest f = 0)
     \<and> S = (if fs_known f then {fs_final_size f} else {}) \<and> fs_consistent E S"

lemma fs_parts [simp]:
  "fs_ends [] = {}" "fs_sets [] = {}"
  "fs_ends (FsData offset len # xs) = insert (offset + len) (fs_ends xs)" "fs_ends (FsSet sz # xs) = fs_ends xs"
  "fs_sets (FsData offset len # xs) = fs_sets xs" "fs_sets (FsSet sz # xs) = insert sz (fs_sets xs)"
  by (auto simp: fs_ends_def fs_sets_def)

lemma finalsize_data_step:
  assumes "fs_inv f E S" and r: "finalsize_data f offset len = (ok, f')"
  shows "ok \<longleftrightarrow> fs_consistent (insert (offset + len) E) S" and "ok \<Longrightarrow> fs_inv f' (insert (offset + len) E) S"
proof -
  have "ok \<longleftrightarrow> \<not> fs_known f \<or> offset + len \<le> fs_final_size f"
    using r by (auto simp: finalsize_data_def note_highest_def Let_def split: if_splits)
  also have "\<dots> \<longleftrightarrow> fs_consistent (insert (offset + len) E) S"
    using assms(1) by (auto simp: fs_inv_def fs_consistent_def)
  finally show ok: "ok \<longleftrightarrow> fs_consistent (insert (offset + len) E) S" .
  show "fs_inv f' (insert (offset + len) E) S" if ok
  proof -
    have "fs_highest f' = max (fs_highest f) (offset + len)" "fs_known f' = fs_known f"
      "fs_final_size f' = fs_final_size f"
      using r by (auto simp: finalsize_data_def note_highest_def Let_def max_def split: if_splits)
    then show ?thesis using assms(1) ok that by (auto simp: fs_inv_def max_def)
  qed
qed

lemma finalsize_set_step:
  assumes "fs_inv f E S" and r: "finalsize_set f sz = (ok, f')"
  shows "ok \<longleftrightarrow> fs_consistent E (insert sz S)" and "ok \<Longrightarrow> fs_inv f' E (insert sz S)"
proof -
  have "ok \<longleftrightarrow> (if fs_known f then sz = fs_final_size f else fs_highest f \<le> sz)"
    using r by (auto simp: finalsize_set_def size_consistent_def split: if_splits)
  also have "\<dots> \<longleftrightarrow> fs_consistent E (insert sz S)"
    using assms(1) by (auto simp: fs_inv_def fs_consistent_def split: if_splits)
  finally show ok: "ok \<longleftrightarrow> fs_consistent E (insert sz S)" .
  show "fs_inv f' E (insert sz S)" if ok
    using r that assms(1) ok
    by (auto simp: fs_inv_def finalsize_set_def size_consistent_def split: if_splits)
qed

lemma fs_accepts_iff:
  "fs_inv f E S \<Longrightarrow> fs_accepts f xs \<longleftrightarrow> fs_consistent (E \<union> fs_ends xs) (S \<union> fs_sets xs)"
proof (induction xs arbitrary: f E S)
  case Nil
  then show ?case unfolding fs_inv_def by (metis Un_empty_right fs_accepts.simps(1) fs_parts(1,2))
next
  case (Cons x xs)
  have mono: "fs_consistent E' S' \<Longrightarrow> E \<subseteq> E' \<Longrightarrow> S \<subseteq> S' \<Longrightarrow> fs_consistent E S" for E S E' S'
    unfolding fs_consistent_def by blast
  obtain ok f' where r: "fs_apply f x = (ok, f')" by (cases "fs_apply f x")
  show ?case
  proof (cases x)
    case (FsData offset len)
    note step = finalsize_data_step [OF Cons.prems, of offset len ok f']
    have "ok \<Longrightarrow> fs_accepts f' xs \<longleftrightarrow> fs_consistent (insert (offset + len) E \<union> fs_ends xs) (S \<union> fs_sets xs)"
      using step r FsData by (intro Cons.IH) simp
    then show ?thesis
      using step(1) r FsData mono [of "insert (offset + len) E \<union> fs_ends xs" "S \<union> fs_sets xs" "insert (offset + len) E" S]
      by (auto simp: insert_commute)
  next
    case (FsSet sz)
    note step = finalsize_set_step [OF Cons.prems, of sz ok f']
    have "ok \<Longrightarrow> fs_accepts f' xs \<longleftrightarrow> fs_consistent (E \<union> fs_ends xs) (insert sz S \<union> fs_sets xs)"
      using step r FsSet by (intro Cons.IH) simp
    then show ?thesis
      using step(1) r FsSet mono [of "E \<union> fs_ends xs" "insert sz S \<union> fs_sets xs" E "insert sz S"]
      by auto
  qed
qed

lemma fs_inv_init: "fs_inv finalsize_init {} {}"
  by (simp add: fs_inv_def finalsize_init_def fs_consistent_def)

section \<open>Sliding credit\<close>

text \<open>
  The contract shared by the connection credit and the per-stream window: the advertised
  limit stays one window ahead of what was consumed.
\<close>

locale sliding_credit =
  fixes start :: "u64 \<Rightarrow> 'c"
    and consume :: "'c \<Rightarrow> u64 \<Rightarrow> u64 \<times> 'c"
    and consumed :: "'c \<Rightarrow> u64"
    and window :: "'c \<Rightarrow> u64"
    and limit :: "'c \<Rightarrow> u64"
  assumes start: "consumed (start w) = 0" "window (start w) = w" "limit (start w) = w"
    and consume: "consumed (snd (consume c n)) = consumed c + n" "window (snd (consume c n)) = window c"
      "limit (snd (consume c n)) = consumed c + n + window c" "fst (consume c n) = limit (snd (consume c n))"
begin

lemma run_limit:
  assumes "limit c = consumed c + window c"
  shows "limit (fold (\<lambda>n c. snd (consume c n)) ns c) = consumed c + window c + sum_list ns"
  using assms by (induction ns arbitrary: c) (simp_all add: consume algebra_simps)

lemma run_advertises:
  assumes "unat w + sum_list (map unat ns) < 2 ^ 64"
  shows "unat (limit (fold (\<lambda>n c. snd (consume c n)) ns (start w))) = unat w + sum_list (map unat ns)"
proof -
  have "unat (sum_list ns) = sum_list (map unat ns)" if "sum_list (map unat ns) < 2 ^ 64" for ns :: "u64 list"
    using that by (induction ns) (auto simp: unat_add_u64)
  then show ?thesis using assms by (simp add: run_limit start unat_add_u64)
qed

end

interpretation conn_credit: sliding_credit flow_credit_init flow_credit_consume fc_consumed fc_window fc_max_data
  by unfold_locales (simp_all add: flow_credit_init_def flow_credit_consume_def Let_def)

interpretation strm_credit: sliding_credit stream_flow_init stream_flow_consume fl_consumed fl_window fl_max_stream_data
  by unfold_locales (simp_all add: stream_flow_init_def stream_flow_consume_def Let_def)

lemma flowviol_check_iff:
  "flowviol_check data strms = Some EC_FLOW_CONTROL_ERROR \<longleftrightarrow> fu_max data < fu_used data"
  "flowviol_check data strms = Some EC_STREAM_LIMIT_ERROR \<longleftrightarrow> fu_used data \<le> fu_max data \<and> fu_max strms \<le> fu_used strms"
  "flowviol_check data strms = None \<longleftrightarrow> fu_used data \<le> fu_max data \<and> fu_used strms < fu_max strms"
  by (auto simp: flowviol_check_def data_violation_def flow_credit_violation_def flow_credit_init_def
      stream_violation_def stream_credit_open_def stream_credit_init_def EC_FLOW_CONTROL_ERROR_def
      EC_STREAM_LIMIT_ERROR_def)

section \<open>Reassembly\<close>

text \<open>What has been received, as a partial map from stream offsets to bytes.\<close>

definition received :: "reasm \<Rightarrow> nat \<Rightarrow> u8 option" where
  "received r i = (if i < REASM_CAP \<and> ra_have r ! i then Some (ra_buf r ! i) else None)"

definition reasm_ok :: "reasm \<Rightarrow> bool" where
  "reasm_ok r \<longleftrightarrow> length (ra_buf r) = REASM_CAP \<and> length (ra_have r) = REASM_CAP
     \<and> unat (ra_delivered r) \<le> REASM_CAP \<and> (\<forall>i < unat (ra_delivered r). ra_have r ! i)"

lemma reasm_init_ok:
  "length (ra_buf r) = REASM_CAP \<Longrightarrow> reasm_ok (reasm_init r)" "received (reasm_init r) = (\<lambda>_. None)"
  by (auto simp: reasm_ok_def reasm_init_def received_def)

lemma reasm_store_eq:
  "unat at + length bs \<le> REASM_CAP \<Longrightarrow>
   reasm_store r at bs = Some (r\<lparr>ra_buf := write_at (ra_buf r) (unat at) bs,
     ra_have := write_at (ra_have r) (unat at) (replicate (length bs) True)\<rparr>)"
proof (induction bs arbitrary: r at)
  case (Cons b bs)
  have "unat (at + 1) = Suc (unat at)"
    using Cons.prems by (subst unat_add_u64) (simp_all add: REASM_CAP_def)
  then show ?case using Cons by simp
qed simp

lemma insert_fits_iff:
  assumes "unat offset + n < 2 ^ 64"
  shows "insert_fits r offset n \<longleftrightarrow> unat offset + n \<le> REASM_CAP
    \<and> (ra_have_final r \<longrightarrow> unat offset + n \<le> unat (ra_final_size r))"
proof -
  have "unat (of_nat n :: u64) = n" using assms by (intro unat_of_nat_u64) simp
  then have "unat (offset + of_nat n) = unat offset + n" using assms by (simp add: unat_add_u64)
  then show ?thesis
    unfolding insert_fits_def by (auto simp: u64_less_mono u64_le_mono REASM_CAP_def)
qed

lemma reasm_insert_result:
  assumes ok: "reasm_ok r" and small: "unat offset + length data < 2 ^ 64"
  shows "\<exists>r'. reasm_insert r offset data = Some (insert_fits r offset (length data), r') \<and> reasm_ok r'
    \<and> ra_delivered r' = ra_delivered r \<and> ra_have_final r' = ra_have_final r \<and> ra_final_size r' = ra_final_size r
    \<and> received r' = (\<lambda>i. if insert_fits r offset (length data) \<and> unat offset \<le> i \<and> i < unat offset + length data
         then Some (data ! (i - unat offset)) else received r i)"
proof (cases "insert_fits r offset (length data)")
  case False
  then show ?thesis using ok by (simp add: reasm_insert_def)
next
  case True
  then have fit: "unat offset + length data \<le> REASM_CAP" using insert_fits_iff [OF small] by blast
  let ?r = "r\<lparr>ra_buf := write_at (ra_buf r) (unat offset) data,
     ra_have := write_at (ra_have r) (unat offset) (replicate (length data) True)\<rparr>"
  have len: "length (ra_buf r) = REASM_CAP" "length (ra_have r) = REASM_CAP" using ok by (simp_all add: reasm_ok_def)
  have "reasm_insert r offset data = Some (True, ?r)"
    using True fit by (simp add: reasm_insert_def reasm_store_eq)
  moreover have "reasm_ok ?r" using ok fit by (auto simp: reasm_ok_def nth_write_at)
  moreover have "received ?r = (\<lambda>i. if unat offset \<le> i \<and> i < unat offset + length data
         then Some (data ! (i - unat offset)) else received r i)"
    using fit len by (auto simp: received_def nth_write_at fun_eq_iff)
  ultimately show ?thesis using True by auto
qed

text \<open>
  The range test adds offset and length in 64 bits. Past the varint range the sum can wrap
  below the capacity, and the store then leaves the buffer.
\<close>

lemma reasm_insert_wraps:
  "\<not> ra_have_final r \<Longrightarrow> reasm_insert r 0xFFFFFFFFFFFFFFFF [a, b] = None"
  by (simp add: reasm_insert_def insert_fits_def REASM_CAP_def)

lemma deliver_loop_spec:
  "unat d \<le> REASM_CAP \<Longrightarrow>
   unat d \<le> unat (deliver_loop hv d) \<and> unat (deliver_loop hv d) \<le> REASM_CAP
   \<and> (\<forall>i. unat d \<le> i \<and> i < unat (deliver_loop hv d) \<longrightarrow> hv ! i)
   \<and> (unat (deliver_loop hv d) < REASM_CAP \<longrightarrow> \<not> hv ! unat (deliver_loop hv d))"
proof (induction hv d rule: deliver_loop.induct)
  case (1 hv d)
  show ?case
  proof (cases "d < of_nat REASM_CAP \<and> hv ! unat d")
    case True
    then have "unat d < REASM_CAP" by (simp add: u64_less_mono REASM_CAP_def)
    moreover from this have n: "unat (d + 1) = unat d + 1"
      by (subst unat_add_u64) (simp_all add: REASM_CAP_def)
    ultimately have IH: "unat d + 1 \<le> unat (deliver_loop hv (d + 1))"
        "unat (deliver_loop hv (d + 1)) \<le> REASM_CAP"
        "\<forall>i. unat d + 1 \<le> i \<and> i < unat (deliver_loop hv (d + 1)) \<longrightarrow> hv ! i"
        "unat (deliver_loop hv (d + 1)) < REASM_CAP \<longrightarrow> \<not> hv ! unat (deliver_loop hv (d + 1))"
      using 1 True by simp_all
    have e: "deliver_loop hv d = deliver_loop hv (d + 1)" using True by (simp add: deliver_loop.simps [of _ d])
    have "hv ! i" if "unat d \<le> i" "i < unat (deliver_loop hv (d + 1))" for i
      using IH(3) that True by (cases "i = unat d") auto
    then show ?thesis using IH unfolding e by simp
  next
    case False
    then have e: "deliver_loop hv d = d" by (subst deliver_loop.simps) auto
    show ?thesis using False 1(2) unfolding e by (auto simp: u64_less_mono REASM_CAP_def)
  qed
qed

lemma reasm_deliver_result:
  assumes "reasm_ok r" and "reasm_deliver r = (d, r')"
  shows "reasm_ok r'" "ra_delivered r' = d" "received r' = received r" "ra_buf r' = ra_buf r"
    "ra_have_final r' = ra_have_final r"
    and "unat (ra_delivered r) \<le> unat d" "\<forall>i < unat d. received r i \<noteq> None" "received r (unat d) = None"
    "\<forall>i < unat d. received r i = Some (ra_buf r ! i)"
proof -
  have r: "d = deliver_loop (ra_have r) (ra_delivered r)" "r' = r\<lparr>ra_delivered := d\<rparr>"
    using assms(2) by (auto simp: reasm_deliver_def Let_def)
  note spec = deliver_loop_spec [of "ra_delivered r" "ra_have r", folded r(1)]
  have le: "unat (ra_delivered r) \<le> REASM_CAP" using assms(1) by (simp add: reasm_ok_def)
  have all: "ra_have r ! i" if "i < unat d" for i
    using spec [OF le] that assms(1) by (cases "i < unat (ra_delivered r)") (auto simp: reasm_ok_def)
  show "reasm_ok r'" "ra_delivered r' = d" "received r' = received r" "ra_buf r' = ra_buf r"
    "ra_have_final r' = ra_have_final r"
    using assms(1) spec [OF le] all by (auto simp: r(2) reasm_ok_def received_def fun_eq_iff)
  show "unat (ra_delivered r) \<le> unat d" using spec [OF le] by blast
  show "\<forall>i < unat d. received r i \<noteq> None" "\<forall>i < unat d. received r i = Some (ra_buf r ! i)"
    "received r (unat d) = None"
    using all spec [OF le] by (auto simp: received_def)
qed

section \<open>Ordered delivery\<close>

datatype rd_op = Push u64 bytes | Pull nat

text \<open>A history of pushes and pulls: the concatenation of what the pulls returned.\<close>

fun reader_run :: "('s \<Rightarrow> u64 \<Rightarrow> bytes \<Rightarrow> (bool \<times> 's) option) \<Rightarrow> ('s \<Rightarrow> nat \<Rightarrow> bytes \<times> 's)
    \<Rightarrow> rd_op list \<Rightarrow> 's \<Rightarrow> (bytes \<times> 's) option" where
  "reader_run push pull [] s = Some ([], s)"
| "reader_run push pull (Push off d # ops) s = do {
     (ok, s) \<leftarrow> push s off d;
     reader_run push pull ops s
   }"
| "reader_run push pull (Pull cap # ops) s =
     (let (out, s) = pull s cap
      in map_option (\<lambda>(out', s). (out @ out', s)) (reader_run push pull ops s))"

text \<open>Pushed data belongs to the byte stream \<open>w\<close> at a legal stream offset.\<close>

fun op_of :: "(nat \<Rightarrow> u8) \<Rightarrow> rd_op \<Rightarrow> bool" where
  "op_of w (Push off d) \<longleftrightarrow> unat off + length d < 2 ^ 62 \<and> (\<forall>i < length d. d ! i = w (unat off + i))"
| "op_of w (Pull cap) \<longleftrightarrow> True"

definition op_covers :: "rd_op \<Rightarrow> nat \<Rightarrow> bool" where
  "op_covers x i \<longleftrightarrow> (\<exists>off d. x = Push off d \<and> unat off \<le> i \<and> i < unat off + length d \<and> unat off + length d \<le> REASM_CAP)"

text \<open>
  The interface of a reader over a reassembly buffer: \<open>rcv\<close> is what it holds and \<open>pos\<close> how
  far it has been read.
\<close>

locale ordered_reader =
  fixes push :: "'s \<Rightarrow> u64 \<Rightarrow> bytes \<Rightarrow> (bool \<times> 's) option"
    and pull :: "'s \<Rightarrow> nat \<Rightarrow> bytes \<times> 's"
    and rcv :: "'s \<Rightarrow> nat \<Rightarrow> u8 option"
    and pos :: "'s \<Rightarrow> nat"
    and inv :: "'s \<Rightarrow> bool"
  assumes push_law: "inv s \<Longrightarrow> unat off + length d < 2 ^ 62 \<Longrightarrow>
      \<exists>ok s'. push s off d = Some (ok, s') \<and> inv s' \<and> pos s' = pos s \<and> (ok \<longleftrightarrow> unat off + length d \<le> REASM_CAP)
        \<and> rcv s' = (\<lambda>i. if ok \<and> unat off \<le> i \<and> i < unat off + length d then Some (d ! (i - unat off)) else rcv s i)"
    and pull_law: "inv s \<Longrightarrow> pull s cap = (out, s') \<Longrightarrow>
      inv s' \<and> rcv s' = rcv s \<and> pos s' = pos s + length out \<and> length out \<le> cap
        \<and> (\<forall>i < length out. rcv s (pos s + i) = Some (out ! i))"
    and pull_all: "inv s \<Longrightarrow> \<forall>i < n. rcv s i \<noteq> None \<Longrightarrow> n \<le> pos (snd (pull s REASM_CAP))"
begin

lemma run_faithful:
  assumes "list_all (op_of w) ops" and "inv s" and "\<forall>i b. rcv s i = Some b \<longrightarrow> b = w i"
  shows "\<exists>out s'. reader_run push pull ops s = Some (out, s') \<and> inv s' \<and> (\<forall>i b. rcv s' i = Some b \<longrightarrow> b = w i)
    \<and> pos s \<le> pos s' \<and> out = map w [pos s..<pos s']
    \<and> (\<forall>i. rcv s i \<noteq> None \<or> (\<exists>x \<in> set ops. op_covers x i) \<longrightarrow> rcv s' i \<noteq> None)"
  using assms
proof (induction ops arbitrary: s)
  case (Cons x ops)
  show ?case
  proof (cases x)
    case (Push off d)
    then have small: "unat off + length d < 2 ^ 62" and data: "\<forall>i < length d. d ! i = w (unat off + i)"
      using Cons.prems(1) by simp_all
    obtain ok s1 where p: "push s off d = Some (ok, s1)" "inv s1" "pos s1 = pos s"
      and ok: "ok \<longleftrightarrow> unat off + length d \<le> REASM_CAP"
      and rcv: "rcv s1 = (\<lambda>i. if ok \<and> unat off \<le> i \<and> i < unat off + length d then Some (d ! (i - unat off)) else rcv s i)"
      using push_law [OF Cons.prems(2) small] by blast
    have agree: "\<forall>i b. rcv s1 i = Some b \<longrightarrow> b = w i"
    proof (intro allI impI)
      fix i b assume "rcv s1 i = Some b"
      then show "b = w i" using data [rule_format, of "i - unat off"] Cons.prems(3) unfolding rcv by (auto split: if_splits)
    qed
    have keep: "rcv s i \<noteq> None \<or> op_covers x i \<Longrightarrow> rcv s1 i \<noteq> None" for i
      using Push ok by (auto simp: rcv op_covers_def)
    from Cons.IH [OF _ p(2) agree] Cons.prems(1) obtain out s' where
      "reader_run push pull ops s1 = Some (out, s')" "inv s'" "\<forall>i b. rcv s' i = Some b \<longrightarrow> b = w i"
      "pos s1 \<le> pos s'" "out = map w [pos s1..<pos s']"
      "\<forall>i. rcv s1 i \<noteq> None \<or> (\<exists>x \<in> set ops. op_covers x i) \<longrightarrow> rcv s' i \<noteq> None"
      by auto
    then show ?thesis using Push p keep by fastforce
  next
    case (Pull cap)
    obtain o1 s1 where p: "pull s cap = (o1, s1)" by (cases "pull s cap")
    note l = pull_law [OF Cons.prems(2) p]
    have o1: "o1 = map w [pos s..<pos s1]"
    proof (rule nth_equalityI)
      fix i assume "i < length o1"
      then have "rcv s (pos s + i) = Some (o1 ! i)" using l by blast
      with Cons.prems(3) have "o1 ! i = w (pos s + i)" by blast
      with \<open>i < length o1\<close> l show "o1 ! i = map w [pos s..<pos s1] ! i" by simp
    qed (use l in simp)
    from Cons.IH [of s1] Cons.prems l obtain out s' where r:
      "reader_run push pull ops s1 = Some (out, s')" "inv s'" "\<forall>i b. rcv s' i = Some b \<longrightarrow> b = w i"
      "pos s1 \<le> pos s'" "out = map w [pos s1..<pos s']"
      "\<forall>i. rcv s1 i \<noteq> None \<or> (\<exists>x \<in> set ops. op_covers x i) \<longrightarrow> rcv s' i \<noteq> None"
      by auto
    have le: "pos s \<le> pos s1" using l by simp
    have "[pos s..<pos s'] = [pos s..<pos s1] @ [pos s1..<pos s']"
      using upt_add_eq_append [OF le, of "pos s' - pos s1"] r(4) by simp
    then have "o1 @ out = map w [pos s..<pos s']" using o1 r(5) by simp
    moreover have "reader_run push pull (x # ops) s = Some (o1 @ out, s')"
      using Pull p r(1) by simp
    moreover have "\<not> op_covers x i" for i using Pull by (simp add: op_covers_def)
    ultimately show ?thesis using r le l by (intro exI [of _ "o1 @ out"] exI [of _ s']) auto
  qed
qed simp

lemma run_delivers:
  assumes "list_all (op_of w) ops" and "inv s" and "rcv s = (\<lambda>_. None)" and "pos s = 0"
    and "\<forall>i < n. \<exists>x \<in> set ops. op_covers x i"
  shows "\<exists>m s'. n \<le> m \<and> reader_run push pull (ops @ [Pull REASM_CAP]) s = Some (map w [0..<m], s')"
proof -
  have split: "reader_run push pull (xs @ ys) s = do {
      (o1, s1) \<leftarrow> reader_run push pull xs s; (o2, s2) \<leftarrow> reader_run push pull ys s1; Some (o1 @ o2, s2)}" for xs ys s
    by (induction push pull xs s rule: reader_run.induct)
      (auto simp: Let_def bind_map_option split: option.split prod.split Option.bind_split)
  obtain out s1 where r: "reader_run push pull ops s = Some (out, s1)" "inv s1"
    "\<forall>i b. rcv s1 i = Some b \<longrightarrow> b = w i" "out = map w [0..<pos s1]" "\<forall>i < n. rcv s1 i \<noteq> None"
    using run_faithful [OF assms(1,2)] assms(3-5) by auto
  obtain out' s2 where p: "pull s1 REASM_CAP = (out', s2)" by (cases "pull s1 REASM_CAP")
  have run1: "reader_run push pull [Pull REASM_CAP] s1 = Some (out', s2)" using p by simp
  have "n \<le> pos s2" using pull_all [OF r(2,5)] p by simp
  moreover from run_faithful [of w "[Pull REASM_CAP]", OF _ r(2,3)] run1
  have "out' = map w [pos s1..<pos s2]" "pos s1 \<le> pos s2" by auto
  moreover have "reader_run push pull (ops @ [Pull REASM_CAP]) s = Some (out @ out', s2)"
    unfolding split r(1) using run1 by simp
  ultimately show ?thesis
    using r(4) upt_add_eq_append [of 0 "pos s1" "pos s2 - pos s1"] by (intro exI [of _ "pos s2"] exI [of _ s2]) simp
qed

end

definition reader_ok :: "reasm \<Rightarrow> u64 \<Rightarrow> bool" where
  "reader_ok r off \<longleftrightarrow> reasm_ok r \<and> \<not> ra_have_final r \<and> unat off \<le> unat (ra_delivered r)"

lemma reader_push:
  assumes "reader_ok r p" and "unat off + length d < 2 ^ 62"
  shows "\<exists>ok r'. reasm_insert r off d = Some (ok, r') \<and> reader_ok r' p \<and> (ok \<longleftrightarrow> unat off + length d \<le> REASM_CAP)
    \<and> received r' = (\<lambda>i. if ok \<and> unat off \<le> i \<and> i < unat off + length d then Some (d ! (i - unat off)) else received r i)"
proof -
  have s: "unat off + length d < 2 ^ 64" using assms(2) by simp
  then have "insert_fits r off (length d) \<longleftrightarrow> unat off + length d \<le> REASM_CAP"
    using assms(1) insert_fits_iff [OF s] by (simp add: reader_ok_def)
  then show ?thesis
    using reasm_insert_result [OF _ s, of r] assms(1) by (auto simp: reader_ok_def)
qed

text \<open>Reading \<open>n\<close> bytes at the read position, \<open>n\<close> at most what is available.\<close>

lemma reader_deliver:
  assumes ok: "reader_ok r p" and del: "reasm_deliver r = (d, r')" and n: "n \<le> unat (d - p)"
  shows "reader_ok r' (p + of_nat n)" and "received r' = received r" and "unat (p + of_nat n) = unat p + n"
    and "\<forall>i < n. received r (unat p + i) = Some (ra_buf r' ! unat (p + of_nat i))"
    and "unat (d - p) = unat d - unat p" and "\<forall>i < k. received r i \<noteq> None \<Longrightarrow> k \<le> unat d"
proof -
  have r: "reasm_ok r" "\<not> ra_have_final r" "unat p \<le> unat (ra_delivered r)" using ok by (simp_all add: reader_ok_def)
  note D = reasm_deliver_result [OF r(1) del]
  have pd: "unat p \<le> unat d" using r(3) D(6) by simp
  then show sub: "unat (d - p) = unat d - unat p" by (intro unat_sub_u64) (simp add: u64_le_mono)
  have pi: "unat (p + of_nat i) = unat p + i" if "i \<le> n" for i
  proof -
    have i: "unat p + i < 18446744073709551616" using that n sub pd unat_lt_u64 [of d] by linarith
    then have "unat (of_nat i :: u64) = i" by (intro unat_of_nat_u64) simp
    then show ?thesis using i by (simp add: unat_add_u64)
  qed
  then show "unat (p + of_nat n) = unat p + n" by simp
  then show "reader_ok r' (p + of_nat n)" using r D n sub pd by (simp add: reader_ok_def)
  show "received r' = received r" by (fact D(3))
  show "\<forall>i < n. received r (unat p + i) = Some (ra_buf r' ! unat (p + of_nat i))"
    using D(4,9) pi n sub pd by simp
  show "k \<le> unat d" if "\<forall>i < k. received r i \<noteq> None" using that D(8) by (meson not_le)
qed

interpretation sread: ordered_reader stream_read_push stream_read_pull "\<lambda>s. received (sr_r s)"
  "\<lambda>s. unat (sr_read_off s)" "\<lambda>s. reader_ok (sr_r s) (sr_read_off s)"
proof (unfold_locales, goal_cases)
  case (1 s off d)
  then show ?case using reader_push [of "sr_r s" "sr_read_off s" off d] by (auto simp: stream_read_push_def)
next
  case (2 s cap out s')
  obtain d r' where del: "reasm_deliver (sr_r s) = (d, r')" by (cases "reasm_deliver (sr_r s)")
  let ?n = "if unat (d - sr_read_off s) < cap then unat (d - sr_read_off s) else cap"
  have "?n \<le> unat (d - sr_read_off s)" by simp
  note R = reader_deliver [OF 2(1) del this]
  have "out = map (\<lambda>i. ra_buf r' ! unat (sr_read_off s + of_nat i)) [0..<?n]"
    "s' = s\<lparr>sr_r := r', sr_read_off := sr_read_off s + of_nat ?n\<rparr>"
    using 2(2) del by (simp_all add: stream_read_pull_def readable_def Let_def)
  then show ?case using R(1-4) by simp
next
  case (3 s n)
  obtain d r' where del: "reasm_deliver (sr_r s) = (d, r')" by (cases "reasm_deliver (sr_r s)")
  have ok: "reasm_ok (sr_r s)" using 3(1) by (simp add: reader_ok_def)
  note R = reader_deliver [OF 3(1) del order.refl]
  have "unat d \<le> REASM_CAP" using reasm_deliver_result(1,2) [OF ok del] by (auto simp: reasm_ok_def)
  then have cap: "unat (d - sr_read_off s) \<le> REASM_CAP" using R(5) by simp
  then have "(if unat (d - sr_read_off s) < REASM_CAP then unat (d - sr_read_off s) else REASM_CAP)
      = unat (d - sr_read_off s)" by simp
  then have "sr_read_off (snd (stream_read_pull s REASM_CAP)) = d"
    using del by (simp add: stream_read_pull_def readable_def Let_def)
  then show ?case using R(6) [OF 3(2)] by simp
qed

definition crypto_pull :: "crypto_rx \<Rightarrow> nat \<Rightarrow> bytes \<times> crypto_rx" where
  "crypto_pull r cap = (case crypto_stream_read r cap of (out, r') \<Rightarrow> (case out of None \<Rightarrow> [] | Some b \<Rightarrow> b, r'))"

interpretation cread: ordered_reader crypto_stream_recv crypto_pull "\<lambda>r. received (cx_reasm r)"
  "\<lambda>r. unat (cx_read_upto r)" "\<lambda>r. reader_ok (cx_reasm r) (cx_read_upto r)"
proof (unfold_locales, goal_cases)
  case (1 s off d)
  then show ?case using reader_push [of "cx_reasm s" "cx_read_upto s" off d] by (auto simp: crypto_stream_recv_def)
next
  case (2 s cap out s')
  obtain d r' where del: "reasm_deliver (cx_reasm s) = (d, r')" by (cases "reasm_deliver (cx_reasm s)")
  let ?n = "if unat (d - cx_read_upto s) > cap then 0 else unat (d - cx_read_upto s)"
  have "?n \<le> unat (d - cx_read_upto s)" by simp
  note R = reader_deliver [OF 2(1) del this]
  have "out = map (\<lambda>i. ra_buf r' ! unat (cx_read_upto s + of_nat i)) [0..<?n]"
    "s' = s\<lparr>cx_reasm := r', cx_read_upto := cx_read_upto s + of_nat ?n\<rparr>"
    using 2(2) del by (auto simp: crypto_pull_def crypto_stream_read_def Let_def split: if_splits)
  then show ?case using R(1-4) by simp
next
  case (3 s n)
  obtain d r' where del: "reasm_deliver (cx_reasm s) = (d, r')" by (cases "reasm_deliver (cx_reasm s)")
  have ok: "reasm_ok (cx_reasm s)" using 3(1) by (simp add: reader_ok_def)
  note R = reader_deliver [OF 3(1) del order.refl]
  have "unat d \<le> REASM_CAP" using reasm_deliver_result(1,2) [OF ok del] by (auto simp: reasm_ok_def)
  then have cap: "unat (d - cx_read_upto s) \<le> REASM_CAP" using R(5) by simp
  then have "cx_read_upto (snd (crypto_pull s REASM_CAP)) = d"
    using del by (simp add: crypto_pull_def crypto_stream_read_def Let_def)
  then show ?case using R(6) [OF 3(2)] by simp
qed

lemma reader_ok_init: "length (ra_buf r) = REASM_CAP \<Longrightarrow> reader_ok (reasm_init r) 0"
  using reasm_init_ok(1) [of r] by (simp add: reader_ok_def reasm_init_def)

section \<open>Properties\<close>

text \<open>
  C17. Ordered delivery. Whatever the order, overlap and duplication in which pieces of a byte
  stream \<open>w\<close> are pushed, and however pulls are interleaved, no store leaves the buffer and the
  pulled bytes concatenate to an initial segment of \<open>w\<close>. Once the accepted pieces cover the
  first \<open>n\<close> offsets, one more pull has delivered at least those.
\<close>

theorem stream_read_ordered:
  assumes "length (ra_buf (sr_r s0)) = 4096" and "list_all (op_of w) ops"
  shows "(\<exists>m s'. reader_run stream_read_push stream_read_pull ops (stream_read_init s0) = Some (map w [0..<m], s'))
    \<and> ((\<forall>i < n. \<exists>x \<in> set ops. op_covers x i) \<longrightarrow>
        (\<exists>m s'. n \<le> m \<and> reader_run stream_read_push stream_read_pull (ops @ [Pull REASM_CAP]) (stream_read_init s0)
           = Some (map w [0..<m], s')))"
proof -
  let ?s = "stream_read_init s0"
  have i: "reader_ok (sr_r ?s) (sr_read_off ?s)" "(\<lambda>s. received (sr_r s)) ?s = (\<lambda>_. None)"
    "(\<lambda>s. unat (sr_read_off s)) ?s = 0"
    using reader_ok_init [of "sr_r s0"] reasm_init_ok(2) [of "sr_r s0"] assms(1)
    by (simp_all add: stream_read_init_def REASM_CAP_def)
  show ?thesis
    using sread.run_faithful [OF assms(2) i(1)] sread.run_delivers [OF assms(2) i, of n] i by auto
qed

definition reasm_blank :: reasm where
  "reasm_blank = \<lparr>ra_buf = replicate 4096 0, ra_have = [], ra_delivered = 0, ra_final_size = 0, ra_have_final = False\<rparr>"

theorem stream_read_ordered_witness:
  "\<exists>m s'. 3 \<le> m \<and> reader_run stream_read_push stream_read_pull ([Push 2 [2, 3], Pull 1, Push 0 [0, 1, 2]] @ [Pull REASM_CAP])
     (stream_read_init \<lparr>sr_r = reasm_blank, sr_read_off = 7\<rparr>) = Some (map of_nat [0..<m], s')"
proof -
  let ?ops = "[Push 2 [2, 3], Pull 1, Push 0 [0, 1, 2]]"
  have w: "list_all (op_of of_nat) ?ops" by (auto simp: less_Suc_eq)
  have c: "\<forall>i < 3. \<exists>x \<in> set ?ops. op_covers x i"
    by (auto simp: op_covers_def REASM_CAP_def)
  have l: "length (ra_buf (sr_r \<lparr>sr_r = reasm_blank, sr_read_off = 7\<rparr>)) = 4096" by (simp add: reasm_blank_def)
  from stream_read_ordered [OF l w, of 3] c show ?thesis by blast
qed

text \<open>
  The CRYPTO stream of a packet number space gives the TLS layer the same guarantee through
  \<open>crypto_stream_recv\<close> and \<open>crypto_stream_read\<close>, where a read that does not fit returns nothing.
\<close>

theorem crypto_stream_ordered:
  assumes "length (ra_buf (cx_reasm s0)) = 4096" and "list_all (op_of w) ops"
  shows "(\<exists>m s'. reader_run crypto_stream_recv crypto_pull ops (crypto_stream_rx_init s0) = Some (map w [0..<m], s'))
    \<and> ((\<forall>i < n. \<exists>x \<in> set ops. op_covers x i) \<longrightarrow>
        (\<exists>m s'. n \<le> m \<and> reader_run crypto_stream_recv crypto_pull (ops @ [Pull REASM_CAP]) (crypto_stream_rx_init s0)
           = Some (map w [0..<m], s')))"
proof -
  let ?s = "crypto_stream_rx_init s0"
  have i: "reader_ok (cx_reasm ?s) (cx_read_upto ?s)" "(\<lambda>s. received (cx_reasm s)) ?s = (\<lambda>_. None)"
    "(\<lambda>s. unat (cx_read_upto s)) ?s = 0"
    using reader_ok_init [of "cx_reasm s0"] reasm_init_ok(2) [of "cx_reasm s0"] assms(1)
    by (simp_all add: crypto_stream_rx_init_def REASM_CAP_def)
  show ?thesis
    using cread.run_faithful [OF assms(2) i(1)] cread.run_delivers [OF assms(2) i, of n] i by auto
qed

theorem crypto_stream_ordered_witness:
  "\<exists>m s'. 2 \<le> m \<and> reader_run crypto_stream_recv crypto_pull ([Push 1 [1], Push 0 [0]] @ [Pull REASM_CAP])
     (crypto_stream_rx_init \<lparr>cx_reasm = reasm_blank, cx_read_upto = 1\<rparr>) = Some (map of_nat [0..<m], s')"
proof -
  let ?ops = "[Push 1 [1], Push 0 [0]]"
  have w: "list_all (op_of of_nat) ?ops" by simp
  have c: "\<forall>i < 2. \<exists>x \<in> set ?ops. op_covers x i"
    by (auto simp: op_covers_def REASM_CAP_def)
  have l: "length (ra_buf (cx_reasm \<lparr>cx_reasm = reasm_blank, cx_read_upto = 1\<rparr>)) = 4096" by (simp add: reasm_blank_def)
  from crypto_stream_ordered [OF l w, of 2] c show ?thesis by blast
qed

text \<open>
  C34. The final size of a stream does not depend on arrival order: a history of data ranges and
  final-size reports is accepted throughout exactly when all reported sizes are equal and no
  range ends beyond them.
\<close>

theorem finalsize_exact:
  assumes "\<forall>offset len. FsData offset len \<in> set xs \<longrightarrow> unat offset + unat len < 2 ^ 64"
  shows "fs_accepts finalsize_init xs \<longleftrightarrow>
    (\<forall>a b. FsSet a \<in> set xs \<and> FsSet b \<in> set xs \<longrightarrow> a = b)
    \<and> (\<forall>a offset len. FsSet a \<in> set xs \<and> FsData offset len \<in> set xs \<longrightarrow> unat offset + unat len \<le> unat a)"
proof -
  have "unat (offset + len) = unat offset + unat len" if "FsData offset len \<in> set xs" for offset len
    using assms that by (intro unat_add_u64) blast
  then show ?thesis
    using fs_accepts_iff [OF fs_inv_init, of xs]
    by (auto simp: fs_consistent_def fs_ends_def fs_sets_def u64_le_mono) metis+
qed

theorem finalsize_exact_witness:
  "fs_accepts finalsize_init [FsData 4 6, FsSet 10, FsData 0 4] \<and> \<not> fs_accepts finalsize_init [FsData 4 6, FsSet 9]"
proof -
  have a: "\<forall>offset len. FsData offset len \<in> set [FsData 4 6, FsSet 10, FsData 0 4] \<longrightarrow> unat offset + unat len < 2 ^ 64"
    and b: "\<forall>offset len. FsData offset len \<in> set [FsData 4 6, FsSet 9] \<longrightarrow> unat offset + unat len < 2 ^ 64"
    by auto
  show ?thesis unfolding finalsize_exact [OF a] finalsize_exact [OF b] by auto
qed

text \<open>
  Stream identifiers: the four types and the sequence number are recovered from the
  identifier built for them, every identifier arises that way, and the highest identifier
  allowed by a stream limit admits exactly the identifiers of its type with a smaller index.
\<close>

theorem stream_id_exact:
  "stream_id (\<not> stream_is_client_initiated sid) (stream_is_uni sid) (drop_bit 2 sid) = sid
   \<and> (i < 2 ^ 62 \<longrightarrow> stream_is_client_initiated (stream_id s u i) = (\<not> s) \<and> stream_is_uni (stream_id s u i) = u
        \<and> drop_bit 2 (stream_id s u i) = i)
   \<and> (stream_max_id k n = None \<longleftrightarrow> n = 0 \<or> 2 ^ 60 < unat n)
   \<and> (stream_max_id k n = Some m \<longrightarrow> stream_is_client_initiated sid = (\<not> sk_is_server k) \<longrightarrow> stream_is_uni sid = sk_is_uni k
        \<longrightarrow> (sid \<le> m \<longleftrightarrow> drop_bit 2 sid < n))"
  using stream_id_rebuild [of sid] stream_id_split [of i s u] stream_max_id_covers [of k n m sid]
    unat_MAX_STREAMS_LIMIT
  by (auto simp: word_less_nat_alt word_le_nat_alt stream_max_id_def stream_max_streams_ok_def)

theorem stream_id_exact_witness:
  "drop_bit 2 (stream_id True False 5) = 5
   \<and> ((9 :: u64) \<le> stream_id True False 2 \<longleftrightarrow> drop_bit 2 (9 :: u64) < 3)"
proof -
  have m: "stream_max_id \<lparr>sk_is_server = True, sk_is_uni = False\<rparr> 3 = Some (stream_id True False 2)"
    by (simp add: stream_max_id_def stream_max_streams_ok_def MAX_STREAMS_LIMIT_def)
  have "\<not> stream_is_client_initiated 9" "\<not> stream_is_uni 9" by (simp_all add: stream_bits)
  then show ?thesis
    using stream_id_exact [of 9 5 True False "\<lparr>sk_is_server = True, sk_is_uni = False\<rparr>" 3 "stream_id True False 2"] m
    by simp
qed

text \<open>
  Data flows one way on a unidirectional stream: what one role may send the other may
  receive, both may do both on a bidirectional stream, and on a unidirectional one exactly the
  initiator sends and exactly its peer receives. A frame that needs the peer to send or receive
  passes \<open>streamstate_ok\<close> only if the peer may, and a stream of our own only once it was opened.
\<close>

theorem stream_roles:
  "stream_can_send c sid = stream_can_receive (\<not> c) sid
   \<and> (stream_is_uni sid \<longrightarrow> stream_can_send c sid = (c = stream_is_client_initiated sid)
        \<and> stream_can_receive c sid = (c \<noteq> stream_is_client_initiated sid))
   \<and> (\<not> stream_is_uni sid \<longrightarrow> stream_can_send c sid \<and> stream_can_receive c sid)
   \<and> (streamstate_ok srv sid needs_send ls \<longleftrightarrow>
        (if needs_send then stream_can_send srv sid else stream_can_receive srv sid)
        \<and> (srv \<noteq> stream_is_client_initiated sid \<longrightarrow> unat sid div 4 < unat (sm_opened ls)))"
  by (auto simp: stream_can_send_def stream_can_receive_def am_initiator_def streamstate_ok_def direction_ok_def
      creation_ok_def locally_initiated_def word_less_nat_alt unat_drop_bit_2 Let_def)

theorem stream_roles_witness:
  "stream_can_send True 2 \<and> \<not> stream_can_send False 2 \<and> \<not> streamstate_ok True 1 True (streams_init 4)"
  using stream_roles [of True 2] stream_roles [of False 2] stream_roles [of True 1 True True "streams_init 4"]
  by (simp add: stream_bits streams_init_def)

text \<open>
  Limits only grow and are enforced exactly. Repeated opens succeed until the granted count
  is used up and then fail; a grant and a MAX\_STREAMS value raise the limit to their maximum
  with the old one; a sequence of consumed amounts moves the advertised connection and stream
  limits to the initial window plus their sum, while that sum is below 2^64.
\<close>

theorem limits_exact:
  assumes "unat w + sum_list (map unat ns) < 2 ^ 64"
  shows "fst (open_many k (stream_credit_init mx)) = map (\<lambda>i. i < unat mx) [0..<k]
    \<and> sc_max_streams (stream_credit_grant sc g) = max (sc_max_streams sc) g
    \<and> sm_limit (snd (streams_set_max sm g)) = max (sm_limit sm) g
    \<and> unat (fc_max_data (fold (\<lambda>n c. snd (flow_credit_consume c n)) ns (flow_credit_init w))) = unat w + sum_list (map unat ns)
    \<and> unat (fl_max_stream_data (fold (\<lambda>n c. snd (stream_flow_consume c n)) ns (stream_flow_init w)))
        = unat w + sum_list (map unat ns)"
  using open_many_count [of "stream_credit_init mx" k] conn_credit.run_advertises [OF assms]
    strm_credit.run_advertises [OF assms] streams_limit_monotone(1) [of sm g]
  by (auto simp add: stream_credit_init_def stream_credit_grant_def max_def)

theorem limits_exact_witness:
  "fst (open_many 3 (stream_credit_init 2)) = [True, True, False]
   \<and> unat (fc_max_data (fold (\<lambda>n c. snd (flow_credit_consume c n)) [5, 7] (flow_credit_init 100))) = 112"
  using limits_exact [of 100 "[5, 7]" 3 2 "stream_credit_init 1" 1 "streams_init 1"]
  by (simp add: upt_conv_Cons)

end
