(* ===== verification/Ack_Gen.thy ===== *)
theory Ack_Gen
  imports Packet_Number Frame_Ack
begin

unbundle bit_operations_syntax

text \<open>
  Producing acknowledgments: when to send one (\<^verbatim>\<open>ackgen.c\<close>, \<^verbatim>\<open>ackfreq.c\<close>, \<^verbatim>\<open>ackpolicy.c\<close>), the range
  builder \<^verbatim>\<open>src/transport/recovery/detect/ackgen/ackrange.c\<close> with its conversion to an ACK frame, the
  per-space receive state of \<^verbatim>\<open>src/transport/conn/pnspace/pnspaces\<close>, and the server's ACK encoder in
  \<^verbatim>\<open>src/app/http3/server/srvloop/respond_app.c\<close>. The main result is that the ranges built from
  an ascending list of packet numbers denote exactly that set.
\<close>

section \<open>ackgen.c, ackfreq.c, ackpolicy.c, ackdelay.c\<close>

record ackgen_state =
  ag_ack_eliciting_received :: bool
  ag_ack_already_pending :: bool
  ag_since_last_ack :: u64

definition ackgen_should_ack :: "ackgen_state \<Rightarrow> u64 \<Rightarrow> bool" where
  "ackgen_should_ack s max_ack_delay =
     (if \<not> (ag_ack_eliciting_received s \<or> ag_ack_already_pending s) then False
      else if ag_ack_eliciting_received s \<and> ag_ack_already_pending s then True
      else ag_since_last_ack s \<ge> max_ack_delay)"

definition ackgen_due :: "u32 \<Rightarrow> u64 \<Rightarrow> u64 \<Rightarrow> bool" where
  "ackgen_due unacked_eliciting elapsed max_ack_delay =
     (if unacked_eliciting = 0 then False
      else if unacked_eliciting \<ge> 2 then True
      else elapsed \<ge> max_ack_delay)"

record ackpolicy =
  ap_pending :: u64
  ap_since_tick :: u64
  ap_immediate :: bool

definition ackpolicy_init :: ackpolicy where
  "ackpolicy_init = \<lparr>ap_pending = 0, ap_since_tick = 0, ap_immediate = False\<rparr>"

definition ackpolicy_on_eliciting :: "ackpolicy \<Rightarrow> u64 \<Rightarrow> ackpolicy" where
  "ackpolicy_on_eliciting p tick =
     (let p = (if ap_pending p = 0 then p\<lparr>ap_since_tick := tick\<rparr> else p)
      in p\<lparr>ap_pending := ap_pending p + 1\<rparr>)"

definition ackpolicy_on_urgent :: "ackpolicy \<Rightarrow> ackpolicy" where
  "ackpolicy_on_urgent p = p\<lparr>ap_immediate := True\<rparr>"

definition ack_at_once :: "ackpolicy \<Rightarrow> bool" where
  "ack_at_once p \<longleftrightarrow> ap_pending p \<ge> 2 \<or> ap_immediate p"

definition delay_elapsed :: "ackpolicy \<Rightarrow> u64 \<Rightarrow> u64 \<Rightarrow> bool" where
  "delay_elapsed p now max_ack_delay \<longleftrightarrow> now - ap_since_tick p \<ge> max_ack_delay"

definition ackpolicy_should_ack :: "ackpolicy \<Rightarrow> u64 \<Rightarrow> u64 \<Rightarrow> bool" where
  "ackpolicy_should_ack p now max_ack_delay =
     (if ap_pending p = 0 then False
      else if ack_at_once p then True
      else delay_elapsed p now max_ack_delay)"

definition ackpolicy_on_ack_sent :: "ackpolicy \<Rightarrow> ackpolicy" where
  "ackpolicy_on_ack_sent p = p\<lparr>ap_pending := 0, ap_immediate := False\<rparr>"

definition ack_delay_encode :: "u64 \<Rightarrow> u8 \<Rightarrow> u64" where
  "ack_delay_encode micros exponent = drop_bit (unat exponent) micros"

definition ack_delay_decode :: "u64 \<Rightarrow> u8 \<Rightarrow> u64" where
  "ack_delay_decode value exponent = push_bit (unat exponent) value"

section \<open>ackrange.c\<close>

text \<open>\<open>u64obuf\<close>: the values written so far and the capacity.\<close>

record u64obuf =
  uo_cap :: nat
  uo_vals :: "u64 list"

definition gap_of :: "u64 \<Rightarrow> u64 \<Rightarrow> u64" where
  "gap_of prev_lo hi = prev_lo - hi - 2"

definition ackrange_push :: "u64obuf \<Rightarrow> u64 \<Rightarrow> u64obuf option" where
  "ackrange_push out v =
     (if length (uo_vals out) \<ge> uo_cap out then None else Some (out\<lparr>uo_vals := uo_vals out @ [v]\<rparr>))"

record build_st =
  bs_hi :: u64
  bs_prev_lo :: u64
  bs_first :: bool
  bs_out :: u64obuf

definition ackrange_emit :: "build_st \<Rightarrow> u64 \<Rightarrow> build_st option" where
  "ackrange_emit s lo = do {
     out \<leftarrow> (if bs_first s then Some (bs_out s) else ackrange_push (bs_out s) (gap_of (bs_prev_lo s) (bs_hi s)));
     out \<leftarrow> ackrange_push out (bs_hi s - lo);
     Some (s\<lparr>bs_out := out\<rparr>)
   }"

definition close_block :: "build_st \<Rightarrow> u64 \<Rightarrow> u64 \<Rightarrow> build_st option" where
  "close_block s lo next_hi = do {
     s \<leftarrow> ackrange_emit s lo;
     Some (s\<lparr>bs_prev_lo := lo, bs_hi := next_hi, bs_first := False\<rparr>)
   }"

definition ackrange_step :: "build_st \<Rightarrow> u64 list \<Rightarrow> nat \<Rightarrow> build_st option" where
  "ackrange_step s pns i =
     (if pns ! i - pns ! (i - 1) = 1 then Some s else close_block s (pns ! i) (pns ! (i - 1)))"

fun descend_loop :: "build_st \<Rightarrow> u64 list \<Rightarrow> nat \<Rightarrow> build_st option" where
  "descend_loop s pns 0 = Some s"
| "descend_loop s pns (Suc i) = do { s \<leftarrow> ackrange_step s pns (Suc i); descend_loop s pns i }"

definition descend :: "build_st \<Rightarrow> u64 list \<Rightarrow> build_st option" where
  "descend s pns = do { s \<leftarrow> descend_loop s pns (length pns - 1); ackrange_emit s (pns ! 0) }"

text \<open>\<open>*largest\<close> and the values written to \<open>ranges\<close>.\<close>

definition ackgen_build_ranges :: "u64 list \<Rightarrow> nat \<Rightarrow> (u64 \<times> u64 list) option" where
  "ackgen_build_ranges pns cap =
     (if length pns = 0 then None
      else let largest = pns ! (length pns - 1) in do {
        s \<leftarrow> descend \<lparr>bs_hi = largest, bs_prev_lo = 0, bs_first = True, bs_out = \<lparr>uo_cap = cap, uo_vals = []\<rparr>\<rparr> pns;
        Some (largest, uo_vals (bs_out s))
      })"

section \<open>ackrangeconv.c\<close>

definition raw_ok :: "nat \<Rightarrow> bool" where
  "raw_ok n \<longleftrightarrow> (n \<ge> 1 \<and> n mod 2 = 1) \<and> (n - 1) div 2 + 1 \<le> ACK_MAX_RANGES"

definition conv_first :: "u64 \<Rightarrow> u64 \<Rightarrow> ack_range" where
  "conv_first largest first_len = \<lparr>ar_hi = largest, ar_lo = largest - first_len\<rparr>"

definition conv_pair :: "u64 list \<Rightarrow> nat \<Rightarrow> ack_range \<Rightarrow> ack_range" where
  "conv_pair raw i prev =
     (let gap = raw ! (2 * i - 1); len = raw ! (2 * i); hi = ar_lo prev - gap - 2
      in \<lparr>ar_hi = hi, ar_lo = hi - len\<rparr>)"

definition conv_all_pairs :: "u64 list \<Rightarrow> nat \<Rightarrow> ack_range list \<Rightarrow> ack_range list" where
  "conv_all_pairs raw n ranges =
     fold (\<lambda>i rs. rs @ [conv_pair raw i (rs ! (i - 1))]) [1..<(n - 1) div 2 + 1] ranges"

definition ackrangeconv_to_frame :: "u64 \<Rightarrow> u64 list \<Rightarrow> nat \<Rightarrow> ack_frame \<Rightarrow> ack_frame option" where
  "ackrangeconv_to_frame largest raw n f =
     (if \<not> raw_ok n then None
      else Some (f\<lparr>af_ranges := conv_all_pairs raw n [conv_first largest (raw ! 0)]\<rparr>))"

section \<open>pnspace.c, spaces.c, recv\_spaces.c\<close>

datatype pns_space = PNS_INITIAL | PNS_HANDSHAKE | PNS_APP

type_synonym pnspace = "pns_space \<Rightarrow> u64"

definition PN_LIMIT :: u64 where "PN_LIMIT = push_bit 62 1 - 1"

definition pnspace_init :: pnspace where
  "pnspace_init = (\<lambda>_. 0)"

definition pnspace_next :: "pnspace \<Rightarrow> pns_space \<Rightarrow> u64 \<times> pnspace" where
  "pnspace_next s space = (s space, s(space := s space + 1))"

definition pnspace_exhausted :: "pnspace \<Rightarrow> pns_space \<Rightarrow> bool" where
  "pnspace_exhausted s space \<longleftrightarrow> s space > PN_LIMIT"

type_synonym pnspaces_recv = "pns_space \<Rightarrow> recvpn"

definition pnspaces_recv_init :: pnspaces_recv where
  "pnspaces_recv_init = (\<lambda>_. recvpn_init)"

definition pnspaces_on_recv :: "pnspaces_recv \<Rightarrow> pns_space \<Rightarrow> u64 \<Rightarrow> pnspaces_recv" where
  "pnspaces_on_recv s space pn = s(space := recvpn_record (s space) pn)"

text \<open>The loop counts \<open>d\<close> down from the window size to 1.\<close>

definition collect_pns :: "recvpn \<Rightarrow> u64 list" where
  "collect_pns r =
     fold (\<lambda>d out. if recvpn_seen r (rp_largest r - d) then out @ [rp_largest r - d] else out)
       (map of_nat (rev [1..<unat RECVPN_WINDOW + 1])) [] @ [rp_largest r]"

definition pnspaces_ack_ranges :: "pnspaces_recv \<Rightarrow> pns_space \<Rightarrow> nat \<Rightarrow> (u64 \<times> u64 list) option" where
  "pnspaces_ack_ranges s space cap =
     (let r = s space in if \<not> rp_any r then None else ackgen_build_ranges (collect_pns r) cap)"

section \<open>The server's ACK frame\<close>

text \<open>The fields of \<open>wired_srvloop\<close> that the ACK encoder reads.\<close>

record ack_source =
  as_ack_recv :: pnspaces_recv
  as_floor1 :: u64
  as_now_ms :: u64
  as_policy :: ackpolicy
  as_ecn_ect0 :: u64
  as_ecn_ect1 :: u64
  as_ecn_ce :: u64
  as_ack_defer :: bool

definition app_ack_due :: "ack_source \<Rightarrow> bool" where
  "app_ack_due l = ackpolicy_should_ack (as_policy l) (as_now_ms l) 25"

definition app_ack_set_ecn :: "ack_source \<Rightarrow> ack_frame \<Rightarrow> ack_frame" where
  "app_ack_set_ecn l f =
     (if \<not> (as_ecn_ect0 l \<noteq> 0 \<or> as_ecn_ect1 l \<noteq> 0 \<or> as_ecn_ce l \<noteq> 0) then f
      else f\<lparr>af_has_ecn := True, af_ect0 := as_ecn_ect0 l, af_ect1 := as_ecn_ect1 l, af_ce := as_ecn_ce l\<rparr>)"

definition app_ack_kept :: "ack_frame \<Rightarrow> u64 \<Rightarrow> nat" where
  "app_ack_kept f floor1 = scan (\<lambda>n. ar_hi (af_ranges f ! n) \<ge> floor1) (length (af_ranges f)) 1"

definition app_ack_prune :: "ack_frame \<Rightarrow> u64 \<Rightarrow> ack_frame" where
  "app_ack_prune f floor1 =
     (let n = app_ack_kept f floor1;
          rs = take n (af_ranges f);
          l = rs ! (n - 1)
      in if ar_lo l < floor1 \<and> ar_hi l \<ge> floor1
         then f\<lparr>af_ranges := rs[n - 1 := l\<lparr>ar_lo := floor1\<rparr>]\<rparr>
         else f\<lparr>af_ranges := rs\<rparr>)"

definition ack_zero :: ack_frame where
  "ack_zero = \<lparr>af_ack_delay = 0, af_ranges = [], af_has_ecn = False, af_ect0 = 0, af_ect1 = 0, af_ce = 0\<rparr>"

definition app_ack_frame :: "ack_source \<Rightarrow> ack_frame option" where
  "app_ack_frame l = do {
     (largest, raw) \<leftarrow> pnspaces_ack_ranges (as_ack_recv l) PNS_APP (2 * ACK_MAX_RANGES + 1);
     f \<leftarrow> ackrangeconv_to_frame largest raw (min (length raw) (2 * ACK_MAX_RANGES - 1)) ack_zero;
     let f = app_ack_prune f (as_floor1 l);
     let f = f\<lparr>af_ack_delay := ack_delay_encode ((as_now_ms l - ap_since_tick (as_policy l)) * 1000) 3\<rparr>;
     Some (app_ack_set_ecn l f)
   }"

definition app_ack_encode_ranges :: "ack_source \<Rightarrow> bytes \<Rightarrow> nat \<times> bytes" where
  "app_ack_encode_ranges l buf =
     (case app_ack_frame l of None \<Rightarrow> (0, buf) | Some f \<Rightarrow> ack_encode buf f)"

definition srvloop_app_ack_append :: "ack_source \<Rightarrow> bytes \<Rightarrow> (nat \<times> bytes) \<times> ack_source" where
  "srvloop_app_ack_append l buf =
     (let r = app_ack_encode_ranges l buf
      in (r, if fst r \<noteq> 0 then l\<lparr>as_policy := ackpolicy_on_ack_sent (as_policy l)\<rparr> else l))"

definition srvloop_app_ack_append_if_due :: "ack_source \<Rightarrow> bytes \<Rightarrow> (nat \<times> bytes) \<times> ack_source" where
  "srvloop_app_ack_append_if_due l buf =
     (if as_ack_defer l then ((0, buf), l)
      else if \<not> app_ack_due l then ((0, buf), l)
      else srvloop_app_ack_append l buf)"

section \<open>The ranges of a descending list\<close>

text \<open>
  The reference for the range builder: the maximal runs of a descending list of packet
  numbers, the current run spanning \<open>lo\<close> to \<open>hi\<close>, and their gap and length encoding.
\<close>

fun blocks_from :: "u64 \<Rightarrow> u64 \<Rightarrow> u64 list \<Rightarrow> ack_range list" where
  "blocks_from hi lo [] = [\<lparr>ar_hi = hi, ar_lo = lo\<rparr>]"
| "blocks_from hi lo (p # ps) =
     (if lo - p = 1 then blocks_from hi p ps else \<lparr>ar_hi = hi, ar_lo = lo\<rparr> # blocks_from p p ps)"

fun raw_blocks :: "bool \<Rightarrow> u64 \<Rightarrow> ack_range list \<Rightarrow> u64 list" where
  "raw_blocks first prev_lo [] = []"
| "raw_blocks first prev_lo (r # rs) =
     (if first then [] else [prev_lo - ar_hi r - 2]) @ [ar_hi r - ar_lo r] @ raw_blocks False (ar_lo r) rs"

lemma blocks_from_ne [simp]: "blocks_from hi lo ps \<noteq> []"
  by (induction hi lo ps rule: blocks_from.induct) auto

lemma ar_hi_hd_blocks [simp]: "ar_hi (hd (blocks_from hi lo ps)) = hi"
  by (induction hi lo ps rule: blocks_from.induct) auto

lemma length_raw_blocks: "length (raw_blocks first p rs) = 2 * length rs - (if first \<and> rs \<noteq> [] then 1 else 0)"
proof -
  have "length (raw_blocks False p rs) = 2 * length rs" for p rs
    by (induction "False" p rs rule: raw_blocks.induct) auto
  then show ?thesis by (cases rs; cases first) auto
qed

lemma ackrange_emit_eq:
  "ackrange_emit s lo =
     (let w = (if bs_first s then [] else [bs_prev_lo s - bs_hi s - 2]) @ [bs_hi s - lo];
          out = bs_out s
      in if length (uo_vals out) + length w \<le> uo_cap out
         then Some (s\<lparr>bs_out := out\<lparr>uo_vals := uo_vals out @ w\<rparr>\<rparr>) else None)"
  by (auto simp: ackrange_emit_def ackrange_push_def gap_of_def Let_def)

lemma descend_eq:
  "i < length pns \<Longrightarrow>
   do { s \<leftarrow> descend_loop s pns i; s \<leftarrow> ackrange_emit s (pns ! 0); Some (uo_vals (bs_out s)) } =
   (let w = raw_blocks (bs_first s) (bs_prev_lo s) (blocks_from (bs_hi s) (pns ! i) (rev (take i pns)))
    in if length (uo_vals (bs_out s)) + length w \<le> uo_cap (bs_out s) then Some (uo_vals (bs_out s) @ w) else None)"
proof (induction i arbitrary: s)
  case 0
  then show ?case by (simp add: ackrange_emit_eq Let_def)
next
  case (Suc i)
  have r: "rev (take (Suc i) pns) = pns ! i # rev (take i pns)"
    using Suc.prems by (simp add: take_Suc_conv_app_nth)
  show ?case
  proof (cases "pns ! Suc i - pns ! i = 1")
    case True
    then show ?thesis using Suc by (simp add: ackrange_step_def r)
  next
    case False
    let ?w = "(if bs_first s then [] else [bs_prev_lo s - bs_hi s - 2]) @ [bs_hi s - pns ! Suc i]"
    let ?s = "s\<lparr>bs_out := (bs_out s)\<lparr>uo_vals := uo_vals (bs_out s) @ ?w\<rparr>, bs_prev_lo := pns ! Suc i,
      bs_hi := pns ! i, bs_first := False\<rparr>"
    have step: "ackrange_step s pns (Suc i) =
      (if length (uo_vals (bs_out s)) + length ?w \<le> uo_cap (bs_out s) then Some ?s else None)"
      using False by (simp add: ackrange_step_def close_block_def ackrange_emit_eq Let_def)
    show ?thesis
      using Suc.IH [of ?s] Suc.prems False unfolding descend_loop.simps step r
      by (auto simp: Let_def)
  qed
qed

lemma ackgen_build_ranges_eq:
  assumes "pns \<noteq> []"
  shows "ackgen_build_ranges pns cap =
    (let w = raw_blocks True 0 (blocks_from (last pns) (last pns) (tl (rev pns)))
     in if length w \<le> cap then Some (last pns, w) else None)"
proof -
  let ?i = "length pns - 1"
  have l: "pns ! ?i = last pns" using assms by (simp add: last_conv_nth)
  have t: "rev (take ?i pns) = tl (rev pns)"
    by (metis butlast_conv_take butlast_rev rev_rev_ident)
  have i: "?i < length pns" using assms by simp
  let ?s = "\<lparr>bs_hi = last pns, bs_prev_lo = 0, bs_first = True, bs_out = \<lparr>uo_cap = cap, uo_vals = []\<rparr>\<rparr>"
  have "ackgen_build_ranges pns cap = map_option (Pair (last pns))
      (do { s \<leftarrow> descend_loop ?s pns ?i; s \<leftarrow> ackrange_emit s (pns ! 0); Some (uo_vals (bs_out s)) })"
    unfolding ackgen_build_ranges_def descend_def Let_def l using assms
    by (auto split: Option.bind_split)
  then show ?thesis
    unfolding descend_eq [OF i] l t by (simp add: Let_def)
qed

lemma u64_diff_1: "p < lo \<Longrightarrow> lo - p = (1 :: u64) \<longleftrightarrow> unat lo = unat p + 1"
proof -
  assume "p < lo"
  then have "unat (lo - p) = unat lo - unat p" "unat p < unat lo"
    using unat_sub_u64 [of p lo] by (simp_all add: u64_less_mono less_imp_le)
  moreover have "lo - p = 1 \<longleftrightarrow> unat (lo - p) = 1" by (simp add: word_unat_eq_iff)
  ultimately show ?thesis by auto
qed

lemma blocks_from_desc:
  "sorted_wrt (>) (lo # ps) \<Longrightarrow> lo \<le> hi \<Longrightarrow> ranges_desc (blocks_from hi lo ps)"
proof (induction hi lo ps rule: blocks_from.induct)
  case (2 hi lo p ps)
  then have lt: "p < lo" by simp
  show ?case
  proof (cases "lo - p = 1")
    case False
    obtain b bs where b: "blocks_from p p ps = b # bs" by (cases "blocks_from p p ps") auto
    have "ar_hi b = p" using ar_hi_hd_blocks [of p p ps] b by simp
    moreover have "unat p + 2 \<le> unat lo" using lt False u64_diff_1 [OF lt] by (simp add: u64_less_mono)
    ultimately show ?thesis using 2 False b by simp
  qed (use 2 lt in auto)
qed simp

lemma blocks_from_set:
  "sorted_wrt (>) (lo # ps) \<Longrightarrow> lo \<le> hi \<Longrightarrow>
   ranges_set (blocks_from hi lo ps) = {unat lo..unat hi} \<union> unat ` set ps"
proof (induction hi lo ps rule: blocks_from.induct)
  case (2 hi lo p ps)
  then have lt: "p < lo" and le: "unat lo \<le> unat hi" by (simp_all add: u64_le_mono)
  show ?case
  proof (cases "lo - p = 1")
    case True
    then have "unat lo = unat p + 1" using u64_diff_1 [OF lt] by simp
    then have "{unat p..unat hi} = insert (unat p) {unat lo..unat hi}" using le by auto
    then show ?thesis using 2 True lt by auto
  next
    case False
    then have "ranges_set (blocks_from p p ps) = {unat p..unat p} \<union> unat ` set ps" using 2 by simp
    then show ?thesis using False by (auto simp: ranges_set_def)
  qed
qed (simp add: ranges_set_def)

lemma ranges_desc_span:
  "ranges_desc rs \<Longrightarrow> rs \<noteq> [] \<Longrightarrow> unat (ar_lo (last rs)) + 2 * (length rs - 1) \<le> unat (ar_hi (hd rs))"
  by (induction rs rule: ranges_desc.induct) (auto simp: u64_le_mono)

lemma ranges_desc_last_in: "ranges_desc rs \<Longrightarrow> rs \<noteq> [] \<Longrightarrow> unat (ar_lo (last rs)) \<in> ranges_set rs"
proof (induction rs rule: ranges_desc.induct)
  case (3 r s rs)
  then show ?case by (auto simp: ranges_set_def)
qed (auto simp: ranges_set_def u64_le_mono)

section \<open>Conversion to a frame\<close>

lemma raw_blocks_False_nth:
  "i < length rs \<Longrightarrow>
   raw_blocks False p rs ! (2 * i) = (if i = 0 then p else ar_lo (rs ! (i - 1))) - ar_hi (rs ! i) - 2
   \<and> raw_blocks False p rs ! (2 * i + 1) = ar_hi (rs ! i) - ar_lo (rs ! i)"
proof (induction rs arbitrary: p i)
  case (Cons r rs)
  show ?case
  proof (cases i)
    case (Suc j)
    then show ?thesis using Cons.IH [of j "ar_lo r"] Cons.prems by (cases j) simp_all
  qed simp
qed simp

lemma raw_blocks_nth:
  assumes "rs \<noteq> []"
  shows "raw_blocks True p rs ! 0 = ar_hi (hd rs) - ar_lo (hd rs)"
    and "0 < i \<Longrightarrow> i < length rs \<Longrightarrow> raw_blocks True p rs ! (2 * i - 1) = ar_lo (rs ! (i - 1)) - ar_hi (rs ! i) - 2"
    and "0 < i \<Longrightarrow> i < length rs \<Longrightarrow> raw_blocks True p rs ! (2 * i) = ar_hi (rs ! i) - ar_lo (rs ! i)"
proof -
  obtain r rs' where rs: "rs = r # rs'" using assms by (cases rs) auto
  show "raw_blocks True p rs ! 0 = ar_hi (hd rs) - ar_lo (hd rs)" by (simp add: rs)
  assume i: "0 < i" "i < length rs"
  then obtain j where j: "i = Suc j" "j < length rs'" by (cases i) (auto simp: rs)
  note n = raw_blocks_False_nth [OF j(2), of "ar_lo r"]
  show "raw_blocks True p rs ! (2 * i - 1) = ar_lo (rs ! (i - 1)) - ar_hi (rs ! i) - 2"
    using n by (cases j) (simp_all add: rs j)
  show "raw_blocks True p rs ! (2 * i) = ar_hi (rs ! i) - ar_lo (rs ! i)"
    using n by (simp add: rs j)
qed

lemma conv_all_pairs_raw:
  assumes "rs \<noteq> []" and "0 < k" and "k \<le> length rs"
  shows "conv_all_pairs (raw_blocks True p rs) (2 * k - 1) [conv_first (ar_hi (hd rs)) (raw_blocks True p rs ! 0)] = take k rs"
proof -
  let ?f = "\<lambda>i bs. bs @ [conv_pair (raw_blocks True p rs) i (bs ! (i - 1))]"
  have first: "conv_first (ar_hi (hd rs)) (raw_blocks True p rs ! 0) = rs ! 0"
    using raw_blocks_nth(1) [OF assms(1), of p] assms(1) by (simp add: conv_first_def hd_conv_nth)
  have "Suc j \<le> length rs \<Longrightarrow> fold ?f [1..<Suc j] [rs ! 0] = take (Suc j) rs" for j
  proof (induction j)
    case 0
    then show ?case using assms(1) by (simp add: take_Suc hd_conv_nth)
  next
    case (Suc j)
    have "conv_pair (raw_blocks True p rs) (Suc j) (take (Suc j) rs ! j) = rs ! Suc j"
      using raw_blocks_nth(2,3) [OF assms(1), of "Suc j" p] Suc.prems
      by (simp add: conv_pair_def Let_def)
    then show ?case using Suc by (simp add: take_Suc_conv_app_nth [of "Suc j"])
  qed
  from this [of "k - 1"] have "fold ?f [1..<k] [rs ! 0] = take k rs" using assms by simp
  moreover have "(2 * k - 1 - 1) div 2 + 1 = k" using assms(2) by (cases k) simp_all
  ultimately show ?thesis unfolding conv_all_pairs_def first by simp
qed

section \<open>From the receive window to a frame\<close>

lemma fold_filter: "fold (\<lambda>x out. if P x then out @ [x] else out) xs out = out @ filter P xs"
  by (induction xs arbitrary: out) auto

definition deltas :: "nat list" where
  "deltas = [1..<unat RECVPN_WINDOW + 1]"

lemma deltas_props: "set deltas = {1..<65}" "sorted_wrt (<) deltas"
  by (simp_all only: deltas_def set_upt sorted_wrt_upt) (simp add: RECVPN_WINDOW_def)

lemma collect_pns_eq:
  "collect_pns r = filter (recvpn_seen r) (map (\<lambda>d. rp_largest r - of_nat d) (rev deltas)) @ [rp_largest r]"
proof -
  have "fold (\<lambda>d out. if recvpn_seen r (rp_largest r - d) then out @ [rp_largest r - d] else out) ds out
      = out @ filter (recvpn_seen r) (map (\<lambda>d. rp_largest r - d) ds)" for ds out
    by (induction ds arbitrary: out) auto
  then show ?thesis
    unfolding collect_pns_def deltas_def [symmetric] by (simp add: comp_def)
qed

lemma rev_collect_pns:
  "rev (collect_pns r) = rp_largest r # filter (recvpn_seen r) (map (\<lambda>d. rp_largest r - of_nat d) deltas)"
  unfolding collect_pns_eq by (simp add: rev_filter rev_map)

lemma collect_pns_props:
  assumes ok: "recvpn_ok r S" and any: "rp_any r"
  shows "sorted_wrt (>) (rev (collect_pns r))"
    and "unat ` set (collect_pns r) = {x \<in> S. unat (rp_largest r) \<le> x + 64}"
proof -
  let ?L = "unat (rp_largest r)" and ?f = "\<lambda>d. rp_largest r - of_nat d"
  have seen: "recvpn_seen r pn \<longleftrightarrow> unat pn \<in> S \<and> ?L \<le> unat pn + 64" for pn
    using recvpn_seen_iff [OF ok any] .
  have max: "\<forall>x \<in> S. x \<le> ?L" "?L \<in> S" using ok any by (auto simp: recvpn_ok_def)
  have fd: "unat (?f d) = ?L - d \<and> d \<le> ?L" if "d < 65" "recvpn_seen r (?f d)" for d
  proof -
    have u: "unat (of_nat d :: u64) = d" using that(1) by (intro unat_of_nat_u64) simp
    have "d \<le> ?L"
    proof (rule ccontr)
      assume "\<not> d \<le> ?L"
      then have "unat (?f d) = 18446744073709551616 + ?L - d"
        using u by (simp add: unat_sub_if_size size_word.rep_eq)
      then have "?L < unat (?f d)" using that(1) by simp
      then show False using that(2) max(1) seen by fastforce
    qed
    then show ?thesis using u unat_sub_u64 [of "of_nat d" "rp_largest r"] by (simp add: u64_le_mono)
  qed
  have fm: "filter (recvpn_seen r) (map ?f deltas) = map ?f (filter (\<lambda>d. recvpn_seen r (?f d)) deltas)"
    by (simp only: filter_map comp_def)
  let ?ds = "filter (\<lambda>d. recvpn_seen r (?f d)) deltas"
  have ds: "d \<in> set ?ds \<longleftrightarrow> 1 \<le> d \<and> d < 65 \<and> recvpn_seen r (?f d)" for d
    by (auto simp: deltas_props)
  have "sorted_wrt (<) ?ds"
    by (intro sorted_wrt_filter deltas_props)
  then have "sorted_wrt (\<lambda>d e. ?f d > ?f e) ?ds"
  proof (rule sorted_wrt_mono_rel [rotated])
    fix d e assume "d \<in> set ?ds" "e \<in> set ?ds" "d < e"
    then have "unat (?f d) = ?L - d" "unat (?f e) = ?L - e" "e \<le> ?L"
      using fd [of d] fd [of e] unfolding ds by blast+
    then show "?f e < ?f d" using \<open>d < e\<close> unfolding u64_less_mono by linarith
  qed
  moreover have "?f d < rp_largest r" if "d \<in> set ?ds" for d
  proof -
    have "unat (?f d) = ?L - d" "d \<le> ?L" "1 \<le> d" using that fd [of d] unfolding ds by blast+
    then show ?thesis unfolding u64_less_mono by linarith
  qed
  ultimately show "sorted_wrt (>) (rev (collect_pns r))"
    unfolding rev_collect_pns fm sorted_wrt.simps sorted_wrt_map set_map by blast
  have img: "unat ` set (collect_pns r) = insert ?L ((\<lambda>d. unat (?f d)) ` set ?ds)"
  proof -
    have "set (collect_pns r) = insert (rp_largest r) (set (map ?f ?ds))"
      unfolding fm [symmetric] collect_pns_eq by (simp add: insert_commute Un_commute)
    then show ?thesis by (simp only: set_map image_insert image_image)
  qed
  show "unat ` set (collect_pns r) = {x \<in> S. ?L \<le> x + 64}"
  proof (intro equalityI subsetI)
    fix x assume "x \<in> unat ` set (collect_pns r)"
    then consider "x = ?L" | d where "d \<in> set ?ds" "x = unat (?f d)" unfolding img by blast
    then show "x \<in> {x \<in> S. ?L \<le> x + 64}"
    proof cases
      case 2
      then have "recvpn_seen r (?f d)" using ds by blast
      then show ?thesis unfolding seen 2(2) by simp
    qed (use max(2) in simp)
  next
    fix x assume x: "x \<in> {x \<in> S. ?L \<le> x + 64}"
    then have xl: "x \<le> ?L" "?L \<le> x + 64" "x \<in> S" using max by auto
    have "unat (of_nat (?L - x) :: u64) = ?L - x" using xl by (intro unat_of_nat_u64) auto
    then have u: "unat (?f (?L - x)) = x" using xl unat_sub_u64 [of "of_nat (?L - x)" "rp_largest r"] by (simp add: u64_le_mono)
    show "x \<in> unat ` set (collect_pns r)"
    proof (cases "x = ?L")
      case False
      then have "1 \<le> ?L - x \<and> ?L - x < 65" using xl by linarith
      moreover have "recvpn_seen r (?f (?L - x))" unfolding seen u using xl by blast
      ultimately have "?L - x \<in> set ?ds" unfolding ds by blast
      then show ?thesis unfolding img using u by (metis (no_types, lifting) image_eqI insertCI)
    qed (simp add: img)
  qed
qed

lemma ranges_desc_hi_span:
  "ranges_desc rs \<Longrightarrow> rs \<noteq> [] \<Longrightarrow> unat (ar_hi (last rs)) + 2 * (length rs - 1) \<le> unat (ar_hi (hd rs))"
  by (induction rs rule: ranges_desc.induct) (auto simp: u64_le_mono)

lemma ranges_desc_nth_lo: "ranges_desc rs \<Longrightarrow> i < length rs \<Longrightarrow> ar_lo (rs ! i) \<le> ar_hi (rs ! i)"
  by (induction rs arbitrary: i rule: ranges_desc.induct) (auto simp: nth_Cons split: nat.splits)

lemma ranges_desc_nth:
  "ranges_desc rs \<Longrightarrow> i < j \<Longrightarrow> j < length rs \<Longrightarrow> unat (ar_hi (rs ! j)) + 2 \<le> unat (ar_lo (rs ! i))"
proof (induction rs arbitrary: i j rule: ranges_desc.induct)
  case (3 r s rs)
  show ?case
  proof (cases i)
    case 0
    obtain m where j: "j = Suc m" using 3(3) by (cases j) auto
    have "unat (ar_hi ((s # rs) ! m)) \<le> unat (ar_hi s)"
    proof (cases m)
      case (Suc m')
      then have "unat (ar_hi ((s # rs) ! m)) + 2 \<le> unat (ar_lo s)" using "3.IH" [of 0 m] 3(2-) j by simp
      then show ?thesis using ranges_descD(4) [OF 3(2)] by (simp add: u64_le_mono)
    qed simp
    then show ?thesis using 3(2-) 0 j by simp
  next
    case (Suc k)
    then show ?thesis using "3.IH" [of k "j - 1"] 3(2-) by (cases j) auto
  qed
qed auto

lemma ranges_set_nth: "x \<in> ranges_set rs \<longleftrightarrow> (\<exists>i < length rs. unat (ar_lo (rs ! i)) \<le> x \<and> x \<le> unat (ar_hi (rs ! i)))"
  by (auto simp: ranges_set_def in_set_conv_nth) (metis atLeastAtMost_iff nth_mem)

lemma ranges_desc_raise_last:
  "ranges_desc (rs @ [r]) \<Longrightarrow> v \<le> ar_hi r \<Longrightarrow> ar_lo r \<le> v \<Longrightarrow> ranges_desc (rs @ [r\<lparr>ar_lo := v\<rparr>])"
  by (induction rs rule: ranges_desc.induct) (auto simp: neq_Nil_conv)

text \<open>Pruning keeps the ranges well formed and cuts at the floor, save that the top range stays.\<close>

lemma app_ack_prune_props:
  fixes fl :: u64
  assumes desc: "ranges_desc (af_ranges f)" and ne: "af_ranges f \<noteq> []"
  defines "rs' \<equiv> af_ranges (app_ack_prune f fl)"
  shows "ranges_desc rs'" and "rs' \<noteq> []" and "length rs' \<le> length (af_ranges f)" and "ar_hi (rs' ! 0) = ar_hi (af_ranges f ! 0)"
    and "ranges_set rs' \<subseteq> ranges_set (af_ranges f)"
    and "{x \<in> ranges_set (af_ranges f). unat fl \<le> x} \<subseteq> ranges_set rs'"
    and "fl \<le> ar_hi (af_ranges f ! 0) \<Longrightarrow> \<forall>x \<in> ranges_set rs'. unat fl \<le> x"
proof -
  let ?rs = "af_ranges f"
  define n where "n = app_ack_kept f fl"
  have scan: "1 \<le> n" "n \<le> length ?rs" "\<And>j. 1 \<le> j \<Longrightarrow> j < n \<Longrightarrow> fl \<le> ar_hi (?rs ! j)"
    "n < length ?rs \<Longrightarrow> \<not> fl \<le> ar_hi (?rs ! n)"
    using scan_spec [of 1 "length ?rs" "\<lambda>n. fl \<le> ar_hi (?rs ! n)"] ne
    by (auto simp: n_def app_ack_kept_def Suc_le_eq)
  let ?l = "?rs ! (n - 1)" and ?c = "ar_lo (?rs ! (n - 1)) < fl \<and> ar_hi (?rs ! (n - 1)) \<ge> fl"
  have t: "take n ?rs = take (n - 1) ?rs @ [?l]"
    using scan(1,2) take_Suc_conv_app_nth [of "n - 1" ?rs] by simp
  have rs': "rs' = take (n - 1) ?rs @ [if ?c then ?l\<lparr>ar_lo := fl\<rparr> else ?l]"
    unfolding rs'_def app_ack_prune_def Let_def n_def [symmetric] t using scan(1,2)
    by (simp add: list_update_append nth_append)
  show len: "rs' \<noteq> []" "length rs' \<le> length ?rs" using scan(1,2) by (simp_all add: rs')
  have len': "length rs' = n" using scan(1,2) by (simp add: rs')
  have nth: "rs' ! i = (if i = n - 1 \<and> ?c then ?l\<lparr>ar_lo := fl\<rparr> else ?rs ! i)" if "i < n" for i
  proof (cases "i = n - 1")
    case False
    then have "i < n - 1" using that by linarith
    then show ?thesis using scan(2) by (simp add: rs' nth_append)
  qed (use scan(2) in \<open>simp add: rs' nth_append\<close>)
  show "ranges_desc rs'"
    using ranges_desc_take [OF desc, of n] ranges_desc_raise_last [of "take (n - 1) ?rs" ?l fl] unfolding rs' t by auto
  show "ar_hi (rs' ! 0) = ar_hi (?rs ! 0)" using nth [of 0] scan(1) by auto
  have mem: "x \<in> ranges_set rs' \<longleftrightarrow> (\<exists>i < n. unat (ar_lo (?rs ! i)) \<le> x \<and> x \<le> unat (ar_hi (?rs ! i)) \<and> (i = n - 1 \<and> ?c \<longrightarrow> unat fl \<le> x))" for x
  proof -
    have "unat (ar_lo (rs' ! i)) \<le> x \<and> x \<le> unat (ar_hi (rs' ! i)) \<longleftrightarrow>
        unat (ar_lo (?rs ! i)) \<le> x \<and> x \<le> unat (ar_hi (?rs ! i)) \<and> (i = n - 1 \<and> ?c \<longrightarrow> unat fl \<le> x)" if "i < n" for i
    proof (cases "i = n - 1 \<and> ?c")
      case True
      then have "rs' ! i = ?l\<lparr>ar_lo := fl\<rparr>" "unat (ar_lo ?l) < unat fl" "i = n - 1"
        using nth [OF that] by (simp_all add: u64_less_mono)
      then show ?thesis using True by auto
    next
      case False
      then have "rs' ! i = ?rs ! i" using nth [OF that] by (simp only: if_False)
      then show ?thesis using False by (simp only: simp_thms)
    qed
    then show ?thesis unfolding ranges_set_nth len' by blast
  qed
  show "ranges_set rs' \<subseteq> ranges_set ?rs"
  proof
    fix x assume "x \<in> ranges_set rs'"
    then show "x \<in> ranges_set ?rs" using scan(2) unfolding mem ranges_set_nth [of x ?rs] by (meson less_le_trans)
  qed
  show "{x \<in> ranges_set ?rs. unat fl \<le> x} \<subseteq> ranges_set rs'"
  proof
    fix x assume "x \<in> {x \<in> ranges_set ?rs. unat fl \<le> x}"
    then obtain i where i: "i < length ?rs" "unat (ar_lo (?rs ! i)) \<le> x" "x \<le> unat (ar_hi (?rs ! i))" "unat fl \<le> x"
      by (auto simp: ranges_set_nth)
    have "i < n"
    proof (rule ccontr)
      assume "\<not> i < n"
      then have "unat (ar_hi (?rs ! i)) \<le> unat (ar_hi (?rs ! n))"
        using ranges_desc_nth [OF desc, of n i] ranges_desc_nth_lo [OF desc, of n] i(1)
        by (cases "i = n") (auto simp: u64_le_mono)
      then show False using scan(4) i \<open>\<not> i < n\<close> by (auto simp: u64_le_mono)
    qed
    then show "x \<in> ranges_set rs'" using i mem by blast
  qed
  show "\<forall>x \<in> ranges_set rs'. unat fl \<le> x" if top: "fl \<le> ar_hi (?rs ! 0)"
  proof
    fix x assume "x \<in> ranges_set rs'"
    then obtain i where i: "i < n" "unat (ar_lo (?rs ! i)) \<le> x" "i = n - 1 \<and> ?c \<longrightarrow> unat fl \<le> x"
      using mem by blast
    have last: "fl \<le> ar_hi ?l" using scan(1) scan(3) [of "n - 1"] top by (cases "n = 1") auto
    show "unat fl \<le> x"
    proof (cases "i = n - 1")
      case False
      then have "unat (ar_hi ?l) + 2 \<le> unat (ar_lo (?rs ! i))"
        using ranges_desc_nth [OF desc, of i "n - 1"] i(1) scan(2) by simp
      then show ?thesis using last i(2) by (simp add: u64_le_mono)
    qed (use i last in \<open>auto simp: u64_le_mono u64_less_mono\<close>)
  qed
qed

lemma ranges_set_append: "ranges_set (xs @ ys) = ranges_set xs \<union> ranges_set ys"
  by (simp add: ranges_set_def)

lemma window_blocks:
  assumes ok: "recvpn_ok r S" and any: "rp_any r"
  defines "bs \<equiv> blocks_from (rp_largest r) (rp_largest r) (tl (rev (collect_pns r)))"
  shows "ranges_desc bs" and "ranges_set bs = {x \<in> S. unat (rp_largest r) \<le> x + 64}" and "length bs \<le> 33"
    and "ackgen_build_ranges (collect_pns r) 65 = Some (rp_largest r, raw_blocks True 0 bs)"
    and "{x \<in> S. unat (rp_largest r) < x + 64} \<subseteq> ranges_set (take 32 bs)"
proof -
  let ?L = "unat (rp_largest r)"
  define ds where "ds = tl (rev (collect_pns r))"
  have ds: "rev (collect_pns r) = rp_largest r # ds" unfolding ds_def rev_collect_pns by simp
  note bs_def = bs_def [folded ds_def]
  have sorted: "sorted_wrt (>) (rp_largest r # ds)" using collect_pns_props(1) [OF ok any] unfolding ds by simp
  then show desc: "ranges_desc bs" unfolding bs_def by (rule blocks_from_desc) simp
  have "set (collect_pns r) = insert (rp_largest r) (set ds)" using ds by (metis list.set(2) set_rev)
  then have "{?L..?L} \<union> unat ` set ds = unat ` set (collect_pns r)" by simp
  then show set: "ranges_set bs = {x \<in> S. ?L \<le> x + 64}"
    using blocks_from_set [OF sorted, of "rp_largest r"] collect_pns_props(2) [OF ok any] by (simp add: bs_def)
  have ne: "bs \<noteq> []" and hd: "ar_hi (hd bs) = rp_largest r" by (simp_all add: bs_def)
  have span: "unat (ar_hi (last bs)) + 2 * (length bs - 1) \<le> ?L"
    using ranges_desc_hi_span [OF desc ne] unfolding hd .
  have low: "?L \<le> unat (ar_hi (last bs)) + 64"
  proof -
    have "unat (ar_lo (last bs)) \<in> ranges_set bs" using ranges_desc_last_in [OF desc ne] .
    then have "?L \<le> unat (ar_lo (last bs)) + 64" unfolding set by simp
    moreover have "ar_lo (last bs) \<le> ar_hi (last bs)"
      using ranges_desc_nth_lo [OF desc, of "length bs - 1"] ne by (simp add: last_conv_nth)
    ultimately show ?thesis by (simp add: u64_le_mono)
  qed
  show len: "length bs \<le> 33" using span low by linarith
  have "length (raw_blocks True 0 bs) \<le> 65" using len ne by (simp add: length_raw_blocks)
  moreover have "collect_pns r \<noteq> []" "last (collect_pns r) = rp_largest r" by (simp_all add: collect_pns_eq)
  ultimately show "ackgen_build_ranges (collect_pns r) 65 = Some (rp_largest r, raw_blocks True 0 bs)"
    by (simp add: ackgen_build_ranges_eq bs_def ds_def Let_def)
  show "{x \<in> S. ?L < x + 64} \<subseteq> ranges_set (take 32 bs)"
  proof (cases "length bs \<le> 32")
    case False
    then have l: "length bs = 33" using len by simp
    then have "bs = take 32 bs @ [last bs]"
      using ne take_Suc_conv_app_nth [of 32 bs] by (simp add: last_conv_nth)
    then have u: "ranges_set bs = ranges_set (take 32 bs) \<union> ranges_set [last bs]"
      by (metis ranges_set_append)
    have hi: "unat (ar_hi (last bs)) + 64 \<le> ?L" using span l by simp
    show ?thesis
    proof
      fix x assume x: "x \<in> {x \<in> S. ?L < x + 64}"
      then have "x \<in> ranges_set bs" unfolding set by simp
      moreover have "x \<notin> ranges_set [last bs]" using x hi by (simp add: ranges_set_def)
      ultimately show "x \<in> ranges_set (take 32 bs)" unfolding u by blast
    qed
  next
    case True
    then have "take 32 bs = bs" by simp
    then show ?thesis unfolding \<open>take 32 bs = bs\<close> set by auto
  qed
qed

lemma app_ack_frame_props:
  assumes ok: "recvpn_ok (as_ack_recv l PNS_APP) S" and any: "rp_any (as_ack_recv l PNS_APP)"
  defines "L \<equiv> unat (rp_largest (as_ack_recv l PNS_APP))"
  shows "\<exists>f. app_ack_frame l = Some f \<and> ranges_desc (af_ranges f) \<and> af_ranges f \<noteq> [] \<and> length (af_ranges f) \<le> ACK_MAX_RANGES
    \<and> ar_hi (af_ranges f ! 0) = rp_largest (as_ack_recv l PNS_APP)
    \<and> af_ack_delay f = ack_delay_encode ((as_now_ms l - ap_since_tick (as_policy l)) * 1000) 3
    \<and> (if as_ecn_ect0 l \<noteq> 0 \<or> as_ecn_ect1 l \<noteq> 0 \<or> as_ecn_ce l \<noteq> 0
       then af_has_ecn f \<and> af_ect0 f = as_ecn_ect0 l \<and> af_ect1 f = as_ecn_ect1 l \<and> af_ce f = as_ecn_ce l
       else \<not> af_has_ecn f \<and> af_ect0 f = 0 \<and> af_ect1 f = 0 \<and> af_ce f = 0)
    \<and> ranges_set (af_ranges f) \<subseteq> {x \<in> S. L \<le> x + 64}
    \<and> {x \<in> S. L < x + 64 \<and> unat (as_floor1 l) \<le> x} \<subseteq> ranges_set (af_ranges f)
    \<and> (unat (as_floor1 l) \<le> L \<longrightarrow> (\<forall>x \<in> ranges_set (af_ranges f). unat (as_floor1 l) \<le> x))"
proof -
  let ?r = "as_ack_recv l PNS_APP"
  define bs where "bs = blocks_from (rp_largest ?r) (rp_largest ?r) (tl (rev (collect_pns ?r)))"
  note w = window_blocks [OF ok any, folded bs_def L_def]
  have ne: "bs \<noteq> []" and hd: "ar_hi (hd bs) = rp_largest ?r" by (simp_all add: bs_def)
  define k where "k = min (length bs) 32"
  have k: "0 < k" "k \<le> length bs" "take k bs = take 32 bs" using ne by (auto simp: k_def min_def)
  have mn: "min (length (raw_blocks True 0 bs)) (2 * 32 - 1) = 2 * k - 1"
    using ne by (auto simp: length_raw_blocks k_def min_def)
  have ro: "raw_ok (2 * k - 1)"
  proof -
    obtain m where m: "k = Suc m" using k(1) by (cases k) auto
    moreover have "k \<le> 32" by (simp add: k_def)
    ultimately show ?thesis by (simp add: raw_ok_def ACK_MAX_RANGES_def)
  qed
  have c: "2 * (32 :: nat) + 1 = 65" by simp
  have fr: "app_ack_frame l = Some (app_ack_set_ecn l
      ((app_ack_prune (ack_zero\<lparr>af_ranges := take 32 bs\<rparr>) (as_floor1 l))
        \<lparr>af_ack_delay := ack_delay_encode ((as_now_ms l - ap_since_tick (as_policy l)) * 1000) 3\<rparr>))"
    using any conv_all_pairs_raw [OF ne k(1,2), of 0, unfolded k(3) hd]
    unfolding app_ack_frame_def pnspaces_ack_ranges_def ackrangeconv_to_frame_def Let_def ACK_MAX_RANGES_def c
    by (simp only: w(4) mn ro not_True_eq_False not_False_eq_True if_True if_False Option.bind.simps prod.case)
  define g where "g = app_ack_prune (ack_zero\<lparr>af_ranges := take 32 bs\<rparr>) (as_floor1 l)"
  have t: "af_ranges (ack_zero\<lparr>af_ranges := take 32 bs\<rparr>) = take 32 bs" by simp
  have desc32: "ranges_desc (take 32 bs)" "take 32 bs \<noteq> []" using ranges_desc_take [OF w(1)] ne by auto
  note pr = app_ack_prune_props [of "ack_zero\<lparr>af_ranges := take 32 bs\<rparr>" "as_floor1 l", unfolded t, OF desc32, folded g_def]
  have z: "\<not> af_has_ecn g \<and> af_ect0 g = 0 \<and> af_ect1 g = 0 \<and> af_ce g = 0"
    by (simp add: g_def app_ack_prune_def Let_def ack_zero_def)
  have hi0: "ar_hi (take 32 bs ! 0) = rp_largest ?r" using hd ne by (simp add: hd_conv_nth)
  have sub: "ranges_set (take 32 bs) \<subseteq> ranges_set bs" unfolding ranges_set_def using set_take_subset by fastforce
  have "\<forall>f. f = app_ack_set_ecn l (g\<lparr>af_ack_delay := d\<rparr>) \<longrightarrow> af_ranges f = af_ranges g \<and> af_ack_delay f = d
      \<and> (if as_ecn_ect0 l \<noteq> 0 \<or> as_ecn_ect1 l \<noteq> 0 \<or> as_ecn_ce l \<noteq> 0
         then af_has_ecn f \<and> af_ect0 f = as_ecn_ect0 l \<and> af_ect1 f = as_ecn_ect1 l \<and> af_ce f = as_ecn_ce l
         else \<not> af_has_ecn f \<and> af_ect0 f = 0 \<and> af_ect1 f = 0 \<and> af_ce f = 0)" for d
    using z by (auto simp: app_ack_set_ecn_def)
  note fields = this [rule_format, OF refl]
  have len: "length (af_ranges g) \<le> ACK_MAX_RANGES" using pr(3) by (simp add: ACK_MAX_RANGES_def)
  have up: "ranges_set (af_ranges g) \<subseteq> {x \<in> S. L \<le> x + 64}" using pr(5) sub w(2) by blast
  have down: "{x \<in> S. L < x + 64 \<and> unat (as_floor1 l) \<le> x} \<subseteq> ranges_set (af_ranges g)" using pr(6) w(5) by blast
  have floor: "unat (as_floor1 l) \<le> L \<longrightarrow> (\<forall>x \<in> ranges_set (af_ranges g). unat (as_floor1 l) \<le> x)"
    using pr(7) unfolding hi0 u64_le_mono L_def by blast
  define F where "F = app_ack_set_ecn l (g\<lparr>af_ack_delay := ack_delay_encode ((as_now_ms l - ap_since_tick (as_policy l)) * 1000) 3\<rparr>)"
  note fF = fields [of "ack_delay_encode ((as_now_ms l - ap_since_tick (as_policy l)) * 1000) 3", folded F_def]
  have ar: "af_ranges F = af_ranges g" using fF by blast
  have top: "ar_hi (af_ranges g ! 0) = rp_largest ?r" using pr(4) hi0 by simp
  have eq: "app_ack_frame l = Some F" unfolding fr g_def F_def ..
  show ?thesis
  proof (rule exI [of _ F], unfold ar, intro conjI)
  qed (use fF pr(1,2) len up down floor top eq in \<open>blast+\<close>)
qed

lemma length_blocks_from: "length (blocks_from hi lo ps) \<le> Suc (length ps)"
  by (induction hi lo ps rule: blocks_from.induct) auto

lemma recvpn_ok_received: "recvpn_ok (fold (\<lambda>pn r. recvpn_record r pn) pns recvpn_init) (unat ` set pns)"
  using recvpn_fold_ok [OF recvpn_ok_init, of pns] by simp

lemma recvpn_any_received: "pns \<noteq> [] \<Longrightarrow> rp_any (fold (\<lambda>pn r. recvpn_record r pn) pns recvpn_init)"
  using recvpn_ok_received [of pns] by (auto simp: recvpn_ok_def split: if_splits)

lemma recvpn_largest_received:
  "pns \<noteq> [] \<Longrightarrow> unat (rp_largest (fold (\<lambda>pn r. recvpn_record r pn) pns recvpn_init)) = Max (unat ` set pns)"
  using recvpn_ok_received [of pns] recvpn_any_received [of pns]
  by (intro Max_eqI [symmetric]) (auto simp: recvpn_ok_def)

section \<open>Properties\<close>

text \<open>
  The range builder is exact. From a strictly ascending list of received packet numbers it
  produces, given room for \<open>2 n - 1\<close> values, a largest number and gap encoded ranges; converted to
  a frame these are well-formed descending ranges that contain precisely the listed numbers.
\<close>

theorem ack_ranges_exact:
  assumes "sorted_wrt (<) pns" and "pns \<noteq> []"
  shows "(2 * length pns - 1 \<le> cap \<longrightarrow> ackgen_build_ranges pns cap \<noteq> None)
    \<and> (ackgen_build_ranges pns cap = Some (largest, raw) \<longrightarrow> largest = last pns
        \<and> (length raw \<le> 63 \<longrightarrow> ackrangeconv_to_frame largest raw (length raw) f \<noteq> None)
        \<and> (ackrangeconv_to_frame largest raw (length raw) f = Some g \<longrightarrow>
             ranges_desc (af_ranges g) \<and> ranges_set (af_ranges g) = unat ` set pns))"
proof -
  define bs where "bs = blocks_from (last pns) (last pns) (tl (rev pns))"
  note build = ackgen_build_ranges_eq [OF assms(2), of cap, folded bs_def]
  have ne: "bs \<noteq> []" and hd: "ar_hi (hd bs) = last pns" by (simp_all add: bs_def)
  have "length bs \<le> length pns" using length_blocks_from [of "last pns" "last pns" "tl (rev pns)"] assms(2) by (simp add: bs_def)
  then have len: "length (raw_blocks True 0 bs) = 2 * length bs - 1" "length (raw_blocks True 0 bs) \<le> 2 * length pns - 1"
    using ne by (simp_all add: length_raw_blocks)
  have rv: "rev pns = last pns # tl (rev pns)" using assms(2) by (metis hd_rev list.collapse rev_is_Nil_conv)
  have "sorted_wrt (>) (rev pns)" using assms(1) by (simp add: sorted_wrt_rev)
  then have sorted: "sorted_wrt (>) (last pns # tl (rev pns))" using rv by metis
  have set: "set pns = insert (last pns) (set (tl (rev pns)))" using rv by (metis list.set(2) set_rev)
  have bs: "ranges_desc bs" "ranges_set bs = unat ` set pns"
    using blocks_from_desc [OF sorted, of "last pns"] blocks_from_set [OF sorted, of "last pns"] by (simp_all add: bs_def set)
  have ok: "raw_ok (length (raw_blocks True 0 bs)) \<longleftrightarrow> length bs \<le> 32"
    using ne unfolding len(1) raw_ok_def ACK_MAX_RANGES_def by (cases bs) auto
  have conv: "ackrangeconv_to_frame (last pns) (raw_blocks True 0 bs) (length (raw_blocks True 0 bs)) f
      = (if length bs \<le> 32 then Some (f\<lparr>af_ranges := bs\<rparr>) else None)"
    using conv_all_pairs_raw [OF ne, of "length bs" 0] ne ok unfolding ackrangeconv_to_frame_def hd len(1)
    by simp
  have short: "length (raw_blocks True 0 bs) \<le> 63 \<Longrightarrow> length bs \<le> 32" using len(1) by linarith
  show ?thesis
    using len bs conv short unfolding build Let_def by (auto split: if_splits)
qed

theorem ack_ranges_exact_witness:
  "ackgen_build_ranges [3, 4, 9] 5 \<noteq> None"
  using ack_ranges_exact [of "[3, 4, 9]" 5] by simp

text \<open>
  What the server acknowledges. After receiving the packet numbers \<open>pns\<close> in the application
  space the ACK frame it builds is well formed, its largest is the largest received, it names
  only received numbers no more than 64 below that, and it names all of those less than 64
  below that are not under the pruning floor; nothing below the floor is repeated.
\<close>

theorem app_ack_reports_received:
  assumes recv: "as_ack_recv l PNS_APP = fold (\<lambda>pn r. recvpn_record r pn) pns recvpn_init" and "pns \<noteq> []"
  shows "\<exists>f. app_ack_frame l = Some f \<and> ranges_desc (af_ranges f) \<and> af_ranges f \<noteq> [] \<and> length (af_ranges f) \<le> 32
    \<and> unat (ar_hi (af_ranges f ! 0)) = Max (unat ` set pns)
    \<and> ranges_set (af_ranges f) \<subseteq> {x \<in> unat ` set pns. Max (unat ` set pns) \<le> x + 64}
    \<and> {x \<in> unat ` set pns. Max (unat ` set pns) < x + 64 \<and> unat (as_floor1 l) \<le> x} \<subseteq> ranges_set (af_ranges f)
    \<and> (unat (as_floor1 l) \<le> Max (unat ` set pns) \<longrightarrow> (\<forall>x \<in> ranges_set (af_ranges f). unat (as_floor1 l) \<le> x))"
proof -
  have ok: "recvpn_ok (as_ack_recv l PNS_APP) (unat ` set pns)" unfolding recv by (rule recvpn_ok_received)
  have any: "rp_any (as_ack_recv l PNS_APP)" unfolding recv by (rule recvpn_any_received [OF assms(2)])
  have L: "unat (rp_largest (as_ack_recv l PNS_APP)) = Max (unat ` set pns)"
    unfolding recv by (rule recvpn_largest_received [OF assms(2)])
  note P = app_ack_frame_props [OF ok any, unfolded L ACK_MAX_RANGES_def]
  show ?thesis by (rule ex_forward [OF P]) (elim conjE, intro conjI, (assumption | simp only: L)+)
qed

definition ack_source_example :: ack_source where
  "ack_source_example = \<lparr>as_ack_recv = (\<lambda>_. fold (\<lambda>pn r. recvpn_record r pn) [1, 2, 7] recvpn_init), as_floor1 = 2,
     as_now_ms = 5, as_policy = ackpolicy_init, as_ecn_ect0 = 0, as_ecn_ect1 = 0, as_ecn_ce = 0, as_ack_defer = False\<rparr>"

theorem app_ack_reports_received_witness:
  "\<exists>f. app_ack_frame ack_source_example = Some f \<and> {2, 7} \<subseteq> ranges_set (af_ranges f) \<and> 1 \<notin> ranges_set (af_ranges f)"
proof -
  have r: "as_ack_recv ack_source_example PNS_APP = fold (\<lambda>pn r. recvpn_record r pn) [1, 2, 7] recvpn_init"
    by (simp only: ack_source_example_def ack_source.simps)
  have fl: "as_floor1 ack_source_example = 2" by (simp add: ack_source_example_def)
  from app_ack_reports_received [OF r] obtain f where f: "app_ack_frame ack_source_example = Some f"
    "{x \<in> unat ` set [1, 2, 7 :: u64]. Max (unat ` set [1, 2, 7 :: u64]) < x + 64 \<and> unat (2 :: u64) \<le> x} \<subseteq> ranges_set (af_ranges f)"
    "\<forall>x \<in> ranges_set (af_ranges f). unat (2 :: u64) \<le> x"
    unfolding fl by auto
  have "\<not> unat (2 :: u64) \<le> 1" by simp
  then have "1 \<notin> ranges_set (af_ranges f)" using f(3) by blast
  moreover have "{2, 7} \<subseteq> ranges_set (af_ranges f)" using f(2) by auto
  ultimately show ?thesis using f(1) by blast
qed

lemma ackpolicy_fold:
  "unat (ap_pending p) + length ticks < 2 ^ 64 \<Longrightarrow>
   unat (ap_pending (fold (\<lambda>t p. ackpolicy_on_eliciting p t) ticks p)) = unat (ap_pending p) + length ticks
   \<and> ap_immediate (fold (\<lambda>t p. ackpolicy_on_eliciting p t) ticks p) = ap_immediate p
   \<and> (ap_pending p \<noteq> 0 \<longrightarrow> ap_since_tick (fold (\<lambda>t p. ackpolicy_on_eliciting p t) ticks p) = ap_since_tick p)"
proof (induction ticks arbitrary: p)
  case (Cons t ticks)
  let ?p = "ackpolicy_on_eliciting p t"
  have n: "unat (ap_pending ?p) = unat (ap_pending p) + 1" "ap_immediate ?p = ap_immediate p"
    "ap_pending p \<noteq> 0 \<Longrightarrow> ap_since_tick ?p = ap_since_tick p"
    using Cons.prems unat_Suc_u64 [of "ap_pending p"] by (auto simp: ackpolicy_on_eliciting_def Let_def)
  have nz: "ap_pending ?p \<noteq> 0"
  proof
    assume "ap_pending ?p = 0"
    then have "unat (ap_pending ?p) = 0" by simp
    then show False using n(1) by linarith
  qed
  have lt: "unat (ap_pending ?p) + length ticks < 2 ^ 64" using Cons.prems n(1) by simp
  show ?case using Cons.IH [OF lt] n nz by simp
qed simp

text \<open>
  C31. The delayed-ACK state machine decides as the stateless rule. After an ACK was sent and
  ack-eliciting packets then arrived at the given ticks, an ACK is due exactly when there are
  two of them, one was urgent, or \<open>max_ack_delay\<close> has passed since the first; without urgent
  packets this is \<open>ackgen_due\<close>, and for at most two packets \<open>ackgen_should_ack\<close>.
\<close>

theorem ack_policy_exact:
  assumes "ticks \<noteq> []" and "length ticks < 2 ^ 32"
    and p: "p = fold (\<lambda>t p. ackpolicy_on_eliciting p t) ticks (ackpolicy_on_ack_sent p0)"
  shows "(ackpolicy_should_ack p now mad \<longleftrightarrow> ackgen_due (of_nat (length ticks)) (now - hd ticks) mad)
    \<and> ackpolicy_should_ack (ackpolicy_on_urgent p) now mad
    \<and> \<not> ackpolicy_should_ack (ackpolicy_on_ack_sent p) now mad
    \<and> (length ticks \<le> 2 \<longrightarrow> ackpolicy_should_ack p now mad \<longleftrightarrow>
        ackgen_should_ack \<lparr>ag_ack_eliciting_received = True, ag_ack_already_pending = (length ticks = 2),
          ag_since_last_ack = now - hd ticks\<rparr> mad)"
proof -
  obtain t ts where ts: "ticks = t # ts" using assms(1) by (cases ticks) auto
  let ?q = "ackpolicy_on_eliciting (ackpolicy_on_ack_sent p0) t"
  have q: "ap_pending ?q = 1" "ap_since_tick ?q = t" "\<not> ap_immediate ?q"
    by (simp_all add: ackpolicy_on_eliciting_def ackpolicy_on_ack_sent_def Let_def)
  have len: "unat (ap_pending ?q) + length ts < 2 ^ 64" using assms(2) q ts by simp
  have pp: "p = fold (\<lambda>t p. ackpolicy_on_eliciting p t) ts ?q" using p ts by simp
  have f: "unat (ap_pending p) = length ticks" "\<not> ap_immediate p" "ap_since_tick p = t"
    using ackpolicy_fold [OF len] q unfolding pp by (simp_all add: ts)
  have pos: "ap_pending p \<noteq> 0" using f(1) ts by (metis list.size(4) nat.simps(3) add_Suc_right unat_eq_zero)
  have two: "ap_pending p \<ge> 2 \<longleftrightarrow> length ticks \<ge> 2" using f(1) by (simp add: u64_le_mono)
  have n32: "unat (of_nat (length ticks) :: u32) = length ticks"
    using assms(2) by (simp add: unsigned_of_nat take_bit_eq_mod)
  have w: "(of_nat (length ticks) :: u32) \<noteq> 0" "(of_nat (length ticks) :: u32) \<ge> 2 \<longleftrightarrow> length ticks \<ge> 2"
    using n32 ts by (auto simp: word_le_nat_alt simp del: of_nat_Suc)
  show ?thesis
    using pos two f w ts
    by (auto simp: ackpolicy_should_ack_def ack_at_once_def delay_elapsed_def ackgen_due_def ackgen_should_ack_def
        ackpolicy_on_urgent_def ackpolicy_on_ack_sent_def simp del: of_nat_Suc)
qed

theorem ack_policy_exact_witness:
  "ackpolicy_should_ack (fold (\<lambda>t p. ackpolicy_on_eliciting p t) [10, 12] (ackpolicy_on_ack_sent ackpolicy_init)) 12 25"
  using ack_policy_exact [of "[10, 12]" _ ackpolicy_init 12 25, OF _ _ refl] by (simp add: ackgen_due_def)

end
