(* ===== verification/Sent_Packets.thy ===== *)
theory Sent_Packets
  imports Ack_Gen "HOL-Library.Multiset"
begin

unbundle bit_operations_syntax

text \<open>
  The sender's side of acknowledgments: the sent-packet table \<^verbatim>\<open>src/transport/recovery/rtx/sentpkt\<close>
  with \<^verbatim>\<open>ack_process.c\<close> and \<^verbatim>\<open>ackrange_process.c\<close>, its three copies in \<^verbatim>\<open>pnspaces/sent_spaces.c\<close>, and the
  byte-counting table \<^verbatim>\<open>src/transport/recovery/detect/recovery/sent.c\<close>. A table is the list of its
  slots; the array \<open>out\<close> of newly acknowledged numbers is a list.
\<close>

section \<open>sentpkt.c\<close>

definition SENTPKT_CAP :: nat where "SENTPKT_CAP = 256"

datatype sp_state = SP_INFLIGHT | SP_ACKED | SP_LOST

record sentpkt_entry =
  se_pn :: u64
  se_time_sent :: u64
  se_size :: u64
  se_ack_eliciting :: bool
  se_state :: sp_state
  se_used :: bool

type_synonym sentpkt = "sentpkt_entry list"

definition sentpkt_init :: "sentpkt \<Rightarrow> sentpkt" where
  "sentpkt_init t = map (\<lambda>e. e\<lparr>se_used := False\<rparr>) t"

definition sentpkt_free_slot :: "sentpkt \<Rightarrow> nat" where
  "sentpkt_free_slot t = scan (\<lambda>i. se_used (t ! i)) SENTPKT_CAP 0"

record sentpkt_out =
  so_pn :: u64
  so_time :: u64
  so_ack_eliciting :: bool
  so_size :: u64

definition sentpkt_on_send :: "sentpkt \<Rightarrow> sentpkt_out \<Rightarrow> bool \<times> sentpkt" where
  "sentpkt_on_send t pkt =
     (let i = sentpkt_free_slot t
      in if i = SENTPKT_CAP then (False, t)
         else (True, t[i := \<lparr>se_pn = so_pn pkt, se_time_sent = so_time pkt, se_size = so_size pkt,
                se_ack_eliciting = so_ack_eliciting pkt, se_state = SP_INFLIGHT, se_used = True\<rparr>]))"

definition sentpkt_count :: "sentpkt \<Rightarrow> nat" where
  "sentpkt_count t = fold (\<lambda>i n. n + (if se_used (t ! i) then 1 else 0)) [0..<SENTPKT_CAP] 0"

section \<open>ack\_process.c\<close>

definition slot_in_range :: "sentpkt_entry \<Rightarrow> u64 \<Rightarrow> u64 \<Rightarrow> bool" where
  "slot_in_range p lo hi \<longleftrightarrow> se_used p \<and> se_state p = SP_INFLIGHT \<and> se_pn p \<ge> lo \<and> se_pn p \<le> hi"

definition ap_ack_range :: "u64 \<Rightarrow> u64 \<Rightarrow> sentpkt \<times> u64 list \<Rightarrow> sentpkt \<times> u64 list" where
  "ap_ack_range lo hi =
     fold (\<lambda>i (t, out). if slot_in_range (t ! i) lo hi
                         then (t[i := (t ! i)\<lparr>se_state := SP_ACKED, se_used := False\<rparr>], out @ [se_pn (t ! i)])
                         else (t, out)) [0..<SENTPKT_CAP]"

record ackset =
  as_ack_largest :: u64
  as_ack_ranges :: "u64 list"

text \<open>The loop \<^verbatim>\<open>for (i = 1; i + 1 < n_ranges; i += 2)\<close> over (gap, length) pairs.\<close>

fun ap_pairs_loop :: "u64 \<Rightarrow> u64 list \<Rightarrow> sentpkt \<times> u64 list \<Rightarrow> sentpkt \<times> u64 list" where
  "ap_pairs_loop lo (gap # len # rest) s =
     (let hi = lo - gap - 2; lo' = hi - len in ap_pairs_loop lo' rest (ap_ack_range lo' hi s))"
| "ap_pairs_loop lo _ s = s"

definition ack_process :: "sentpkt \<Rightarrow> ackset \<Rightarrow> sentpkt \<times> u64 list" where
  "ack_process t acked =
     (case as_ack_ranges acked of [] \<Rightarrow> (t, [])
      | first # rest \<Rightarrow>
          let hi = as_ack_largest acked; lo = hi - first
          in ap_pairs_loop lo rest (ap_ack_range lo hi (t, [])))"

section \<open>ackrange\_process.c\<close>

definition akr_ack_range :: "u64 \<Rightarrow> u64 \<Rightarrow> sentpkt \<times> u64 list \<Rightarrow> sentpkt \<times> u64 list" where
  "akr_ack_range lo hi =
     fold (\<lambda>i (t, out). if slot_in_range (t ! i) lo hi
                         then (t[i := (t ! i)\<lparr>se_state := SP_ACKED, se_used := False\<rparr>], out @ [se_pn (t ! i)])
                         else (t, out)) [0..<SENTPKT_CAP]"

definition ackrange_process :: "sentpkt \<Rightarrow> bytes \<Rightarrow> (sentpkt \<times> u64 list) option" where
  "ackrange_process t acks =
     (case ack_decode acks of None \<Rightarrow> None
      | Some (f, _) \<Rightarrow> Some (fold (\<lambda>r. akr_ack_range (ar_lo r) (ar_hi r)) (af_ranges f) (t, [])))"

section \<open>sent\_spaces.c\<close>

type_synonym pnspaces_sent = "pns_space \<Rightarrow> sentpkt"

definition pnspaces_on_send :: "pnspaces_sent \<Rightarrow> pns_space \<Rightarrow> sentpkt_out \<Rightarrow> bool \<times> pnspaces_sent" where
  "pnspaces_on_send s space pkt = (let (ok, t) = sentpkt_on_send (s space) pkt in (ok, s(space := t)))"

definition pnspaces_on_ack :: "pnspaces_sent \<Rightarrow> pns_space \<Rightarrow> ackset \<Rightarrow> pnspaces_sent \<times> u64 list" where
  "pnspaces_on_ack s space acks = (let (t, acked) = ack_process (s space) acks in (s(space := t), acked))"

definition pnspaces_sent_discard :: "pnspaces_sent \<Rightarrow> pns_space \<Rightarrow> pnspaces_sent" where
  "pnspaces_sent_discard s space = s(space := sentpkt_init (s space))"

section \<open>sent.c\<close>

definition SENT_CAP :: nat where "SENT_CAP = 256"

datatype pkt_state = PKT_INFLIGHT | PKT_ACKED | PKT_LOST

record sent_pkt =
  st_pn :: u64
  st_size :: u64
  st_time_sent :: u64
  st_state :: pkt_state
  st_used :: bool

record sent =
  sn_pkts :: "sent_pkt list"
  sn_bytes_in_flight :: u64
  sn_largest_acked :: u64
  sn_have_acked :: bool

definition sent_init :: "sent \<Rightarrow> sent" where
  "sent_init s = \<lparr>sn_pkts = map (\<lambda>p. p\<lparr>st_used := False\<rparr>) (sn_pkts s), sn_bytes_in_flight = 0,
     sn_largest_acked = 0, sn_have_acked = False\<rparr>"

definition free_slot :: "sent \<Rightarrow> nat" where
  "free_slot s = scan (\<lambda>i. st_used (sn_pkts s ! i)) SENT_CAP 0"

definition sent_on_send :: "sent \<Rightarrow> u64 \<Rightarrow> u64 \<Rightarrow> u64 \<Rightarrow> bool \<times> sent" where
  "sent_on_send s pn sz time_sent =
     (let i = free_slot s
      in if i = SENT_CAP then (False, s)
         else (True, s\<lparr>sn_pkts := (sn_pkts s)[i := \<lparr>st_pn = pn, st_size = sz, st_time_sent = time_sent,
                          st_state = PKT_INFLIGHT, st_used = True\<rparr>],
                       sn_bytes_in_flight := sn_bytes_in_flight s + sz\<rparr>))"

definition find_pn :: "sent \<Rightarrow> u64 \<Rightarrow> nat" where
  "find_pn s pn = scan (\<lambda>i. \<not> (st_used (sn_pkts s ! i) \<and> st_pn (sn_pkts s ! i) = pn)) SENT_CAP 0"

definition note_acked :: "sent \<Rightarrow> u64 \<Rightarrow> sent" where
  "note_acked s pn =
     (if \<not> sn_have_acked s \<or> pn > sn_largest_acked s then s\<lparr>sn_largest_acked := pn\<rparr> else s)\<lparr>sn_have_acked := True\<rparr>"

definition sent_on_ack :: "sent \<Rightarrow> u64 \<Rightarrow> bool \<times> sent" where
  "sent_on_ack s pn =
     (let i = find_pn s pn; s = note_acked s pn
      in if i = SENT_CAP \<or> st_state (sn_pkts s ! i) \<noteq> PKT_INFLIGHT then (False, s)
         else (True, s\<lparr>sn_bytes_in_flight := sn_bytes_in_flight s - st_size (sn_pkts s ! i),
                       sn_pkts := (sn_pkts s)[i := (sn_pkts s ! i)\<lparr>st_state := PKT_ACKED\<rparr>]\<rparr>))"

definition is_lost :: "sent \<Rightarrow> nat \<Rightarrow> bool" where
  "is_lost s i \<longleftrightarrow> st_used (sn_pkts s ! i) \<and> st_state (sn_pkts s ! i) = PKT_INFLIGHT
     \<and> sn_largest_acked s \<ge> st_pn (sn_pkts s ! i) + 3"

definition lose_one :: "sent \<Rightarrow> nat \<Rightarrow> sent" where
  "lose_one s i = s\<lparr>sn_bytes_in_flight := sn_bytes_in_flight s - st_size (sn_pkts s ! i),
     sn_pkts := (sn_pkts s)[i := (sn_pkts s ! i)\<lparr>st_state := PKT_LOST\<rparr>]\<rparr>"

definition sweep_losses :: "sent \<Rightarrow> nat \<times> sent" where
  "sweep_losses s =
     fold (\<lambda>i (lost, s). if is_lost s i then (lost + 1, lose_one s i) else (lost, s)) [0..<SENT_CAP] (0, s)"

definition sent_detect_loss :: "sent \<Rightarrow> nat \<times> sent" where
  "sent_detect_loss s = (if \<not> sn_have_acked s then (0, s) else sweep_losses s)"

section \<open>Acknowledging a set of packet numbers\<close>

definition live :: "sentpkt_entry \<Rightarrow> bool" where
  "live e \<longleftrightarrow> se_used e \<and> se_state e = SP_INFLIGHT"

text \<open>The reference: acknowledge every live packet whose number is in the set \<open>A\<close>.\<close>

definition ack_entry :: "nat set \<Rightarrow> sentpkt_entry \<Rightarrow> sentpkt_entry" where
  "ack_entry A e = (if live e \<and> unat (se_pn e) \<in> A then e\<lparr>se_state := SP_ACKED, se_used := False\<rparr> else e)"

definition acked_pns :: "nat set \<Rightarrow> sentpkt \<Rightarrow> u64 multiset" where
  "acked_pns A t = image_mset se_pn (filter_mset (\<lambda>e. live e \<and> unat (se_pn e) \<in> A) (mset t))"

text \<open>A step that acknowledges \<open>A\<close>: the table and the collected numbers both agree with the reference.\<close>

definition acks_exactly :: "nat set \<Rightarrow> (sentpkt \<times> u64 list \<Rightarrow> sentpkt \<times> u64 list) \<Rightarrow> bool" where
  "acks_exactly A f \<longleftrightarrow> (\<forall>t out. length t = SENTPKT_CAP \<longrightarrow>
     fst (f (t, out)) = map (ack_entry A) t \<and> mset (snd (f (t, out))) = mset out + acked_pns A t)"

lemma slot_in_range_iff: "slot_in_range e lo hi \<longleftrightarrow> live e \<and> unat (se_pn e) \<in> {unat lo..unat hi}"
  by (auto simp: slot_in_range_def live_def u64_le_mono)

lemma acks_range: "acks_exactly {unat lo..unat hi} (ap_ack_range lo hi)"
  unfolding acks_exactly_def
proof (intro allI impI)
  fix t :: sentpkt and out assume "length t = SENTPKT_CAP"
  then have "ap_ack_range lo hi (t, out) = (map (\<lambda>e. if slot_in_range e lo hi then e\<lparr>se_state := SP_ACKED, se_used := False\<rparr> else e) t,
      out @ map se_pn (filter (\<lambda>e. slot_in_range e lo hi) t))"
    unfolding ap_ack_range_def using fold_slots [of "\<lambda>e. slot_in_range e lo hi" "\<lambda>e. e\<lparr>se_state := SP_ACKED, se_used := False\<rparr>" se_pn t out]
    by simp
  then show "fst (ap_ack_range lo hi (t, out)) = map (ack_entry {unat lo..unat hi}) t
      \<and> mset (snd (ap_ack_range lo hi (t, out))) = mset out + acked_pns {unat lo..unat hi} t"
    by (simp add: slot_in_range_iff ack_entry_def acked_pns_def)
qed

lemma live_ack_entry: "live (ack_entry A e) \<longleftrightarrow> live e \<and> unat (se_pn e) \<notin> A" "se_pn (ack_entry A e) = se_pn e"
  by (auto simp: ack_entry_def live_def)

lemma acks_comp:
  assumes "acks_exactly A f" and "acks_exactly B g"
  shows "acks_exactly (A \<union> B) (g \<circ> f)"
  unfolding acks_exactly_def
proof (intro allI impI)
  fix t :: sentpkt and out assume t: "length t = SENTPKT_CAP"
  obtain t1 out1 where f: "f (t, out) = (t1, out1)" by fastforce
  have t1: "t1 = map (ack_entry A) t" "mset out1 = mset out + acked_pns A t"
    using assms(1) t f unfolding acks_exactly_def by (metis fst_conv, metis snd_conv)
  have g: "fst (g (t1, out1)) = map (ack_entry B) t1" "mset (snd (g (t1, out1))) = mset out1 + acked_pns B t1"
    using assms(2) t t1(1) unfolding acks_exactly_def by simp_all
  have "ack_entry B (ack_entry A e) = ack_entry (A \<union> B) e" for e
    by (auto simp: ack_entry_def live_def)
  moreover have "acked_pns A t + acked_pns B (map (ack_entry A) t) = acked_pns (A \<union> B) t"
  proof (induction t)
    case (Cons e t)
    then show ?case by (auto simp: acked_pns_def live_ack_entry)
  qed (simp add: acked_pns_def)
  ultimately show "fst ((g \<circ> f) (t, out)) = map (ack_entry (A \<union> B)) t
      \<and> mset (snd ((g \<circ> f) (t, out))) = mset out + acked_pns (A \<union> B) t"
    using f g t1 by (simp add: comp_def add.assoc)
qed

lemma acks_fold:
  "acks_exactly (ranges_set rs) (fold (\<lambda>r. ap_ack_range (ar_lo r) (ar_hi r)) rs)"
proof (induction rs)
  case Nil
  have "ack_entry {} e = e" for e by (simp add: ack_entry_def)
  then show ?case by (simp add: acks_exactly_def ranges_set_def acked_pns_def map_idI)
next
  case (Cons r rs)
  have "ranges_set (r # rs) = {unat (ar_lo r)..unat (ar_hi r)} \<union> ranges_set rs" by (auto simp: ranges_set_def)
  then show ?case using acks_comp [OF acks_range Cons.IH, of "ar_lo r" "ar_hi r"] by (simp add: comp_def)
qed

lemma akr_ack_range_eq: "akr_ack_range = ap_ack_range"
  by (intro ext) (simp add: akr_ack_range_def ap_ack_range_def)

text \<open>Decoding the gap encoding of a range list visits exactly its ranges.\<close>

lemma ap_pairs_loop_raw:
  "ap_pairs_loop lo (raw_blocks False lo rs) s = fold (\<lambda>r. ap_ack_range (ar_lo r) (ar_hi r)) rs s"
  by (induction rs arbitrary: lo s) (simp_all add: Let_def)

lemma ack_process_raw:
  assumes "rs \<noteq> []"
  shows "ack_process t \<lparr>as_ack_largest = ar_hi (hd rs), as_ack_ranges = raw_blocks True p rs\<rparr>
    = fold (\<lambda>r. ap_ack_range (ar_lo r) (ar_hi r)) rs (t, [])"
  using assms by (cases rs) (simp_all add: ack_process_def ap_pairs_loop_raw Let_def)

lemma ack_process_exact:
  assumes "rs \<noteq> []" and "length t = SENTPKT_CAP"
    and "ack_process t \<lparr>as_ack_largest = ar_hi (hd rs), as_ack_ranges = raw_blocks True p rs\<rparr> = (t', out)"
  shows "t' = map (ack_entry (ranges_set rs)) t" and "mset out = acked_pns (ranges_set rs) t"
proof -
  let ?r = "fold (\<lambda>r. ap_ack_range (ar_lo r) (ar_hi r)) rs (t, [])"
  have "fst ?r = map (ack_entry (ranges_set rs)) t \<and> mset (snd ?r) = mset [] + acked_pns (ranges_set rs) t"
    using acks_fold [of rs] assms(2) unfolding acks_exactly_def by blast
  moreover have "?r = (t', out)" using assms(3) unfolding ack_process_raw [OF assms(1)] .
  ultimately show "t' = map (ack_entry (ranges_set rs)) t" "mset out = acked_pns (ranges_set rs) t" by simp_all
qed

lemma ackrange_process_eq:
  assumes "ack_decode acks = Some (f, n)"
  shows "ackrange_process t acks
    = Some (ack_process t \<lparr>as_ack_largest = ar_hi (hd (af_ranges f)), as_ack_ranges = raw_blocks True 0 (af_ranges f)\<rparr>)"
proof -
  have "af_ranges f \<noteq> []" using ack_decode_sound [OF assms] by (simp add: ack_wf_def ack_ok_def)
  then show ?thesis using assms by (simp add: ackrange_process_def ack_process_raw akr_ack_range_eq)
qed

section \<open>Bytes in flight\<close>

inductive sent_step :: "sent \<Rightarrow> sent \<Rightarrow> bool" where
  send: "sent_step s s'" if "sent_on_send s pn sz time_sent = (ok, s')"
| ack: "sent_step s s'" if "sent_on_ack s pn = (ok, s')"
| loss: "sent_step s s'" if "sent_detect_loss s = (n, s')"

inductive_cases sent_stepE: "sent_step s s'"

definition in_flight_size :: "sent_pkt \<Rightarrow> u64" where
  "in_flight_size p = (if st_used p \<and> st_state p = PKT_INFLIGHT then st_size p else 0)"

definition sent_ok :: "sent \<Rightarrow> bool" where
  "sent_ok s \<longleftrightarrow> length (sn_pkts s) = SENT_CAP \<and> sn_bytes_in_flight s = sum_list (map in_flight_size (sn_pkts s))"

lemma sent_init_ok: "length (sn_pkts s) = SENT_CAP \<Longrightarrow> sent_ok (sent_init s)"
  by (simp add: sent_ok_def sent_init_def in_flight_size_def comp_def)

lemma free_slot_free: "free_slot s \<noteq> SENT_CAP \<Longrightarrow> free_slot s < SENT_CAP \<and> \<not> st_used (sn_pkts s ! free_slot s)"
  unfolding free_slot_def by (rule scan0_found)

lemma find_pn_found:
  "find_pn s pn \<noteq> SENT_CAP \<Longrightarrow> find_pn s pn < SENT_CAP \<and> st_used (sn_pkts s ! find_pn s pn) \<and> st_pn (sn_pkts s ! find_pn s pn) = pn"
  unfolding find_pn_def by (drule scan0_found) simp

lemma note_acked_fields [simp]:
  "sn_pkts (note_acked s pn) = sn_pkts s" "sn_bytes_in_flight (note_acked s pn) = sn_bytes_in_flight s"
  by (simp_all add: note_acked_def)

lemma sent_on_send_ok: "sent_ok s \<Longrightarrow> sent_ok (snd (sent_on_send s pn sz t))"
  using free_slot_free [of s]
  by (auto simp: sent_on_send_def sent_ok_def Let_def sum_list_map_update in_flight_size_def)

lemma sent_on_ack_ok: "sent_ok s \<Longrightarrow> sent_ok (snd (sent_on_ack s pn))"
  using find_pn_found [of s pn]
  by (auto simp: sent_on_ack_def sent_ok_def Let_def sum_list_map_update in_flight_size_def)

text \<open>The loss sweep, slot by slot.\<close>

definition lost_by :: "u64 \<Rightarrow> sent_pkt \<Rightarrow> bool" where
  "lost_by largest p \<longleftrightarrow> st_used p \<and> st_state p = PKT_INFLIGHT \<and> largest \<ge> st_pn p + 3"

lemma sweep_losses_eq:
  assumes "sent_ok s"
  shows "fst (sweep_losses s) = length (filter (lost_by (sn_largest_acked s)) (sn_pkts s))"
    and "sn_pkts (snd (sweep_losses s)) = map (\<lambda>p. if lost_by (sn_largest_acked s) p then p\<lparr>st_state := PKT_LOST\<rparr> else p) (sn_pkts s)"
    and "sent_ok (snd (sweep_losses s))"
proof -
  let ?b = "\<lambda>i (lost, s). if is_lost s i then (lost + 1, lose_one s i) else (lost, s)"
  let ?L = "lost_by (sn_largest_acked s)" and ?m = "map (\<lambda>p. if lost_by (sn_largest_acked s) p then p\<lparr>st_state := PKT_LOST\<rparr> else p)"
  let ?P = "sn_pkts s"
  have "k \<le> length ?P \<Longrightarrow> \<exists>s'. fold ?b [0..<k] (0, s) = (length (filter ?L (take k ?P)), s') \<and> sent_ok s'
      \<and> sn_largest_acked s' = sn_largest_acked s \<and> sn_pkts s' = ?m (take k ?P) @ drop k ?P" for k
  proof (induction k)
    case 0
    then show ?case using assms by simp
  next
    case (Suc k)
    then obtain s' where s': "fold ?b [0..<k] (0, s) = (length (filter ?L (take k ?P)), s')" "sent_ok s'"
      "sn_largest_acked s' = sn_largest_acked s" "sn_pkts s' = ?m (take k ?P) @ drop k ?P" by auto
    have k: "k < length ?P" using Suc.prems by simp
    have d: "drop k ?P = ?P ! k # drop (Suc k) ?P" using k by (simp add: Cons_nth_drop_Suc)
    have t: "take (Suc k) ?P = take k ?P @ [?P ! k]" using k by (simp add: take_Suc_conv_app_nth)
    have n: "sn_pkts s' ! k = ?P ! k" using k by (simp add: s'(4) nth_append)
    have l: "is_lost s' k \<longleftrightarrow> ?L (?P ! k)" by (simp add: is_lost_def lost_by_def n s'(3))
    have k': "k < length (sn_pkts s')" using k by (simp add: s'(4))
    show ?case
    proof (cases "?L (?P ! k)")
      case True
      then have "sent_ok (lose_one s' k)"
        using s'(2) k' by (auto simp: sent_ok_def lose_one_def sum_list_map_update in_flight_size_def lost_by_def n)
      moreover have "sn_pkts (lose_one s' k) = ?m (take (Suc k) ?P) @ drop (Suc k) ?P"
        using True k by (simp add: lose_one_def n) (simp add: s'(4) t d list_update_append)
      ultimately show ?thesis using True s' l t by (simp add: lose_one_def)
    next
      case False
      then show ?thesis using s' l t d by simp
    qed
  qed
  from this [of "length ?P"] show "fst (sweep_losses s) = length (filter ?L ?P)" "sn_pkts (snd (sweep_losses s)) = ?m ?P"
    "sent_ok (snd (sweep_losses s))"
    using assms by (auto simp: sweep_losses_def sent_ok_def)
qed

lemma sent_step_ok: "sent_step s s' \<Longrightarrow> sent_ok s \<Longrightarrow> sent_ok s'"
  by (induction rule: sent_step.induct)
    (metis sent_on_send_ok snd_conv, metis sent_on_ack_ok snd_conv, metis sent_detect_loss_def sweep_losses_eq(3) snd_conv)

lemma sent_steps_ok: "sent_step\<^sup>*\<^sup>* s s' \<Longrightarrow> sent_ok s \<Longrightarrow> sent_ok s'"
  by (induction rule: rtranclp_induct) (auto intro: sent_step_ok)

text \<open>No operation ever frees a slot.\<close>

lemma sent_step_used:
  assumes "sent_step s s'" and "sent_ok s" and "i < SENT_CAP" and "st_used (sn_pkts s ! i)"
  shows "st_used (sn_pkts s' ! i)"
  using assms(1)
proof cases
  case (send pn sz time_sent ok)
  then show ?thesis using assms free_slot_free [of s]
    by (auto simp: sent_on_send_def sent_ok_def Let_def nth_list_update split: if_splits)
next
  case (ack pn ok)
  then show ?thesis using assms find_pn_found [of s pn]
    by (auto simp: sent_on_ack_def sent_ok_def Let_def nth_list_update split: if_splits)
next
  case (loss n)
  then show ?thesis using assms sweep_losses_eq(2) [OF assms(2)]
    by (auto simp: sent_detect_loss_def sent_ok_def split: if_splits)
qed

lemma sent_steps_full:
  assumes "sent_step\<^sup>*\<^sup>* s s'" and "sent_ok s" and "\<forall>i < SENT_CAP. st_used (sn_pkts s ! i)"
  shows "\<forall>i < SENT_CAP. st_used (sn_pkts s' ! i)"
  using assms(1)
proof (induction rule: rtranclp_induct)
  case (step y z)
  then show ?case using sent_step_used [OF step.hyps(2)] sent_steps_ok [OF step.hyps(1) assms(2)] by blast
qed (use assms(3) in blast)

lemma sent_reack:
  assumes "sent_on_ack s pn = (ok, s')" and "sent_ok s"
  shows "fst (sent_on_ack s' pn) = False" and "sn_pkts (snd (sent_on_ack s' pn)) = sn_pkts s'"
    and "sn_bytes_in_flight (snd (sent_on_ack s' pn)) = sn_bytes_in_flight s'"
proof -
  let ?i = "find_pn s pn"
  have pk: "sn_pkts s' = (if ok then (sn_pkts s)[?i := (sn_pkts s ! ?i)\<lparr>st_state := PKT_ACKED\<rparr>] else sn_pkts s)"
    and no: "\<not> ok \<Longrightarrow> ?i = SENT_CAP \<or> st_state (sn_pkts s ! ?i) \<noteq> PKT_INFLIGHT" and yes: "ok \<Longrightarrow> ?i \<noteq> SENT_CAP"
    using assms(1) by (auto simp: sent_on_ack_def Let_def split: if_splits)
  have "st_used (sn_pkts s' ! i) = st_used (sn_pkts s ! i) \<and> st_pn (sn_pkts s' ! i) = st_pn (sn_pkts s ! i)" for i
    using pk by (cases "i = ?i \<and> ?i < length (sn_pkts s)") (auto simp: nth_list_update list_update_beyond)
  then have f: "find_pn s' pn = ?i" by (simp add: find_pn_def)
  have "?i = SENT_CAP \<or> st_state (sn_pkts s' ! ?i) \<noteq> PKT_INFLIGHT"
    using no yes pk find_pn_found [of s pn] assms(2) by (auto simp: sent_ok_def)
  then have "sent_on_ack s' pn = (False, note_acked s' pn)" by (auto simp: sent_on_ack_def f Let_def)
  then show "fst (sent_on_ack s' pn) = False" "sn_pkts (snd (sent_on_ack s' pn)) = sn_pkts s'"
    "sn_bytes_in_flight (snd (sent_on_ack s' pn)) = sn_bytes_in_flight s'" by simp_all
qed

section \<open>Properties\<close>

text \<open>
  Byte accounting. After any sequence of sends, acknowledgments and loss passes on an
  initialised table, bytes in flight is the sum of the sizes of the packets still in flight;
  acknowledging a number a second time changes neither table nor count; a loss pass marks
  exactly the in-flight packets three or more below the largest acknowledged and reports how
  many.
\<close>

theorem sent_accounting:
  assumes len: "length (sn_pkts s0) = 256" and steps: "sent_step\<^sup>*\<^sup>* (sent_init s0) s"
  shows "sn_bytes_in_flight s = sum_list (map (\<lambda>p. if st_used p \<and> st_state p = PKT_INFLIGHT then st_size p else 0) (sn_pkts s))
    \<and> (\<not> fst (sent_on_ack (snd (sent_on_ack s pn)) pn)
        \<and> sn_pkts (snd (sent_on_ack (snd (sent_on_ack s pn)) pn)) = sn_pkts (snd (sent_on_ack s pn))
        \<and> sn_bytes_in_flight (snd (sent_on_ack (snd (sent_on_ack s pn)) pn)) = sn_bytes_in_flight (snd (sent_on_ack s pn)))
    \<and> (sn_have_acked s \<longrightarrow> fst (sent_detect_loss s) = length (filter (lost_by (sn_largest_acked s)) (sn_pkts s))
        \<and> sn_pkts (snd (sent_detect_loss s))
          = map (\<lambda>p. if lost_by (sn_largest_acked s) p then p\<lparr>st_state := PKT_LOST\<rparr> else p) (sn_pkts s))"
proof -
  have ok: "sent_ok s" using sent_steps_ok [OF steps sent_init_ok] len by (simp add: SENT_CAP_def)
  obtain b s1 where r: "sent_on_ack s pn = (b, s1)" by fastforce
  have fs: "(\<lambda>p. if st_used p \<and> st_state p = PKT_INFLIGHT then st_size p else 0) = in_flight_size"
    by (auto simp: in_flight_size_def)
  show ?thesis
    using ok sent_reack [OF r ok] sweep_losses_eq(1,2) [OF ok] unfolding fs
    by (simp add: r sent_ok_def sent_detect_loss_def)
qed

definition sent_blank :: sent where
  "sent_blank = \<lparr>sn_pkts = replicate 256 \<lparr>st_pn = 0, st_size = 0, st_time_sent = 0, st_state = PKT_LOST, st_used = True\<rparr>,
     sn_bytes_in_flight = 5, sn_largest_acked = 0, sn_have_acked = True\<rparr>"

theorem sent_accounting_witness:
  "sn_bytes_in_flight (snd (sent_on_send (sent_init sent_blank) 1 1200 0))
   = sum_list (map (\<lambda>p. if st_used p \<and> st_state p = PKT_INFLIGHT then st_size p else 0)
       (sn_pkts (snd (sent_on_send (sent_init sent_blank) 1 1200 0))))"
proof -
  have "length (sn_pkts sent_blank) = 256" by (simp add: sent_blank_def)
  moreover have "sent_step (sent_init sent_blank) (snd (sent_on_send (sent_init sent_blank) 1 1200 0))"
    by (rule sent_step.send [of _ 1 1200 0 "fst (sent_on_send (sent_init sent_blank) 1 1200 0)"]) simp
  then have "sent_step\<^sup>*\<^sup>* (sent_init sent_blank) (snd (sent_on_send (sent_init sent_blank) 1 1200 0))" by blast
  ultimately show ?thesis using sent_accounting by blast
qed

text \<open>
  Slots of this table are never reclaimed: once all 256 are used, whatever is acknowledged
  or declared lost afterwards, every further send is refused.
\<close>

theorem sent_table_never_frees:
  assumes "length (sn_pkts s0) = 256" and "sent_step\<^sup>*\<^sup>* (sent_init s0) s"
    and "\<forall>i < 256. st_used (sn_pkts s ! i)" and "sent_step\<^sup>*\<^sup>* s s'"
  shows "sent_on_send s' pn sz t = (False, s')"
proof -
  have "sent_ok s" using sent_steps_ok [OF assms(2) sent_init_ok] assms(1) by (simp add: SENT_CAP_def)
  then have "\<forall>i < SENT_CAP. st_used (sn_pkts s' ! i)"
    using sent_steps_full [OF assms(4)] assms(3) by (simp add: SENT_CAP_def)
  then show ?thesis by (simp add: sent_on_send_def free_slot_def scan0_full)
qed

lemma send_many_used:
  assumes "sent_ok s"
  shows "n \<le> SENT_CAP \<Longrightarrow> \<exists>s'. sent_step\<^sup>*\<^sup>* s s' \<and> sent_ok s' \<and> (\<forall>i < n. st_used (sn_pkts s' ! i))"
proof (induction n)
  case 0
  then show ?case using assms by blast
next
  case (Suc n)
  then obtain s1 where s1: "sent_step\<^sup>*\<^sup>* s s1" "sent_ok s1" "\<forall>i < n. st_used (sn_pkts s1 ! i)" by auto
  obtain ok s2 where r: "sent_on_send s1 0 0 0 = (ok, s2)" by fastforce
  have step: "sent_step s1 s2" using r by (rule sent_step.send)
  have "st_used (sn_pkts s2 ! n)"
  proof (cases "st_used (sn_pkts s1 ! n)")
    case True
    then show ?thesis using sent_step_used [OF step s1(2)] Suc.prems by simp
  next
    case False
    then have "free_slot s1 = n"
      unfolding free_slot_def using s1(3) Suc.prems scan_spec [of 0 SENT_CAP "\<lambda>i. st_used (sn_pkts s1 ! i)"]
      by (metis (no_types, lifting) le0 linorder_neqE_nat not_less_eq_eq order.strict_trans2 Suc_le_eq)
    then show ?thesis using r Suc.prems s1(2) by (auto simp: sent_on_send_def Let_def sent_ok_def)
  qed
  moreover have "\<forall>i < n. st_used (sn_pkts s2 ! i)" using sent_step_used [OF step s1(2)] s1(3) Suc.prems by simp
  ultimately have "\<forall>i < Suc n. st_used (sn_pkts s2 ! i)" using less_Suc_eq by simp
  moreover have "sent_step\<^sup>*\<^sup>* s s2" using s1(1) step by simp
  ultimately show ?case using sent_step_ok [OF step s1(2)] by blast
qed

theorem sent_table_never_frees_witness:
  "\<exists>s. sent_step\<^sup>*\<^sup>* (sent_init sent_blank) s \<and> sent_on_send (snd (sent_on_ack s 0)) 7 1200 0 = (False, snd (sent_on_ack s 0))"
proof -
  have len: "length (sn_pkts sent_blank) = 256" by (simp add: sent_blank_def)
  then have "sent_ok (sent_init sent_blank)" using sent_init_ok by (simp add: SENT_CAP_def)
  then obtain s where s: "sent_step\<^sup>*\<^sup>* (sent_init sent_blank) s" "\<forall>i < 256. st_used (sn_pkts s ! i)"
    using send_many_used [of "sent_init sent_blank" 256] by (auto simp: SENT_CAP_def)
  have "sent_step s (snd (sent_on_ack s 0))" by (rule sent_step.ack [of _ 0 "fst (sent_on_ack s 0)"]) simp
  then have "sent_step\<^sup>*\<^sup>* s (snd (sent_on_ack s 0))" by blast
  from sent_table_never_frees [OF len s this] s(1) show ?thesis by blast
qed

text \<open>
  C30. A received ACK removes exactly the acknowledged packets. For the descending ranges \<open>rs\<close>
  given in gap encoding, \<open>ack_process\<close> frees exactly the in-flight slots whose number lies in one
  of them, and reports each such number once; \<open>ackrange_process\<close> does the same from the bytes of
  the frame.
\<close>

theorem ack_process_removes_acked:
  assumes "length t = 256" and "rs \<noteq> []"
    and "ack_process t \<lparr>as_ack_largest = ar_hi (hd rs), as_ack_ranges = raw_blocks True 0 rs\<rparr> = (t', out)"
  shows "t' = map (\<lambda>e. if se_used e \<and> se_state e = SP_INFLIGHT \<and> unat (se_pn e) \<in> ranges_set rs
                       then e\<lparr>se_state := SP_ACKED, se_used := False\<rparr> else e) t
    \<and> mset out = image_mset se_pn (filter_mset (\<lambda>e. se_used e \<and> se_state e = SP_INFLIGHT \<and> unat (se_pn e) \<in> ranges_set rs) (mset t))
    \<and> (ack_decode bs = Some (f, n) \<and> af_ranges f = rs \<longrightarrow> ackrange_process t bs = Some (t', out))"
  using ack_process_exact [OF assms(2) _ assms(3)] assms(1,3) ackrange_process_eq [of bs f n t]
  by (auto simp: SENTPKT_CAP_def ack_entry_def [abs_def] acked_pns_def live_def conj_assoc)

theorem ack_process_removes_acked_witness:
  "mset (snd (ack_process (sentpkt_init (replicate 256 \<lparr>se_pn = 4, se_time_sent = 0, se_size = 9, se_ack_eliciting = True,
      se_state = SP_INFLIGHT, se_used = True\<rparr>)) \<lparr>as_ack_largest = 7, as_ack_ranges = raw_blocks True 0 [\<lparr>ar_hi = 7, ar_lo = 3\<rparr>]\<rparr>)) = {#}"
proof -
  let ?t = "sentpkt_init (replicate 256 \<lparr>se_pn = 4, se_time_sent = 0, se_size = 9, se_ack_eliciting = True,
      se_state = SP_INFLIGHT, se_used = True\<rparr>)"
  obtain t' out where r: "ack_process ?t \<lparr>as_ack_largest = ar_hi (hd [\<lparr>ar_hi = 7, ar_lo = 3\<rparr>]),
      as_ack_ranges = raw_blocks True 0 [\<lparr>ar_hi = 7, ar_lo = 3\<rparr>]\<rparr> = (t', out)" by (meson surj_pair)
  have "length ?t = 256" by (simp add: sentpkt_init_def)
  from ack_process_removes_acked [OF this _ r] have "mset out = {#}" by (simp add: sentpkt_init_def)
  then show ?thesis using r by simp
qed

end
