(* ===== verification/Frame_Dispatch.thy ===== *)
theory Frame_Dispatch
  imports Frame_Walk Stream_Flow Sent_Packets
begin

unbundle bit_operations_syntax

text \<open>
  Applying received frames to the connection state:
  \<^verbatim>\<open>src/transport/packet/frame/framedispatch/dispatch_state.c\<close>. The pointers of
  \<open>framedispatch_state\<close> to the stream buffer, the sent-packet table and the credit are components
  of the state record. A handler returns its result and the new state; \<open>None\<close> is the store
  outside the reassembly buffer that \<open>reasm_insert\<close> could make.
\<close>

record framedispatch_state =
  fd_stream :: stream_read
  fd_sent :: sentpkt
  fd_credit :: flow_credit
  fd_ack_eliciting :: bool
  fd_close :: bool
  fd_has_ack :: bool
  fd_largest_acked :: u64
  fd_has_datagram :: bool
  fd_datagram :: bytes
  fd_violation :: bool
  fd_stop_sending_owed :: bool
  fd_stop_sending_stream_id :: u64
  fd_stop_sending_error_code :: u64
  fd_has_reset_stream :: bool
  fd_reset_stream_stream_id :: u64
  fd_reset_stream_error_code :: u64

type_synonym fd_handler = "framedispatch_state \<Rightarrow> bytes \<Rightarrow> (bool \<times> framedispatch_state) option"

definition on_stream :: fd_handler where
  "on_stream st frame =
     (case frame_get_stream frame of None \<Rightarrow> Some (False, st)
      | Some (f, _) \<Rightarrow>
          if \<not> stream_can_receive False (sf_stream_id f) then Some (False, st)
          else map_option (\<lambda>(ok, s). (ok, st\<lparr>fd_stream := s\<rparr>))
                 (stream_read_push (fd_stream st) (sf_offset f) (sf_data f)))"

fun ack_wire_tail :: "ack_range \<Rightarrow> ack_range list \<Rightarrow> u64 list" where
  "ack_wire_tail prev [] = []"
| "ack_wire_tail prev (r # rs) = [ar_lo prev - ar_hi r - 2, ar_hi r - ar_lo r] @ ack_wire_tail r rs"

definition dispatch_ack_wire :: "ack_frame \<Rightarrow> u64 list" where
  "dispatch_ack_wire f =
     (let r = af_ranges f ! 0 in (ar_hi r - ar_lo r) # ack_wire_tail r (tl (af_ranges f)))"

definition on_ack :: fd_handler where
  "on_ack st frame =
     (case ack_decode frame of None \<Rightarrow> Some (False, st)
      | Some (f, _) \<Rightarrow>
          let st = st\<lparr>fd_has_ack := True, fd_largest_acked := ar_hi (af_ranges f ! 0)\<rparr>;
              (t, acked) = ack_process (fd_sent st)
                 \<lparr>as_ack_largest = ar_hi (af_ranges f ! 0), as_ack_ranges = dispatch_ack_wire f\<rparr>
          in Some (True, st\<lparr>fd_sent := t\<rparr>))"

definition on_max_data :: fd_handler where
  "on_max_data st frame =
     (case max_data_decode frame of None \<Rightarrow> Some (False, st)
      | Some (f, _) \<Rightarrow> Some (True, st\<lparr>fd_credit := (fd_credit st)\<lparr>fc_max_data := df_value f\<rparr>\<rparr>))"

definition on_close :: fd_handler where
  "on_close st frame = Some (True, st\<lparr>fd_close := True\<rparr>)"

definition on_datagram :: fd_handler where
  "on_datagram st frame =
     (case dgdeliver_extract frame of None \<Rightarrow> Some (False, st)
      | Some d \<Rightarrow> Some (True, st\<lparr>fd_datagram := d, fd_has_datagram := True\<rparr>))"

definition on_noop :: fd_handler where
  "on_noop st frame = Some (True, st)"

definition on_stop_sending :: fd_handler where
  "on_stop_sending st frame =
     (case stop_sending_decode frame of None \<Rightarrow> Some (False, st)
      | Some (f, _) \<Rightarrow>
          if \<not> stream_can_send False (ss_stream_id f) then Some (False, st)
          else Some (True, st\<lparr>fd_stop_sending_owed := True, fd_stop_sending_stream_id := ss_stream_id f,
                 fd_stop_sending_error_code := ss_error_code f\<rparr>))"

definition on_reset_stream :: fd_handler where
  "on_reset_stream st frame =
     (case reset_stream_decode frame of None \<Rightarrow> Some (False, st)
      | Some (f, _) \<Rightarrow> Some (True, st\<lparr>fd_has_reset_stream := True, fd_reset_stream_stream_id := rs_stream_id f,
             fd_reset_stream_error_code := rs_error_code f\<rparr>))"

primrec handler_for :: "frame_kind \<Rightarrow> fd_handler option" where
  "handler_for FK_UNKNOWN = None"
| "handler_for FK_PADDING = Some on_noop"
| "handler_for FK_PING = Some on_noop"
| "handler_for FK_ACK = Some on_ack"
| "handler_for FK_RESET_STREAM = Some on_reset_stream"
| "handler_for FK_STOP_SENDING = Some on_stop_sending"
| "handler_for FK_CRYPTO = None"
| "handler_for FK_NEW_TOKEN = None"
| "handler_for FK_STREAM = Some on_stream"
| "handler_for FK_MAX_DATA = Some on_max_data"
| "handler_for FK_MAX_STREAM_DATA = None"
| "handler_for FK_MAX_STREAMS = None"
| "handler_for FK_DATA_BLOCKED = None"
| "handler_for FK_STREAM_DATA_BLOCKED = None"
| "handler_for FK_STREAMS_BLOCKED = None"
| "handler_for FK_NEW_CONNECTION_ID = None"
| "handler_for FK_RETIRE_CONNECTION_ID = None"
| "handler_for FK_PATH_CHALLENGE = None"
| "handler_for FK_PATH_RESPONSE = None"
| "handler_for FK_CONNECTION_CLOSE = Some on_close"
| "handler_for FK_HANDSHAKE_DONE = None"
| "handler_for FK_DATAGRAM = Some on_datagram"
| "handler_for FK_RESET_STREAM_AT = None"

definition framedispatch_ack_eliciting :: "u64 \<Rightarrow> bool" where
  "framedispatch_ack_eliciting frame_type = frame_ack_eliciting (frame_classify frame_type)"

definition framedispatch_handle ::
    "framedispatch_state \<Rightarrow> u64 \<Rightarrow> bytes \<Rightarrow> (bool \<times> framedispatch_state) option" where
  "framedispatch_handle st frame_type frame =
     (let k = frame_classify frame_type
      in if frame_server_recv_forbidden k then Some (False, st\<lparr>fd_violation := True\<rparr>)
         else case handler_for k of None \<Rightarrow> Some (False, st)
              | Some h \<Rightarrow> h (st\<lparr>fd_ack_eliciting := fd_ack_eliciting st \<or> frame_ack_eliciting k\<rparr>) frame)"

text \<open>\<open>connio_recv.c\<close>: the loop of \<open>dispatch_all\<close> over a decrypted payload.\<close>

definition dispatch_all :: "framedispatch_state \<Rightarrow> bytes \<Rightarrow> (bool \<times> framedispatch_state) option" where
  "dispatch_all st frames =
     framewalk_loop (\<lambda>fr acc. do {
         (ok, st) \<leftarrow> acc;
         (r, st) \<leftarrow> framedispatch_handle st (fi_type fr) (fi_start fr);
         Some (ok \<and> r, st)
       }) frames (Some (True, st))"

section \<open>What a frame does\<close>

text \<open>The effect of one decoded frame, and of a list of frames in order.\<close>

fun frame_effect :: "framedispatch_state \<Rightarrow> frame \<Rightarrow> (bool \<times> framedispatch_state) option" where
  "frame_effect st Padding = Some (True, st)"
| "frame_effect st Ping = Some (True, st)"
| "frame_effect st (Ack f) = Some (True, st\<lparr>fd_has_ack := True, fd_largest_acked := ar_hi (hd (af_ranges f)),
     fd_sent := map (ack_entry (ranges_set (af_ranges f))) (fd_sent st)\<rparr>)"
| "frame_effect st (Stream f) =
     (if stream_can_receive False (sf_stream_id f)
      then map_option (\<lambda>(ok, s). (ok, st\<lparr>fd_stream := s\<rparr>)) (stream_read_push (fd_stream st) (sf_offset f) (sf_data f))
      else Some (False, st))"
| "frame_effect st (Conn_Close f) = Some (True, st\<lparr>fd_close := True\<rparr>)"
| "frame_effect st (Datagram f) = Some (True, st\<lparr>fd_datagram := dg_data f, fd_has_datagram := True\<rparr>)"
| "frame_effect st (Max_Data f) = Some (True, st\<lparr>fd_credit := (fd_credit st)\<lparr>fc_max_data := df_value f\<rparr>\<rparr>)"
| "frame_effect st (Reset_Stream f) = Some (True, st\<lparr>fd_has_reset_stream := True,
     fd_reset_stream_stream_id := rs_stream_id f, fd_reset_stream_error_code := rs_error_code f\<rparr>)"
| "frame_effect st (Stop_Sending f) =
     (if stream_can_send False (ss_stream_id f)
      then Some (True, st\<lparr>fd_stop_sending_owed := True, fd_stop_sending_stream_id := ss_stream_id f,
             fd_stop_sending_error_code := ss_error_code f\<rparr>)
      else Some (False, st))"
| "frame_effect st (New_Token f) = Some (False, st\<lparr>fd_violation := True\<rparr>)"
| "frame_effect st Handshake_Done = Some (False, st\<lparr>fd_violation := True\<rparr>)"
| "frame_effect st _ = Some (False, st)"

text \<open>Handled kinds other than PADDING, ACK and CONNECTION\_CLOSE ask for an acknowledgment.\<close>

definition marks_eliciting :: "frame \<Rightarrow> bool" where
  "marks_eliciting f \<longleftrightarrow> kind_of f \<in> {FK_PING, FK_STREAM, FK_DATAGRAM, FK_MAX_DATA, FK_RESET_STREAM, FK_STOP_SENDING}"

definition apply_frame :: "frame \<Rightarrow> (bool \<times> framedispatch_state) option \<Rightarrow> (bool \<times> framedispatch_state) option" where
  "apply_frame f acc = do {
     (ok, st) \<leftarrow> acc;
     (r, st) \<leftarrow> frame_effect (st\<lparr>fd_ack_eliciting := fd_ack_eliciting st \<or> marks_eliciting f\<rparr>) f;
     Some (ok \<and> r, st)
   }"

lemma ack_wire_tail_raw: "ack_wire_tail r rs = raw_blocks False (ar_lo r) rs"
  by (induction r rs rule: ack_wire_tail.induct) simp_all

lemma dispatch_ack_wire_raw: "af_ranges f \<noteq> [] \<Longrightarrow> dispatch_ack_wire f = raw_blocks True 0 (af_ranges f)"
  by (cases "af_ranges f") (simp_all add: dispatch_ack_wire_def ack_wire_tail_raw)

lemma on_ack_exact:
  assumes "ack_decode frame = Some (f, n)" and "length (fd_sent st) = SENTPKT_CAP"
  shows "on_ack st frame = Some (True, st\<lparr>fd_has_ack := True, fd_largest_acked := ar_hi (hd (af_ranges f)),
     fd_sent := map (ack_entry (ranges_set (af_ranges f))) (fd_sent st)\<rparr>)"
proof -
  have ne: "af_ranges f \<noteq> []" using ack_decode_sound [OF assms(1)] by (simp add: ack_wf_def ack_ok_def)
  obtain t out where t: "ack_process (fd_sent st) \<lparr>as_ack_largest = ar_hi (hd (af_ranges f)),
      as_ack_ranges = raw_blocks True 0 (af_ranges f)\<rparr> = (t, out)" by fastforce
  note ack_process_exact(1) [OF ne assms(2) t]
  then show ?thesis
    using assms(1) t ne by (simp add: on_ack_def dispatch_ack_wire_raw hd_conv_nth)
qed

lemmas dec_wires = stream.dec_wire ack.dec_wire max_data.dec_wire datagram.dec_wire stop_sending.dec_wire
  reset_stream.dec_wire

lemma framedispatch_handle_wire:
  assumes "frame_wf f" and "length (fd_sent st) = SENTPKT_CAP"
  shows "framedispatch_handle st (ucast (hd (frame_wire f))) (frame_wire f @ rest)
    = frame_effect (st\<lparr>fd_ack_eliciting := fd_ack_eliciting st \<or> marks_eliciting f\<rparr>) f"
  using assms unfolding framedispatch_handle_def frame_first_byte(3)
  by (cases f) (simp_all add: frame_server_recv_forbidden_def marks_eliciting_def on_noop_def on_close_def
      on_stream_def on_max_data_def on_datagram_def on_stop_sending_def on_reset_stream_def dgdeliver_extract_def
      dec_wires on_ack_exact [OF ack.dec_wire] frame_ack_eliciting_def non_eliciting_def)

lemma frame_effect_table:
  "frame_effect st f = Some (ok, st') \<Longrightarrow> length (fd_sent st') = length (fd_sent st)"
  by (cases "(st, f)" rule: frame_effect.cases) (auto split: if_splits)

lemma dispatch_all_frames:
  assumes "list_all frame_wf fs" and "length (fd_sent st) = SENTPKT_CAP"
  shows "dispatch_all st (concat (map frame_wire fs)) = fold apply_frame fs (Some (True, st))"
proof -
  let ?step = "\<lambda>fr acc. do {(ok, st) \<leftarrow> acc; (r, st) \<leftarrow> framedispatch_handle st (fi_type fr) (fi_start fr); Some (ok \<and> r, st)}"
  have steps: "list_all frame_wf fs \<Longrightarrow> (\<And>ok st. acc = Some (ok, st) \<Longrightarrow> length (fd_sent st) = SENTPKT_CAP) \<Longrightarrow>
      fold ?step (items_of fs) acc = fold apply_frame fs acc" for acc
  proof (induction fs arbitrary: acc)
    case (Cons f fs)
    have eq: "?step \<lparr>fi_type = ucast (hd (frame_wire f)), fi_start = concat (map frame_wire (f # fs))\<rparr> acc = apply_frame f acc"
      using Cons.prems framedispatch_handle_wire [of f _ "concat (map frame_wire fs)"]
      by (cases acc) (auto simp: apply_frame_def)
    have "length (fd_sent st) = SENTPKT_CAP" if "apply_frame f acc = Some (ok, st)" for ok st
      using that Cons.prems(2) frame_effect_table by (fastforce simp: apply_frame_def bind_eq_Some_conv)
    then show ?case using Cons eq by simp
  qed simp
  then show ?thesis
    using assms(2) steps [OF assms(1), of "Some (True, st)"]
    by (simp add: dispatch_all_def framewalk_loop_fold walk_items_concat [OF assms(1)])
qed

section \<open>Any payload\<close>

definition dispatch_inv :: "framedispatch_state \<Rightarrow> bool" where
  "dispatch_inv st \<longleftrightarrow> reader_ok (sr_r (fd_stream st)) (sr_read_off (fd_stream st)) \<and> length (fd_sent st) = SENTPKT_CAP"

text \<open>What a handler may do to the shared state: the invariant holds after it, and packets only leave flight.\<close>

definition fd_step_ok :: "framedispatch_state \<Rightarrow> framedispatch_state \<Rightarrow> bool" where
  "fd_step_ok st st' \<longleftrightarrow> dispatch_inv st' \<and> (\<exists>A. fd_sent st' = map (ack_entry A) (fd_sent st))
     \<and> sr_read_off (fd_stream st') = sr_read_off (fd_stream st)
     \<and> (\<forall>i. received (sr_r (fd_stream st)) i \<noteq> None \<longrightarrow> received (sr_r (fd_stream st')) i \<noteq> None)"

lemma ack_entry_none: "ack_entry {} e = e"
  by (simp add: ack_entry_def)

lemma ack_entry_comp: "ack_entry B (ack_entry A e) = ack_entry (A \<union> B) e"
  by (auto simp: ack_entry_def live_def)

lemma fd_step_ok_keep:
  "dispatch_inv st \<Longrightarrow> fd_stream st' = fd_stream st \<Longrightarrow> fd_sent st' = fd_sent st \<Longrightarrow> fd_step_ok st st'"
  by (auto simp: fd_step_ok_def dispatch_inv_def ack_entry_none intro!: exI [of _ "{}"] map_idI [symmetric])

lemma fd_step_ok_trans: "fd_step_ok a b \<Longrightarrow> fd_step_ok b c \<Longrightarrow> fd_step_ok a c"
  by (fastforce simp: fd_step_ok_def ack_entry_comp comp_def)

lemma frame_get_stream_small:
  "frame_get_stream buf = Some (f, n) \<Longrightarrow> unat (sf_offset f) + length (sf_data f) < 2 ^ 62"
  by (auto simp: frame_get_stream_def take_stream_hdr_bounded_def stream_bounds_ok_iff Let_def bind_eq_Some_conv split: if_splits)

lemma on_stream_safe:
  assumes "dispatch_inv st"
  shows "\<exists>ok st'. on_stream st frame = Some (ok, st') \<and> fd_step_ok st st'"
proof (cases "frame_get_stream frame")
  case (Some x)
  then obtain f n where f: "frame_get_stream frame = Some (f, n)" by (cases x) auto
  have inv: "reader_ok (sr_r (fd_stream st)) (sr_read_off (fd_stream st))" using assms by (simp add: dispatch_inv_def)
  obtain ok s where p: "stream_read_push (fd_stream st) (sf_offset f) (sf_data f) = Some (ok, s)"
    "reader_ok (sr_r s) (sr_read_off s)" "unat (sr_read_off s) = unat (sr_read_off (fd_stream st))"
    "received (sr_r s) = (\<lambda>i. if ok \<and> unat (sf_offset f) \<le> i \<and> i < unat (sf_offset f) + length (sf_data f)
       then Some (sf_data f ! (i - unat (sf_offset f))) else received (sr_r (fd_stream st)) i)"
    using sread.push_law [OF inv frame_get_stream_small [OF f]] by blast
  have "sr_read_off s = sr_read_off (fd_stream st)" using p(3) by (simp only: word_unat_eq_iff)
  then have "fd_step_ok st (st\<lparr>fd_stream := s\<rparr>)"
    using assms p(2,4) by (auto simp: fd_step_ok_def dispatch_inv_def ack_entry_none intro!: exI [of _ "{}"] map_idI [symmetric])
  then show ?thesis using f p(1) fd_step_ok_keep [OF assms, of st] by (auto simp: on_stream_def)
qed (use assms fd_step_ok_keep [of st st] in \<open>auto simp: on_stream_def\<close>)

lemma on_ack_safe:
  assumes "dispatch_inv st"
  shows "\<exists>ok st'. on_ack st frame = Some (ok, st') \<and> fd_step_ok st st'"
proof (cases "ack_decode frame")
  case (Some x)
  then obtain f n where f: "ack_decode frame = Some (f, n)" by (cases x) auto
  show ?thesis
    using on_ack_exact [OF f, of st] assms by (auto simp: fd_step_ok_def dispatch_inv_def)
qed (use assms fd_step_ok_keep [of st st] in \<open>auto simp: on_ack_def\<close>)

lemma handler_safe:
  assumes "dispatch_inv st" and "handler_for k = Some h"
  shows "\<exists>ok st'. h st frame = Some (ok, st') \<and> fd_step_ok st st'"
  using assms(2) on_stream_safe [OF assms(1), of frame] on_ack_safe [OF assms(1), of frame] fd_step_ok_keep [OF assms(1)]
  by (cases k) (auto simp: on_noop_def on_close_def on_max_data_def on_datagram_def on_stop_sending_def on_reset_stream_def
      split: option.split)

lemma framedispatch_handle_safe:
  assumes "dispatch_inv st"
  shows "\<exists>ok st'. framedispatch_handle st type frame = Some (ok, st') \<and> fd_step_ok st st'"
proof -
  let ?k = "frame_classify type"
  let ?st = "st\<lparr>fd_ack_eliciting := fd_ack_eliciting st \<or> frame_ack_eliciting ?k\<rparr>"
  have st: "dispatch_inv ?st" using assms by (simp add: dispatch_inv_def)
  have first: "fd_step_ok st ?st" using fd_step_ok_keep [OF assms, of ?st] by simp
  consider "frame_server_recv_forbidden ?k" | "\<not> frame_server_recv_forbidden ?k" "handler_for ?k = None"
    | h where "\<not> frame_server_recv_forbidden ?k" "handler_for ?k = Some h" by blast
  then show ?thesis
  proof cases
    case 3
    from handler_safe [OF st 3(2), of frame] obtain ok st' where "h ?st frame = Some (ok, st')" "fd_step_ok ?st st'" by blast
    with 3 fd_step_ok_trans [OF first] show ?thesis by (auto simp: framedispatch_handle_def)
  qed (use fd_step_ok_keep [OF assms] in \<open>auto simp: framedispatch_handle_def\<close>)
qed

lemma dispatch_all_safe:
  assumes "dispatch_inv st"
  shows "\<exists>ok st'. dispatch_all st pl = Some (ok, st') \<and> fd_step_ok st st'"
proof -
  let ?step = "\<lambda>fr acc. do {(ok, st) \<leftarrow> acc; (r, st) \<leftarrow> framedispatch_handle st (fi_type fr) (fi_start fr); Some (ok \<and> r, st)}"
  have "\<exists>ok' st'. fold ?step its (Some (ok, st)) = Some (ok', st') \<and> fd_step_ok st st'" if "dispatch_inv st" for its ok st
    using that
  proof (induction its arbitrary: ok st)
    case (Cons fr its)
    obtain r s where s: "framedispatch_handle st (fi_type fr) (fi_start fr) = Some (r, s)" "fd_step_ok st s"
      using framedispatch_handle_safe [OF Cons.prems] by blast
    then have "dispatch_inv s" by (simp add: fd_step_ok_def)
    from Cons.IH [OF this, of "ok \<and> r"] s show ?case using fd_step_ok_trans [OF s(2)] by auto
  qed (simp add: fd_step_ok_keep)
  then show ?thesis using assms by (simp add: dispatch_all_def framewalk_loop_fold)
qed

section \<open>Properties\<close>

definition dispatch_example :: framedispatch_state where
  "dispatch_example = \<lparr>fd_stream = stream_read_init \<lparr>sr_r = reasm_blank, sr_read_off = 0\<rparr>,
     fd_sent = replicate SENTPKT_CAP \<lparr>se_pn = 7, se_time_sent = 0, se_size = 1200, se_ack_eliciting = True,
       se_state = SP_INFLIGHT, se_used = True\<rparr>,
     fd_credit = flow_credit_init 7, fd_ack_eliciting = False, fd_close = False, fd_has_ack = False, fd_largest_acked = 0,
     fd_has_datagram = False, fd_datagram = [], fd_violation = False, fd_stop_sending_owed = False,
     fd_stop_sending_stream_id = 0, fd_stop_sending_error_code = 0, fd_has_reset_stream = False,
     fd_reset_stream_stream_id = 0, fd_reset_stream_error_code = 0\<rparr>"

lemma dispatch_example_inv: "dispatch_inv dispatch_example"
  using reader_ok_init [of reasm_blank]
  by (simp add: dispatch_inv_def dispatch_example_def stream_read_init_def reasm_blank_def REASM_CAP_def)

text \<open>
  C4. Receiving a payload of frames is applying the frames in order. On the concatenated
  encodings of any well-formed frames the byte-level loop of \<open>dispatch_all\<close> computes what the
  frame-level effects compute one after the other: an ACK frees exactly the in-flight packets
  its ranges name, stream data goes to the reader unless the stream is one this endpoint only
  sends on, forbidden frames raise the violation flag, and kinds without a handler make the
  result false and change nothing.
\<close>

theorem dispatch_refines_frames:
  assumes "list_all frame_wf fs" and "length (fd_sent st) = SENTPKT_CAP"
  shows "dispatch_all st (concat (map frame_wire fs)) = fold apply_frame fs (Some (True, st))"
  by (rule dispatch_all_frames [OF assms])

theorem dispatch_refines_frames_witness:
  "\<exists>st. dispatch_all dispatch_example (concat (map frame_wire [Ping, Max_Data \<lparr>df_value = 3\<rparr>, Handshake_Done, Padding]))
     = Some (False, st) \<and> fd_ack_eliciting st \<and> fd_violation st \<and> fc_max_data (fd_credit st) = 3"
proof -
  have wf: "list_all frame_wf [Ping, Max_Data \<lparr>df_value = 3\<rparr>, Handshake_Done, Padding]"
    by (simp add: data_wf_def VARINT_MAX_def)
  have len: "length (fd_sent dispatch_example) = SENTPKT_CAP" by (simp add: dispatch_example_def)
  show ?thesis
    unfolding dispatch_refines_frames [OF wf len] by (simp add: apply_frame_def marks_eliciting_def)
qed

text \<open>
  C6. No payload can break the receive state. For every byte string a peer may send, malformed
  or not, processing it stores nothing outside the reassembly buffer, keeps the state
  invariant, loses no stream byte already received, leaves the read position alone, and changes
  sent packets only by acknowledging in-flight ones.
\<close>

theorem dispatch_never_breaks:
  assumes "dispatch_inv st"
  shows "\<exists>ok st'. dispatch_all st pl = Some (ok, st') \<and> dispatch_inv st'
    \<and> (\<exists>A. fd_sent st' = map (ack_entry A) (fd_sent st))
    \<and> sr_read_off (fd_stream st') = sr_read_off (fd_stream st)
    \<and> (\<forall>i. received (sr_r (fd_stream st)) i \<noteq> None \<longrightarrow> received (sr_r (fd_stream st')) i \<noteq> None)"
  using dispatch_all_safe [OF assms, of pl] by (simp add: fd_step_ok_def)

theorem dispatch_never_breaks_witness:
  "\<exists>ok st'. dispatch_all dispatch_example [0x0e, 0x00, 0xff, 0xff] = Some (ok, st') \<and> dispatch_inv st'"
  using dispatch_never_breaks [OF dispatch_example_inv, of "[0x0e, 0x00, 0xff, 0xff]"] by blast

end
