(* ===== verification/Send_Session.thy ===== *)
theory Send_Session
  imports Stream_Flow
begin

unbundle bit_operations_syntax

text \<open>
  The reliable sending of one response stream: the cursor \<^verbatim>\<open>src/app/http3/server/sendq\<close> that cuts
  it into slices and \<^verbatim>\<open>src/app/http3/server/sendsess\<close>, the log of slices in flight with the requeue
  of lost ones. The arrays \<open>requeue\<close> and \<open>requeue_pn\<close> with their count are one list of pairs whose
  last element is the top; lengths and offsets of the buffer are \<open>nat\<close>.
\<close>

section \<open>sendq.c\<close>

record wired_sendq =
  sq_p :: "bytes option"
  sq_len :: nat
  sq_cur :: nat
  sq_chunk :: nat
  sq_cap :: nat

record wired_sendq_slice =
  sl_offset :: nat
  sl_len :: nat
  sl_fin :: bool

definition wired_sendq_init :: "bytes option \<Rightarrow> nat \<Rightarrow> nat \<Rightarrow> wired_sendq" where
  "wired_sendq_init p len chunk = \<lparr>sq_p = p, sq_len = len, sq_cur = 0, sq_chunk = chunk, sq_cap = 0\<rparr>"

definition wired_sendq_set_ring :: "wired_sendq \<Rightarrow> nat \<Rightarrow> wired_sendq" where
  "wired_sendq_set_ring q cap = q\<lparr>sq_cap := cap\<rparr>"

text \<open>The returned pointer is the storage from that address on.\<close>

definition wired_sendq_slice_data :: "wired_sendq \<Rightarrow> wired_sendq_slice \<Rightarrow> bytes option" where
  "wired_sendq_slice_data q sl =
     (case sq_p q of None \<Rightarrow> None
      | Some p \<Rightarrow> if sq_cap q = 0 then Some (drop (sl_offset sl) p) else Some (drop (sl_offset sl mod sq_cap q) p))"

definition sendq_take :: "wired_sendq \<Rightarrow> nat" where
  "sendq_take q =
     (let n = min (sq_len q - sq_cur q) (sq_chunk q)
      in if sq_cap q \<noteq> 0 then min n (sq_cap q - sq_cur q mod sq_cap q) else n)"

definition wired_sendq_next :: "wired_sendq \<Rightarrow> (wired_sendq_slice \<times> wired_sendq) option" where
  "wired_sendq_next q =
     (let n = sendq_take q
      in if sq_cur q \<ge> sq_len q then None
         else Some (\<lparr>sl_offset = sq_cur q, sl_len = n, sl_fin = (sq_cur q + n \<ge> sq_len q)\<rparr>,
                    q\<lparr>sq_cur := sq_cur q + n\<rparr>))"

definition wired_sendq_all_sent :: "wired_sendq \<Rightarrow> bool" where
  "wired_sendq_all_sent q \<longleftrightarrow> sq_cur q \<ge> sq_len q"

section \<open>sendsess.c\<close>

definition WIRED_SENDSESS_LOG :: nat where "WIRED_SENDSESS_LOG = 128"

record wired_sent_slice =
  ws_pn :: u64
  ws_sl :: wired_sendq_slice
  ws_inflight :: bool
  ws_sent_ms :: u64

record wired_sendsess =
  ss_q :: wired_sendq
  ss_active :: bool
  ss_log :: "wired_sent_slice list"
  ss_requeue :: "(wired_sendq_slice \<times> u64) list"
  ss_taken_pn :: u64
  ss_largest_acked :: u64
  ss_has_acked :: bool
  ss_pto_count :: int
  ss_stream_base_offset :: u64
  ss_inflight_n :: nat
  ss_inflight_len :: nat
  ss_log_hi :: nat

definition wired_sendsess_arm :: "wired_sendsess \<Rightarrow> bytes option \<Rightarrow> nat \<Rightarrow> nat \<Rightarrow> wired_sendsess" where
  "wired_sendsess_arm s stream len chunk =
     s\<lparr>ss_q := wired_sendq_init stream len chunk, ss_active := True, ss_requeue := [], ss_largest_acked := 0,
       ss_has_acked := False, ss_pto_count := 0, ss_stream_base_offset := 0, ss_inflight_n := 0,
       ss_inflight_len := 0, ss_log_hi := 0, ss_log := map (\<lambda>e. e\<lparr>ws_inflight := False\<rparr>) (ss_log s)\<rparr>"

definition wired_sendsess_extend :: "wired_sendsess \<Rightarrow> nat \<Rightarrow> wired_sendsess" where
  "wired_sendsess_extend s added =
     s\<lparr>ss_q := (ss_q s)\<lparr>sq_len := sq_len (ss_q s) + added\<rparr>, ss_active := True\<rparr>"

definition wired_sendsess_set_base_offset :: "wired_sendsess \<Rightarrow> u64 \<Rightarrow> wired_sendsess" where
  "wired_sendsess_set_base_offset s base_offset = s\<lparr>ss_stream_base_offset := base_offset\<rparr>"

definition wired_sendsess_stream_offset :: "wired_sendsess \<Rightarrow> wired_sendq_slice \<Rightarrow> u64" where
  "wired_sendsess_stream_offset s sl = ss_stream_base_offset s + of_nat (sl_offset sl)"

definition wired_sendsess_inflight :: "wired_sendsess \<Rightarrow> nat" where
  "wired_sendsess_inflight s = ss_inflight_n s"

definition sendsess_split :: "wired_sendsess \<Rightarrow> wired_sendq_slice \<Rightarrow> wired_sendq_slice \<times> wired_sendsess" where
  "sendsess_split s sl =
     (let c = sq_chunk (ss_q s)
      in if c = 0 \<or> sl_len sl \<le> c then (sl, s)
         else (sl\<lparr>sl_len := c, sl_fin := False\<rparr>,
               s\<lparr>ss_requeue := ss_requeue s @
                   [(\<lparr>sl_offset = sl_offset sl + c, sl_len = sl_len sl - c, sl_fin = sl_fin sl\<rparr>, ss_taken_pn s)]\<rparr>))"

definition wired_sendsess_take :: "wired_sendsess \<Rightarrow> wired_sendq_slice option \<times> wired_sendsess" where
  "wired_sendsess_take s =
     (let s = s\<lparr>ss_taken_pn := 0\<rparr>
      in if ss_requeue s \<noteq> [] then
           (let (sl, pn1) = last (ss_requeue s);
                (sl, s) = sendsess_split (s\<lparr>ss_requeue := butlast (ss_requeue s), ss_taken_pn := pn1\<rparr>) sl
            in (Some sl, s))
         else (case wired_sendq_next (ss_q s) of None \<Rightarrow> (None, s) | Some (sl, q) \<Rightarrow> (Some sl, s\<lparr>ss_q := q\<rparr>)))"

definition sendsess_free_slot :: "wired_sendsess \<Rightarrow> nat option" where
  "sendsess_free_slot s =
     (let i = scan (\<lambda>i. ws_inflight (ss_log s ! i)) WIRED_SENDSESS_LOG 0 in if i < WIRED_SENDSESS_LOG then Some i else None)"

definition wired_sendsess_sent :: "wired_sendsess \<Rightarrow> wired_sendq_slice \<Rightarrow> u64 \<Rightarrow> u64 \<Rightarrow> bool \<times> wired_sendsess" where
  "wired_sendsess_sent s sl pn now_ms =
     (case sendsess_free_slot s of None \<Rightarrow> (False, s)
      | Some i \<Rightarrow> (True, s\<lparr>ss_log := (ss_log s)[i := \<lparr>ws_pn = pn, ws_sl = sl, ws_inflight = True, ws_sent_ms = now_ms\<rparr>],
                 ss_inflight_n := ss_inflight_n s + 1, ss_inflight_len := ss_inflight_len s + sl_len sl,
                 ss_log_hi := max (ss_log_hi s) (i + 1)\<rparr>))"

definition wired_sendsess_untake :: "wired_sendsess \<Rightarrow> wired_sendq_slice \<Rightarrow> wired_sendsess" where
  "wired_sendsess_untake s sl =
     (if length (ss_requeue s) < WIRED_SENDSESS_LOG then s\<lparr>ss_requeue := ss_requeue s @ [(sl, ss_taken_pn s)]\<rparr> else s)"

definition wired_sendsess_inflight_bytes :: "wired_sendsess \<Rightarrow> nat" where
  "wired_sendsess_inflight_bytes s = ss_inflight_len s"

definition sendsess_clear_inflight :: "wired_sendsess \<Rightarrow> nat \<Rightarrow> wired_sendsess" where
  "sendsess_clear_inflight s i =
     s\<lparr>ss_log := (ss_log s)[i := (ss_log s ! i)\<lparr>ws_inflight := False\<rparr>], ss_inflight_n := ss_inflight_n s - 1,
       ss_inflight_len := ss_inflight_len s - sl_len (ws_sl (ss_log s ! i))\<rparr>"

definition sent_slice_below :: "wired_sent_slice \<Rightarrow> nat \<Rightarrow> bool" where
  "sent_slice_below e floor \<longleftrightarrow> ws_inflight e \<and> sl_offset (ws_sl e) < floor"

definition sendsess_log_floor :: "wired_sendsess \<Rightarrow> nat \<Rightarrow> nat" where
  "sendsess_log_floor s =
     fold (\<lambda>i floor. if sent_slice_below (ss_log s ! i) floor then sl_offset (ws_sl (ss_log s ! i)) else floor) [0..<ss_log_hi s]"

definition sendsess_requeue_floor :: "wired_sendsess \<Rightarrow> nat \<Rightarrow> nat" where
  "sendsess_requeue_floor s = fold (\<lambda>(sl, pn1) floor. if sl_offset sl < floor then sl_offset sl else floor) (ss_requeue s)"

definition wired_sendsess_unacked_floor :: "wired_sendsess \<Rightarrow> nat" where
  "wired_sendsess_unacked_floor s = sendsess_requeue_floor s (sendsess_log_floor s (sq_cur (ss_q s)))"

section \<open>sendsess\_ring.c\<close>

definition sendsess_live_min :: "nat \<Rightarrow> bool \<Rightarrow> nat \<Rightarrow> nat" where
  "sendsess_live_min off lv base = (if lv \<and> off < base then off else base)"

definition sendsess_log_min_off :: "wired_sendsess \<Rightarrow> nat \<Rightarrow> nat" where
  "sendsess_log_min_off s =
     fold (\<lambda>i. sendsess_live_min (sl_offset (ws_sl (ss_log s ! i))) (ws_inflight (ss_log s ! i))) [0..<ss_log_hi s]"

definition sendsess_requeue_min_off :: "wired_sendsess \<Rightarrow> nat \<Rightarrow> nat" where
  "sendsess_requeue_min_off s = fold (\<lambda>(sl, pn1). sendsess_live_min (sl_offset sl) True) (ss_requeue s)"

definition wired_sendsess_reclaim_base :: "wired_sendsess \<Rightarrow> nat" where
  "wired_sendsess_reclaim_base s = sendsess_requeue_min_off s (sendsess_log_min_off s (sq_cur (ss_q s)))"

text \<open>Unsigned subtraction: the result wraps when the live span exceeds \<open>cap\<close>.\<close>

definition wired_sendsess_ring_room :: "wired_sendsess \<Rightarrow> nat \<Rightarrow> nat" where
  "wired_sendsess_ring_room s cap =
     unat (of_nat cap - of_nat (sq_len (ss_q s) - wired_sendsess_reclaim_base s) :: u64)"

definition sendsess_pending :: "wired_sendsess \<Rightarrow> bool" where
  "sendsess_pending s \<longleftrightarrow> \<not> wired_sendq_all_sent (ss_q s) \<or> ss_requeue s \<noteq> [] \<or> wired_sendsess_inflight s \<noteq> 0"

definition wired_sendsess_done :: "wired_sendsess \<Rightarrow> bool \<times> wired_sendsess" where
  "wired_sendsess_done s =
     (if \<not> ss_active s then (False, s)
      else if sendsess_pending s then (False, s)
      else (True, s\<lparr>ss_active := False\<rparr>))"

section \<open>sendsess\_peek.c\<close>

definition wired_sendsess_covered :: "wired_sent_slice \<Rightarrow> u64 \<Rightarrow> u64 \<Rightarrow> bool" where
  "wired_sendsess_covered e lo hi \<longleftrightarrow> ws_inflight e \<and> ws_pn e \<ge> lo \<and> ws_pn e \<le> hi"

definition peek_one :: "wired_sent_slice \<Rightarrow> u64 \<Rightarrow> u64 \<Rightarrow> nat \<times> u64 \<Rightarrow> nat \<times> u64" where
  "peek_one e lo hi = (\<lambda>(n, newest).
     if \<not> wired_sendsess_covered e lo hi then (n, newest)
     else (n + sl_len (ws_sl e), if ws_sent_ms e > newest then ws_sent_ms e else newest))"

definition wired_sendsess_peek_ack :: "wired_sendsess \<Rightarrow> u64 \<Rightarrow> u64 \<Rightarrow> u64 \<Rightarrow> nat \<times> u64" where
  "wired_sendsess_peek_ack s lo hi newest_sent_ms =
     (let (n, newest) = fold (\<lambda>i. peek_one (ss_log s ! i) lo hi) [0..<ss_log_hi s] (0, 0)
      in (n, if n \<noteq> 0 then newest else newest_sent_ms))"

definition sendsess_note_largest :: "wired_sendsess \<Rightarrow> u64 \<Rightarrow> wired_sendsess" where
  "sendsess_note_largest s hi =
     (if \<not> ss_has_acked s \<or> hi > ss_largest_acked s then s\<lparr>ss_largest_acked := hi\<rparr> else s)\<lparr>ss_has_acked := True\<rparr>"

definition wired_sendsess_ack :: "wired_sendsess \<Rightarrow> u64 \<Rightarrow> u64 \<Rightarrow> wired_sendsess" where
  "wired_sendsess_ack s lo hi =
     fold (\<lambda>i s. if wired_sendsess_covered (ss_log s ! i) lo hi then sendsess_clear_inflight s i else s)
       [0..<ss_log_hi s] ((sendsess_note_largest s hi)\<lparr>ss_pto_count := 0\<rparr>)"

definition sendsess_requeue_acked :: "u64 \<Rightarrow> u64 \<Rightarrow> u64 \<Rightarrow> bool" where
  "sendsess_requeue_acked pn1 lo hi \<longleftrightarrow> pn1 > lo \<and> pn1 - 1 \<le> hi"

text \<open>The loop over the requeue: a dropped entry is replaced by the last one.\<close>

function ack_requeued_loop :: "u64 \<Rightarrow> u64 \<Rightarrow> nat \<Rightarrow> (wired_sendq_slice \<times> u64) list \<Rightarrow> (wired_sendq_slice \<times> u64) list" where
  "ack_requeued_loop lo hi i rq =
     (if i < length rq
      then if \<not> sendsess_requeue_acked (snd (rq ! i)) lo hi then ack_requeued_loop lo hi (i + 1) rq
           else ack_requeued_loop lo hi i (butlast (rq[i := last rq]))
      else rq)"
  by pat_completeness auto
termination
  by (relation "measure (\<lambda>(lo, hi, i, rq). length rq - i)") auto

declare ack_requeued_loop.simps [simp del]

definition wired_sendsess_ack_requeued :: "wired_sendsess \<Rightarrow> u64 \<Rightarrow> u64 \<Rightarrow> wired_sendsess" where
  "wired_sendsess_ack_requeued s lo hi = s\<lparr>ss_requeue := ack_requeued_loop lo hi 0 (ss_requeue s)\<rparr>"

section \<open>sendsess\_lost.c\<close>

definition loss_by_packet :: "u64 \<Rightarrow> u64 \<Rightarrow> bool" where
  "loss_by_packet largest_acked pn \<longleftrightarrow> largest_acked \<ge> pn + 3"

definition sendsess_lost_by_time :: "wired_sent_slice \<Rightarrow> u64 \<Rightarrow> u64 \<Rightarrow> bool" where
  "sendsess_lost_by_time e now_ms loss_delay_us \<longleftrightarrow>
     loss_delay_us \<noteq> 0 \<and> ws_sent_ms e * 1000 + loss_delay_us \<le> now_ms * 1000"

definition sendsess_lost_eligible :: "wired_sent_slice \<Rightarrow> u64 \<Rightarrow> bool" where
  "sendsess_lost_eligible e largest_acked \<longleftrightarrow> ws_inflight e \<and> ws_pn e < largest_acked"

definition sendsess_lost :: "wired_sent_slice \<Rightarrow> u64 \<Rightarrow> u64 \<Rightarrow> u64 \<Rightarrow> bool" where
  "sendsess_lost e largest_acked now_ms loss_delay_us =
     (if \<not> sendsess_lost_eligible e largest_acked then False
      else loss_by_packet largest_acked (ws_pn e) \<or> sendsess_lost_by_time e now_ms loss_delay_us)"

definition sendsess_requeue :: "wired_sendsess \<Rightarrow> nat \<Rightarrow> wired_sendsess" where
  "sendsess_requeue s i =
     (if length (ss_requeue s) \<ge> WIRED_SENDSESS_LOG then s
      else sendsess_clear_inflight
             (s\<lparr>ss_requeue := ss_requeue s @ [(ws_sl (ss_log s ! i), ws_pn (ss_log s ! i) + 1)]\<rparr>) i)"

record wired_sendsess_lost_slice =
  wl_pn :: u64
  wl_offset :: u64
  wl_length :: nat
  wl_fin :: bool
  wl_sent_ms :: u64

text \<open>Without an array to report to, \<open>cap\<close> is 0.\<close>

definition sendsess_report_lost ::
    "wired_sendsess \<Rightarrow> wired_sent_slice \<Rightarrow> nat \<Rightarrow> nat \<Rightarrow> wired_sendsess_lost_slice list \<Rightarrow> wired_sendsess_lost_slice list" where
  "sendsess_report_lost s e cap i lost =
     (if i \<ge> cap then lost
      else lost @ [\<lparr>wl_pn = ws_pn e, wl_offset = wired_sendsess_stream_offset s (ws_sl e), wl_length = sl_len (ws_sl e),
                    wl_fin = sl_fin (ws_sl e), wl_sent_ms = ws_sent_ms e\<rparr>])"

definition wired_sendsess_detect_lost ::
    "wired_sendsess \<Rightarrow> u64 \<Rightarrow> u64 \<Rightarrow> u64 \<Rightarrow> nat \<Rightarrow> nat \<times> wired_sendsess_lost_slice list \<times> wired_sendsess" where
  "wired_sendsess_detect_lost s largest_acked now_ms loss_delay_us cap =
     fold (\<lambda>i (n, lost, s).
         if sendsess_lost (ss_log s ! i) largest_acked now_ms loss_delay_us
         then (n + 1, sendsess_report_lost s (ss_log s ! i) cap n lost, sendsess_requeue s i)
         else (n, lost, s)) [0..<ss_log_hi s] (0, [], s)"

definition sendsess_live_above :: "wired_sent_slice \<Rightarrow> u64 \<Rightarrow> bool" where
  "sendsess_live_above e above1 \<longleftrightarrow> ws_inflight e \<and> ws_pn e + 1 > above1"

definition sendsess_older :: "wired_sendsess \<Rightarrow> nat option \<Rightarrow> nat \<Rightarrow> u64 \<Rightarrow> bool" where
  "sendsess_older s best i above1 \<longleftrightarrow> sendsess_live_above (ss_log s ! i) above1
     \<and> (case best of None \<Rightarrow> True | Some b \<Rightarrow> ws_pn (ss_log s ! i) < ws_pn (ss_log s ! b))"

definition sendsess_oldest_above :: "wired_sendsess \<Rightarrow> u64 \<Rightarrow> nat option" where
  "sendsess_oldest_above s above1 =
     fold (\<lambda>i best. if sendsess_older s best i above1 then Some i else best) [0..<ss_log_hi s] None"

definition wired_sendsess_oldest_sent_ms :: "wired_sendsess \<Rightarrow> u64 option" where
  "wired_sendsess_oldest_sent_ms s = map_option (\<lambda>i. ws_sent_ms (ss_log s ! i)) (sendsess_oldest_above s 0)"

definition sendsess_copy :: "wired_sendsess \<Rightarrow> nat option \<Rightarrow> wired_sendsess" where
  "sendsess_copy s i =
     (case i of None \<Rightarrow> s
      | Some i \<Rightarrow> if length (ss_requeue s) \<ge> WIRED_SENDSESS_LOG then s
                  else s\<lparr>ss_requeue := ss_requeue s @ [(ws_sl (ss_log s ! i), ws_pn (ss_log s ! i) + 1)]\<rparr>)"

definition wired_sendsess_pto_probe :: "wired_sendsess \<Rightarrow> bool \<times> wired_sendsess" where
  "wired_sendsess_pto_probe s =
     (case sendsess_oldest_above s 0 of None \<Rightarrow> (False, s)
      | Some a \<Rightarrow>
          if ss_requeue s \<noteq> [] then (False, s)
          else let s1 = sendsess_copy s (Some a)
               in (True, sendsess_copy s1 (sendsess_oldest_above s1 (ws_pn (ss_log s1 ! a) + 1))))"

definition wired_sendsess_pto_fire :: "wired_sendsess \<Rightarrow> int \<Rightarrow> bool \<times> wired_sendsess" where
  "wired_sendsess_pto_fire s mx =
     (if sendsess_oldest_above s 0 = None then (True, s)
      else if ss_pto_count s \<ge> mx then (False, s)
      else (True, snd (wired_sendsess_pto_probe (s\<lparr>ss_pto_count := ss_pto_count s + 1\<rparr>))))"

section \<open>The server's use of a session\<close>

text \<open>
  \<^verbatim>\<open>srvrun_slice.c\<close> and \<^verbatim>\<open>srvrun_sess.c\<close>: a taken slice is framed, sealed and sent as packet \<open>pn\<close>;
  \<open>sealed\<close> is whether that succeeded. A slice that was not sent or not logged goes back.
\<close>

definition srvrun_sess_log_room :: "wired_sendsess \<Rightarrow> bool" where
  "srvrun_sess_log_room sess \<longleftrightarrow> wired_sendsess_inflight sess < WIRED_SENDSESS_LOG"

definition srvrun_send_taken :: "wired_sendsess \<Rightarrow> wired_sendq_slice \<Rightarrow> bool \<Rightarrow> u64 \<Rightarrow> u64 \<Rightarrow> bool \<times> wired_sendsess" where
  "srvrun_send_taken sess sl sealed pn now_ms =
     (let (ok, s) = (if sealed then wired_sendsess_sent sess sl pn now_ms else (False, sess))
      in if ok then (True, s) else (False, wired_sendsess_untake s sl))"

text \<open>
  \<^verbatim>\<open>srvrun_pump.c\<close>: retransmissions only need room in the log; new slices also the congestion window
  and the flow-control credits, whose verdict is \<open>may_send_new\<close>.
\<close>

definition srvrun_pump_gate_ok :: "wired_sendsess \<Rightarrow> bool \<Rightarrow> bool" where
  "srvrun_pump_gate_ok sess may_send_new =
     (if ss_requeue sess \<noteq> [] then srvrun_sess_log_room sess else srvrun_sess_log_room sess \<and> may_send_new)"

definition srvrun_pump_one_slice :: "wired_sendsess \<Rightarrow> bool \<Rightarrow> bool \<Rightarrow> u64 \<Rightarrow> u64 \<Rightarrow> bool \<times> wired_sendsess" where
  "srvrun_pump_one_slice sess may_send_new sealed pn now_ms =
     (if \<not> srvrun_pump_gate_ok sess may_send_new then (False, sess)
      else case wired_sendsess_take sess of (None, s) \<Rightarrow> (False, s)
           | (Some sl, s) \<Rightarrow> srvrun_send_taken s sl sealed pn now_ms)"

definition srvrun_range_hits :: "wired_sendsess \<Rightarrow> u64 \<Rightarrow> u64 \<Rightarrow> nat" where
  "srvrun_range_hits sess lo hi =
     fold (\<lambda>i n. n + (if wired_sendsess_covered (ss_log sess ! i) lo hi then 1 else 0)) [0..<ss_log_hi sess] 0"

text \<open>\<^verbatim>\<open>srvrun_reap.c\<close>: what one acknowledged range does to a session.\<close>

definition srvrun_cc_range :: "wired_sendsess \<Rightarrow> u64 \<Rightarrow> u64 \<Rightarrow> wired_sendsess" where
  "srvrun_cc_range sess lo hi =
     (let s = wired_sendsess_ack_requeued sess lo hi
      in if srvrun_range_hits s lo hi = 0 then s else wired_sendsess_ack s lo hi)"

section \<open>Nothing is forgotten\<close>

text \<open>
  The reference for reliable delivery: \<open>hist\<close> is the set of pairs of a packet number and the slice
  it carried, for every packet logged so far, and \<open>acks\<close> the set of packet numbers acknowledged.
\<close>

definition slice_bytes :: "wired_sendq_slice \<Rightarrow> nat set" where
  "slice_bytes sl = {sl_offset sl..<sl_offset sl + sl_len sl}"

definition acked_bytes :: "(u64 \<times> wired_sendq_slice) set \<Rightarrow> u64 set \<Rightarrow> nat set" where
  "acked_bytes hist acks = (\<Union>(pn, sl) \<in> {x \<in> hist. fst x \<in> acks}. slice_bytes sl)"

definition log_bytes :: "wired_sent_slice list \<Rightarrow> nat set" where
  "log_bytes es = (\<Union>e \<in> {e \<in> set es. ws_inflight e}. slice_bytes (ws_sl e))"

definition requeue_bytes :: "(wired_sendq_slice \<times> u64) list \<Rightarrow> nat set" where
  "requeue_bytes rq = (\<Union>x \<in> set rq. slice_bytes (fst x))"

text \<open>The counters agree with the log.\<close>

definition sess_ok :: "wired_sendsess \<Rightarrow> bool" where
  "sess_ok s \<longleftrightarrow> length (ss_log s) = WIRED_SENDSESS_LOG \<and> ss_log_hi s \<le> WIRED_SENDSESS_LOG
     \<and> (\<forall>i < WIRED_SENDSESS_LOG. ws_inflight (ss_log s ! i) \<longrightarrow> i < ss_log_hi s)
     \<and> ss_inflight_n s = sum_list (map (\<lambda>e. if ws_inflight e then 1 else 0) (ss_log s))
     \<and> ss_inflight_len s = sum_list (map (\<lambda>e. if ws_inflight e then sl_len (ws_sl e) else 0) (ss_log s))
     \<and> length (ss_requeue s) \<le> WIRED_SENDSESS_LOG \<and> sq_cur (ss_q s) \<le> sq_len (ss_q s)"

text \<open>A slice that \<open>pn1 - 1\<close> carried, alone or as a part.\<close>

definition carried :: "(u64 \<times> wired_sendq_slice) set \<Rightarrow> wired_sendq_slice \<Rightarrow> u64 \<Rightarrow> bool" where
  "carried hist sl pn1 \<longleftrightarrow> pn1 = 0 \<or> (\<exists>(pn, sl') \<in> hist. pn1 = pn + 1 \<and> slice_bytes sl \<subseteq> slice_bytes sl')"

text \<open>
  The invariant. Every byte handed out so far is in flight, waiting in the requeue, acknowledged
  or in \<open>held\<close>, the slice just taken.
\<close>

definition sess_inv :: "wired_sendsess \<Rightarrow> nat set \<Rightarrow> (u64 \<times> wired_sendq_slice) set \<Rightarrow> u64 set \<Rightarrow> bool" where
  "sess_inv s held hist acks \<longleftrightarrow> sess_ok s
     \<and> (\<forall>e \<in> set (ss_log s). ws_inflight e \<longrightarrow> (ws_pn e, ws_sl e) \<in> hist \<and> slice_bytes (ws_sl e) \<subseteq> {..<sq_cur (ss_q s)})
     \<and> (\<forall>(sl, pn1) \<in> set (ss_requeue s). carried hist sl pn1 \<and> slice_bytes sl \<subseteq> {..<sq_cur (ss_q s)})
     \<and> {..<sq_cur (ss_q s)} \<subseteq> log_bytes (ss_log s) \<union> requeue_bytes (ss_requeue s) \<union> acked_bytes hist acks \<union> held"

lemma sess_invD:
  assumes "sess_inv s held hist acks"
  shows "sess_ok s"
    and "e \<in> set (ss_log s) \<Longrightarrow> ws_inflight e \<Longrightarrow> (ws_pn e, ws_sl e) \<in> hist"
    and "e \<in> set (ss_log s) \<Longrightarrow> ws_inflight e \<Longrightarrow> slice_bytes (ws_sl e) \<subseteq> {..<sq_cur (ss_q s)}"
    and "(sl, pn1) \<in> set (ss_requeue s) \<Longrightarrow> carried hist sl pn1"
    and "(sl, pn1) \<in> set (ss_requeue s) \<Longrightarrow> slice_bytes sl \<subseteq> {..<sq_cur (ss_q s)}"
    and "{..<sq_cur (ss_q s)} \<subseteq> log_bytes (ss_log s) \<union> requeue_bytes (ss_requeue s) \<union> acked_bytes hist acks \<union> held"
  using assms unfolding sess_inv_def by blast+

lemma log_bytes_clear:
  assumes "i < length es"
  shows "log_bytes es \<subseteq> log_bytes (es[i := (es ! i)\<lparr>ws_inflight := False\<rparr>]) \<union> slice_bytes (ws_sl (es ! i))"
proof
  fix o' assume "o' \<in> log_bytes es"
  then obtain j where j: "j < length es" "ws_inflight (es ! j)" "o' \<in> slice_bytes (ws_sl (es ! j))"
    by (auto simp: log_bytes_def in_set_conv_nth)
  show "o' \<in> log_bytes (es[i := (es ! i)\<lparr>ws_inflight := False\<rparr>]) \<union> slice_bytes (ws_sl (es ! i))"
  proof (cases "j = i")
    case False
    then have "es[i := (es ! i)\<lparr>ws_inflight := False\<rparr>] ! j = es ! j" by simp
    then have "es ! j \<in> set (es[i := (es ! i)\<lparr>ws_inflight := False\<rparr>])" using j(1) by (metis length_list_update nth_mem)
    then show ?thesis using j by (auto simp: log_bytes_def)
  qed (use j in simp)
qed

lemma sess_ok_clear:
  assumes ok: "sess_ok s" and i: "i < WIRED_SENDSESS_LOG" and fl: "ws_inflight (ss_log s ! i)"
  shows "sess_ok (sendsess_clear_inflight s i)"
proof -
  have l: "i < length (ss_log s)" using ok i by (simp add: sess_ok_def)
  show ?thesis
    using ok i fl l unfolding sess_ok_def sendsess_clear_inflight_def
    by (auto simp: map_update sum_list_update nth_list_update split: if_splits)
qed

text \<open>Clearing a slot keeps the invariant when its bytes are accounted for elsewhere.\<close>

lemma sess_inv_clear:
  assumes inv: "sess_inv s held hist acks" and i: "i < WIRED_SENDSESS_LOG" and fl: "ws_inflight (ss_log s ! i)"
    and acc: "slice_bytes (ws_sl (ss_log s ! i)) \<subseteq> requeue_bytes (ss_requeue s) \<union> acked_bytes hist acks \<union> held"
  shows "sess_inv (sendsess_clear_inflight s i) held hist acks"
proof -
  note I = sess_invD [OF inv]
  have l: "i < length (ss_log s)" using I(1) i by (simp add: sess_ok_def)
  have "e \<in> set (ss_log s)" if "e \<in> set ((ss_log s)[i := (ss_log s ! i)\<lparr>ws_inflight := False\<rparr>])" "ws_inflight e" for e
    using that by (auto dest!: set_update_subset_insert [THEN subsetD])
  then have "\<forall>e \<in> set (ss_log (sendsess_clear_inflight s i)). ws_inflight e \<longrightarrow>
      (ws_pn e, ws_sl e) \<in> hist \<and> slice_bytes (ws_sl e) \<subseteq> {..<sq_cur (ss_q s)}"
    using I(2,3) by (simp add: sendsess_clear_inflight_def)
  moreover have "{..<sq_cur (ss_q s)} \<subseteq> log_bytes (ss_log (sendsess_clear_inflight s i)) \<union> requeue_bytes (ss_requeue s)
      \<union> acked_bytes hist acks \<union> held"
    using I(6) log_bytes_clear [OF l] acc unfolding sendsess_clear_inflight_def by auto
  moreover have "\<forall>(sl, pn1) \<in> set (ss_requeue s). carried hist sl pn1 \<and> slice_bytes sl \<subseteq> {..<sq_cur (ss_q s)}"
    using I(4,5) by blast
  ultimately show ?thesis
    unfolding sess_inv_def using sess_ok_clear [OF I(1) i fl] by (simp add: sendsess_clear_inflight_def)
qed


lemma acked_bytes_mono: "hist \<subseteq> hist' \<Longrightarrow> acks \<subseteq> acks' \<Longrightarrow> acked_bytes hist acks \<subseteq> acked_bytes hist' acks'"
  by (auto simp: acked_bytes_def)

lemma carried_mono: "carried hist sl pn1 \<Longrightarrow> hist \<subseteq> hist' \<Longrightarrow> carried hist' sl pn1"
  by (auto simp: carried_def)

lemma sess_inv_mono:
  assumes "sess_inv s held hist acks" and "hist \<subseteq> hist'" and "acks \<subseteq> acks'" and "held \<subseteq> held'"
  shows "sess_inv s held' hist' acks'"
proof -
  note I = sess_invD [OF assms(1)]
  have "\<forall>(sl, pn1) \<in> set (ss_requeue s). carried hist' sl pn1" using I(4) carried_mono [OF _ assms(2)] by blast
  moreover have "{..<sq_cur (ss_q s)} \<subseteq> log_bytes (ss_log s) \<union> requeue_bytes (ss_requeue s) \<union> acked_bytes hist' acks' \<union> held'"
    using I(6) acked_bytes_mono [OF assms(2,3)] assms(4) by blast
  ultimately show ?thesis using I(1-3,5) assms(2) unfolding sess_inv_def by blast
qed

lemma sess_inv_requeue:
  assumes inv: "sess_inv s (slice_bytes sl) hist acks" and room: "length (ss_requeue s) < WIRED_SENDSESS_LOG"
    and car: "carried hist sl pn1" and sub: "slice_bytes sl \<subseteq> {..<sq_cur (ss_q s)}"
  shows "sess_inv (s\<lparr>ss_requeue := ss_requeue s @ [(sl, pn1)]\<rparr>) {} hist acks"
  using assms unfolding sess_inv_def sess_ok_def by (auto simp: requeue_bytes_def)

subsection \<open>Acknowledgment\<close>

lemma sess_inv_fields:
  assumes "ss_log s' = ss_log s" and "ss_requeue s' = ss_requeue s" and "ss_q s' = ss_q s" and "ss_inflight_n s' = ss_inflight_n s"
    and "ss_inflight_len s' = ss_inflight_len s" and "ss_log_hi s' = ss_log_hi s"
  shows "sess_inv s' held hist acks \<longleftrightarrow> sess_inv s held hist acks"
  using assms by (simp add: sess_inv_def sess_ok_def)

lemma covered_acked:
  assumes "sess_inv s held hist acks" and "i < WIRED_SENDSESS_LOG" and "wired_sendsess_covered (ss_log s ! i) lo hi"
    and "{lo..hi} \<subseteq> acks"
  shows "slice_bytes (ws_sl (ss_log s ! i)) \<subseteq> acked_bytes hist acks"
proof -
  have "ss_log s ! i \<in> set (ss_log s)" using sess_invD(1) [OF assms(1)] assms(2) by (simp add: sess_ok_def)
  then have "(ws_pn (ss_log s ! i), ws_sl (ss_log s ! i)) \<in> hist"
    using sess_invD(2) [OF assms(1)] assms(3) by (simp add: wired_sendsess_covered_def)
  then show ?thesis using assms(3,4) unfolding acked_bytes_def wired_sendsess_covered_def by fastforce
qed

lemma sess_inv_ack:
  assumes "sess_inv s {} hist acks"
  shows "sess_inv (wired_sendsess_ack s lo hi) {} hist (acks \<union> {lo..hi})"
proof -
  let ?A = "acks \<union> {lo..hi}"
  let ?s = "(sendsess_note_largest s hi)\<lparr>ss_pto_count := 0\<rparr>"
  have "sess_inv s {} hist ?A" using sess_inv_mono [OF assms] by blast
  then have init: "sess_inv ?s {} hist ?A"
    using sess_inv_fields [of ?s s] by (simp add: sendsess_note_largest_def)
  have hi: "ss_log_hi s \<le> WIRED_SENDSESS_LOG" using sess_invD(1) [OF assms] by (simp add: sess_ok_def)
  show ?thesis
    unfolding wired_sendsess_ack_def
  proof (rule fold_invariant [where Q = "\<lambda>i. i < WIRED_SENDSESS_LOG"])
    fix i s assume i: "i < WIRED_SENDSESS_LOG" and s: "sess_inv s {} hist ?A"
    show "sess_inv (if wired_sendsess_covered (ss_log s ! i) lo hi then sendsess_clear_inflight s i else s) {} hist ?A"
      using covered_acked [OF s i, of lo hi] sess_inv_clear [OF s i] s by (auto simp: wired_sendsess_covered_def)
  qed (use hi init in auto)
qed

lemma requeue_acked_bytes:
  assumes "carried hist sl pn1" and "sendsess_requeue_acked pn1 lo hi" and "{lo..hi} \<subseteq> acks"
  shows "slice_bytes sl \<subseteq> acked_bytes hist acks"
proof -
  have nz: "lo < pn1" "pn1 - 1 \<le> hi" using assms(2) by (simp_all add: sendsess_requeue_acked_def)
  then have "pn1 \<noteq> 0" by auto
  then obtain pn sl' where p: "(pn, sl') \<in> hist" "pn1 = pn + 1" "slice_bytes sl \<subseteq> slice_bytes sl'"
    using assms(1) by (auto simp: carried_def)
  have "unat (pn1 - 1) = unat pn1 - 1" using \<open>pn1 \<noteq> 0\<close> by (rule unat_minus_one)
  then have "lo \<le> pn" using nz(1) p(2) by (simp add: u64_le_mono u64_less_mono)
  then have "pn \<in> {lo..hi}" using nz(2) p(2) by simp
  then show ?thesis using p(1,3) assms(3) by (force simp: acked_bytes_def)
qed

lemma swap_remove_set:
  assumes "i < length xs"
  shows "set (butlast (xs[i := last xs])) \<subseteq> set xs" and "set xs \<subseteq> insert (xs ! i) (set (butlast (xs[i := last xs])))"
proof -
  have ne: "xs \<noteq> []" using assms by auto
  have "set (xs[i := last xs]) \<subseteq> set xs" using last_in_set [OF ne] by (auto dest!: set_update_subset_insert [THEN subsetD])
  then show "set (butlast (xs[i := last xs])) \<subseteq> set xs" by (auto dest: in_set_butlastD)
  show "set xs \<subseteq> insert (xs ! i) (set (butlast (xs[i := last xs])))"
  proof
    fix x assume "x \<in> set xs"
    then obtain j where j: "j < length xs" "x = xs ! j" by (auto simp: in_set_conv_nth)
    let ?ys = "butlast (xs[i := last xs])"
    have ys: "k < length ?ys \<Longrightarrow> ?ys ! k = (if k = i then last xs else xs ! k)" for k
      using assms by (simp add: nth_butlast nth_list_update)
    consider "j = i" | "j \<noteq> i" "j < length xs - 1" | "j \<noteq> i" "j = length xs - 1" using j(1) by linarith
    then show "x \<in> insert (xs ! i) (set ?ys)"
    proof cases
      case 2
      then show ?thesis using ys [of j] j by (metis insertCI length_butlast length_list_update nth_mem)
    next
      case 3
      then have "i < length ?ys" "?ys ! i = x" using ys [of i] j assms ne by (simp_all add: last_conv_nth)
      then show ?thesis by (metis insertCI nth_mem)
    qed (use j in simp)
  qed
qed

lemma ack_requeued_loop_props:
  "set (ack_requeued_loop lo hi i rq) \<subseteq> set rq \<and> length (ack_requeued_loop lo hi i rq) \<le> length rq
   \<and> (\<forall>x \<in> set rq. x \<in> set (ack_requeued_loop lo hi i rq) \<or> sendsess_requeue_acked (snd x) lo hi)"
proof (induction lo hi i rq rule: ack_requeued_loop.induct)
  case (1 lo hi i rq)
  show ?case
  proof (cases "i < length rq \<and> sendsess_requeue_acked (snd (rq ! i)) lo hi")
    case True
    then have eq: "ack_requeued_loop lo hi i rq = ack_requeued_loop lo hi i (butlast (rq[i := last rq]))"
      by (simp add: ack_requeued_loop.simps [of lo hi i rq])
    note IH = 1(2) [of] and S = swap_remove_set [of i rq]
    show ?thesis using IH True S unfolding eq by (auto intro: order.trans)
  next
    case False
    then show ?thesis using 1(1) by (cases "i < length rq") (simp_all add: ack_requeued_loop.simps [of lo hi i rq])
  qed
qed

lemma sess_inv_ack_requeued:
  assumes "sess_inv s {} hist acks"
  shows "sess_inv (wired_sendsess_ack_requeued s lo hi) {} hist (acks \<union> {lo..hi})"
proof -
  let ?A = "acks \<union> {lo..hi}" and ?rq = "ack_requeued_loop lo hi 0 (ss_requeue s)"
  have inv: "sess_inv s {} hist ?A" using sess_inv_mono [OF assms] by blast
  note I = sess_invD [OF inv] and R = ack_requeued_loop_props [of lo hi 0 "ss_requeue s"]
  have "requeue_bytes (ss_requeue s) \<subseteq> requeue_bytes ?rq \<union> acked_bytes hist ?A"
  proof
    fix o' assume "o' \<in> requeue_bytes (ss_requeue s)"
    then obtain sl pn1 where x: "(sl, pn1) \<in> set (ss_requeue s)" "o' \<in> slice_bytes sl" by (auto simp: requeue_bytes_def)
    with R consider "(sl, pn1) \<in> set ?rq" | "sendsess_requeue_acked pn1 lo hi" by fastforce
    then show "o' \<in> requeue_bytes ?rq \<union> acked_bytes hist ?A"
      using requeue_acked_bytes [OF I(4) [OF x(1)], of lo hi ?A] x(2) by cases (force simp: requeue_bytes_def, blast)
  qed
  then have "{..<sq_cur (ss_q s)} \<subseteq> log_bytes (ss_log s) \<union> requeue_bytes ?rq \<union> acked_bytes hist ?A \<union> {}" using I(6) by blast
  moreover have "\<forall>(sl, pn1) \<in> set ?rq. carried hist sl pn1 \<and> slice_bytes sl \<subseteq> {..<sq_cur (ss_q s)}"
    using I(4,5) R by blast
  moreover have "sess_ok (s\<lparr>ss_requeue := ?rq\<rparr>)" using I(1) R by (auto simp: sess_ok_def)
  ultimately show ?thesis using I(2,3) unfolding sess_inv_def wired_sendsess_ack_requeued_def by auto
qed

lemma sess_inv_cc_range:
  assumes "sess_inv s {} hist acks"
  shows "sess_inv (srvrun_cc_range s lo hi) {} hist (acks \<union> {lo..hi})"
  using sess_inv_ack_requeued [OF assms, of lo hi] sess_inv_ack [OF sess_inv_ack_requeued [OF assms, of lo hi], of lo hi]
  by (simp add: srvrun_cc_range_def Let_def Un_assoc)

subsection \<open>Loss and probes\<close>

lemma log_entry:
  assumes "sess_inv s held hist acks" and "i < WIRED_SENDSESS_LOG" and "ws_inflight (ss_log s ! i)"
  shows "carried hist (ws_sl (ss_log s ! i)) (ws_pn (ss_log s ! i) + 1)"
    and "slice_bytes (ws_sl (ss_log s ! i)) \<subseteq> {..<sq_cur (ss_q s)}"
proof -
  have e: "ss_log s ! i \<in> set (ss_log s)" using sess_invD(1) [OF assms(1)] assms(2) by (simp add: sess_ok_def)
  show "slice_bytes (ws_sl (ss_log s ! i)) \<subseteq> {..<sq_cur (ss_q s)}" by (rule sess_invD(3) [OF assms(1) e assms(3)])
  show "carried hist (ws_sl (ss_log s ! i)) (ws_pn (ss_log s ! i) + 1)"
    using sess_invD(2) [OF assms(1) e assms(3)] by (force simp: carried_def)
qed

lemma sess_inv_copy_entry:
  assumes "sess_inv s {} hist acks" and "i < WIRED_SENDSESS_LOG" and "ws_inflight (ss_log s ! i)"
    and "length (ss_requeue s) < WIRED_SENDSESS_LOG"
  shows "sess_inv (s\<lparr>ss_requeue := ss_requeue s @ [(ws_sl (ss_log s ! i), ws_pn (ss_log s ! i) + 1)]\<rparr>) {} hist acks"
  using sess_inv_requeue [OF sess_inv_mono [OF assms(1)] assms(4) log_entry [OF assms(1-3)]] by blast

lemma sess_inv_lost_one:
  assumes inv: "sess_inv s {} hist acks" and i: "i < WIRED_SENDSESS_LOG" and fl: "ws_inflight (ss_log s ! i)"
  shows "sess_inv (sendsess_requeue s i) {} hist acks"
proof (cases "length (ss_requeue s) < WIRED_SENDSESS_LOG")
  case True
  let ?s = "s\<lparr>ss_requeue := ss_requeue s @ [(ws_sl (ss_log s ! i), ws_pn (ss_log s ! i) + 1)]\<rparr>"
  have "sess_inv (sendsess_clear_inflight ?s i) {} hist acks"
    by (rule sess_inv_clear [OF sess_inv_copy_entry [OF assms True] i]) (use fl in \<open>auto simp: requeue_bytes_def\<close>)
  then show ?thesis using True by (simp add: sendsess_requeue_def)
qed (use inv in \<open>simp add: sendsess_requeue_def\<close>)

lemma sess_inv_detect_lost:
  assumes "sess_inv s {} hist acks"
  shows "sess_inv (snd (snd (wired_sendsess_detect_lost s largest now delay cap))) {} hist acks"
proof -
  have hi: "ss_log_hi s \<le> WIRED_SENDSESS_LOG" using sess_invD(1) [OF assms] by (simp add: sess_ok_def)
  show ?thesis
    unfolding wired_sendsess_detect_lost_def
    by (rule fold_invariant [where Q = "\<lambda>i. i < WIRED_SENDSESS_LOG" and P = "\<lambda>x. sess_inv (snd (snd x)) {} hist acks"])
      (use hi assms sess_inv_lost_one in \<open>auto simp: sendsess_lost_def sendsess_lost_eligible_def\<close>)
qed

lemma oldest_above_inflight:
  assumes "sendsess_oldest_above s above1 = Some i" and "ss_log_hi s \<le> WIRED_SENDSESS_LOG"
  shows "i < WIRED_SENDSESS_LOG \<and> ws_inflight (ss_log s ! i)"
proof -
  have "case sendsess_oldest_above s above1 of None \<Rightarrow> True | Some i \<Rightarrow> i < WIRED_SENDSESS_LOG \<and> ws_inflight (ss_log s ! i)"
    unfolding sendsess_oldest_above_def
    by (rule fold_invariant [where Q = "\<lambda>i. i < WIRED_SENDSESS_LOG"])
      (use assms(2) in \<open>auto simp: sendsess_older_def sendsess_live_above_def\<close>)
  then show ?thesis using assms(1) by simp
qed

lemma sess_inv_copy:
  assumes "sess_inv s {} hist acks" and "i = sendsess_oldest_above s above1"
  shows "sess_inv (sendsess_copy s i) {} hist acks"
proof (cases i)
  case (Some j)
  have "ss_log_hi s \<le> WIRED_SENDSESS_LOG" using sess_invD(1) [OF assms(1)] by (simp add: sess_ok_def)
  then have "j < WIRED_SENDSESS_LOG" "ws_inflight (ss_log s ! j)" using oldest_above_inflight [of s above1 j] assms(2) Some by auto
  then show ?thesis using sess_inv_copy_entry [OF assms(1)] assms(1) Some by (simp add: sendsess_copy_def)
qed (use assms in \<open>simp add: sendsess_copy_def\<close>)

lemma sess_inv_pto_probe:
  assumes "sess_inv s {} hist acks"
  shows "sess_inv (snd (wired_sendsess_pto_probe s)) {} hist acks"
  using assms sess_inv_copy [OF assms refl, of 0] sess_inv_copy [OF sess_inv_copy [OF assms refl, of 0] refl]
  by (auto simp: wired_sendsess_pto_probe_def Let_def split: option.split)

lemma sess_inv_pto_fire:
  assumes "sess_inv s {} hist acks"
  shows "sess_inv (snd (wired_sendsess_pto_fire s mx)) {} hist acks"
proof -
  have "sess_inv (s\<lparr>ss_pto_count := ss_pto_count s + 1\<rparr>) {} hist acks"
    using assms sess_inv_fields [of "s\<lparr>ss_pto_count := ss_pto_count s + 1\<rparr>" s] by simp
  from sess_inv_pto_probe [OF this] assms show ?thesis by (simp add: wired_sendsess_pto_fire_def)
qed

subsection \<open>Sending\<close>

lemma sess_inv_extend: "sess_inv s held hist acks \<Longrightarrow> sess_inv (wired_sendsess_extend s added) held hist acks"
  by (simp add: sess_inv_def sess_ok_def wired_sendsess_extend_def)

lemma sess_inv_chunk: "sess_inv s held hist acks \<Longrightarrow> sess_inv (s\<lparr>ss_q := (ss_q s)\<lparr>sq_chunk := c\<rparr>\<rparr>) held hist acks"
  by (simp add: sess_inv_def sess_ok_def)

text \<open>What holds between a take and the send or untake that follows.\<close>

definition held_ok :: "wired_sendsess \<Rightarrow> wired_sendq_slice \<Rightarrow> (u64 \<times> wired_sendq_slice) set \<Rightarrow> bool" where
  "held_ok s sl hist \<longleftrightarrow> carried hist sl (ss_taken_pn s) \<and> slice_bytes sl \<subseteq> {..<sq_cur (ss_q s)}"

lemma requeue_bytes_last: "rq \<noteq> [] \<Longrightarrow> requeue_bytes rq = requeue_bytes (butlast rq) \<union> slice_bytes (fst (last rq))"
  by (metis (no_types, lifting) UN_insert UN_Un append_butlast_last_id list.set(1,2) requeue_bytes_def set_append sup_bot.right_neutral Sup_empty image_empty)

lemma sess_inv_pop:
  assumes inv: "sess_inv s {} hist acks" and ne: "ss_requeue s \<noteq> []" and l: "last (ss_requeue s) = (sl, pn1)"
  shows "sess_inv (s\<lparr>ss_requeue := butlast (ss_requeue s), ss_taken_pn := pn1\<rparr>) (slice_bytes sl) hist acks"
    and "carried hist sl pn1" and "slice_bytes sl \<subseteq> {..<sq_cur (ss_q s)}"
proof -
  note I = sess_invD [OF inv]
  have m: "(sl, pn1) \<in> set (ss_requeue s)" using last_in_set [OF ne] l by simp
  show "carried hist sl pn1" "slice_bytes sl \<subseteq> {..<sq_cur (ss_q s)}" using I(4,5) [OF m] by simp_all
  have "set (butlast (ss_requeue s)) \<subseteq> set (ss_requeue s)" by (auto dest: in_set_butlastD)
  then have "\<forall>(sl, pn1) \<in> set (butlast (ss_requeue s)). carried hist sl pn1 \<and> slice_bytes sl \<subseteq> {..<sq_cur (ss_q s)}"
    using I(4,5) by blast
  moreover have "{..<sq_cur (ss_q s)} \<subseteq> log_bytes (ss_log s) \<union> requeue_bytes (butlast (ss_requeue s)) \<union> acked_bytes hist acks \<union> slice_bytes sl"
    using I(6) requeue_bytes_last [OF ne] l by auto
  moreover have "length (ss_requeue s) - Suc 0 \<le> WIRED_SENDSESS_LOG" using I(1) unfolding sess_ok_def by linarith
  ultimately show "sess_inv (s\<lparr>ss_requeue := butlast (ss_requeue s), ss_taken_pn := pn1\<rparr>) (slice_bytes sl) hist acks"
    using I(1-3) unfolding sess_inv_def sess_ok_def by simp
qed

lemma slice_bytes_split:
  assumes "c < sl_len sl"
  shows "slice_bytes sl = slice_bytes (sl\<lparr>sl_len := c, sl_fin := f\<rparr>) \<union> slice_bytes \<lparr>sl_offset = sl_offset sl + c, sl_len = sl_len sl - c, sl_fin = g\<rparr>"
  using assms by (auto simp: slice_bytes_def)

lemma carried_sub: "carried hist sl pn1 \<Longrightarrow> slice_bytes sl' \<subseteq> slice_bytes sl \<Longrightarrow> carried hist sl' pn1"
  by (fastforce simp: carried_def)

lemma sess_inv_split:
  assumes inv: "sess_inv s (slice_bytes sl) hist acks" and ok: "held_ok s sl hist"
    and room: "length (ss_requeue s) < WIRED_SENDSESS_LOG" and sp: "sendsess_split s sl = (sl', s')"
  shows "sess_inv s' (slice_bytes sl') hist acks" and "held_ok s' sl' hist"
    and "length (ss_requeue s') \<le> Suc (length (ss_requeue s))" and "sq_chunk (ss_q s) = 0 \<or> sl_len sl \<le> sq_chunk (ss_q s) \<Longrightarrow> ss_requeue s' = ss_requeue s"
proof -
  let ?c = "sq_chunk (ss_q s)"
  let ?rest = "\<lparr>sl_offset = sl_offset sl + ?c, sl_len = sl_len sl - ?c, sl_fin = sl_fin sl\<rparr>"
  show "length (ss_requeue s') \<le> Suc (length (ss_requeue s))" "?c = 0 \<or> sl_len sl \<le> ?c \<Longrightarrow> ss_requeue s' = ss_requeue s"
    using sp by (auto simp: sendsess_split_def Let_def split: if_splits)
  have "sess_inv s' (slice_bytes sl') hist acks \<and> held_ok s' sl' hist"
  proof (cases "?c = 0 \<or> sl_len sl \<le> ?c")
    case True
    then show ?thesis using sp inv ok by (simp add: sendsess_split_def)
  next
    case False
    then have s': "sl' = sl\<lparr>sl_len := ?c, sl_fin := False\<rparr>" "s' = s\<lparr>ss_requeue := ss_requeue s @ [(?rest, ss_taken_pn s)]\<rparr>"
      using sp by (auto simp: sendsess_split_def Let_def)
    have b: "slice_bytes sl = slice_bytes sl' \<union> slice_bytes ?rest" using slice_bytes_split [of ?c sl] False s'(1) by simp
    have c: "carried hist sl' (ss_taken_pn s)" "carried hist ?rest (ss_taken_pn s)"
      using ok b carried_sub [of hist sl] by (auto simp: held_ok_def)
    show ?thesis
      using inv c b room ok unfolding sess_inv_def sess_ok_def held_ok_def s'(2) by (auto simp: requeue_bytes_def)
  qed
  then show "sess_inv s' (slice_bytes sl') hist acks" "held_ok s' sl' hist" by blast+
qed

lemma sess_inv_next:
  assumes inv: "sess_inv s {} hist acks" and nx: "wired_sendq_next (ss_q s) = Some (sl, q)"
  shows "sess_inv (s\<lparr>ss_q := q\<rparr>) (slice_bytes sl) hist acks" and "slice_bytes sl \<subseteq> {..<sq_cur q}"
proof -
  let ?c = "sq_cur (ss_q s)" and ?n = "sendq_take (ss_q s)"
  have n: "?n \<le> sq_len (ss_q s) - ?c" by (auto simp: sendq_take_def Let_def)
  have q: "?c < sq_len (ss_q s)" "q = (ss_q s)\<lparr>sq_cur := ?c + ?n\<rparr>" "slice_bytes sl = {?c..<?c + ?n}"
    using nx by (auto simp: wired_sendq_next_def Let_def slice_bytes_def split: if_splits)
  have grow: "{..<?c + ?n} = {..<?c} \<union> slice_bytes sl" unfolding q(3) by auto
  show "slice_bytes sl \<subseteq> {..<sq_cur q}" using q(2,3) by auto
  show "sess_inv (s\<lparr>ss_q := q\<rparr>) (slice_bytes sl) hist acks"
    using inv n q(1) unfolding sess_inv_def sess_ok_def by (auto simp: q(2) grow)
qed

lemma sess_inv_take:
  assumes inv: "sess_inv s {} hist acks" and tk: "wired_sendsess_take s = (Some sl, s')"
  shows "sess_inv s' (slice_bytes sl) hist acks" and "held_ok s' sl hist"
proof -
  let ?s = "s\<lparr>ss_taken_pn := 0\<rparr>"
  have i0: "sess_inv ?s {} hist acks" using inv sess_inv_fields [of ?s s] by simp
  have "sess_inv s' (slice_bytes sl) hist acks \<and> held_ok s' sl hist"
  proof (cases "ss_requeue s = []")
    case True
    then obtain q where q: "wired_sendq_next (ss_q ?s) = Some (sl, q)" "s' = ?s\<lparr>ss_q := q\<rparr>"
      using tk by (auto simp: wired_sendsess_take_def Let_def split: option.splits)
    then show ?thesis using sess_inv_next [OF i0 q(1)] by (simp add: held_ok_def carried_def)
  next
    case False
    obtain sl0 pn1 where l: "last (ss_requeue ?s) = (sl0, pn1)" by fastforce
    let ?t = "?s\<lparr>ss_requeue := butlast (ss_requeue ?s), ss_taken_pn := pn1\<rparr>"
    have sp: "sendsess_split ?t sl0 = (sl, s')"
      using tk False l by (simp add: wired_sendsess_take_def Let_def split: prod.splits)
    have ne: "ss_requeue ?s \<noteq> []" using False by simp
    note P = sess_inv_pop [OF i0 ne l]
    have "held_ok ?t sl0 hist" using P(2,3) by (simp add: held_ok_def)
    moreover have "length (ss_requeue ?t) < WIRED_SENDSESS_LOG"
      using sess_invD(1) [OF inv] False by (cases "ss_requeue s" rule: rev_cases) (auto simp: sess_ok_def)
    ultimately show ?thesis using sess_inv_split(1,2) [OF P(1) _ _ sp] by blast
  qed
  then show "sess_inv s' (slice_bytes sl) hist acks" "held_ok s' sl hist" by blast+
qed

lemma free_slot_props:
  assumes "sess_ok s" and "sendsess_free_slot s = Some i"
  shows "i < WIRED_SENDSESS_LOG" and "\<not> ws_inflight (ss_log s ! i)"
  using assms(2) scan0_found [of "\<lambda>i. ws_inflight (ss_log s ! i)" WIRED_SENDSESS_LOG]
  by (auto simp: sendsess_free_slot_def Let_def split: if_splits)

lemma sess_inv_sent:
  assumes inv: "sess_inv s (slice_bytes sl) hist acks" and ok: "held_ok s sl hist"
    and st: "wired_sendsess_sent s sl pn now = (True, s')"
  shows "sess_inv s' {} (insert (pn, sl) hist) acks"
proof -
  let ?h = "insert (pn, sl) hist" and ?e = "\<lparr>ws_pn = pn, ws_sl = sl, ws_inflight = True, ws_sent_ms = now\<rparr>"
  have inv': "sess_inv s (slice_bytes sl) ?h acks" by (rule sess_inv_mono [OF inv]) auto
  note I = sess_invD [OF inv']
  obtain i where fs: "sendsess_free_slot s = Some i"
    and s': "s' = s\<lparr>ss_log := (ss_log s)[i := ?e], ss_inflight_n := ss_inflight_n s + 1,
      ss_inflight_len := ss_inflight_len s + sl_len sl, ss_log_hi := max (ss_log_hi s) (i + 1)\<rparr>"
    using st by (auto simp: wired_sendsess_sent_def split: option.splits)
  note i = free_slot_props [OF I(1) fs]
  have l: "i < length (ss_log s)" using I(1) i(1) by (simp add: sess_ok_def)
  have ok': "sess_ok s'" using I(1) i l unfolding sess_ok_def s'
    by (auto simp: map_update sum_list_update nth_list_update less_Suc_eq_le le_max_iff_disj)
  have log: "log_bytes (ss_log s) \<union> slice_bytes sl \<subseteq> log_bytes ((ss_log s)[i := ?e])"
  proof -
    have "?e \<in> set ((ss_log s)[i := ?e])" using l by (rule set_update_memI)
    moreover have "e \<in> set ((ss_log s)[i := ?e])" if "e \<in> set (ss_log s)" "ws_inflight e" for e
      using that i(2) by (metis in_set_conv_nth length_list_update nth_list_update_neq nth_mem)
    ultimately show ?thesis by (force simp: log_bytes_def)
  qed
  have "\<forall>e \<in> set ((ss_log s)[i := ?e]). ws_inflight e \<longrightarrow> (ws_pn e, ws_sl e) \<in> ?h \<and> slice_bytes (ws_sl e) \<subseteq> {..<sq_cur (ss_q s)}"
    using I(2,3) ok by (auto simp: held_ok_def dest!: set_update_subset_insert [THEN subsetD])
  moreover have "\<forall>(sl, pn1) \<in> set (ss_requeue s). carried ?h sl pn1 \<and> slice_bytes sl \<subseteq> {..<sq_cur (ss_q s)}" using I(4,5) by blast
  moreover have "{..<sq_cur (ss_q s)} \<subseteq> log_bytes ((ss_log s)[i := ?e]) \<union> requeue_bytes (ss_requeue s) \<union> acked_bytes ?h acks \<union> {}"
    using I(6) log by blast
  ultimately show ?thesis using ok' unfolding sess_inv_def s' by simp
qed

lemma sess_inv_untake:
  assumes "sess_inv s (slice_bytes sl) hist acks" and "held_ok s sl hist" and "length (ss_requeue s) < WIRED_SENDSESS_LOG"
  shows "sess_inv (wired_sendsess_untake s sl) {} hist acks"
  using sess_inv_requeue [OF assms(1,3)] assms(2,3) by (simp add: wired_sendsess_untake_def held_ok_def)

lemma log_room_sent:
  assumes "sess_ok s" and "srvrun_sess_log_room s"
  shows "fst (wired_sendsess_sent s sl pn now)"
proof (rule ccontr)
  assume "\<not> ?thesis"
  then have "\<forall>i < WIRED_SENDSESS_LOG. ws_inflight (ss_log s ! i)"
    using scan0_found [of "\<lambda>i. ws_inflight (ss_log s ! i)" WIRED_SENDSESS_LOG]
      scan0_full [of "\<lambda>i. ws_inflight (ss_log s ! i)" WIRED_SENDSESS_LOG]
    by (auto simp: wired_sendsess_sent_def sendsess_free_slot_def Let_def split: if_splits)
  then have "\<forall>e \<in> set (ss_log s). ws_inflight e" using assms(1) by (auto simp: sess_ok_def in_set_conv_nth)
  moreover have "(\<forall>e \<in> set es. P e) \<Longrightarrow> sum_list (map (\<lambda>e. if P e then 1 else 0 :: nat) es) = length es"
    for P and es :: "wired_sent_slice list"
    by (induction es) auto
  ultimately have "ss_inflight_n s = WIRED_SENDSESS_LOG" using assms(1) by (simp add: sess_ok_def)
  then show False using assms(2) by (simp add: srvrun_sess_log_room_def wired_sendsess_inflight_def)
qed

lemma sess_inv_pump:
  assumes inv: "sess_inv s {} hist acks" and pump: "srvrun_pump_one_slice s may sealed pn now = (ok, s')"
  shows "ok \<Longrightarrow> \<exists>sl. fst (wired_sendsess_take s) = Some sl \<and> sess_inv s' {} (insert (pn, sl) hist) acks"
    and "\<not> ok \<Longrightarrow> length (ss_requeue (snd (wired_sendsess_take s))) < WIRED_SENDSESS_LOG \<Longrightarrow> sess_inv s' {} hist acks"
proof -
  obtain x t where t: "wired_sendsess_take s = (x, t)" by fastforce
  have none: "sess_inv t {} hist acks" if "x = None"
    using that t inv sess_inv_fields [of "s\<lparr>ss_taken_pn := 0\<rparr>" s]
    by (auto simp: wired_sendsess_take_def Let_def split: if_splits option.splits prod.splits)
  note T = sess_inv_take [OF inv]
  show "\<exists>sl. fst (wired_sendsess_take s) = Some sl \<and> sess_inv s' {} (insert (pn, sl) hist) acks" if okT: ok
  proof -
    obtain sl where sl: "x = Some sl" "srvrun_send_taken t sl sealed pn now = (True, s')"
      using pump okT t by (cases x) (auto simp: srvrun_pump_one_slice_def split: if_splits)
    then have "wired_sendsess_sent t sl pn now = (True, s')"
      by (auto simp: srvrun_send_taken_def split: if_splits prod.splits)
    then show ?thesis using sess_inv_sent [OF T(1,2)] t sl(1) by auto
  qed
  show "sess_inv s' {} hist acks" if okF: "\<not> ok" and room: "length (ss_requeue (snd (wired_sendsess_take s))) < WIRED_SENDSESS_LOG"
  proof (cases "srvrun_pump_gate_ok s may \<and> x \<noteq> None")
    case True
    then obtain sl where sl: "x = Some sl" "srvrun_send_taken t sl sealed pn now = (False, s')"
      using pump okF t by (auto simp: srvrun_pump_one_slice_def)
    then have "s' = wired_sendsess_untake t sl"
      by (auto simp: srvrun_send_taken_def wired_sendsess_sent_def split: if_splits prod.splits option.splits)
    then show ?thesis using sess_inv_untake [OF T(1) T(2)] t sl(1) room by auto
  next
    case False
    then show ?thesis using pump okF t none inv by (auto simp: srvrun_pump_one_slice_def split: if_splits)
  qed
qed

lemma sess_inv_arm:
  assumes "length (ss_log s) = WIRED_SENDSESS_LOG"
  shows "sess_inv (wired_sendsess_arm s p len chunk) {} {} {}"
proof -
  have z: "sum_list (map (\<lambda>e. 0 :: nat) es) = 0" for es :: "wired_sent_slice list" by (induction es) auto
  show ?thesis
    using assms by (auto simp: sess_inv_def sess_ok_def wired_sendsess_arm_def wired_sendq_init_def comp_def z)
qed

text \<open>
  The life of a session: any interleaving of send attempts, acknowledged ranges, loss passes,
  probe timeouts, extensions of the stream and changes of the slice size. A failed attempt returns
  its slice; \<open>retry\<close> is the case in which the requeue has room for it.
\<close>

type_synonym sess_world = "wired_sendsess \<times> (u64 \<times> wired_sendq_slice) set \<times> u64 set"

inductive sess_step :: "sess_world \<Rightarrow> sess_world \<Rightarrow> bool" where
  sent: "sess_step (s, hist, acks) (s', insert (pn, sl) hist, acks)"
    if "srvrun_pump_one_slice s may sealed pn now = (True, s')" and "fst (wired_sendsess_take s) = Some sl"
| retry: "sess_step (s, hist, acks) (s', hist, acks)"
    if "srvrun_pump_one_slice s may sealed pn now = (False, s')"
    and "length (ss_requeue (snd (wired_sendsess_take s))) < WIRED_SENDSESS_LOG"
| ack: "sess_step (s, hist, acks) (srvrun_cc_range s lo hi, hist, acks \<union> {lo..hi})"
| lost: "sess_step (s, hist, acks) (s', hist, acks)"
    if "wired_sendsess_detect_lost s largest now delay cap = (n, lost, s')"
| probe: "sess_step (s, hist, acks) (s', hist, acks)" if "wired_sendsess_pto_fire s mx = (ok, s')"
| extend: "sess_step (s, hist, acks) (wired_sendsess_extend s added, hist, acks)"
| resize: "sess_step (s, hist, acks) (s\<lparr>ss_q := (ss_q s)\<lparr>sq_chunk := chunk\<rparr>\<rparr>, hist, acks)"

lemma sess_inv_step:
  assumes "sess_step (s, hist, acks) (s', hist', acks')" and "sess_inv s {} hist acks"
  shows "sess_inv s' {} hist' acks'"
  using assms
proof (cases rule: sess_step.cases)
  case (sent may sealed pn now sl)
  then show ?thesis using sess_inv_pump(1) [OF assms(2) sent(3)] by auto
next
  case (retry may sealed pn now)
  then show ?thesis using sess_inv_pump(2) [OF assms(2) retry(3)] by auto
next
  case (lost largest now delay cap n lost)
  then show ?thesis using sess_inv_detect_lost [OF assms(2), of largest now delay cap] by simp
next
  case (probe mx ok)
  then show ?thesis using sess_inv_pto_fire [OF assms(2), of mx] by simp
qed (use assms(2) sess_inv_cc_range sess_inv_extend sess_inv_chunk in auto)

lemma sess_inv_reachable:
  assumes "sess_step\<^sup>*\<^sup>* (wired_sendsess_arm s0 p len chunk, {}, {}) w" and "length (ss_log s0) = WIRED_SENDSESS_LOG"
  shows "sess_inv (fst w) {} (fst (snd w)) (snd (snd w))"
  using assms(1)
proof induction
  case base
  then show ?case using sess_inv_arm [OF assms(2)] by simp
next
  case (step y z)
  then show ?case using sess_inv_step by (cases y, cases z) fastforce
qed

lemma inflight_none:
  assumes "sess_ok s" and "ss_inflight_n s = 0"
  shows "\<not> (\<exists>e \<in> set (ss_log s). ws_inflight e)" and "log_bytes (ss_log s) = {}"
proof -
  show n: "\<not> (\<exists>e \<in> set (ss_log s). ws_inflight e)" using assms by (auto simp: sess_ok_def split: if_splits)
  then show "log_bytes (ss_log s) = {}" by (auto simp: log_bytes_def)
qed

lemma done_acked:
  assumes "sess_inv s {} hist acks" and "fst (wired_sendsess_done s)"
  shows "{..<sq_len (ss_q s)} \<subseteq> acked_bytes hist acks"
proof -
  have p: "sq_len (ss_q s) \<le> sq_cur (ss_q s)" "ss_requeue s = []" "ss_inflight_n s = 0"
    using assms(2) by (auto simp: wired_sendsess_done_def sendsess_pending_def wired_sendq_all_sent_def
        wired_sendsess_inflight_def split: if_splits)
  note I = sess_invD [OF assms(1)]
  show ?thesis using I(6) inflight_none(2) [OF I(1) p(3)] p(1,2) by (auto simp: requeue_bytes_def)
qed

subsection \<open>A path without loss\<close>

text \<open>Rounds in which one slice is sent and its packet acknowledged at once.\<close>

fun drain :: "nat \<Rightarrow> u64 \<Rightarrow> u64 \<Rightarrow> wired_sendsess \<Rightarrow> wired_sendsess" where
  "drain 0 pn now s = s"
| "drain (Suc n) pn now s =
     drain n (pn + 1) now (srvrun_cc_range (snd (srvrun_pump_one_slice s True True pn now)) pn pn)"

definition sess_todo :: "wired_sendsess \<Rightarrow> nat" where
  "sess_todo s = (sq_len (ss_q s) - sq_cur (ss_q s)) + sum_list (map (\<lambda>x. sl_len (fst x) + 1) (ss_requeue s))"

lemma todo_pending: "sess_ok s \<Longrightarrow> ss_inflight_n s = 0 \<Longrightarrow> sendsess_pending s \<longleftrightarrow> 0 < sess_todo s"
  by (cases "ss_requeue s") (auto simp: sendsess_pending_def wired_sendq_all_sent_def wired_sendsess_inflight_def sess_todo_def)

definition same_stream :: "wired_sendsess \<Rightarrow> wired_sendsess \<Rightarrow> bool" where
  "same_stream s s' \<longleftrightarrow> ss_active s' = ss_active s \<and> sq_len (ss_q s') = sq_len (ss_q s)
     \<and> sq_chunk (ss_q s') = sq_chunk (ss_q s) \<and> sq_cap (ss_q s') = sq_cap (ss_q s)"

lemma sendq_take_pos: "sq_cur q < sq_len q \<Longrightarrow> 0 < sq_chunk q \<Longrightarrow> 0 < sendq_take q"
  by (auto simp: sendq_take_def Let_def)

lemma take_progress:
  assumes "0 < sess_todo s" and "0 < sq_chunk (ss_q s)"
  shows "\<exists>sl s'. wired_sendsess_take s = (Some sl, s') \<and> sess_todo s' < sess_todo s \<and> same_stream s s'
    \<and> ss_log s' = ss_log s \<and> ss_inflight_n s' = ss_inflight_n s"
proof (cases "ss_requeue s" rule: rev_cases)
  case Nil
  then have lt: "sq_cur (ss_q s) < sq_len (ss_q s)" using assms(1) by (simp add: sess_todo_def)
  then have "0 < sendq_take (ss_q s)" "sendq_take (ss_q s) \<le> sq_len (ss_q s) - sq_cur (ss_q s)"
    using sendq_take_pos [OF lt assms(2)] by (auto simp: sendq_take_def Let_def)
  then show ?thesis
    using Nil lt by (simp add: wired_sendsess_take_def wired_sendq_next_def sess_todo_def same_stream_def Let_def)
next
  case (snoc rq x)
  then show ?thesis
    using assms(2) by (cases x) (auto simp: wired_sendsess_take_def sendsess_split_def sess_todo_def same_stream_def Let_def)
qed

lemma swap_remove_sum:
  fixes f :: "'a \<Rightarrow> nat"
  assumes "i < length xs"
  shows "sum_list (map f (butlast (xs[i := last xs]))) + f (xs ! i) = sum_list (map f xs)"
proof -
  let ?ys = "xs[i := last xs]"
  have ne: "?ys \<noteq> []" "xs \<noteq> []" using assms by auto
  have "last ?ys = last xs" using ne(2) by (simp add: last_list_update)
  then have "sum_list (map f ?ys) = sum_list (map f (butlast ?ys)) + f (last xs)"
    using arg_cong [OF append_butlast_last_id [OF ne(1)], of "\<lambda>ys. sum_list (map f ys)"] by simp
  moreover have "sum_list (map f ?ys) + f (xs ! i) = sum_list (map f xs) + f (last xs)"
    using assms member_le_sum_list [of "f (xs ! i)" "map f xs"] by (simp add: map_update sum_list_update)
  ultimately show ?thesis by linarith
qed

lemma ack_requeued_sum:
  fixes f :: "wired_sendq_slice \<times> u64 \<Rightarrow> nat"
  shows "sum_list (map f (ack_requeued_loop lo hi i rq)) \<le> sum_list (map f rq)"
proof (induction lo hi i rq rule: ack_requeued_loop.induct)
  case (1 lo hi i rq)
  show ?case
  proof (cases "i < length rq \<and> sendsess_requeue_acked (snd (rq ! i)) lo hi")
    case True
    then show ?thesis using 1(2) swap_remove_sum [of i rq f] by (simp add: ack_requeued_loop.simps [of lo hi i rq])
  next
    case False
    then show ?thesis using 1(1) by (cases "i < length rq") (simp_all add: ack_requeued_loop.simps [of lo hi i rq])
  qed
qed

lemma ack_log:
  fixes s lo hi
  defines "f \<equiv> \<lambda>k s. fold (\<lambda>i s. if wired_sendsess_covered (ss_log s ! i) lo hi then sendsess_clear_inflight s i else s) [0..<k] s"
  shows "ss_log (f k s) = map (\<lambda>i. if i < k \<and> wired_sendsess_covered (ss_log s ! i) lo hi
             then (ss_log s ! i)\<lparr>ws_inflight := False\<rparr> else ss_log s ! i) [0..<length (ss_log s)]
    \<and> ss_q (f k s) = ss_q s \<and> ss_active (f k s) = ss_active s \<and> ss_requeue (f k s) = ss_requeue s"
proof (induction k)
  case 0
  then show ?case by (simp add: f_def map_nth)
next
  case (Suc k)
  let ?t = "f k s" and ?c = "wired_sendsess_covered (ss_log s ! k) lo hi"
  have step: "f (Suc k) s = (if wired_sendsess_covered (ss_log ?t ! k) lo hi then sendsess_clear_inflight ?t k else ?t)"
    by (simp add: f_def)
  have len: "length (ss_log ?t) = length (ss_log s)" using Suc by simp
  have k: "k < length (ss_log s) \<Longrightarrow> ss_log ?t ! k = ss_log s ! k" using Suc by simp
  show ?case
  proof (cases "k < length (ss_log s)")
    case True
    then show ?thesis
      unfolding step k [OF True] using Suc
      by (auto simp: sendsess_clear_inflight_def nth_list_update less_Suc_eq intro!: nth_equalityI)
  next
    case False
    have "sendsess_clear_inflight ?t k = ?t\<lparr>ss_log := ss_log ?t, ss_inflight_n := ss_inflight_n ?t - 1,
        ss_inflight_len := ss_inflight_len ?t - sl_len (ws_sl (ss_log ?t ! k))\<rparr>"
      using False len by (simp add: sendsess_clear_inflight_def list_update_beyond)
    then have "ss_log (f (Suc k) s) = ss_log ?t \<and> ss_q (f (Suc k) s) = ss_q ?t \<and> ss_active (f (Suc k) s) = ss_active ?t
        \<and> ss_requeue (f (Suc k) s) = ss_requeue ?t" unfolding step by simp
    then show ?thesis using Suc False by (auto simp: less_Suc_eq)
  qed
qed

lemma ack_fields:
  "ss_q (wired_sendsess_ack s lo hi) = ss_q s" "ss_active (wired_sendsess_ack s lo hi) = ss_active s"
  "ss_requeue (wired_sendsess_ack s lo hi) = ss_requeue s"
  using ack_log [where s = "(sendsess_note_largest s hi)\<lparr>ss_pto_count := 0\<rparr>" and k = "ss_log_hi s" and lo = lo and hi = hi]
  by (simp_all add: wired_sendsess_ack_def sendsess_note_largest_def)

lemma ack_clears:
  assumes "sess_ok s" and "e \<in> set (ss_log (wired_sendsess_ack s lo hi))" and "ws_inflight e"
  shows "e \<in> set (ss_log s) \<and> \<not> wired_sendsess_covered e lo hi"
proof -
  let ?s = "(sendsess_note_largest s hi)\<lparr>ss_pto_count := 0\<rparr>"
  have l: "ss_log ?s = ss_log s" by (simp add: sendsess_note_largest_def)
  have "ss_log (wired_sendsess_ack s lo hi) = map (\<lambda>i. if i < ss_log_hi s \<and> wired_sendsess_covered (ss_log s ! i) lo hi
             then (ss_log s ! i)\<lparr>ws_inflight := False\<rparr> else ss_log s ! i) [0..<length (ss_log s)]"
    using ack_log [where s = ?s and k = "ss_log_hi s" and lo = lo and hi = hi] unfolding wired_sendsess_ack_def l by blast
  then obtain i where i: "i < length (ss_log s)" "e = (if i < ss_log_hi s \<and> wired_sendsess_covered (ss_log s ! i) lo hi
             then (ss_log s ! i)\<lparr>ws_inflight := False\<rparr> else ss_log s ! i)" using assms(2) by auto
  have "e = ss_log s ! i" "\<not> (i < ss_log_hi s \<and> wired_sendsess_covered (ss_log s ! i) lo hi)"
    using i(2) assms(3) by (auto split: if_splits)
  moreover have "i < ss_log_hi s" using assms(1,3) i(1) calculation(1) by (auto simp: sess_ok_def)
  ultimately show ?thesis using i(1) by auto
qed

lemma range_hits_0:
  "srvrun_range_hits s lo hi = 0 \<longleftrightarrow> (\<forall>i < ss_log_hi s. \<not> wired_sendsess_covered (ss_log s ! i) lo hi)"
proof -
  have "fold (\<lambda>i n. n + (if P i then 1 else 0)) [0..<k] 0 = (0 :: nat) \<longleftrightarrow> (\<forall>i < k. \<not> P i)" for P k
    by (induction k) (auto simp: less_Suc_eq)
  then show ?thesis by (simp add: srvrun_range_hits_def)
qed

lemma cc_range_clears:
  assumes "sess_ok s" and "sess_ok (srvrun_cc_range s lo hi)" and "\<forall>e \<in> set (ss_log s). ws_inflight e \<longrightarrow> wired_sendsess_covered e lo hi"
  shows "ss_inflight_n (srvrun_cc_range s lo hi) = 0"
proof -
  let ?a = "wired_sendsess_ack_requeued s lo hi"
  have a: "ss_log ?a = ss_log s" "ss_log_hi ?a = ss_log_hi s" by (simp_all add: wired_sendsess_ack_requeued_def)
  have ok: "sess_ok ?a"
    using assms(1) ack_requeued_loop_props [of lo hi 0 "ss_requeue s"] by (auto simp: sess_ok_def wired_sendsess_ack_requeued_def)
  have "\<not> ws_inflight e" if e: "e \<in> set (ss_log (srvrun_cc_range s lo hi))" for e
  proof (cases "srvrun_range_hits ?a lo hi = 0")
    case True
    then have "e \<in> set (ss_log s)" and no: "\<forall>i < ss_log_hi s. \<not> wired_sendsess_covered (ss_log s ! i) lo hi"
      using e a by (simp_all add: srvrun_cc_range_def range_hits_0)
    then obtain i where i: "i < WIRED_SENDSESS_LOG" "e = ss_log s ! i"
      using assms(1) by (auto simp: sess_ok_def in_set_conv_nth)
    show ?thesis
    proof
      assume fl: "ws_inflight e"
      then have "i < ss_log_hi s" using assms(1) i by (auto simp: sess_ok_def)
      then show False using no fl i(2) assms(3) \<open>e \<in> set (ss_log s)\<close> by blast
    qed
  next
    case False
    then show ?thesis using ack_clears [OF ok] e a(1) assms(3) by (auto simp: srvrun_cc_range_def Let_def)
  qed
  then have "map (\<lambda>e. if ws_inflight e then 1 else 0 :: nat) (ss_log (srvrun_cc_range s lo hi)) = map (\<lambda>e. 0) (ss_log (srvrun_cc_range s lo hi))"
    by simp
  moreover have "sum_list (map (\<lambda>e. 0 :: nat) es) = 0" for es :: "wired_sent_slice list" by (induction es) auto
  ultimately show ?thesis using assms(2) unfolding sess_ok_def by metis
qed

lemma cc_range_todo: "sess_todo (srvrun_cc_range s lo hi) \<le> sess_todo s" "same_stream s (srvrun_cc_range s lo hi)"
  using ack_requeued_sum [of "\<lambda>x. sl_len (fst x) + 1" lo hi 0 "ss_requeue s"]
  by (simp_all add: srvrun_cc_range_def Let_def sess_todo_def same_stream_def ack_fields wired_sendsess_ack_requeued_def)

lemma drain_round:
  fixes pn now :: u64
  assumes inv: "sess_inv s {} hist acks" and idle: "ss_inflight_n s = 0" and chunk: "0 < sq_chunk (ss_q s)" and todo: "0 < sess_todo s"
  defines "s' \<equiv> srvrun_cc_range (snd (srvrun_pump_one_slice s True True pn now)) pn pn"
  shows "\<exists>hist' acks'. sess_inv s' {} hist' acks' \<and> ss_inflight_n s' = 0 \<and> sess_todo s' < sess_todo s \<and> same_stream s s'"
proof -
  obtain sl t where t: "wired_sendsess_take s = (Some sl, t)" "sess_todo t < sess_todo s" "same_stream s t"
    "ss_log t = ss_log s" "ss_inflight_n t = ss_inflight_n s"
    using take_progress [OF todo chunk] by blast
  have room: "srvrun_sess_log_room s" "srvrun_sess_log_room t"
    using idle t(5) by (simp_all add: srvrun_sess_log_room_def wired_sendsess_inflight_def WIRED_SENDSESS_LOG_def)
  note T = sess_inv_take [OF inv t(1)]
  obtain s1 where s1: "wired_sendsess_sent t sl pn now = (True, s1)"
    using log_room_sent [OF sess_invD(1) [OF T(1)] room(2)] by (metis (full_types) prod.collapse)
  have pump: "snd (srvrun_pump_one_slice s True True pn now) = s1"
    using t(1) s1 room(1) by (simp add: srvrun_pump_one_slice_def srvrun_pump_gate_ok_def srvrun_send_taken_def)
  have inv1: "sess_inv s1 {} (insert (pn, sl) hist) acks" by (rule sess_inv_sent [OF T s1])
  have s1f: "sess_todo s1 = sess_todo t" "same_stream t s1"
    using s1 by (auto simp: wired_sendsess_sent_def sess_todo_def same_stream_def split: option.splits)
  obtain i e where e: "ss_log s1 = (ss_log s)[i := e]" "ws_pn e = pn" "ws_inflight e"
    using s1 t(4) by (fastforce simp: wired_sendsess_sent_def split: option.splits)
  have "wired_sendsess_covered x pn pn" if "x \<in> set (ss_log s1)" "ws_inflight x" for x
    using that e inflight_none(1) [OF sess_invD(1) [OF inv] idle]
    by (auto simp: wired_sendsess_covered_def dest!: set_update_subset_insert [THEN subsetD])
  moreover have inv': "sess_inv s' {} (insert (pn, sl) hist) (acks \<union> {pn..pn})"
    unfolding s'_def pump by (rule sess_inv_cc_range [OF inv1])
  ultimately have "ss_inflight_n s' = 0"
    using cc_range_clears [OF sess_invD(1) [OF inv1], of pn pn] sess_invD(1) [OF inv'] unfolding s'_def pump by blast
  moreover have "sess_todo s' < sess_todo s" using cc_range_todo(1) [of s1 pn pn] s1f(1) t(2) unfolding s'_def pump by linarith
  moreover have "same_stream s s'" using cc_range_todo(2) [of s1 pn pn] s1f(2) t(3) unfolding s'_def pump by (simp add: same_stream_def)
  ultimately show ?thesis using inv' by blast
qed

lemma drain_done:
  assumes "sess_inv s {} hist acks" and "ss_inflight_n s = 0" and "0 < sq_chunk (ss_q s)" and "ss_active s"
  shows "\<exists>n \<le> sess_todo s. fst (wired_sendsess_done (drain n pn now s))"
  using assms
proof (induction "sess_todo s" arbitrary: s hist acks pn rule: less_induct)
  case less
  show ?case
  proof (cases "0 < sess_todo s")
    case False
    then have "\<not> sendsess_pending s" using todo_pending [OF sess_invD(1) [OF less.prems(1)] less.prems(2)] by simp
    then show ?thesis using less.prems(4) by (intro exI [of _ 0]) (simp add: wired_sendsess_done_def)
  next
    case True
    let ?s = "srvrun_cc_range (snd (srvrun_pump_one_slice s True True pn now)) pn pn"
    obtain h a where r: "sess_inv ?s {} h a" "ss_inflight_n ?s = 0" "sess_todo ?s < sess_todo s" "same_stream s ?s"
      using drain_round [OF less.prems(1-3) True] by blast
    then obtain n where n: "n \<le> sess_todo ?s" "fst (wired_sendsess_done (drain n (pn + 1) now ?s))"
      using less.hyps [OF r(3) r(1,2)] less.prems(3,4) by (auto simp: same_stream_def)
    then show ?thesis using r(3) by (intro exI [of _ "Suc n"]) simp
  qed
qed

subsection \<open>Ring storage\<close>

lemma fold_live_min:
  fixes f :: "'a \<Rightarrow> nat" and P :: "'a \<Rightarrow> bool"
  defines "r xs b \<equiv> fold (\<lambda>x. sendsess_live_min (f x) (P x)) xs b"
  shows "r xs b \<le> b" and "x \<in> set xs \<Longrightarrow> P x \<Longrightarrow> r xs b \<le> f x"
    and "r xs b = b \<or> (\<exists>x \<in> set xs. P x \<and> r xs b = f x)"
proof -
  have "r xs b \<le> b \<and> (\<forall>x \<in> set xs. P x \<longrightarrow> r xs b \<le> f x) \<and> (r xs b = b \<or> (\<exists>x \<in> set xs. P x \<and> r xs b = f x))"
    unfolding r_def
  proof (induction xs arbitrary: b)
    case (Cons x xs)
    let ?b = "sendsess_live_min (f x) (P x) b"
    have "?b \<le> b" "P x \<Longrightarrow> ?b \<le> f x" "?b = b \<or> P x \<and> ?b = f x" by (auto simp: sendsess_live_min_def)
    then show ?case using Cons [of ?b] by (auto intro: order.trans)
  qed simp
  then show "r xs b \<le> b" "x \<in> set xs \<Longrightarrow> P x \<Longrightarrow> r xs b \<le> f x" "r xs b = b \<or> (\<exists>x \<in> set xs. P x \<and> r xs b = f x)" by blast+
qed

lemma reclaim_is_floor: "wired_sendsess_reclaim_base s = wired_sendsess_unacked_floor s"
proof -
  have "sendsess_log_min_off s = sendsess_log_floor s" "sendsess_requeue_min_off s = sendsess_requeue_floor s"
    by (simp_all add: sendsess_log_min_off_def sendsess_log_floor_def sendsess_requeue_min_off_def sendsess_requeue_floor_def
        sent_slice_below_def sendsess_live_min_def [abs_def])
  then show ?thesis by (simp add: wired_sendsess_reclaim_base_def wired_sendsess_unacked_floor_def)
qed

lemma reclaim_base_below:
  assumes "sess_ok s"
  shows "wired_sendsess_reclaim_base s \<le> sq_cur (ss_q s)"
    and "x \<in> log_bytes (ss_log s) \<union> requeue_bytes (ss_requeue s) \<Longrightarrow> wired_sendsess_reclaim_base s \<le> x"
proof -
  let ?b = "sendsess_log_min_off s (sq_cur (ss_q s))"
  have rq: "sendsess_requeue_min_off s b = fold (\<lambda>x. sendsess_live_min (sl_offset (fst x)) True) (ss_requeue s) b" for b
    by (simp add: sendsess_requeue_min_off_def case_prod_beta')
  have r: "wired_sendsess_reclaim_base s \<le> ?b" "(sl, pn1) \<in> set (ss_requeue s) \<Longrightarrow> wired_sendsess_reclaim_base s \<le> sl_offset sl" for sl pn1
    using fold_live_min(1) [of "\<lambda>x. sl_offset (fst x)" "\<lambda>_. True" "ss_requeue s" ?b]
      fold_live_min(2) [of "(sl, pn1)" "ss_requeue s" "\<lambda>_. True" "\<lambda>x. sl_offset (fst x)" ?b]
    by (simp_all add: wired_sendsess_reclaim_base_def rq)
  note l = fold_live_min(1) [of "\<lambda>i. sl_offset (ws_sl (ss_log s ! i))" "\<lambda>i. ws_inflight (ss_log s ! i)" "[0..<ss_log_hi s]" "sq_cur (ss_q s)"]
  show "wired_sendsess_reclaim_base s \<le> sq_cur (ss_q s)" using r(1) l by (simp add: sendsess_log_min_off_def)
  show "wired_sendsess_reclaim_base s \<le> x" if mem: "x \<in> log_bytes (ss_log s) \<union> requeue_bytes (ss_requeue s)"
  proof (cases "x \<in> requeue_bytes (ss_requeue s)")
    case True
    then show ?thesis using r(2) by (fastforce simp: requeue_bytes_def slice_bytes_def)
  next
    case False
    then obtain i where i: "i < length (ss_log s)" "ws_inflight (ss_log s ! i)" "x \<in> slice_bytes (ws_sl (ss_log s ! i))"
      using mem by (auto simp: log_bytes_def in_set_conv_nth)
    then have "i < ss_log_hi s" using assms by (auto simp: sess_ok_def)
    then have "?b \<le> sl_offset (ws_sl (ss_log s ! i))"
      using fold_live_min(2) [of i "[0..<ss_log_hi s]" "\<lambda>i. ws_inflight (ss_log s ! i)" "\<lambda>i. sl_offset (ws_sl (ss_log s ! i))"] i(2)
      by (simp add: sendsess_log_min_off_def)
    then show ?thesis using r(1) i(3) by (auto simp: slice_bytes_def)
  qed
qed

lemma mod_apart:
  fixes a b c :: nat
  assumes "a < b" and "b < a + c"
  shows "a mod c \<noteq> b mod c"
proof
  assume "a mod c = b mod c"
  then have "c dvd b - a" using assms(1) by (metis less_imp_le mod_eq_dvd_iff_nat)
  then show False using assms by (auto dest: dvd_imp_le)
qed

lemma next_contiguous:
  "wired_sendq_next q = Some (sl, q') \<Longrightarrow> 0 < sq_cap q \<Longrightarrow> sl_offset sl mod sq_cap q + sl_len sl \<le> sq_cap q"
proof -
  assume nx: "wired_sendq_next q = Some (sl, q')" and cap: "0 < sq_cap q"
  have "sl_offset sl = sq_cur q" "sl_len sl \<le> sq_cap q - sq_cur q mod sq_cap q"
    using nx cap by (auto simp: wired_sendq_next_def sendq_take_def Let_def split: if_splits)
  then show ?thesis using mod_less_divisor [OF cap, of "sq_cur q"] by simp
qed

section \<open>Properties\<close>

text \<open>
  C3. Reliable delivery of a response. Through any interleaving of sends, failed sends, acknowledged
  ranges, loss passes, probe timeouts, growth of the stream and changes of the slice size, every
  byte handed out is in flight, waiting to be resent, or was carried by a packet that has been
  acknowledged; when the session reports done, every byte of the stream was carried by an
  acknowledged packet. The in-flight counters are those of the log.
\<close>

theorem sendsess_reliable:
  assumes "sess_step\<^sup>*\<^sup>* (wired_sendsess_arm s0 p len chunk, {}, {}) (s, hist, acks)"
    and "length (ss_log s0) = WIRED_SENDSESS_LOG"
  shows "{..<sq_cur (ss_q s)} \<subseteq> log_bytes (ss_log s) \<union> requeue_bytes (ss_requeue s) \<union> acked_bytes hist acks
    \<and> (fst (wired_sendsess_done s) \<longrightarrow> {..<sq_len (ss_q s)} \<subseteq> acked_bytes hist acks)
    \<and> wired_sendsess_inflight s = length (filter ws_inflight (ss_log s))
    \<and> wired_sendsess_inflight_bytes s = sum_list (map (\<lambda>e. sl_len (ws_sl e)) (filter ws_inflight (ss_log s)))"
proof -
  have inv: "sess_inv s {} hist acks" using sess_inv_reachable [OF assms] by simp
  note I = sess_invD [OF inv]
  have "sum_list (map (\<lambda>e. if ws_inflight e then f e else 0) es) = sum_list (map f (filter ws_inflight es))"
    for f :: "wired_sent_slice \<Rightarrow> nat" and es by (induction es) auto
  from this [of "\<lambda>_. 1" "ss_log s"] this [of "\<lambda>e. sl_len (ws_sl e)" "ss_log s"]
  have "wired_sendsess_inflight s = length (filter ws_inflight (ss_log s))"
    "wired_sendsess_inflight_bytes s = sum_list (map (\<lambda>e. sl_len (ws_sl e)) (filter ws_inflight (ss_log s)))"
    using I(1) by (simp_all add: wired_sendsess_inflight_def wired_sendsess_inflight_bytes_def sess_ok_def sum_list_triv)
  then show ?thesis using I(6) done_acked [OF inv] by simp
qed

definition sess_blank :: wired_sendsess where
  "sess_blank = \<lparr>ss_q = wired_sendq_init None 0 0, ss_active = False,
     ss_log = replicate WIRED_SENDSESS_LOG \<lparr>ws_pn = 0, ws_sl = \<lparr>sl_offset = 0, sl_len = 0, sl_fin = False\<rparr>,
       ws_inflight = False, ws_sent_ms = 0\<rparr>,
     ss_requeue = [], ss_taken_pn = 0, ss_largest_acked = 0, ss_has_acked = False, ss_pto_count = 0,
     ss_stream_base_offset = 0, ss_inflight_n = 0, ss_inflight_len = 0, ss_log_hi = 0\<rparr>"

definition sess_example :: wired_sendsess where
  "sess_example = snd (srvrun_pump_one_slice (wired_sendsess_arm sess_blank (Some [7, 8, 9]) 3 2) True True 5 0)"

theorem sendsess_reliable_witness:
  "{..<sq_cur (ss_q sess_example)} \<subseteq> log_bytes (ss_log sess_example) \<union> requeue_bytes (ss_requeue sess_example)
     \<union> acked_bytes {(5, \<lparr>sl_offset = 0, sl_len = 2, sl_fin = False\<rparr>)} {} \<and> wired_sendsess_inflight sess_example = 1"
proof -
  let ?a = "wired_sendsess_arm sess_blank (Some [7, 8, 9]) 3 2"
  have len: "length (ss_log sess_blank) = WIRED_SENDSESS_LOG" by (simp add: sess_blank_def)
  have "srvrun_pump_one_slice ?a True True 5 0 = (True, sess_example)"
    "fst (wired_sendsess_take ?a) = Some \<lparr>sl_offset = 0, sl_len = 2, sl_fin = False\<rparr>"
    "length (filter ws_inflight (ss_log sess_example)) = 1"
    by code_simp+
  then have "sess_step\<^sup>*\<^sup>* (?a, {}, {}) (sess_example, {(5, \<lparr>sl_offset = 0, sl_len = 2, sl_fin = False\<rparr>)}, {})"
    by (intro r_into_rtranclp sess_step.sent)
  from sendsess_reliable [OF this len] show ?thesis
    using \<open>length (filter ws_inflight (ss_log sess_example)) = 1\<close> by simp
qed

text \<open>
  C19. A session finishes once the path works. From any reachable state with nothing in flight,
  however many slices wait in the requeue, sending slices one at a time and acknowledging each
  completes the session within a number of rounds bounded by the bytes and slices left.
\<close>

theorem sendsess_drains:
  assumes "sess_step\<^sup>*\<^sup>* (wired_sendsess_arm s0 p len chunk, {}, {}) (s, hist, acks)"
    and "length (ss_log s0) = WIRED_SENDSESS_LOG"
    and "wired_sendsess_inflight s = 0" and "0 < sq_chunk (ss_q s)" and "ss_active s"
  shows "\<exists>n \<le> sq_len (ss_q s) - sq_cur (ss_q s) + sum_list (map (\<lambda>x. sl_len (fst x) + 1) (ss_requeue s)).
    fst (wired_sendsess_done (drain n pn now s))"
proof -
  have inv: "sess_inv s {} hist acks" using sess_inv_reachable [OF assms(1,2)] by simp
  show ?thesis using drain_done [OF inv _ assms(4,5)] assms(3) by (simp add: wired_sendsess_inflight_def sess_todo_def)
qed

theorem sendsess_drains_witness:
  "\<exists>n \<le> 3. fst (wired_sendsess_done (drain n 0 0 (wired_sendsess_arm sess_blank (Some [7, 8, 9]) 3 2)))"
proof -
  let ?a = "wired_sendsess_arm sess_blank (Some [7, 8, 9]) 3 2"
  have "length (ss_log sess_blank) = WIRED_SENDSESS_LOG" "wired_sendsess_inflight ?a = 0" "0 < sq_chunk (ss_q ?a)" "ss_active ?a"
    "sq_len (ss_q ?a) = 3" "sq_cur (ss_q ?a) = 0" "ss_requeue ?a = []"
    by (simp_all add: sess_blank_def wired_sendsess_arm_def wired_sendq_init_def wired_sendsess_inflight_def)
  then show ?thesis using sendsess_drains [OF rtranclp.rtrancl_refl, of sess_blank "Some [7, 8, 9]" 3 2 0 0] by simp
qed

text \<open>
  C21. The two computations of the lowest live offset agree, every byte below it was acknowledged,
  and the room reported for a ring of \<open>cap\<close> bytes is exact and safe: a byte written into that room
  never lands on the storage of a byte that is in flight, waiting to be resent or not yet sent.
\<close>

theorem sendsess_ring_safe:
  assumes "sess_step\<^sup>*\<^sup>* (wired_sendsess_arm s0 p len chunk, {}, {}) (s, hist, acks)"
    and "length (ss_log s0) = WIRED_SENDSESS_LOG"
    and "sq_len (ss_q s) - wired_sendsess_reclaim_base s \<le> cap" and "cap < 2 ^ 64"
  shows "wired_sendsess_unacked_floor s = wired_sendsess_reclaim_base s
    \<and> {..<wired_sendsess_reclaim_base s} \<subseteq> acked_bytes hist acks
    \<and> wired_sendsess_ring_room s cap = cap - (sq_len (ss_q s) - wired_sendsess_reclaim_base s)
    \<and> (\<forall>x \<in> log_bytes (ss_log s) \<union> requeue_bytes (ss_requeue s) \<union> {sq_cur (ss_q s)..<sq_len (ss_q s)}.
        \<forall>y \<in> {sq_len (ss_q s)..<sq_len (ss_q s) + wired_sendsess_ring_room s cap}. x mod cap \<noteq> y mod cap)"
proof -
  let ?b = "wired_sendsess_reclaim_base s" and ?n = "sq_len (ss_q s)"
  have inv: "sess_inv s {} hist acks" using sess_inv_reachable [OF assms(1,2)] by simp
  note I = sess_invD [OF inv] and B = reclaim_base_below [OF sess_invD(1) [OF inv]]
  have cur: "sq_cur (ss_q s) \<le> ?n" using I(1) by (simp add: sess_ok_def)
  have "(of_nat (?n - ?b) :: u64) \<le> of_nat cap"
    using assms(3,4) by (simp add: u64_le_mono unat_of_nat_u64)
  then have room: "wired_sendsess_ring_room s cap = cap - (?n - ?b)"
    using assms(3,4) by (simp add: wired_sendsess_ring_room_def unat_sub_u64 unat_of_nat_u64)
  have live: "?b \<le> x \<and> x < ?n" if "x \<in> log_bytes (ss_log s) \<union> requeue_bytes (ss_requeue s) \<union> {sq_cur (ss_q s)..<?n}" for x
  proof -
    have "x < ?n" if "x \<in> log_bytes (ss_log s) \<union> requeue_bytes (ss_requeue s)"
      using that I(3,5) cur by (fastforce simp: log_bytes_def requeue_bytes_def)
    then show ?thesis using that B by fastforce
  qed
  have "{..<?b} \<subseteq> acked_bytes hist acks"
  proof
    fix x assume x: "x \<in> {..<?b}"
    then have "x \<notin> log_bytes (ss_log s) \<union> requeue_bytes (ss_requeue s)" using B(2) by fastforce
    moreover have "x \<in> {..<sq_cur (ss_q s)}" using x B(1) by simp
    ultimately show "x \<in> acked_bytes hist acks" using I(6) by blast
  qed
  moreover have "x mod cap \<noteq> y mod cap"
    if "x \<in> log_bytes (ss_log s) \<union> requeue_bytes (ss_requeue s) \<union> {sq_cur (ss_q s)..<?n}" "y \<in> {?n..<?n + (cap - (?n - ?b))}" for x y
    using mod_apart [of x y cap] live [OF that(1)] that(2) assms(3) B(1) cur by fastforce
  ultimately show ?thesis using room reclaim_is_floor by simp
qed

theorem sendsess_ring_safe_witness:
  "wired_sendsess_ring_room (wired_sendsess_arm sess_blank (Some [7, 8, 9]) 3 2) 10 = 7"
proof -
  let ?a = "wired_sendsess_arm sess_blank (Some [7, 8, 9]) 3 2"
  have "length (ss_log sess_blank) = WIRED_SENDSESS_LOG" by (simp add: sess_blank_def)
  moreover have "sq_len (ss_q ?a) - wired_sendsess_reclaim_base ?a = 3" by code_simp
  ultimately show ?thesis using sendsess_ring_safe [OF rtranclp.rtrancl_refl, of sess_blank "Some [7, 8, 9]" 3 2 10] by simp
qed

section \<open>A slice that is not returned\<close>

text \<open>
  The run behind the next property: 128 slices of two bytes are sent and all declared lost, the
  slice size drops to one, and the first resend fails to be sealed.
\<close>

definition two_bytes :: "nat \<Rightarrow> wired_sendq_slice" where
  "two_bytes i = \<lparr>sl_offset = 2 * i, sl_len = 2, sl_fin = (i = 127)\<rparr>"

definition two_entry :: "bool \<Rightarrow> nat \<Rightarrow> wired_sent_slice" where
  "two_entry fl i = \<lparr>ws_pn = of_nat i, ws_sl = two_bytes i, ws_inflight = fl, ws_sent_ms = 0\<rparr>"

definition sess_armed :: wired_sendsess where
  "sess_armed = wired_sendsess_arm sess_blank (Some (replicate 256 0)) 256 2"

definition sess_sent :: "nat \<Rightarrow> wired_sendsess" where
  "sess_sent k = sess_armed\<lparr>ss_q := (ss_q sess_armed)\<lparr>sq_cur := 2 * k\<rparr>,
     ss_log := map (two_entry True) [0..<k] @ drop k (ss_log sess_armed),
     ss_inflight_n := k, ss_inflight_len := 2 * k, ss_log_hi := k\<rparr>"

definition sess_lost :: "nat \<Rightarrow> wired_sendsess" where
  "sess_lost k = (sess_sent 128)\<lparr>ss_log := map (two_entry False) [0..<k] @ map (two_entry True) [k..<128],
     ss_requeue := map (\<lambda>i. (two_bytes i, of_nat i + 1)) [0..<k], ss_inflight_n := 128 - k, ss_inflight_len := 256 - 2 * k\<rparr>"

definition sess_shrunk :: wired_sendsess where
  "sess_shrunk = (sess_lost 128)\<lparr>ss_q := (ss_q (sess_lost 128))\<lparr>sq_chunk := 1\<rparr>\<rparr>"

lemma scan0_first: "i < cap \<Longrightarrow> \<not> P i \<Longrightarrow> (\<And>j. j < i \<Longrightarrow> P j) \<Longrightarrow> scan P cap 0 = i"
  using scan0(2,3) [where P = P and cap = cap] by (metis linorder_neqE_nat order.strict_trans)

lemma sess_armed_fields:
  "ss_q sess_armed = \<lparr>sq_p = Some (replicate 256 0), sq_len = 256, sq_cur = 0, sq_chunk = 2, sq_cap = 0\<rparr>"
  "ss_requeue sess_armed = []" "length (ss_log sess_armed) = 128" "i < 128 \<Longrightarrow> \<not> ws_inflight (ss_log sess_armed ! i)"
  "ss_taken_pn sess_armed = 0"
  by (simp_all add: sess_armed_def wired_sendsess_arm_def wired_sendq_init_def sess_blank_def WIRED_SENDSESS_LOG_def)

lemma sess_sent_step:
  assumes "k < 128"
  shows "srvrun_pump_one_slice (sess_sent k) True True (of_nat k) 0 = (True, sess_sent (Suc k))"
    and "fst (wired_sendsess_take (sess_sent k)) = Some (two_bytes k)"
proof -
  let ?d = "drop k (ss_log sess_armed)"
  have take: "wired_sendsess_take (sess_sent k) = (Some (two_bytes k), (sess_sent k)\<lparr>ss_q := (ss_q sess_armed)\<lparr>sq_cur := 2 * k + 2\<rparr>\<rparr>)"
    using assms by (auto simp: wired_sendsess_take_def sess_sent_def sess_armed_fields wired_sendq_next_def sendq_take_def
        two_bytes_def Let_def)
  then show "fst (wired_sendsess_take (sess_sent k)) = Some (two_bytes k)" by simp
  have "\<not> ws_inflight (ss_log (sess_sent k) ! k)" "j < k \<Longrightarrow> ws_inflight (ss_log (sess_sent k) ! j)" for j
    using assms by (simp_all add: sess_sent_def nth_append sess_armed_fields two_entry_def)
  then have "scan (\<lambda>i. ws_inflight (ss_log (sess_sent k) ! i)) 128 0 = k" using assms by (intro scan0_first)
  then have free: "sendsess_free_slot ((sess_sent k)\<lparr>ss_q := q\<rparr>) = Some k" for q
    using assms by (simp add: sendsess_free_slot_def WIRED_SENDSESS_LOG_def)
  have "?d = ss_log sess_armed ! k # drop (Suc k) (ss_log sess_armed)" using assms by (simp add: Cons_nth_drop_Suc sess_armed_fields)
  then have "(map (two_entry True) [0..<k] @ ?d)[k := two_entry True k] = map (two_entry True) [0..<Suc k] @ drop (Suc k) (ss_log sess_armed)"
    by (simp add: list_update_append)
  then show "srvrun_pump_one_slice (sess_sent k) True True (of_nat k) 0 = (True, sess_sent (Suc k))"
    using assms free take
    by (simp add: srvrun_pump_one_slice_def srvrun_pump_gate_ok_def srvrun_sess_log_room_def wired_sendsess_inflight_def
        WIRED_SENDSESS_LOG_def srvrun_send_taken_def wired_sendsess_sent_def sess_sent_def sess_armed_fields two_entry_def
        two_bytes_def max_def)
qed

lemma sess_sent_reach:
  "k \<le> 128 \<Longrightarrow> sess_step\<^sup>*\<^sup>* (sess_armed, {}, {}) (sess_sent k, (\<lambda>i. (of_nat i, two_bytes i)) ` {..<k}, {})"
proof (induction k)
  case 0
  have "ss_inflight_n sess_armed = 0 \<and> ss_inflight_len sess_armed = 0 \<and> ss_log_hi sess_armed = 0"
    by (simp add: sess_armed_def wired_sendsess_arm_def)
  then have "sess_sent 0 = sess_armed" by (simp add: sess_sent_def sess_armed_fields(1))
  then show ?case by simp
next
  case (Suc k)
  have "sess_step (sess_sent k, (\<lambda>i. (of_nat i, two_bytes i)) ` {..<k}, {})
      (sess_sent (Suc k), insert (of_nat k, two_bytes k) ((\<lambda>i. (of_nat i, two_bytes i)) ` {..<k}), {})"
    using sess_sent_step [of k] Suc.prems by (intro sess_step.sent) auto
  moreover have "insert (of_nat k, two_bytes k) ((\<lambda>i. (of_nat i, two_bytes i)) ` {..<k}) = (\<lambda>i. (of_nat i :: u64, two_bytes i)) ` {..<Suc k}"
    by (simp add: lessThan_Suc)
  ultimately have "sess_step (sess_sent k, (\<lambda>i. (of_nat i, two_bytes i)) ` {..<k}, {})
      (sess_sent (Suc k), (\<lambda>i. (of_nat i, two_bytes i)) ` {..<Suc k}, {})" by (simp only:)
  with Suc.IH show ?case using Suc.prems by (blast intro: rtranclp.rtrancl_into_rtrancl dest: Suc_leD)
qed

lemma two_entry_lost:
  assumes "j < 128"
  shows "sendsess_lost (two_entry True j) 200 0 0"
proof -
  have j: "unat (of_nat j :: u64) = j" using assms by (intro unat_of_nat_u64) simp
  then have "unat (of_nat j + 3 :: u64) = j + 3" using assms by (simp add: unat_add_u64)
  then show ?thesis
    using assms j by (simp add: sendsess_lost_def sendsess_lost_eligible_def loss_by_packet_def two_entry_def u64_less_mono u64_le_mono)
qed

lemma sess_lost_detect: "wired_sendsess_detect_lost (sess_sent 128) 200 0 0 0 = (128, [], sess_lost 128)"
proof -
  let ?f = "\<lambda>i (n, lost, s). if sendsess_lost (ss_log s ! i) 200 0 0
         then (n + 1, sendsess_report_lost s (ss_log s ! i) 0 n lost, sendsess_requeue s i) else (n, lost, s)"
  have "j \<le> 128 \<Longrightarrow> fold ?f [0..<j] (0, [], sess_sent 128) = (j, [], sess_lost j)" for j
  proof (induction j)
    case 0
    then show ?case by (simp add: sess_lost_def sess_sent_def sess_armed_fields)
  next
    case (Suc j)
    then have j: "j < 128" by simp
    have e: "ss_log (sess_lost j) ! j = two_entry True j" using j by (simp add: sess_lost_def nth_append)
    have "map (two_entry True) [j..<128] = two_entry True j # map (two_entry True) [Suc j..<128]"
      using j by (subst upt_conv_Cons) simp_all
    then have log: "(map (two_entry False) [0..<j] @ map (two_entry True) [j..<128])[j := two_entry False j]
        = map (two_entry False) [0..<Suc j] @ map (two_entry True) [Suc j..<128]" by (simp add: list_update_append)
    have "sendsess_requeue (sess_lost j) j = sess_lost (Suc j)"
      using j e log
      by (simp add: sendsess_requeue_def sendsess_clear_inflight_def sess_lost_def WIRED_SENDSESS_LOG_def nth_append two_entry_def two_bytes_def)
    then show ?case using Suc j two_entry_lost [OF j] e by (simp add: sendsess_report_lost_def)
  qed
  then show ?thesis by (simp add: wired_sendsess_detect_lost_def sess_sent_def)
qed

text \<open>
  C39. Returning a slice can fail. There is a run in which a byte that was handed out and never
  acknowledged is afterwards neither in flight nor waiting to be resent: the requeue is full, taking
  a slice cuts it because the slice size dropped and puts the rest back, and when sealing then fails
  there is no slot left for the part that was taken.
\<close>

theorem untake_can_drop:
  "\<exists>s hist. sess_step\<^sup>*\<^sup>* (wired_sendsess_arm sess_blank (Some (replicate 256 0)) 256 2, {}, {}) (s, hist, {})
    \<and> (\<forall>pn now. let s' = snd (srvrun_pump_one_slice s True False pn now)
        in 254 < sq_cur (ss_q s') \<and> 254 \<notin> log_bytes (ss_log s') \<union> requeue_bytes (ss_requeue s'))"
proof (intro exI conjI allI)
  let ?h = "(\<lambda>i. (of_nat i :: u64, two_bytes i)) ` {..<128}"
  have "sess_step (sess_sent 128, ?h, {}) (sess_lost 128, ?h, {})" by (rule sess_step.lost [OF sess_lost_detect])
  moreover have "sess_step (sess_lost 128, ?h, {}) (sess_shrunk, ?h, {})" unfolding sess_shrunk_def by (rule sess_step.resize)
  ultimately show "sess_step\<^sup>*\<^sup>* (wired_sendsess_arm sess_blank (Some (replicate 256 0)) 256 2, {}, {}) (sess_shrunk, ?h, {})"
    using sess_sent_reach [of 128] unfolding sess_armed_def by (meson order.refl rtranclp.rtrancl_into_rtrancl)
  fix pn now
  let ?s = "snd (srvrun_pump_one_slice sess_shrunk True False pn now)"
  let ?rq = "map (\<lambda>i. (two_bytes i, of_nat i + 1 :: u64)) [0..<127] @ [(\<lparr>sl_offset = 255, sl_len = 1, sl_fin = True\<rparr>, 128)]"
  have "Suc 127 = 128" by simp
  then have up: "[0..<128] = [0..<127] @ [127]" using upt_Suc_append [of 0 127] by (simp only: le0)
  have "ss_requeue sess_shrunk = map (\<lambda>i. (two_bytes i, of_nat i + 1)) [0..<127] @ [(two_bytes 127, 128)]"
    by (simp add: sess_shrunk_def sess_lost_def up del: upt_Suc upt_rec_numeral)
  then have "wired_sendsess_take sess_shrunk = (Some \<lparr>sl_offset = 254, sl_len = 1, sl_fin = False\<rparr>,
      sess_shrunk\<lparr>ss_requeue := ?rq, ss_taken_pn := 128\<rparr>)"
    by (simp add: wired_sendsess_take_def sendsess_split_def sess_shrunk_def two_bytes_def sess_lost_def sess_sent_def sess_armed_fields del: upt_Suc upt_rec_numeral)
  moreover have "srvrun_pump_gate_ok sess_shrunk True"
    by (simp add: srvrun_pump_gate_ok_def srvrun_sess_log_room_def wired_sendsess_inflight_def sess_shrunk_def sess_lost_def
        WIRED_SENDSESS_LOG_def del: upt_rec_numeral)
  ultimately have s: "?s = sess_shrunk\<lparr>ss_requeue := ?rq, ss_taken_pn := 128\<rparr>"
    by (simp add: srvrun_pump_one_slice_def srvrun_send_taken_def wired_sendsess_untake_def WIRED_SENDSESS_LOG_def del: upt_Suc upt_rec_numeral)
  have "254 \<notin> log_bytes (ss_log ?s)" unfolding s by (auto simp: log_bytes_def sess_shrunk_def sess_lost_def two_entry_def simp del: upt_rec_numeral)
  moreover have "254 \<notin> requeue_bytes (ss_requeue ?s)" unfolding s by (auto simp: requeue_bytes_def slice_bytes_def two_bytes_def simp del: upt_rec_numeral)
  moreover have "254 < sq_cur (ss_q ?s)" unfolding s by (simp add: sess_shrunk_def sess_lost_def sess_sent_def del: upt_rec_numeral)
  ultimately show "let s' = ?s in 254 < sq_cur (ss_q s') \<and> 254 \<notin> log_bytes (ss_log s') \<union> requeue_bytes (ss_requeue s')"
    by (simp add: Let_def)
qed

subsection \<open>Every packet carried bytes of the stream\<close>

lemma take_cur: "sq_cur (ss_q s) \<le> sq_cur (ss_q (snd (wired_sendsess_take s)))"
  by (auto simp: wired_sendsess_take_def wired_sendq_next_def sendsess_split_def Let_def split: option.splits prod.splits if_splits)

lemma pump_cur:
  assumes "srvrun_pump_one_slice s may sealed pn now = (ok, s')"
  shows "sq_cur (ss_q s) \<le> sq_cur (ss_q s')" and "ok \<Longrightarrow> ss_q s' = ss_q (snd (wired_sendsess_take s))"
  using assms take_cur [of s]
  by (auto simp: srvrun_pump_one_slice_def srvrun_send_taken_def wired_sendsess_sent_def wired_sendsess_untake_def
      split: if_splits option.splits prod.splits)

lemma requeue_q: "ss_q (sendsess_requeue s i) = ss_q s"
  by (simp add: sendsess_requeue_def sendsess_clear_inflight_def)

lemma detect_q: "ss_q (snd (snd (wired_sendsess_detect_lost s largest now delay cap))) = ss_q s"
  unfolding wired_sendsess_detect_lost_def
  by (rule fold_invariant [where Q = "\<lambda>_. True" and P = "\<lambda>x. ss_q (snd (snd x)) = ss_q s"]) (auto simp: requeue_q)

lemma copy_q: "ss_q (sendsess_copy s i) = ss_q s"
  by (auto simp: sendsess_copy_def split: option.split)

lemma pto_q: "ss_q (snd (wired_sendsess_pto_fire s mx)) = ss_q s"
  by (auto simp: wired_sendsess_pto_fire_def wired_sendsess_pto_probe_def Let_def copy_q split: option.split)

definition hist_in :: "(u64 \<times> wired_sendq_slice) set \<Rightarrow> wired_sendsess \<Rightarrow> bool" where
  "hist_in hist s \<longleftrightarrow> (\<forall>(pn, sl) \<in> hist. slice_bytes sl \<subseteq> {..<sq_cur (ss_q s)})"

lemma hist_in_step:
  assumes step: "sess_step (s, hist, acks) (s', hist', acks')" and inv: "sess_inv s {} hist acks" and "hist_in hist s"
  shows "hist_in hist' s'"
proof -
  have grow: "hist_in hist s'" if "sq_cur (ss_q s) \<le> sq_cur (ss_q s')" using that assms(3) by (fastforce simp: hist_in_def)
  show ?thesis
    using step
  proof (cases rule: sess_step.cases)
    case (sent may sealed pn now sl)
    obtain t where t: "wired_sendsess_take s = (Some sl, t)" using sent(4) by (cases "wired_sendsess_take s") auto
    have "slice_bytes sl \<subseteq> {..<sq_cur (ss_q s')}"
      using sess_inv_take(2) [OF inv t] pump_cur(2) [OF sent(3)] t by (simp add: held_ok_def)
    then show ?thesis using grow [OF pump_cur(1) [OF sent(3)]] sent(1) by (simp add: hist_in_def)
  next
    case (retry may sealed pn now)
    then show ?thesis using grow [OF pump_cur(1) [OF retry(3)]] by simp
  next
    case (ack lo hi)
    then show ?thesis using grow by (simp add: srvrun_cc_range_def Let_def ack_fields wired_sendsess_ack_requeued_def)
  next
    case (lost largest now delay cap n lost)
    then show ?thesis using grow detect_q [of s largest now delay cap] by simp
  next
    case (probe mx ok)
    then show ?thesis using grow pto_q [of s mx] by simp
  qed (use grow in \<open>simp_all add: wired_sendsess_extend_def\<close>)
qed

lemma hist_in_reachable:
  assumes "sess_step\<^sup>*\<^sup>* (wired_sendsess_arm s0 p len chunk, {}, {}) w" and "length (ss_log s0) = WIRED_SENDSESS_LOG"
  shows "hist_in (fst (snd w)) (fst w)"
  using assms(1)
proof induction
  case base
  then show ?case by (simp add: hist_in_def)
next
  case (step y z)
  then show ?case using hist_in_step sess_inv_reachable [OF step(1) assms(2)] by (cases y, cases z) fastforce
qed

end
