(* ===== verification/Loss_Recovery.thy ===== *)
theory Loss_Recovery
  imports Frame_Walk Ack_Gen Send_Session
begin

unbundle bit_operations_syntax

text \<open>
  Loss recovery of the server: the RTT estimator and probe timeout of
  \<^verbatim>\<open>src/transport/recovery/detect/recovery\<close>, the record of sent 1-RTT packets \<^verbatim>\<open>sentmeta/record.c\<close>,
  recording and acknowledging packets in \<^verbatim>\<open>srvloop_sent.c\<close> and \<^verbatim>\<open>srvloop_close.c\<close>, and loss detection in
  \<^verbatim>\<open>srvrun_recover.c\<close>. Times are 64-bit and wrap; \<open>usz\<close> byte counts are 64-bit words too.
\<close>

section \<open>rtt.c, pto.c and lossdelay.c\<close>

record rtt =
  rt_min_rtt :: u64
  rt_smoothed_rtt :: u64
  rt_rttvar :: u64
  rt_have_sample :: bool

definition rtt_init :: rtt where
  "rtt_init = \<lparr>rt_min_rtt = 0, rt_smoothed_rtt = 333000, rt_rttvar = 333000 div 2, rt_have_sample = False\<rparr>"

definition first_sample :: "u64 \<Rightarrow> rtt" where
  "first_sample latest = \<lparr>rt_min_rtt = latest, rt_smoothed_rtt = latest, rt_rttvar = latest div 2, rt_have_sample = True\<rparr>"

definition rtt_adjust :: "rtt \<Rightarrow> u64 \<Rightarrow> u64 \<Rightarrow> u64" where
  "rtt_adjust r latest ack_delay = (if latest \<ge> rt_min_rtt r + ack_delay then latest - ack_delay else latest)"

definition clamp_ack_delay :: "u64 \<Rightarrow> u64 \<Rightarrow> bool \<Rightarrow> u64" where
  "clamp_ack_delay ack_delay max_ack_delay handshake_confirmed =
     (if handshake_confirmed then min ack_delay max_ack_delay else ack_delay)"

definition next_sample :: "rtt \<Rightarrow> u64 \<Rightarrow> u64 \<Rightarrow> rtt" where
  "next_sample r latest ack_delay =
     (let adjusted = rtt_adjust r latest ack_delay;
          var_sample = u64_absdiff (rt_smoothed_rtt r) adjusted
      in r\<lparr>rt_min_rtt := min (rt_min_rtt r) latest, rt_rttvar := (3 * rt_rttvar r + var_sample) div 4,
           rt_smoothed_rtt := (7 * rt_smoothed_rtt r + adjusted) div 8\<rparr>)"

definition rtt_sample :: "rtt \<Rightarrow> u64 \<Rightarrow> u64 \<Rightarrow> u64 \<Rightarrow> bool \<Rightarrow> rtt" where
  "rtt_sample r latest_rtt ack_delay max_ack_delay handshake_confirmed =
     (let clamped = clamp_ack_delay ack_delay max_ack_delay handshake_confirmed
      in if \<not> rt_have_sample r then first_sample latest_rtt else next_sample r latest_rtt clamped)"

definition rtt_pto :: "rtt \<Rightarrow> u64 \<Rightarrow> u64" where
  "rtt_pto r max_ack_delay = rt_smoothed_rtt r + max (4 * rt_rttvar r) 1000 + max_ack_delay"

definition rtt_on_persistent :: "rtt \<Rightarrow> u64 \<Rightarrow> rtt" where
  "rtt_on_persistent r latest_rtt = r\<lparr>rt_min_rtt := latest_rtt\<rparr>"

definition pto_backoff :: "u32 \<Rightarrow> u64" where
  "pto_backoff count = (let shift = (if count < 16 then count else 16) in push_bit (unat shift) 1)"

definition base_pto :: "u64 \<Rightarrow> u64 \<Rightarrow> u64 \<Rightarrow> u64" where
  "base_pto srtt rttvar max_ack_delay = srtt + max (4 * rttvar) 1000 + max_ack_delay"

definition pto_duration :: "u64 \<Rightarrow> u64 \<Rightarrow> u64 \<Rightarrow> u32 \<Rightarrow> u64" where
  "pto_duration srtt rttvar max_ack_delay backoff_count = base_pto srtt rttvar max_ack_delay * pto_backoff backoff_count"

definition lossdrive_loss_delay :: "u64 \<Rightarrow> u64 \<Rightarrow> u64 \<Rightarrow> u64" where
  "lossdrive_loss_delay smoothed_rtt latest_rtt granularity =
     (let rtt = max smoothed_rtt latest_rtt; threshold = rtt * 9 div 8 in max threshold granularity)"

section \<open>sentmeta/record.c\<close>

definition SENTMETA_CAP :: nat where "SENTMETA_CAP = 256"

record sentmeta_pkt =
  sm_pn :: u64
  sm_time_sent :: u64
  sm_sent_bytes :: u64
  sm_ack_eliciting :: bool
  sm_in_flight :: bool
  sm_used :: bool

record sentmeta =
  sm_pkts :: "sentmeta_pkt list"
  sm_count :: u64
  sm_total_in_flight :: u64

record sentmeta_out =
  mo_pn :: u64
  mo_time_sent :: u64
  mo_ack_eliciting :: bool
  mo_in_flight :: bool
  mo_sent_bytes :: u64

definition sentmeta_init :: "sentmeta \<Rightarrow> sentmeta" where
  "sentmeta_init m = \<lparr>sm_pkts = map (\<lambda>p. p\<lparr>sm_used := False\<rparr>) (sm_pkts m), sm_count = 0, sm_total_in_flight = 0\<rparr>"

definition sentmeta_free_slot :: "sentmeta \<Rightarrow> nat" where
  "sentmeta_free_slot m = scan (\<lambda>i. sm_used (sm_pkts m ! i)) SENTMETA_CAP 0"

definition sentmeta_store :: "sentmeta_out \<Rightarrow> sentmeta_pkt" where
  "sentmeta_store pkt = \<lparr>sm_pn = mo_pn pkt, sm_time_sent = mo_time_sent pkt, sm_sent_bytes = mo_sent_bytes pkt,
     sm_ack_eliciting = mo_ack_eliciting pkt, sm_in_flight = mo_in_flight pkt, sm_used = True\<rparr>"

definition sentmeta_on_sent :: "sentmeta \<Rightarrow> sentmeta_out \<Rightarrow> bool \<times> sentmeta" where
  "sentmeta_on_sent m pkt =
     (let i = sentmeta_free_slot m
      in if i = SENTMETA_CAP then (False, m)
         else (True, m\<lparr>sm_pkts := (sm_pkts m)[i := sentmeta_store pkt], sm_count := sm_count m + 1,
                 sm_total_in_flight := (if mo_in_flight pkt then sm_total_in_flight m + mo_sent_bytes pkt
                                        else sm_total_in_flight m)\<rparr>))"

definition sentmeta_reclaim :: "sentmeta \<Rightarrow> nat \<Rightarrow> sentmeta" where
  "sentmeta_reclaim m i =
     (let p = sm_pkts m ! i
      in m\<lparr>sm_total_in_flight := (if sm_in_flight p then sm_total_in_flight m - sm_sent_bytes p else sm_total_in_flight m),
           sm_pkts := (sm_pkts m)[i := p\<lparr>sm_used := False\<rparr>], sm_count := sm_count m - 1\<rparr>)"

definition sentmeta_holds :: "sentmeta_pkt \<Rightarrow> u64 \<Rightarrow> bool" where
  "sentmeta_holds p pn \<longleftrightarrow> sm_used p \<and> sm_pn p = pn"

definition sentmeta_find :: "sentmeta \<Rightarrow> u64 \<Rightarrow> nat" where
  "sentmeta_find m pn = scan (\<lambda>i. \<not> sentmeta_holds (sm_pkts m ! i) pn) SENTMETA_CAP 0"

definition sentmeta_uncount :: "sentmeta \<Rightarrow> u64 \<Rightarrow> u64 \<Rightarrow> sentmeta" where
  "sentmeta_uncount m pn n =
     (let i = sentmeta_find m pn
      in if i = SENTMETA_CAP \<or> \<not> sm_in_flight (sm_pkts m ! i) then m
         else let p = sm_pkts m ! i; n = min n (sm_sent_bytes p)
              in m\<lparr>sm_pkts := (sm_pkts m)[i := p\<lparr>sm_sent_bytes := sm_sent_bytes p - n\<rparr>],
                   sm_total_in_flight := sm_total_in_flight m - n\<rparr>)"

section \<open>srvloop\_sent.c\<close>

text \<open>
  The fields of \<open>srvloop_ackst\<close> and \<open>wired_srvloop\<close> that sending and acknowledging use. The arrays
  \<open>ackd_pn1\<close> and \<open>ackd_largest\<close> are one list of pairs, \<open>ack_lo\<close> and \<open>ack_hi\<close> with their count another.
\<close>

record srvloop_ackst =
  ak_sent :: sentmeta
  ak_largest :: u64
  ak_delay_raw :: u64
  ak_ackd :: "(u64 \<times> u64) list"
  ak_ackd_next :: u8
  ak_floor1 :: u64
  ak_last_elicit_ms :: u64
  ak_idle_tx_ms :: u64
  ak_probe_n :: u8
  ak_pto_count :: int

record wired_srvloop =
  lo_ackst :: srvloop_ackst
  lo_now_ms :: u64
  lo_tx_pn :: u64
  lo_acks :: "(u64 \<times> u64) list"
  lo_ecn_ack_seen :: bool
  lo_ecn_ack_largest :: u64
  lo_ecn_ack_ect0 :: u64
  lo_ecn_ack_ect1 :: u64
  lo_ecn_ack_ce :: u64

record srvloop_sent_kind =
  sk_eliciting :: bool
  sk_padded :: bool
  sk_ack_largest1 :: u64

definition srvloop_sent_ack_largest1 :: "framewalk_item \<Rightarrow> u64" where
  "srvloop_sent_ack_largest1 fr =
     (case ack_decode (fi_start fr) of None \<Rightarrow> 0 | Some (f, _) \<Rightarrow> ar_hi (af_ranges f ! 0) + 1)"

definition srvloop_sent_frame :: "framewalk_item \<Rightarrow> srvloop_sent_kind \<Rightarrow> srvloop_sent_kind" where
  "srvloop_sent_frame fr k =
     (let kind = frame_classify (fi_type fr);
          k = k\<lparr>sk_eliciting := sk_eliciting k \<or> frame_ack_eliciting kind, sk_padded := sk_padded k \<or> kind = FK_PADDING\<rparr>
      in if kind = FK_ACK then k\<lparr>sk_ack_largest1 := srvloop_sent_ack_largest1 fr\<rparr> else k)"

definition srvloop_ackd_note :: "srvloop_ackst \<Rightarrow> u64 \<Rightarrow> u64 \<Rightarrow> srvloop_ackst" where
  "srvloop_ackd_note a pn ack_largest1 =
     (if ack_largest1 = 0 then a
      else a\<lparr>ak_ackd := (ak_ackd a)[unat (ak_ackd_next a) := (pn + 1, ack_largest1 - 1)],
             ak_ackd_next := (ak_ackd_next a + 1) mod 8\<rparr>)"

definition srvloop_ackd_hit :: "u64 \<Rightarrow> u64 \<Rightarrow> u64 \<Rightarrow> bool" where
  "srvloop_ackd_hit pn1 lo hi \<longleftrightarrow> pn1 > lo \<and> pn1 - 1 \<le> hi"

definition srvloop_ackd_on_acked :: "srvloop_ackst \<Rightarrow> u64 \<Rightarrow> u64 \<Rightarrow> srvloop_ackst" where
  "srvloop_ackd_on_acked a lo hi =
     fold (\<lambda>i a. let (pn1, largest) = ak_ackd a ! i
                 in if srvloop_ackd_hit pn1 lo hi
                    then a\<lparr>ak_floor1 := max (ak_floor1 a) (largest + 1), ak_ackd := (ak_ackd a)[i := (0, largest)]\<rparr>
                    else a) [0..<8] a"

definition srvloop_sent_grew :: "nat \<Rightarrow> bytes \<Rightarrow> nat \<Rightarrow> bool" where
  "srvloop_sent_grew cli_scid_len payload sealed \<longleftrightarrow> sealed > 5 + cli_scid_len + length payload + 16"

definition srvloop_sent_classify :: "nat \<Rightarrow> bytes \<Rightarrow> nat \<Rightarrow> srvloop_sent_kind" where
  "srvloop_sent_classify cli_scid_len payload sealed =
     (let k = framewalk_loop srvloop_sent_frame payload \<lparr>sk_eliciting = False, sk_padded = False, sk_ack_largest1 = 0\<rparr>
      in k\<lparr>sk_padded := sk_padded k \<or> srvloop_sent_grew cli_scid_len payload sealed\<rparr>)"

definition srvloop_sent_elicit :: "srvloop_ackst \<Rightarrow> u64 \<Rightarrow> bool \<Rightarrow> srvloop_ackst" where
  "srvloop_sent_elicit a now_ms eliciting =
     (if \<not> eliciting then a
      else a\<lparr>ak_idle_tx_ms := (if ak_idle_tx_ms a = 0 then now_ms else ak_idle_tx_ms a), ak_last_elicit_ms := now_ms,
             ak_probe_n := (if ak_probe_n a \<noteq> 0 then ak_probe_n a - 1 else 0)\<rparr>)"

definition pkt_in_flight :: "bool \<Rightarrow> bool \<Rightarrow> bool" where
  "pkt_in_flight ack_eliciting has_padding \<longleftrightarrow> ack_eliciting \<or> has_padding"

text \<open>\<open>sealed\<close> is the length of the packet \<open>wired_srvloop_send_onertt\<close> produced, \<open>None\<close> when it failed.\<close>

definition srvloop_send_onertt_rec :: "wired_srvloop \<Rightarrow> nat \<Rightarrow> u64 \<Rightarrow> bytes \<Rightarrow> nat option \<Rightarrow> bool \<times> wired_srvloop" where
  "srvloop_send_onertt_rec l cli_scid_len pn payload sealed =
     (case sealed of None \<Rightarrow> (False, l)
      | Some n \<Rightarrow>
          let k = srvloop_sent_classify cli_scid_len payload n;
              a = lo_ackst l;
              m = snd (sentmeta_on_sent (ak_sent a) \<lparr>mo_pn = pn, mo_time_sent = lo_now_ms l, mo_ack_eliciting = sk_eliciting k,
                    mo_in_flight = pkt_in_flight (sk_eliciting k) (sk_padded k), mo_sent_bytes = of_nat n\<rparr>);
              a = srvloop_ackd_note (a\<lparr>ak_sent := m\<rparr>) pn (sk_ack_largest1 k)
          in (True, l\<lparr>lo_ackst := srvloop_sent_elicit a (lo_now_ms l) (sk_eliciting k)\<rparr>))"

section \<open>srvloop\_close.c\<close>

definition srvloop_push_ack :: "wired_srvloop \<Rightarrow> u64 \<Rightarrow> u64 \<Rightarrow> wired_srvloop" where
  "srvloop_push_ack l lo hi =
     (let l = l\<lparr>lo_ackst := srvloop_ackd_on_acked (lo_ackst l) lo hi\<rparr>
      in if length (lo_acks l) \<ge> 32 then l else l\<lparr>lo_acks := lo_acks l @ [(lo, hi)]\<rparr>)"

definition srvloop_ecn_newer :: "wired_srvloop \<Rightarrow> ack_frame \<Rightarrow> bool" where
  "srvloop_ecn_newer l f \<longleftrightarrow> af_has_ecn f \<and> (\<not> lo_ecn_ack_seen l \<or> ar_hi (af_ranges f ! 0) \<ge> lo_ecn_ack_largest l)"

definition srvloop_note_ecn :: "wired_srvloop \<Rightarrow> ack_frame \<Rightarrow> wired_srvloop" where
  "srvloop_note_ecn l f =
     (if \<not> srvloop_ecn_newer l f then l
      else l\<lparr>lo_ecn_ack_seen := True, lo_ecn_ack_largest := ar_hi (af_ranges f ! 0), lo_ecn_ack_ect0 := af_ect0 f,
             lo_ecn_ack_ect1 := af_ect1 f, lo_ecn_ack_ce := af_ce f\<rparr>)"

definition srvloop_note_largest :: "wired_srvloop \<Rightarrow> ack_frame \<Rightarrow> wired_srvloop" where
  "srvloop_note_largest l f =
     (if lo_acks l \<noteq> [] \<and> ar_hi (af_ranges f ! 0) \<le> ak_largest (lo_ackst l) then l
      else l\<lparr>lo_ackst := (lo_ackst l)\<lparr>ak_largest := ar_hi (af_ranges f ! 0), ak_delay_raw := af_ack_delay f\<rparr>\<rparr>)"

definition srvloop_take_ack :: "wired_srvloop \<Rightarrow> bytes \<Rightarrow> wired_srvloop" where
  "srvloop_take_ack l buf =
     (case ack_decode buf of None \<Rightarrow> l
      | Some (f, _) \<Rightarrow>
          srvloop_note_ecn (fold (\<lambda>r l. srvloop_push_ack l (ar_lo r) (ar_hi r)) (af_ranges f) (srvloop_note_largest l f)) f)"

definition srvloop_collect_acks :: "wired_srvloop \<Rightarrow> bytes \<Rightarrow> wired_srvloop" where
  "srvloop_collect_acks l pl =
     framewalk_loop (\<lambda>fr l. if frame_classify (fi_type fr) = FK_ACK then srvloop_take_ack l (fi_start fr) else l) pl l"

section \<open>srvrun\_recover.c\<close>

text \<open>The fields of \<open>srvrun_conn\<close> that loss recovery uses.\<close>

record srvrun_conn =
  rc_l :: wired_srvloop
  rc_rtt :: rtt
  rc_latest_rtt_ms :: u64
  rc_srtt_ms :: u64
  rc_rtt_from_pn :: u64
  rc_largest_acked :: u64
  rc_loss_time_us :: u64
  rc_cc_from_pn :: u64
  rc_up :: bool
  rc_confirmed :: bool
  rc_peer_max_ack_delay_p1 :: u64
  rc_peer_ack_delay_exponent_p1 :: u64

record srvrun_rec_acked =
  ra_largest :: u64
  ra_largest_hit :: bool
  ra_largest_sent :: u64
  ra_eliciting :: bool
  ra_any :: bool

definition srvrun_loss_delay_us :: "srvrun_conn \<Rightarrow> u64" where
  "srvrun_loss_delay_us c =
     (if \<not> rt_have_sample (rc_rtt c) \<and> rt_smoothed_rtt (rc_rtt c) = 0 then 0
      else lossdrive_loss_delay (rt_smoothed_rtt (rc_rtt c)) (rc_latest_rtt_ms c * 1000) 1000)"

definition srvrun_peer_max_ack_delay_us :: "srvrun_conn \<Rightarrow> u64" where
  "srvrun_peer_max_ack_delay_us c =
     (let p1 = rc_peer_max_ack_delay_p1 c in (if p1 \<noteq> 0 then p1 - 1 else 25) * 1000)"

definition srvrun_rec_ack_delay_us :: "srvrun_conn \<Rightarrow> u64" where
  "srvrun_rec_ack_delay_us c =
     (let p1 = rc_peer_ack_delay_exponent_p1 c
      in push_bit (unat (if p1 \<noteq> 0 then p1 - 1 else 3)) (ak_delay_raw (lo_ackst (rc_l c))))"

definition srvrun_rtt_update :: "srvrun_conn \<Rightarrow> u64 \<Rightarrow> u64 \<Rightarrow> srvrun_conn" where
  "srvrun_rtt_update c sample_ms ack_delay_us =
     (let c = (if \<not> rt_have_sample (rc_rtt c) then c\<lparr>rc_rtt_from_pn := lo_tx_pn (rc_l c)\<rparr> else c)
      in c\<lparr>rc_latest_rtt_ms := sample_ms,
           rc_srtt_ms := (if rc_srtt_ms c \<noteq> 0 then (7 * rc_srtt_ms c + sample_ms) div 8 else sample_ms),
           rc_rtt := rtt_sample (rc_rtt c) (sample_ms * 1000) ack_delay_us (srvrun_peer_max_ack_delay_us c) (rc_confirmed c)\<rparr>)"

definition srvrun_rec_in :: "sentmeta_pkt \<Rightarrow> u64 \<Rightarrow> u64 \<Rightarrow> bool" where
  "srvrun_rec_in p lo hi \<longleftrightarrow> sm_used p \<and> sm_pn p \<ge> lo \<and> sm_pn p \<le> hi"

definition srvrun_rec_take :: "sentmeta \<Rightarrow> nat \<Rightarrow> srvrun_rec_acked \<Rightarrow> sentmeta \<times> srvrun_rec_acked" where
  "srvrun_rec_take m i a =
     (let p = sm_pkts m ! i;
          a = a\<lparr>ra_eliciting := ra_eliciting a \<or> sm_ack_eliciting p, ra_any := True\<rparr>;
          a = (if sm_pn p = ra_largest a then a\<lparr>ra_largest_hit := True, ra_largest_sent := sm_time_sent p\<rparr> else a)
      in (sentmeta_reclaim m i, a))"

definition srvrun_rec_ack_range :: "u64 \<Rightarrow> u64 \<Rightarrow> sentmeta \<times> srvrun_rec_acked \<Rightarrow> sentmeta \<times> srvrun_rec_acked" where
  "srvrun_rec_ack_range lo hi =
     fold (\<lambda>i (m, a). if srvrun_rec_in (sm_pkts m ! i) lo hi then srvrun_rec_take m i a else (m, a)) [0..<SENTMETA_CAP]"

definition srvrun_rec_samples :: "srvrun_conn \<Rightarrow> srvrun_rec_acked \<Rightarrow> bool" where
  "srvrun_rec_samples c a \<longleftrightarrow> ra_largest_hit a \<and> ra_eliciting a \<and> ra_largest a \<ge> rc_cc_from_pn c"

definition srvrun_rec_largest :: "wired_srvloop \<Rightarrow> u64" where
  "srvrun_rec_largest l = fold (\<lambda>(lo, hi) largest. max largest hi) (lo_acks l) 0"

definition srvrun_rec_note :: "srvrun_conn \<Rightarrow> srvrun_rec_acked \<Rightarrow> u64 \<Rightarrow> srvrun_conn" where
  "srvrun_rec_note c a now_ms =
     (let c = (if ra_any a then c\<lparr>rc_l := (rc_l c)\<lparr>lo_ackst := (lo_ackst (rc_l c))\<lparr>ak_pto_count := 0\<rparr>\<rparr>\<rparr> else c)
      in if srvrun_rec_samples c a then srvrun_rtt_update c (now_ms - ra_largest_sent a) (srvrun_rec_ack_delay_us c) else c)"

abbreviation rc_sent :: "srvrun_conn \<Rightarrow> sentmeta" where
  "rc_sent c \<equiv> ak_sent (lo_ackst (rc_l c))"

definition set_sent :: "srvrun_conn \<Rightarrow> sentmeta \<Rightarrow> srvrun_conn" where
  "set_sent c m = c\<lparr>rc_l := (rc_l c)\<lparr>lo_ackst := (lo_ackst (rc_l c))\<lparr>ak_sent := m\<rparr>\<rparr>\<rparr>"

definition srvrun_rec_on_acks :: "srvrun_conn \<Rightarrow> u64 \<Rightarrow> srvrun_conn" where
  "srvrun_rec_on_acks c now_ms =
     (let a = \<lparr>ra_largest = srvrun_rec_largest (rc_l c), ra_largest_hit = False, ra_largest_sent = 0, ra_eliciting = False,
               ra_any = False\<rparr>;
          (m, a) = fold (\<lambda>(lo, hi). srvrun_rec_ack_range lo hi) (lo_acks (rc_l c)) (rc_sent c, a)
      in srvrun_rec_note (set_sent c m) a now_ms)"

definition srvrun_rec_eligible :: "sentmeta_pkt \<Rightarrow> u64 \<Rightarrow> bool" where
  "srvrun_rec_eligible p largest_acked \<longleftrightarrow> sm_used p \<and> sm_pn p < largest_acked"

definition srvrun_rec_lost :: "sentmeta_pkt \<Rightarrow> u64 \<Rightarrow> u64 \<Rightarrow> u64 \<Rightarrow> bool" where
  "srvrun_rec_lost p largest_acked now_us delay_us \<longleftrightarrow> loss_by_packet largest_acked (sm_pn p)
     \<or> delay_us \<noteq> 0 \<and> sm_time_sent p * 1000 + delay_us \<le> now_us"

definition srvrun_rec_arm :: "srvrun_conn \<Rightarrow> u64 \<Rightarrow> srvrun_conn" where
  "srvrun_rec_arm c at_us =
     (if rc_loss_time_us c = 0 \<or> at_us < rc_loss_time_us c then c\<lparr>rc_loss_time_us := at_us\<rparr> else c)"

definition srvrun_rec_check :: "srvrun_conn \<Rightarrow> nat \<Rightarrow> u64 \<Rightarrow> u64 \<Rightarrow> srvrun_conn" where
  "srvrun_rec_check c i now_us delay_us =
     (let p = sm_pkts (rc_sent c) ! i
      in if srvrun_rec_lost p (rc_largest_acked c) now_us delay_us then set_sent c (sentmeta_reclaim (rc_sent c) i)
         else srvrun_rec_arm c (sm_time_sent p * 1000 + delay_us))"

definition srvrun_rec_detect :: "srvrun_conn \<Rightarrow> u64 \<Rightarrow> srvrun_conn" where
  "srvrun_rec_detect c now_ms =
     (let delay_us = srvrun_loss_delay_us c
      in fold (\<lambda>i c. if srvrun_rec_eligible (sm_pkts (rc_sent c) ! i) (rc_largest_acked c)
                     then srvrun_rec_check c i (now_ms * 1000) delay_us else c)
           [0..<SENTMETA_CAP] (c\<lparr>rc_loss_time_us := 0\<rparr>))"

section \<open>srvrun\_pto\_probe.c\<close>

definition srvrun_loss_timer_due :: "srvrun_conn \<Rightarrow> u64 \<Rightarrow> bool" where
  "srvrun_loss_timer_due c now_ms \<longleftrightarrow> rc_loss_time_us c \<noteq> 0 \<and> now_ms * 1000 \<ge> rc_loss_time_us c"

definition srvrun_rec_eliciting :: "srvrun_conn \<Rightarrow> bool" where
  "srvrun_rec_eliciting c \<longleftrightarrow> (\<exists>i < SENTMETA_CAP. sm_used (sm_pkts (rc_sent c) ! i) \<and> sm_ack_eliciting (sm_pkts (rc_sent c) ! i))"

definition srvrun_pto_armed :: "srvrun_conn \<Rightarrow> bool" where
  "srvrun_pto_armed c \<longleftrightarrow> (rc_up c \<and> rc_confirmed c \<and> rc_loss_time_us c = 0) \<and> srvrun_rec_eliciting c"

definition srvrun_pto_deadline_ms :: "srvrun_conn \<Rightarrow> int \<Rightarrow> u64" where
  "srvrun_pto_deadline_ms c pto_count =
     pto_duration (rt_smoothed_rtt (rc_rtt c)) (rt_rttvar (rc_rtt c)) (srvrun_peer_max_ack_delay_us c) (word_of_int pto_count) div 1000"

definition srvrun_pto_fire_due :: "srvrun_conn \<Rightarrow> u64 \<Rightarrow> bool" where
  "srvrun_pto_fire_due c now_ms \<longleftrightarrow> srvrun_pto_armed c
     \<and> now_ms \<ge> ak_last_elicit_ms (lo_ackst (rc_l c)) + srvrun_pto_deadline_ms c (ak_pto_count (lo_ackst (rc_l c)))"

section \<open>The record of sent packets\<close>

definition meta_bytes :: "sentmeta_pkt \<Rightarrow> u64" where
  "meta_bytes p = (if sm_used p \<and> sm_in_flight p then sm_sent_bytes p else 0)"

definition meta_one :: "sentmeta_pkt \<Rightarrow> u64" where
  "meta_one p = (if sm_used p then 1 else 0)"

definition meta_ok :: "sentmeta \<Rightarrow> bool" where
  "meta_ok m \<longleftrightarrow> length (sm_pkts m) = SENTMETA_CAP \<and> sm_count m = sum_list (map meta_one (sm_pkts m))
     \<and> sm_total_in_flight m = sum_list (map meta_bytes (sm_pkts m))"

lemma meta_init_ok: "length (sm_pkts m) = SENTMETA_CAP \<Longrightarrow> meta_ok (sentmeta_init m)"
  by (simp add: meta_ok_def sentmeta_init_def meta_one_def meta_bytes_def comp_def)

lemma meta_on_sent_ok: "meta_ok m \<Longrightarrow> meta_ok (snd (sentmeta_on_sent m pkt))"
  using scan0_found [of "\<lambda>i. sm_used (sm_pkts m ! i)" SENTMETA_CAP]
  by (auto simp: sentmeta_on_sent_def sentmeta_free_slot_def meta_ok_def Let_def sum_list_map_update sentmeta_store_def
      meta_one_def meta_bytes_def)

lemma meta_reclaim_ok: "meta_ok m \<Longrightarrow> i < SENTMETA_CAP \<Longrightarrow> sm_used (sm_pkts m ! i) \<Longrightarrow> meta_ok (sentmeta_reclaim m i)"
  by (simp add: sentmeta_reclaim_def meta_ok_def Let_def sum_list_map_update meta_one_def meta_bytes_def)

lemma meta_uncount_ok: "meta_ok m \<Longrightarrow> meta_ok (sentmeta_uncount m pn n)"
  using scan0_found [of "\<lambda>i. \<not> sentmeta_holds (sm_pkts m ! i) pn" SENTMETA_CAP]
  by (auto simp: sentmeta_uncount_def sentmeta_find_def sentmeta_holds_def meta_ok_def Let_def sum_list_map_update meta_one_def meta_bytes_def)

text \<open>A pass that reclaims the selected slots.\<close>

definition reclaim_all :: "(sentmeta_pkt \<Rightarrow> bool) \<Rightarrow> sentmeta_pkt list \<Rightarrow> sentmeta_pkt list" where
  "reclaim_all P ps = map (\<lambda>p. if P p then p\<lparr>sm_used := False\<rparr> else p) ps"

lemma pass_slots:
  fixes f :: "nat \<Rightarrow> 's \<Rightarrow> 's" and get :: "'s \<Rightarrow> 'e list" and acc :: "'s \<Rightarrow> 'a"
  assumes step: "\<And>i s. i < length (get s) \<Longrightarrow> Q s \<Longrightarrow>
      Q (f i s) \<and> get (f i s) = (get s)[i := g (get s ! i)] \<and> acc (f i s) = h (get s ! i) (acc s)"
    and "Q s" and n: "n = length (get s)"
  shows "Q (fold f [0..<n] s)" and "get (fold f [0..<n] s) = map g (get s)" and "acc (fold f [0..<n] s) = fold h (get s) (acc s)"
proof -
  have "k \<le> length (get s) \<Longrightarrow> Q (fold f [0..<k] s) \<and> get (fold f [0..<k] s) = map g (take k (get s)) @ drop k (get s)
      \<and> acc (fold f [0..<k] s) = fold h (take k (get s)) (acc s)" for k
  proof (induction k)
    case (Suc k)
    let ?t = "fold f [0..<k] s"
    have IH: "Q ?t" "get ?t = map g (take k (get s)) @ drop k (get s)" "acc ?t = fold h (take k (get s)) (acc s)" using Suc by simp_all
    have k: "k < length (get ?t)" "get ?t ! k = get s ! k" using Suc.prems IH(2) by (simp_all add: nth_append)
    have "drop k (get s) = get s ! k # drop (Suc k) (get s)" using Suc.prems by (simp add: Cons_nth_drop_Suc)
    then have "(get ?t)[k := g (get s ! k)] = map g (take (Suc k) (get s)) @ drop (Suc k) (get s)"
      using IH(2) Suc.prems by (simp add: list_update_append take_Suc_conv_app_nth)
    then show ?case using step [OF k(1) IH(1)] k(2) IH(3) Suc.prems by (simp add: take_Suc_conv_app_nth)
  qed (simp add: assms(2))
  from this [of n] n show "Q (fold f [0..<n] s)" "get (fold f [0..<n] s) = map g (get s)"
    "acc (fold f [0..<n] s) = fold h (get s) (acc s)" by simp_all
qed

text \<open>What one acknowledged packet adds to the outcome of a step.\<close>

definition note_pkt :: "(sentmeta_pkt \<Rightarrow> bool) \<Rightarrow> sentmeta_pkt \<Rightarrow> srvrun_rec_acked \<Rightarrow> srvrun_rec_acked" where
  "note_pkt P p a =
     (if P p then (let a = a\<lparr>ra_eliciting := ra_eliciting a \<or> sm_ack_eliciting p, ra_any := True\<rparr>
                   in if sm_pn p = ra_largest a then a\<lparr>ra_largest_hit := True, ra_largest_sent := sm_time_sent p\<rparr> else a)
      else a)"

lemma rec_ack_range_eq:
  assumes "meta_ok m" and "srvrun_rec_ack_range lo hi (m, a) = (m', a')"
  shows "meta_ok m'" and "sm_pkts m' = reclaim_all (\<lambda>p. srvrun_rec_in p lo hi) (sm_pkts m)"
    and "a' = fold (note_pkt (\<lambda>p. srvrun_rec_in p lo hi)) (sm_pkts m) a"
proof -
  let ?f = "\<lambda>i (m, a). if srvrun_rec_in (sm_pkts m ! i) lo hi then srvrun_rec_take m i a else (m, a)"
  let ?g = "\<lambda>p. if srvrun_rec_in p lo hi then p\<lparr>sm_used := False\<rparr> else p"
  have n: "SENTMETA_CAP = length (sm_pkts (fst (m, a)))" using assms(1) by (simp add: meta_ok_def)
  have step: "meta_ok (fst (?f i s)) \<and> sm_pkts (fst (?f i s)) = (sm_pkts (fst s))[i := ?g (sm_pkts (fst s) ! i)]
      \<and> snd (?f i s) = note_pkt (\<lambda>p. srvrun_rec_in p lo hi) (sm_pkts (fst s) ! i) (snd s)"
    if "i < length (sm_pkts (fst s))" "meta_ok (fst s)" for i s
    using that meta_reclaim_ok [of "fst s" i]
    by (cases s) (auto simp: srvrun_rec_take_def note_pkt_def Let_def srvrun_rec_in_def sentmeta_reclaim_def meta_ok_def)
  note R = pass_slots [where get = "\<lambda>s. sm_pkts (fst s)" and acc = snd and Q = "\<lambda>s. meta_ok (fst s)" and s = "(m, a)" and f = ?f and g = ?g
      and h = "note_pkt (\<lambda>p. srvrun_rec_in p lo hi)", OF step _ n]
  have r: "fold ?f [0..<SENTMETA_CAP] (m, a) = (m', a')" using assms(2) by (simp add: srvrun_rec_ack_range_def)
  show "meta_ok m'" "sm_pkts m' = reclaim_all (\<lambda>p. srvrun_rec_in p lo hi) (sm_pkts m)"
    "a' = fold (note_pkt (\<lambda>p. srvrun_rec_in p lo hi)) (sm_pkts m) a"
    using R assms(1) unfolding r by (simp_all add: reclaim_all_def)
qed

lemma note_pkts:
  fixes P ps a
  defines "a' \<equiv> fold (note_pkt P) ps a"
  shows "ra_largest a' = ra_largest a" and "ra_any a' \<longleftrightarrow> ra_any a \<or> (\<exists>p \<in> set ps. P p)"
    and "ra_eliciting a' \<longleftrightarrow> ra_eliciting a \<or> (\<exists>p \<in> set ps. P p \<and> sm_ack_eliciting p)"
    and "ra_largest_hit a' \<longleftrightarrow> ra_largest_hit a \<or> (\<exists>p \<in> set ps. P p \<and> sm_pn p = ra_largest a)"
    and "ra_largest_hit a' \<Longrightarrow> (ra_largest_hit a \<and> ra_largest_sent a' = ra_largest_sent a)
        \<or> (\<exists>p \<in> set ps. P p \<and> sm_pn p = ra_largest a \<and> ra_largest_sent a' = sm_time_sent p)"
proof -
  have "ra_largest a' = ra_largest a \<and> (ra_any a' \<longleftrightarrow> ra_any a \<or> (\<exists>p \<in> set ps. P p))
      \<and> (ra_eliciting a' \<longleftrightarrow> ra_eliciting a \<or> (\<exists>p \<in> set ps. P p \<and> sm_ack_eliciting p))
      \<and> (ra_largest_hit a' \<longleftrightarrow> ra_largest_hit a \<or> (\<exists>p \<in> set ps. P p \<and> sm_pn p = ra_largest a))
      \<and> (ra_largest_hit a' \<longrightarrow> (ra_largest_hit a \<and> ra_largest_sent a' = ra_largest_sent a)
        \<or> (\<exists>p \<in> set ps. P p \<and> sm_pn p = ra_largest a \<and> ra_largest_sent a' = sm_time_sent p))"
    unfolding a'_def
  proof (induction ps arbitrary: a)
    case (Cons p ps)
    show ?case using Cons [of "note_pkt P p a"] by (auto simp: note_pkt_def Let_def split: if_splits)
  qed simp
  then show "ra_largest a' = ra_largest a" "ra_any a' \<longleftrightarrow> ra_any a \<or> (\<exists>p \<in> set ps. P p)"
    "ra_eliciting a' \<longleftrightarrow> ra_eliciting a \<or> (\<exists>p \<in> set ps. P p \<and> sm_ack_eliciting p)"
    "ra_largest_hit a' \<longleftrightarrow> ra_largest_hit a \<or> (\<exists>p \<in> set ps. P p \<and> sm_pn p = ra_largest a)"
    "ra_largest_hit a' \<Longrightarrow> (ra_largest_hit a \<and> ra_largest_sent a' = ra_largest_sent a)
        \<or> (\<exists>p \<in> set ps. P p \<and> sm_pn p = ra_largest a \<and> ra_largest_sent a' = sm_time_sent p)" by blast+
qed

text \<open>Acknowledging a list of ranges: \<open>in_ranges\<close> is their union.\<close>

definition in_ranges :: "(u64 \<times> u64) list \<Rightarrow> u64 \<Rightarrow> bool" where
  "in_ranges rs pn \<longleftrightarrow> (\<exists>(lo, hi) \<in> set rs. lo \<le> pn \<and> pn \<le> hi)"

lemma rec_ack_ranges:
  assumes "meta_ok m" and "fold (\<lambda>(lo, hi). srvrun_rec_ack_range lo hi) rs (m, a) = (m', a')"
  defines "N p \<equiv> sm_used p \<and> in_ranges rs (sm_pn p)"
  shows "meta_ok m' \<and> sm_pkts m' = reclaim_all N (sm_pkts m) \<and> ra_largest a' = ra_largest a
    \<and> (ra_any a' \<longleftrightarrow> ra_any a \<or> (\<exists>p \<in> set (sm_pkts m). N p))
    \<and> (ra_eliciting a' \<longleftrightarrow> ra_eliciting a \<or> (\<exists>p \<in> set (sm_pkts m). N p \<and> sm_ack_eliciting p))
    \<and> (ra_largest_hit a' \<longleftrightarrow> ra_largest_hit a \<or> (\<exists>p \<in> set (sm_pkts m). N p \<and> sm_pn p = ra_largest a))
    \<and> (ra_largest_hit a' \<longrightarrow> (ra_largest_hit a \<and> ra_largest_sent a' = ra_largest_sent a)
        \<or> (\<exists>p \<in> set (sm_pkts m). N p \<and> sm_pn p = ra_largest a \<and> ra_largest_sent a' = sm_time_sent p))"
  using assms(1,2) unfolding N_def
proof (induction rs arbitrary: m a)
  case Nil
  have "reclaim_all (\<lambda>p. sm_used p \<and> in_ranges [] (sm_pn p)) ps = ps" for ps by (simp add: reclaim_all_def in_ranges_def)
  then show ?case using Nil by (simp add: in_ranges_def)
next
  case (Cons r rs)
  obtain lo hi where r: "r = (lo, hi)" by fastforce
  obtain m1 a1 where 1: "srvrun_rec_ack_range lo hi (m, a) = (m1, a1)" by fastforce
  let ?P = "\<lambda>p. srvrun_rec_in p lo hi"
  note E = rec_ack_range_eq [OF Cons.prems(1) 1]
  have rest: "fold (\<lambda>(lo, hi). srvrun_rec_ack_range lo hi) rs (m1, a1) = (m', a')" using Cons.prems(2) r 1 by simp
  note IH = Cons.IH [OF E(1) rest] and A = note_pkts [of ?P "sm_pkts m" a, folded E(3)]
  have later: "(\<exists>p \<in> set (sm_pkts m1). (sm_used p \<and> in_ranges rs (sm_pn p)) \<and> F (sm_pn p) (sm_time_sent p) (sm_ack_eliciting p))
      \<longleftrightarrow> (\<exists>p \<in> set (sm_pkts m). (sm_used p \<and> in_ranges rs (sm_pn p)) \<and> \<not> ?P p \<and> F (sm_pn p) (sm_time_sent p) (sm_ack_eliciting p))" for F
    unfolding E(2) by (auto simp: reclaim_all_def)
  have now: "sm_used p \<and> in_ranges (r # rs) (sm_pn p) \<longleftrightarrow> ?P p \<or> (sm_used p \<and> in_ranges rs (sm_pn p))" for p
    by (auto simp: in_ranges_def srvrun_rec_in_def r)
  have pk: "reclaim_all (\<lambda>p. sm_used p \<and> in_ranges rs (sm_pn p)) (sm_pkts m1)
      = reclaim_all (\<lambda>p. sm_used p \<and> in_ranges (r # rs) (sm_pn p)) (sm_pkts m)"
    unfolding E(2) now by (auto simp: reclaim_all_def)
  have L: "ra_largest a1 = ra_largest a" by (fact A(1))
  show ?case
  proof (intro conjI)
    show "meta_ok m'" "ra_largest a' = ra_largest a" using IH L by simp_all
    show "sm_pkts m' = reclaim_all (\<lambda>p. sm_used p \<and> in_ranges (r # rs) (sm_pn p)) (sm_pkts m)" using IH unfolding pk by blast
    show "ra_any a' \<longleftrightarrow> ra_any a \<or> (\<exists>p \<in> set (sm_pkts m). sm_used p \<and> in_ranges (r # rs) (sm_pn p))"
      using IH A(2) later [of "\<lambda>_ _ _. True"] unfolding now by blast
    show "ra_eliciting a' \<longleftrightarrow> ra_eliciting a \<or> (\<exists>p \<in> set (sm_pkts m). (sm_used p \<and> in_ranges (r # rs) (sm_pn p)) \<and> sm_ack_eliciting p)"
      using IH A(3) later [of "\<lambda>_ _ e. e"] unfolding now by blast
    show hit: "ra_largest_hit a' \<longleftrightarrow> ra_largest_hit a \<or> (\<exists>p \<in> set (sm_pkts m). (sm_used p \<and> in_ranges (r # rs) (sm_pn p)) \<and> sm_pn p = ra_largest a)"
      using IH A(4) later [of "\<lambda>pn _ _. pn = ra_largest a"] unfolding now L by blast
    show "ra_largest_hit a' \<longrightarrow> (ra_largest_hit a \<and> ra_largest_sent a' = ra_largest_sent a)
        \<or> (\<exists>p \<in> set (sm_pkts m). (sm_used p \<and> in_ranges (r # rs) (sm_pn p)) \<and> sm_pn p = ra_largest a \<and> ra_largest_sent a' = sm_time_sent p)"
    proof
      assume "ra_largest_hit a'"
      then consider "ra_largest_hit a1" "ra_largest_sent a' = ra_largest_sent a1"
        | "\<exists>p \<in> set (sm_pkts m). (sm_used p \<and> in_ranges rs (sm_pn p)) \<and> \<not> ?P p \<and> sm_pn p = ra_largest a \<and> ra_largest_sent a' = sm_time_sent p"
        using IH later [of "\<lambda>pn t _. pn = ra_largest a \<and> ra_largest_sent a' = t"] unfolding L by blast
      then show "(ra_largest_hit a \<and> ra_largest_sent a' = ra_largest_sent a)
          \<or> (\<exists>p \<in> set (sm_pkts m). (sm_used p \<and> in_ranges (r # rs) (sm_pn p)) \<and> sm_pn p = ra_largest a \<and> ra_largest_sent a' = sm_time_sent p)"
      proof cases
        case 1
        from A(5) [OF 1(1)] show ?thesis unfolding 1(2) now by blast
      next
        case 2
        then show ?thesis unfolding now by blast
      qed
    qed
  qed
qed

section \<open>Loss detection\<close>

text \<open>Packets the pass gives up, and packets it leaves to the loss timer.\<close>

definition gives_up :: "u64 \<Rightarrow> u64 \<Rightarrow> u64 \<Rightarrow> sentmeta_pkt \<Rightarrow> bool" where
  "gives_up L now_us d p \<longleftrightarrow> srvrun_rec_eligible p L \<and> srvrun_rec_lost p L now_us d"

definition waits :: "u64 \<Rightarrow> u64 \<Rightarrow> u64 \<Rightarrow> sentmeta_pkt \<Rightarrow> bool" where
  "waits L now_us d p \<longleftrightarrow> srvrun_rec_eligible p L \<and> \<not> srvrun_rec_lost p L now_us d"

definition arm_pkt :: "u64 \<Rightarrow> u64 \<Rightarrow> u64 \<Rightarrow> sentmeta_pkt \<Rightarrow> u64 \<Rightarrow> u64" where
  "arm_pkt L now_us d p t =
     (if waits L now_us d p \<and> (t = 0 \<or> sm_time_sent p * 1000 + d < t) then sm_time_sent p * 1000 + d else t)"

definition same_estimate :: "srvrun_conn \<Rightarrow> srvrun_conn \<Rightarrow> bool" where
  "same_estimate c c' \<longleftrightarrow> rc_largest_acked c' = rc_largest_acked c \<and> rc_rtt c' = rc_rtt c \<and> rc_latest_rtt_ms c' = rc_latest_rtt_ms c"

lemma rec_detect_pass:
  assumes ok: "meta_ok (rc_sent c)"
  defines "L \<equiv> rc_largest_acked c" and "d \<equiv> srvrun_loss_delay_us c"
  shows "meta_ok (rc_sent (srvrun_rec_detect c now)) \<and> same_estimate c (srvrun_rec_detect c now)
    \<and> sm_pkts (rc_sent (srvrun_rec_detect c now)) = reclaim_all (gives_up L (now * 1000) d) (sm_pkts (rc_sent c))
    \<and> rc_loss_time_us (srvrun_rec_detect c now) = fold (arm_pkt L (now * 1000) d) (sm_pkts (rc_sent c)) 0"
proof -
  let ?f = "\<lambda>i c. if srvrun_rec_eligible (sm_pkts (rc_sent c) ! i) (rc_largest_acked c)
                     then srvrun_rec_check c i (now * 1000) d else c"
  let ?g = "\<lambda>p. if gives_up L (now * 1000) d p then p\<lparr>sm_used := False\<rparr> else p"
  let ?Q = "\<lambda>c'. meta_ok (rc_sent c') \<and> same_estimate c c'"
  let ?c = "c\<lparr>rc_loss_time_us := 0\<rparr>"
  have step: "?Q (?f i s) \<and> sm_pkts (rc_sent (?f i s)) = (sm_pkts (rc_sent s))[i := ?g (sm_pkts (rc_sent s) ! i)]
      \<and> rc_loss_time_us (?f i s) = arm_pkt L (now * 1000) d (sm_pkts (rc_sent s) ! i) (rc_loss_time_us s)"
    if i: "i < length (sm_pkts (rc_sent s))" and Q: "?Q s" for i s
  proof -
    have L: "rc_largest_acked s = L" using Q by (simp add: same_estimate_def L_def)
    have cap: "i < SENTMETA_CAP" using i Q by (simp add: meta_ok_def)
    show ?thesis
      using Q cap meta_reclaim_ok [of "rc_sent s" i]
      by (auto simp: srvrun_rec_check_def Let_def set_sent_def srvrun_rec_arm_def gives_up_def waits_def arm_pkt_def L
          same_estimate_def sentmeta_reclaim_def srvrun_rec_eligible_def split del: if_split split: if_split)
  qed
  have n: "SENTMETA_CAP = length (sm_pkts (rc_sent ?c))" using ok by (simp add: meta_ok_def)
  have Q: "?Q ?c" using ok by (simp add: same_estimate_def)
  note R = pass_slots [where get = "\<lambda>c. sm_pkts (rc_sent c)" and acc = rc_loss_time_us and Q = ?Q and f = ?f and g = ?g
      and h = "arm_pkt L (now * 1000) d" and s = ?c, OF step Q n]
  have e: "srvrun_rec_detect c now = fold ?f [0..<SENTMETA_CAP] ?c" unfolding srvrun_rec_detect_def Let_def d_def ..
  show ?thesis unfolding e using R by (simp add: reclaim_all_def)
qed

lemma arm_pkts:
  assumes nz: "\<forall>p \<in> set ps. waits L now_us d p \<longrightarrow> sm_time_sent p * 1000 + d \<noteq> 0"
  defines "t \<equiv> fold (arm_pkt L now_us d) ps 0"
  shows "t = 0 \<longleftrightarrow> \<not> (\<exists>p \<in> set ps. waits L now_us d p)"
    and "p \<in> set ps \<Longrightarrow> waits L now_us d p \<Longrightarrow> t \<le> sm_time_sent p * 1000 + d"
    and "t \<noteq> 0 \<Longrightarrow> \<exists>p \<in> set ps. waits L now_us d p \<and> t = sm_time_sent p * 1000 + d"
proof -
  have "(t = 0 \<longleftrightarrow> \<not> (\<exists>p \<in> set ps. waits L now_us d p)) \<and> (\<forall>p \<in> set ps. waits L now_us d p \<longrightarrow> t \<le> sm_time_sent p * 1000 + d)
      \<and> (t \<noteq> 0 \<longrightarrow> (\<exists>p \<in> set ps. waits L now_us d p \<and> t = sm_time_sent p * 1000 + d))"
    unfolding t_def using nz
  proof (induction ps rule: rev_induct)
    case (snoc p ps)
    then show ?case by (auto simp: arm_pkt_def)
  qed simp
  then show "t = 0 \<longleftrightarrow> \<not> (\<exists>p \<in> set ps. waits L now_us d p)" "p \<in> set ps \<Longrightarrow> waits L now_us d p \<Longrightarrow> t \<le> sm_time_sent p * 1000 + d"
    "t \<noteq> 0 \<Longrightarrow> \<exists>p \<in> set ps. waits L now_us d p \<and> t = sm_time_sent p * 1000 + d" by blast+
qed

text \<open>Without overflow, the loss conditions over numbers.\<close>

definition times_ok :: "srvrun_conn \<Rightarrow> u64 \<Rightarrow> bool" where
  "times_ok c d \<longleftrightarrow> (\<forall>p \<in> set (sm_pkts (rc_sent c)). sm_used p \<longrightarrow>
     unat (sm_time_sent p) * 1000 + unat d < 2 ^ 64 \<and> unat (sm_pn p) + 3 < 2 ^ 64)"

definition due_us :: "u64 \<Rightarrow> sentmeta_pkt \<Rightarrow> nat" where
  "due_us d p = unat (sm_time_sent p) * 1000 + unat d"

lemma unat_ms_us: "unat t * 1000 + unat d < 2 ^ 64 \<Longrightarrow> unat (t * 1000 + d :: u64) = unat t * 1000 + unat d"
  by (simp add: unat_add_u64 unat_word_ariths(2) power_2_64)

lemma rec_lost_iff:
  assumes "unat (sm_time_sent p) * 1000 + unat d < 2 ^ 64" and "unat (sm_pn p) + 3 < 2 ^ 64" and "d \<noteq> 0" and "unat now * 1000 < 2 ^ 64"
  shows "srvrun_rec_lost p L (now * 1000) d \<longleftrightarrow> unat (sm_pn p) + 3 \<le> unat L \<or> due_us d p \<le> unat now * 1000"
proof -
  have "unat (sm_pn p + 3) = unat (sm_pn p) + 3" using assms(2) by (simp add: unat_add_u64)
  moreover have "unat (now * 1000 + 0 :: u64) = unat now * 1000 + unat (0 :: u64)" using assms(4) by (intro unat_ms_us) simp
  ultimately show ?thesis
    using unat_ms_us [OF assms(1)] assms(3) by (simp add: srvrun_rec_lost_def loss_by_packet_def u64_le_mono due_us_def)
qed

lemma detect_progress:
  assumes ok: "meta_ok (rc_sent c)" and times: "times_ok c (srvrun_loss_delay_us c)" and nz: "srvrun_loss_delay_us c \<noteq> 0"
    and now: "unat now * 1000 < 2 ^ 64"
  defines "d \<equiv> srvrun_loss_delay_us c" and "L \<equiv> rc_largest_acked c" and "c' \<equiv> srvrun_rec_detect c now"
  defines "R \<equiv> {p \<in> set (sm_pkts (rc_sent c')). sm_used p \<and> sm_pn p < L}"
  shows "sm_pkts (rc_sent c') = map (\<lambda>p. if sm_used p \<and> sm_pn p < L \<and> (unat (sm_pn p) + 3 \<le> unat L \<or> due_us d p \<le> unat now * 1000)
        then p\<lparr>sm_used := False\<rparr> else p) (sm_pkts (rc_sent c))"
    and "rc_loss_time_us c' = 0 \<longleftrightarrow> R = {}"
    and "R \<noteq> {} \<Longrightarrow> unat (rc_loss_time_us c') = Min (due_us d ` R)" and "R \<noteq> {} \<Longrightarrow> unat now * 1000 < unat (rc_loss_time_us c')"
proof -
  let ?ps = "sm_pkts (rc_sent c)"
  note P = rec_detect_pass [OF ok, of now, folded d_def L_def c'_def]
  have t: "unat (sm_time_sent p) * 1000 + unat d < 2 ^ 64" "unat (sm_pn p) + 3 < 2 ^ 64" if "p \<in> set ?ps" "sm_used p" for p
    using times that by (simp_all add: times_ok_def d_def)
  have lost: "gives_up L (now * 1000) d p \<longleftrightarrow> sm_used p \<and> sm_pn p < L \<and> (unat (sm_pn p) + 3 \<le> unat L \<or> due_us d p \<le> unat now * 1000)"
    if "p \<in> set ?ps" for p
    using rec_lost_iff [OF t [OF that] nz [folded d_def] now, of L] by (auto simp: gives_up_def srvrun_rec_eligible_def)
  show pk: "sm_pkts (rc_sent c') = map (\<lambda>p. if sm_used p \<and> sm_pn p < L \<and> (unat (sm_pn p) + 3 \<le> unat L \<or> due_us d p \<le> unat now * 1000)
        then p\<lparr>sm_used := False\<rparr> else p) ?ps"
    using P lost by (simp add: reclaim_all_def)
  have R: "R = {p \<in> set ?ps. waits L (now * 1000) d p}"
    using P unfolding R_def by (auto simp: reclaim_all_def gives_up_def waits_def srvrun_rec_eligible_def)
  have at: "unat (sm_time_sent p * 1000 + d) = due_us d p" if "p \<in> R" for p
    using that t unfolding R by (simp add: unat_ms_us due_us_def waits_def srvrun_rec_eligible_def)
  have "due_us d p \<noteq> 0" for p using nz by (simp add: due_us_def d_def unat_eq_0)
  then have "\<forall>p \<in> set ?ps. waits L (now * 1000) d p \<longrightarrow> sm_time_sent p * 1000 + d \<noteq> 0"
    using at unfolding R by (metis (mono_tags, lifting) mem_Collect_eq unat_0)
  note A = arm_pkts [OF this] and lt = P [THEN conjunct2, THEN conjunct2, THEN conjunct2]
  show z: "rc_loss_time_us c' = 0 \<longleftrightarrow> R = {}" using A(1) lt unfolding R by auto
  assume ne: "R \<noteq> {}"
  then obtain p where p: "p \<in> R" "rc_loss_time_us c' = sm_time_sent p * 1000 + d" using A(3) z lt unfolding R by auto
  have le: "unat (rc_loss_time_us c') \<le> due_us d q" if "q \<in> R" for q
    using A(2) [of q] that at [OF that] lt unfolding R by (simp add: u64_le_mono)
  have "finite R" unfolding R_def by simp
  then show m: "unat (rc_loss_time_us c') = Min (due_us d ` R)"
    using p at [OF p(1)] le by (intro Min_eqI [symmetric]) auto
  have "\<not> gives_up L (now * 1000) d p" "p \<in> set ?ps" "sm_used p" "sm_pn p < L"
    using p(1) unfolding R by (auto simp: gives_up_def waits_def srvrun_rec_eligible_def)
  then show "unat now * 1000 < unat (rc_loss_time_us c')" using lost p(2) at [OF p(1)] by auto
qed

lemma detect_times:
  fixes now :: u64
  assumes "meta_ok (rc_sent c)" and "times_ok c (srvrun_loss_delay_us c)"
  defines "c' \<equiv> srvrun_rec_detect c now"
  shows "meta_ok (rc_sent c')" and "srvrun_loss_delay_us c' = srvrun_loss_delay_us c" and "times_ok c' (srvrun_loss_delay_us c')"
    and "rc_largest_acked c' = rc_largest_acked c"
proof -
  note P = rec_detect_pass [OF assms(1), of now, folded c'_def]
  show "meta_ok (rc_sent c')" and d: "srvrun_loss_delay_us c' = srvrun_loss_delay_us c" and "rc_largest_acked c' = rc_largest_acked c"
    using P by (simp_all add: same_estimate_def srvrun_loss_delay_us_def)
  show "times_ok c' (srvrun_loss_delay_us c')"
    using P assms(2) unfolding d times_ok_def by (auto simp: reclaim_all_def split: if_splits)
qed

lemma reclaim_count:
  assumes "p \<in> set ps" and "sm_used p" and "P p"
  shows "length (filter sm_used (map (\<lambda>p. if P p then p\<lparr>sm_used := False\<rparr> else p) ps)) < length (filter sm_used ps)"
proof -
  have le: "length (filter sm_used (map (\<lambda>p. if P p then p\<lparr>sm_used := False\<rparr> else p) ps)) \<le> length (filter sm_used ps)" for ps
    by (induction ps) auto
  show ?thesis using assms by (induction ps) (use le in \<open>auto simp: less_Suc_eq_le\<close>)
qed

section \<open>Properties\<close>


definition rec_example :: srvrun_conn where
  "rec_example = \<lparr>rc_l = \<lparr>lo_ackst = \<lparr>ak_sent = \<lparr>sm_pkts = [
         \<lparr>sm_pn = 4, sm_time_sent = 10, sm_sent_bytes = 100, sm_ack_eliciting = True, sm_in_flight = True, sm_used = True\<rparr>,
         \<lparr>sm_pn = 7, sm_time_sent = 11, sm_sent_bytes = 50, sm_ack_eliciting = True, sm_in_flight = True, sm_used = True\<rparr>]
         @ replicate 254 \<lparr>sm_pn = 0, sm_time_sent = 0, sm_sent_bytes = 0, sm_ack_eliciting = False, sm_in_flight = False, sm_used = False\<rparr>,
         sm_count = 2, sm_total_in_flight = 150\<rparr>,
       ak_largest = 0, ak_delay_raw = 0, ak_ackd = replicate 8 (0, 0), ak_ackd_next = 0, ak_floor1 = 0, ak_last_elicit_ms = 11,
       ak_idle_tx_ms = 10, ak_probe_n = 0, ak_pto_count = 0\<rparr>,
     lo_now_ms = 12, lo_tx_pn = 9, lo_acks = [], lo_ecn_ack_seen = False, lo_ecn_ack_largest = 0, lo_ecn_ack_ect0 = 0,
     lo_ecn_ack_ect1 = 0, lo_ecn_ack_ce = 0\<rparr>,
   rc_rtt = rtt_init, rc_latest_rtt_ms = 0, rc_srtt_ms = 0, rc_rtt_from_pn = 0, rc_largest_acked = 8, rc_loss_time_us = 0,
   rc_cc_from_pn = 0, rc_up = True, rc_confirmed = True, rc_peer_max_ack_delay_p1 = 0, rc_peer_ack_delay_exponent_p1 = 0\<rparr>"

lemma rec_example_ok: "meta_ok (rc_sent rec_example)" "srvrun_loss_delay_us rec_example = 374625" "times_ok rec_example 374625"
proof -
  show "meta_ok (rc_sent rec_example)"
    by (simp add: meta_ok_def rec_example_def SENTMETA_CAP_def meta_one_def meta_bytes_def sum_list_replicate)
  show "srvrun_loss_delay_us rec_example = 374625"
    by (simp add: srvrun_loss_delay_us_def rec_example_def rtt_init_def lossdrive_loss_delay_def)
  show "times_ok rec_example 374625" by (auto simp: times_ok_def rec_example_def)
qed


section \<open>Acknowledgments of a step\<close>

definition ranges_of :: "frame \<Rightarrow> (u64 \<times> u64) list" where
  "ranges_of f = (case f of Ack a \<Rightarrow> map (\<lambda>r. (ar_lo r, ar_hi r)) (af_ranges a) | _ \<Rightarrow> [])"

definition same_record :: "srvloop_ackst \<Rightarrow> srvloop_ackst \<Rightarrow> bool" where
  "same_record a a' \<longleftrightarrow> ak_sent a' = ak_sent a \<and> ak_pto_count a' = ak_pto_count a \<and> ak_last_elicit_ms a' = ak_last_elicit_ms a
     \<and> ak_probe_n a' = ak_probe_n a \<and> ak_idle_tx_ms a' = ak_idle_tx_ms a"

lemma same_record_refl [simp]: "same_record a a"
  by (simp add: same_record_def)

lemma same_record_trans: "same_record a b \<Longrightarrow> same_record b c \<Longrightarrow> same_record a c"
  by (simp add: same_record_def)

lemma ackd_on_acked_record: "same_record a (srvloop_ackd_on_acked a lo hi)"
  unfolding srvloop_ackd_on_acked_def
  by (rule fold_invariant [where Q = "\<lambda>_. True" and P = "same_record a"]) (auto simp: same_record_def split: prod.split)

lemma push_ack_props:
  "lo_acks (srvloop_push_ack l lo hi) = (if length (lo_acks l) < 32 then lo_acks l @ [(lo, hi)] else lo_acks l)"
  "same_record (lo_ackst l) (lo_ackst (srvloop_push_ack l lo hi))"
  using ackd_on_acked_record [of "lo_ackst l" lo hi] by (auto simp: srvloop_push_ack_def Let_def)

lemma push_acks_props:
  assumes "length (lo_acks l) \<le> 32"
  shows "lo_acks (fold (\<lambda>r l. srvloop_push_ack l (ar_lo r) (ar_hi r)) rs l) = take 32 (lo_acks l @ map (\<lambda>r. (ar_lo r, ar_hi r)) rs)
    \<and> same_record (lo_ackst l) (lo_ackst (fold (\<lambda>r l. srvloop_push_ack l (ar_lo r) (ar_hi r)) rs l))"
  using assms
proof (induction rs arbitrary: l)
  case (Cons r rs)
  let ?l = "srvloop_push_ack l (ar_lo r) (ar_hi r)"
  have "length (lo_acks ?l) \<le> 32" using Cons.prems by (simp add: push_ack_props)
  from Cons.IH [OF this] show ?case
    using Cons.prems push_ack_props [of l "ar_lo r" "ar_hi r"] same_record_trans by (cases "length (lo_acks l) < 32") auto
qed simp

lemma take_ack_props:
  assumes "ack_decode buf = Some (f, n)" and "length (lo_acks l) \<le> 32"
  shows "lo_acks (srvloop_take_ack l buf) = take 32 (lo_acks l @ map (\<lambda>r. (ar_lo r, ar_hi r)) (af_ranges f))"
    and "same_record (lo_ackst l) (lo_ackst (srvloop_take_ack l buf))"
proof -
  let ?m = "srvloop_note_largest l f"
  let ?p = "fold (\<lambda>r l. srvloop_push_ack l (ar_lo r) (ar_hi r)) (af_ranges f) ?m"
  have m: "lo_acks ?m = lo_acks l" "same_record (lo_ackst l) (lo_ackst ?m)"
    by (simp_all add: srvloop_note_largest_def same_record_def)
  have p: "lo_acks (srvloop_note_ecn ?p f) = lo_acks ?p" "lo_ackst (srvloop_note_ecn ?p f) = lo_ackst ?p"
    by (simp_all add: srvloop_note_ecn_def)
  show "lo_acks (srvloop_take_ack l buf) = take 32 (lo_acks l @ map (\<lambda>r. (ar_lo r, ar_hi r)) (af_ranges f))"
    "same_record (lo_ackst l) (lo_ackst (srvloop_take_ack l buf))"
    using push_acks_props [of ?m "af_ranges f"] m p assms same_record_trans [OF m(2)]
    by (simp_all add: srvloop_take_ack_def)
qed

lemma take_take_append: "take n (take n xs @ ys) = take n (xs @ ys)"
  by (simp add: min_def)

lemma collect_acks_frames:
  assumes "list_all frame_wf fs" and "length (lo_acks l) \<le> 32"
  shows "lo_acks (srvloop_collect_acks l (concat (map frame_wire fs))) = take 32 (lo_acks l @ concat (map ranges_of fs))"
    and "same_record (lo_ackst l) (lo_ackst (srvloop_collect_acks l (concat (map frame_wire fs))))"
proof -
  let ?step = "\<lambda>fr l. if frame_classify (fi_type fr) = FK_ACK then srvloop_take_ack l (fi_start fr) else l"
  have "lo_acks (fold ?step (items_of fs) l) = take 32 (lo_acks l @ concat (map ranges_of fs))
      \<and> same_record (lo_ackst l) (lo_ackst (fold ?step (items_of fs) l))" if "list_all frame_wf fs" "length (lo_acks l) \<le> 32" for l fs
    using that
  proof (induction fs arbitrary: l)
    case (Cons f fs)
    let ?rest = "concat (map frame_wire fs)"
    let ?l = "?step \<lparr>fi_type = ucast (hd (frame_wire f)), fi_start = frame_wire f @ ?rest\<rparr> l"
    have one: "lo_acks ?l = take 32 (lo_acks l @ ranges_of f) \<and> same_record (lo_ackst l) (lo_ackst ?l)"
    proof (cases f)
      case (Ack a)
      then have "ack_decode (frame_wire f @ ?rest) = Some (a, length (ack_wire a))" using Cons.prems(1) by (simp add: ack.dec_wire)
      from take_ack_props [OF this Cons.prems(2)] show ?thesis using Ack frame_first_byte(3) [of f] by (simp add: ranges_of_def)
    qed (use Cons.prems(2) frame_first_byte(3) [of f] in \<open>simp_all add: ranges_of_def\<close>)
    then have len: "length (lo_acks ?l) \<le> 32" by simp
    have wf: "list_all frame_wf fs" using Cons.prems(1) by simp
    note IH = Cons.IH [OF wf len]
    have e: "fold ?step (items_of (f # fs)) l = fold ?step (items_of fs) ?l" by simp
    have "take 32 (take 32 (lo_acks l @ ranges_of f) @ concat (map ranges_of fs)) = take 32 (lo_acks l @ ranges_of f @ concat (map ranges_of fs))"
      using take_take_append [of 32 "lo_acks l @ ranges_of f"] by (simp only: append_assoc)
    then have "lo_acks (fold ?step (items_of (f # fs)) l) = take 32 (lo_acks l @ concat (map ranges_of (f # fs)))"
      unfolding e using IH one by (simp only: list.map concat.simps)
    moreover have "same_record (lo_ackst l) (lo_ackst (fold ?step (items_of (f # fs)) l))"
      unfolding e using IH one same_record_trans by blast
    ultimately show ?case by blast
  qed simp
  from this [OF assms] show "lo_acks (srvloop_collect_acks l (concat (map frame_wire fs))) = take 32 (lo_acks l @ concat (map ranges_of fs))"
    "same_record (lo_ackst l) (lo_ackst (srvloop_collect_acks l (concat (map frame_wire fs))))"
    by (simp_all add: srvloop_collect_acks_def framewalk_loop_fold walk_items_concat [OF assms(1)])
qed

lemma rec_largest_Max: "lo_acks l \<noteq> [] \<Longrightarrow> srvrun_rec_largest l = Max (snd ` set (lo_acks l))"
proof -
  have gen: "fold (\<lambda>(lo, hi) largest. max largest hi) rs b = Max (insert b (snd ` set rs))" for rs :: "(u64 \<times> u64) list" and b
  proof (induction rs arbitrary: b)
    case (Cons r rs)
    then show ?case by (cases r; cases "rs = []") (simp_all add: max.assoc max.commute max.left_commute)
  qed simp
  assume "lo_acks l \<noteq> []"
  then have "Max (insert 0 (snd ` set (lo_acks l))) = max 0 (Max (snd ` set (lo_acks l)))" by (intro Max_insert) simp_all
  then show ?thesis using gen [of "lo_acks l" 0] by (simp add: srvrun_rec_largest_def max_def)
qed

lemma rtt_update_fields:
  "rc_l (srvrun_rtt_update c s d) = rc_l c"
  "rc_rtt (srvrun_rtt_update c s d) = rtt_sample (rc_rtt c) (s * 1000) d (srvrun_peer_max_ack_delay_us c) (rc_confirmed c)"
  by (simp_all add: srvrun_rtt_update_def Let_def srvrun_peer_max_ack_delay_us_def)

lemma rec_on_acks_props:
  fixes now :: u64
  assumes ok: "meta_ok (rc_sent c)"
  defines "rs \<equiv> lo_acks (rc_l c)" and "c' \<equiv> srvrun_rec_on_acks c now"
  defines "N p \<equiv> sm_used p \<and> in_ranges (lo_acks (rc_l c)) (sm_pn p)" and "L \<equiv> srvrun_rec_largest (rc_l c)"
  shows "meta_ok (rc_sent c')" and "sm_pkts (rc_sent c') = reclaim_all N (sm_pkts (rc_sent c))"
    and "ak_pto_count (lo_ackst (rc_l c')) = (if \<exists>p \<in> set (sm_pkts (rc_sent c)). N p then 0 else ak_pto_count (lo_ackst (rc_l c)))"
    and "if (\<exists>p \<in> set (sm_pkts (rc_sent c)). N p \<and> sm_pn p = L) \<and> (\<exists>p \<in> set (sm_pkts (rc_sent c)). N p \<and> sm_ack_eliciting p) \<and> rc_cc_from_pn c \<le> L
      then \<exists>p \<in> set (sm_pkts (rc_sent c)). N p \<and> sm_pn p = L \<and> rc_rtt c' = rtt_sample (rc_rtt c) ((now - sm_time_sent p) * 1000)
             (srvrun_rec_ack_delay_us c) (srvrun_peer_max_ack_delay_us c) (rc_confirmed c)
      else rc_rtt c' = rc_rtt c"
proof -
  define a where "a = \<lparr>ra_largest = L, ra_largest_hit = False, ra_largest_sent = 0, ra_eliciting = False, ra_any = False\<rparr>"
  obtain m' a' where f: "fold (\<lambda>(lo, hi). srvrun_rec_ack_range lo hi) (lo_acks (rc_l c)) (rc_sent c, a) = (m', a')" by fastforce
  note R = rec_ack_ranges [OF ok f, folded N_def]
  have c': "c' = srvrun_rec_note (set_sent c m') a' now"
    using f by (simp add: c'_def srvrun_rec_on_acks_def a_def L_def)
  let ?c = "set_sent c m'"
  define cd where "cd = (if ra_any a' then ?c\<lparr>rc_l := (rc_l ?c)\<lparr>lo_ackst := (lo_ackst (rc_l ?c))\<lparr>ak_pto_count := 0\<rparr>\<rparr>\<rparr> else ?c)"
  have d: "rc_sent cd = m'" "ak_pto_count (lo_ackst (rc_l cd)) = (if ra_any a' then 0 else ak_pto_count (lo_ackst (rc_l c)))"
    "rc_rtt cd = rc_rtt c" "rc_cc_from_pn cd = rc_cc_from_pn c" "srvrun_rec_ack_delay_us cd = srvrun_rec_ack_delay_us c"
    "srvrun_peer_max_ack_delay_us cd = srvrun_peer_max_ack_delay_us c" "rc_confirmed cd = rc_confirmed c"
    by (simp_all add: cd_def set_sent_def srvrun_rec_ack_delay_us_def srvrun_peer_max_ack_delay_us_def)
  have e: "c' = (if srvrun_rec_samples cd a' then srvrun_rtt_update cd (now - ra_largest_sent a') (srvrun_rec_ack_delay_us cd) else cd)"
    unfolding c' srvrun_rec_note_def Let_def cd_def ..
  show "meta_ok (rc_sent c')" "sm_pkts (rc_sent c') = reclaim_all N (sm_pkts (rc_sent c))"
    using R d(1) unfolding e by (simp_all add: rtt_update_fields)
  show "ak_pto_count (lo_ackst (rc_l c')) = (if \<exists>p \<in> set (sm_pkts (rc_sent c)). N p then 0 else ak_pto_count (lo_ackst (rc_l c)))"
    using R d(2) unfolding e by (simp add: rtt_update_fields a_def)
  have s: "srvrun_rec_samples cd a' \<longleftrightarrow> (\<exists>p \<in> set (sm_pkts (rc_sent c)). N p \<and> sm_pn p = L)
      \<and> (\<exists>p \<in> set (sm_pkts (rc_sent c)). N p \<and> sm_ack_eliciting p) \<and> rc_cc_from_pn c \<le> L"
    using R d(4) unfolding srvrun_rec_samples_def by (simp add: a_def)
  show "if (\<exists>p \<in> set (sm_pkts (rc_sent c)). N p \<and> sm_pn p = L) \<and> (\<exists>p \<in> set (sm_pkts (rc_sent c)). N p \<and> sm_ack_eliciting p) \<and> rc_cc_from_pn c \<le> L
      then \<exists>p \<in> set (sm_pkts (rc_sent c)). N p \<and> sm_pn p = L \<and> rc_rtt c' = rtt_sample (rc_rtt c) ((now - sm_time_sent p) * 1000)
             (srvrun_rec_ack_delay_us c) (srvrun_peer_max_ack_delay_us c) (rc_confirmed c)
      else rc_rtt c' = rc_rtt c"
  proof (cases "srvrun_rec_samples cd a'")
    case True
    then have "ra_largest_hit a'" by (simp add: srvrun_rec_samples_def)
    then obtain p where "p \<in> set (sm_pkts (rc_sent c))" "N p" "sm_pn p = L" "ra_largest_sent a' = sm_time_sent p"
      using R by (auto simp: a_def)
    moreover have "rc_rtt c' = rtt_sample (rc_rtt c) ((now - ra_largest_sent a') * 1000)
             (srvrun_rec_ack_delay_us c) (srvrun_peer_max_ack_delay_us c) (rc_confirmed c)"
      unfolding e using True d(3,5-7) by (simp only: if_True rtt_update_fields)
    ultimately show ?thesis using True s by auto
  next
    case False
    then show ?thesis using s d(3) unfolding e by auto
  qed
qed

section \<open>The record through a connection's life\<close>

text \<open>Everything that touches the record; \<open>other\<close> is any change of the rest of the connection.\<close>

inductive rec_step :: "srvrun_conn \<Rightarrow> srvrun_conn \<Rightarrow> bool" where
  send: "rec_step c (c\<lparr>rc_l := l\<rparr>)" if "srvloop_send_onertt_rec (rc_l c) scid_len pn payload sealed = (ok, l)"
| uncount: "rec_step c (set_sent c (sentmeta_uncount (rc_sent c) pn n))"
| acks: "rec_step c (srvrun_rec_on_acks (c\<lparr>rc_l := srvloop_collect_acks (rc_l c) pl\<rparr>) now)"
| detect: "rec_step c (srvrun_rec_detect c now)"
| other: "rec_step c c'" if "rc_sent c' = rc_sent c"

lemma collect_acks_sent: "ak_sent (lo_ackst (srvloop_collect_acks l pl)) = ak_sent (lo_ackst l)"
proof -
  have push: "ak_sent (lo_ackst (fold (\<lambda>r l. srvloop_push_ack l (ar_lo r) (ar_hi r)) rs l)) = ak_sent (lo_ackst l)" for rs l
    by (induction rs arbitrary: l) (use push_ack_props(2) in \<open>auto simp: same_record_def\<close>)
  have "ak_sent (lo_ackst (srvloop_take_ack l buf)) = ak_sent (lo_ackst l)" for l buf
    by (auto simp: srvloop_take_ack_def srvloop_note_ecn_def push srvloop_note_largest_def split: option.split)
  then show ?thesis
    unfolding srvloop_collect_acks_def framewalk_loop_fold
    by (intro fold_invariant [where Q = "\<lambda>_. True" and P = "\<lambda>l'. ak_sent (lo_ackst l') = ak_sent (lo_ackst l)"]) auto
qed

lemma rec_step_ok:
  assumes "rec_step c c'" and ok: "meta_ok (rc_sent c)"
  shows "meta_ok (rc_sent c')"
  using assms(1)
proof cases
  case (send scid_len pn payload sealed r l)
  have a: "ak_sent (srvloop_sent_elicit (srvloop_ackd_note a pn x) t e) = ak_sent a" for a x t e
    by (simp add: srvloop_sent_elicit_def srvloop_ackd_note_def)
  show ?thesis using send ok meta_on_sent_ok [OF ok]
    by (auto simp: srvloop_send_onertt_rec_def Let_def a split: option.splits)
next
  case (uncount pn n)
  then show ?thesis using meta_uncount_ok [OF ok] by (simp add: set_sent_def)
next
  case (acks pl now)
  have "meta_ok (rc_sent (c\<lparr>rc_l := srvloop_collect_acks (rc_l c) pl\<rparr>))" using ok collect_acks_sent by simp
  from rec_on_acks_props(1) [OF this] acks show ?thesis by simp
next
  case (detect now)
  then show ?thesis using rec_detect_pass [OF ok] by blast
qed (use ok in simp)

lemma meta_ok_count:
  assumes "meta_ok m"
  shows "unat (sm_count m) = length (filter sm_used (sm_pkts m))"
proof -
  have "sum_list (map meta_one ps) = of_nat (length (filter sm_used ps))" for ps
    by (induction ps) (simp_all add: meta_one_def)
  moreover have "length (filter sm_used (sm_pkts m)) \<le> 256"
    using assms length_filter_le [of sm_used "sm_pkts m"] by (simp add: meta_ok_def SENTMETA_CAP_def)
  ultimately show ?thesis using assms by (simp add: meta_ok_def unat_of_nat_u64)
qed

text \<open>
  C20. The accounting of packets in flight. Whatever is sent, acknowledged, declared lost or counted
  elsewhere, in whatever order, the record's packet count is the number of packets it tracks and
  its byte count the sum of the bytes of those in flight.
\<close>

theorem recovery_accounting:
  assumes "rec_step\<^sup>*\<^sup>* c0 c" and "rc_sent c0 = sentmeta_init m0" and "length (sm_pkts m0) = SENTMETA_CAP"
  shows "unat (sm_count (rc_sent c)) = length (filter sm_used (sm_pkts (rc_sent c)))
    \<and> sm_total_in_flight (rc_sent c)
      = sum_list (map sm_sent_bytes (filter (\<lambda>p. sm_used p \<and> sm_in_flight p) (sm_pkts (rc_sent c))))"
proof -
  have "meta_ok (rc_sent c)"
    using assms(1)
  proof induction
    case base
    then show ?case using meta_init_ok [OF assms(3)] assms(2) by simp
  next
    case (step y z)
    then show ?case using rec_step_ok by blast
  qed
  moreover have "sum_list (map meta_bytes ps) = sum_list (map sm_sent_bytes (filter (\<lambda>p. sm_used p \<and> sm_in_flight p) ps))" for ps
    by (induction ps) (simp_all add: meta_bytes_def)
  ultimately show ?thesis using meta_ok_count by (simp add: meta_ok_def)
qed

theorem recovery_accounting_witness:
  "sm_total_in_flight (rc_sent (srvrun_rec_detect (set_sent rec_example (sentmeta_init (rc_sent rec_example))) 9)) = 0"
proof -
  let ?c0 = "set_sent rec_example (sentmeta_init (rc_sent rec_example))"
  have i: "rc_sent ?c0 = sentmeta_init (rc_sent rec_example)" "length (sm_pkts (rc_sent rec_example)) = SENTMETA_CAP"
    using rec_example_ok(1) by (simp_all add: set_sent_def meta_ok_def)
  have ok: "meta_ok (rc_sent ?c0)" unfolding i(1) by (rule meta_init_ok [OF i(2)])
  have "rec_step\<^sup>*\<^sup>* ?c0 (srvrun_rec_detect ?c0 9)" by (intro r_into_rtranclp rec_step.detect)
  note T = recovery_accounting [OF this i]
  have "filter (\<lambda>p. sm_used p \<and> sm_in_flight p) (sm_pkts (rc_sent (srvrun_rec_detect ?c0 9))) = []"
    using rec_detect_pass [OF ok, of 9] i(1) by (auto simp: filter_empty_conv reclaim_all_def sentmeta_init_def split: if_splits)
  then show ?thesis using T by simp
qed

text \<open>
  C18. What a step's ACK frames do. From a payload of well-formed frames the first 32 ranges of its
  ACK frames are collected; a tracked packet is dropped exactly when its number lies in one of them,
  the probe count restarts exactly when there was such a packet, and an RTT sample is taken exactly
  when the largest number acknowledged is among the dropped packets, some dropped packet was
  ack-eliciting and the number is not older than the current path, from that packet's send time.
\<close>

theorem step_acks_exact:
  fixes now :: u64
  assumes ok: "meta_ok (rc_sent c)" and wf: "list_all frame_wf fs" and new: "lo_acks (rc_l c) = []"
  defines "c1 \<equiv> c\<lparr>rc_l := srvloop_collect_acks (rc_l c) (concat (map frame_wire fs))\<rparr>"
  defines "c' \<equiv> srvrun_rec_on_acks c1 now" and "rs \<equiv> take 32 (concat (map ranges_of fs))"
  defines "N p \<equiv> sm_used p \<and> in_ranges (take 32 (concat (map ranges_of fs))) (sm_pn p)"
  defines "L \<equiv> srvrun_rec_largest (rc_l c1)"
  shows "(rs \<noteq> [] \<longrightarrow> L = Max (snd ` set rs))
    \<and> sm_pkts (rc_sent c') = map (\<lambda>p. if N p then p\<lparr>sm_used := False\<rparr> else p) (sm_pkts (rc_sent c))
    \<and> ak_pto_count (lo_ackst (rc_l c')) = (if \<exists>p \<in> set (sm_pkts (rc_sent c)). N p then 0 else ak_pto_count (lo_ackst (rc_l c)))
    \<and> (if (\<exists>p \<in> set (sm_pkts (rc_sent c)). N p \<and> sm_pn p = L) \<and> (\<exists>p \<in> set (sm_pkts (rc_sent c)). N p \<and> sm_ack_eliciting p)
           \<and> rc_cc_from_pn c \<le> L
       then \<exists>p \<in> set (sm_pkts (rc_sent c)). N p \<and> sm_pn p = L \<and> rc_rtt c' = rtt_sample (rc_rtt c) ((now - sm_time_sent p) * 1000)
              (srvrun_rec_ack_delay_us c1) (srvrun_peer_max_ack_delay_us c) (rc_confirmed c)
       else rc_rtt c' = rc_rtt c)"
proof -
  note C = collect_acks_frames [OF wf, of "rc_l c"]
  have c1: "lo_acks (rc_l c1) = rs" "rc_sent c1 = rc_sent c" "ak_pto_count (lo_ackst (rc_l c1)) = ak_pto_count (lo_ackst (rc_l c))"
    using C new by (simp_all add: c1_def rs_def same_record_def)
  have c2: "rc_rtt c1 = rc_rtt c" "rc_cc_from_pn c1 = rc_cc_from_pn c" "srvrun_peer_max_ack_delay_us c1 = srvrun_peer_max_ack_delay_us c"
    "rc_confirmed c1 = rc_confirmed c" by (simp_all add: c1_def srvrun_peer_max_ack_delay_us_def)
  have ok1: "meta_ok (rc_sent c1)" using ok c1(2) by simp
  have N: "sm_used p \<and> in_ranges (lo_acks (rc_l c1)) (sm_pn p) \<longleftrightarrow> N p" for p by (simp add: N_def c1(1) rs_def)
  note P = rec_on_acks_props [OF ok1, of now, folded c'_def L_def, unfolded N c1(2,3) c2]
  have "rs \<noteq> [] \<longrightarrow> L = Max (snd ` set rs)" using rec_largest_Max [of "rc_l c1"] by (simp add: c1(1) L_def)
  then show ?thesis using P(2-4) by (simp add: reclaim_all_def)
qed

definition ack_seven :: ack_frame where
  "ack_seven = \<lparr>af_ack_delay = 0, af_ranges = [\<lparr>ar_hi = 7, ar_lo = 6\<rparr>], af_has_ecn = False, af_ect0 = 0, af_ect1 = 0, af_ce = 0\<rparr>"

theorem step_acks_exact_witness:
  "map sm_used (take 2 (sm_pkts (rc_sent (srvrun_rec_on_acks
     (rec_example\<lparr>rc_l := srvloop_collect_acks (rc_l rec_example) (concat (map frame_wire [Ping, Ack ack_seven]))\<rparr>) 20)))) = [True, False]"
proof -
  have wf: "list_all frame_wf [Ping, Ack ack_seven]"
    by (simp add: ack_seven_def ack_wf_def ack_ok_def ACK_MAX_RANGES_def VARINT_MAX_def)
  have new: "lo_acks (rc_l rec_example) = []" by (simp add: rec_example_def)
  have r: "take 32 (concat (map ranges_of [Ping, Ack ack_seven])) = [(6, 7)]" by (simp add: ranges_of_def ack_seven_def)
  have "sm_pkts (rc_sent (srvrun_rec_on_acks (rec_example\<lparr>rc_l := srvloop_collect_acks (rc_l rec_example)
      (concat (map frame_wire [Ping, Ack ack_seven]))\<rparr>) 20))
    = map (\<lambda>p. if sm_used p \<and> in_ranges [(6, 7)] (sm_pn p) then p\<lparr>sm_used := False\<rparr> else p) (sm_pkts (rc_sent rec_example))"
    using step_acks_exact [OF rec_example_ok(1) wf new, of 20, unfolded r] by blast
  then show ?thesis by (simp only:) (simp add: rec_example_def in_ranges_def)
qed

section \<open>The floor of our own acknowledgments\<close>

text \<open>
  \<open>carried\<close> collects the pairs of a packet number we used and the Largest Acknowledged of the ACK
  frame that packet carried; \<open>acks\<close> the packet numbers the peer has acknowledged.
\<close>

type_synonym ackd_world = "srvloop_ackst \<times> (u64 \<times> u64) set \<times> u64 set"

inductive ackd_step :: "ackd_world \<Rightarrow> ackd_world \<Rightarrow> bool" where
  sent: "ackd_step (a, cs, acks) (srvloop_ackd_note a pn l1, (if l1 = 0 then cs else insert (pn, l1 - 1) cs), acks)"
| acked: "ackd_step (a, cs, acks) (srvloop_ackd_on_acked a lo hi, cs, acks \<union> {lo..hi})"
| other: "ackd_step (a, cs, acks) (a', cs, acks)"
    if "ak_ackd a' = ak_ackd a" "ak_ackd_next a' = ak_ackd_next a" "ak_floor1 a' = ak_floor1 a"

definition ackd_ok :: "srvloop_ackst \<Rightarrow> (u64 \<times> u64) set \<Rightarrow> u64 set \<Rightarrow> bool" where
  "ackd_ok a cs acks \<longleftrightarrow> length (ak_ackd a) = 8 \<and> unat (ak_ackd_next a) < 8
     \<and> (\<forall>(pn1, l) \<in> set (ak_ackd a). pn1 \<noteq> 0 \<longrightarrow> (pn1 - 1, l) \<in> cs)
     \<and> (ak_floor1 a = 0 \<or> (\<exists>(pn, l) \<in> cs. pn \<in> acks \<and> ak_floor1 a = l + 1))"

lemma ackd_note_ok:
  assumes "ackd_ok a cs acks" and "l1 \<noteq> 0"
  shows "ackd_ok (srvloop_ackd_note a pn l1) (insert (pn, l1 - 1) cs) acks"
proof -
  have n: "unat ((ak_ackd_next a + 1) mod 8 :: u8) < 8" by (simp add: unat_mod)
  have "\<forall>(pn1, l) \<in> set ((ak_ackd a)[unat (ak_ackd_next a) := (pn + 1, l1 - 1)]). pn1 \<noteq> 0 \<longrightarrow> (pn1 - 1, l) \<in> insert (pn, l1 - 1) cs"
    using assms(1) by (auto simp: ackd_ok_def dest!: set_update_subset_insert [THEN subsetD])
  then show ?thesis using assms n by (auto simp: ackd_ok_def srvloop_ackd_note_def)
qed

lemma ackd_on_acked_ok:
  assumes "ackd_ok a cs acks"
  shows "ackd_ok (srvloop_ackd_on_acked a lo hi) cs (acks \<union> {lo..hi}) \<and> ak_floor1 a \<le> ak_floor1 (srvloop_ackd_on_acked a lo hi)"
proof -
  let ?P = "\<lambda>b. ackd_ok b cs (acks \<union> {lo..hi}) \<and> ak_floor1 a \<le> ak_floor1 b"
  have init: "?P a" using assms by (auto simp: ackd_ok_def)
  show ?thesis
    unfolding srvloop_ackd_on_acked_def
  proof (rule fold_invariant [where Q = "\<lambda>i. i < 8"])
    fix i b assume i: "i < (8 :: nat)" and b: "?P b"
    obtain pn1 l where e: "ak_ackd b ! i = (pn1, l)" by fastforce
    then have m: "(pn1, l) \<in> set (ak_ackd b)" using i b by (metis ackd_ok_def nth_mem)
    show "?P (let (pn1, largest) = ak_ackd b ! i in if srvloop_ackd_hit pn1 lo hi
        then b\<lparr>ak_floor1 := max (ak_floor1 b) (largest + 1), ak_ackd := (ak_ackd b)[i := (0, largest)]\<rparr> else b)"
    proof (cases "srvloop_ackd_hit pn1 lo hi")
      case True
      then have pn: "pn1 \<noteq> 0" "lo < pn1" "pn1 - 1 \<le> hi" by (auto simp: srvloop_ackd_hit_def)
      have "unat (pn1 - 1) = unat pn1 - 1" using pn(1) by (rule unat_minus_one)
      then have in_acks: "pn1 - 1 \<in> {lo..hi}" using pn(2,3) by (simp add: u64_le_mono u64_less_mono)
      have "(pn1 - 1, l) \<in> cs" using b m pn(1) by (auto simp: ackd_ok_def)
      then have fl: "\<exists>(pn, l') \<in> cs. pn \<in> acks \<union> {lo..hi} \<and> l + 1 = l' + 1" using in_acks by blast
      have "\<forall>(p, l') \<in> set ((ak_ackd b)[i := (0, l)]). p \<noteq> 0 \<longrightarrow> (p - 1, l') \<in> cs"
        using b by (auto simp: ackd_ok_def dest!: set_update_subset_insert [THEN subsetD])
      then show ?thesis using b fl True unfolding e by (auto simp: ackd_ok_def max_def)
    qed (use b e in simp)
  qed (use init in auto)
qed

lemma ackd_reachable:
  assumes "ackd_step\<^sup>*\<^sup>* (a0, {}, {}) w" and "ak_ackd a0 = replicate 8 (0, z)" and "ak_ackd_next a0 = 0" and "ak_floor1 a0 = 0"
  shows "ackd_ok (fst w) (fst (snd w)) (snd (snd w))"
  using assms(1)
proof induction
  case base
  then show ?case using assms(2-4) by (simp add: ackd_ok_def)
next
  case (step y w)
  from step(2) show ?case
  proof cases
    case (sent a cs acks pn l1)
    then show ?thesis using step(3) ackd_note_ok [of a cs acks l1 pn] by (cases "l1 = 0") (auto simp: srvloop_ackd_note_def)
  next
    case (acked a cs acks lo hi)
    then show ?thesis using step(3) ackd_on_acked_ok [of a cs acks lo hi] by simp
  next
    case (other a a' cs acks)
    then show ?thesis using step(3) by (simp add: ackd_ok_def)
  qed
qed

text \<open>
  C22. Pruning acknowledgments is sound. The floor below which received packet numbers are no longer
  reported is one above the Largest Acknowledged of an ACK frame of ours whose packet the peer has
  acknowledged, and it never falls.
\<close>

theorem ack_floor_sound:
  assumes "ackd_step\<^sup>*\<^sup>* (a0, {}, {}) (a, cs, acks)" and "ak_ackd a0 = replicate 8 (0, 0)" and "ak_ackd_next a0 = 0" and "ak_floor1 a0 = 0"
  shows "(ak_floor1 a \<noteq> 0 \<longrightarrow> (\<exists>(pn, l) \<in> cs. pn \<in> acks \<and> ak_floor1 a = l + 1))
    \<and> (\<forall>lo hi. ak_floor1 a \<le> ak_floor1 (srvloop_ackd_on_acked a lo hi))"
proof -
  have ok: "ackd_ok a cs acks" using ackd_reachable [OF assms] by simp
  then show ?thesis using ackd_on_acked_ok [OF ok] unfolding ackd_ok_def by blast
qed

theorem ack_floor_sound_witness:
  "\<exists>(pn, l) \<in> {(3 :: u64, 40 :: u64)}. pn \<in> {2..5} \<and>
     ak_floor1 (srvloop_ackd_on_acked (srvloop_ackd_note (lo_ackst (rc_l rec_example)) 3 41) 2 5) = l + 1"
proof -
  let ?a0 = "lo_ackst (rc_l rec_example)" and ?a1 = "srvloop_ackd_note (lo_ackst (rc_l rec_example)) 3 41"
  let ?a2 = "srvloop_ackd_on_acked (srvloop_ackd_note (lo_ackst (rc_l rec_example)) 3 41) 2 5"
  have i: "ak_ackd ?a0 = replicate 8 (0, 0)" "ak_ackd_next ?a0 = 0" "ak_floor1 ?a0 = 0" by (simp_all add: rec_example_def)
  have "ackd_step (?a0, {}, {}) (?a1, {(3, 40)}, {})" using ackd_step.sent [of ?a0 "{}" "{}" 3 41] by simp
  moreover have "ackd_step (?a1, {(3, 40)}, {}) (?a2, {(3, 40)}, {2..5})" using ackd_step.acked [of ?a1 "{(3, 40)}" "{}" 2 5] by simp
  ultimately have r: "ackd_step\<^sup>*\<^sup>* (?a0, {}, {}) (?a2, {(3, 40)}, {2..5})" by (meson rtranclp.rtrancl_into_rtrancl rtranclp.rtrancl_refl)
  have "ak_floor1 ?a2 \<noteq> 0" by code_simp
  then show ?thesis using ack_floor_sound [OF r i] by blast
qed

section \<open>The RTT estimate and the probe timeout\<close>

definition rtt_samples :: "rtt \<Rightarrow> (u64 \<times> u64 \<times> u64 \<times> bool) list \<Rightarrow> rtt" where
  "rtt_samples r xs = fold (\<lambda>(latest, delay, max_delay, confirmed) r. rtt_sample r latest delay max_delay confirmed) xs r"

definition rtt_within :: "u64 \<Rightarrow> u64 \<Rightarrow> rtt \<Rightarrow> bool" where
  "rtt_within lo hi r \<longleftrightarrow> rt_have_sample r \<and> rt_min_rtt r \<in> {lo..hi} \<and> rt_smoothed_rtt r \<in> {lo..hi} \<and> rt_rttvar r \<le> hi"

lemma rtt_adjust_within:
  assumes "rt_min_rtt r \<in> {lo..hi}" and "latest \<in> {lo..hi}" and "unat hi < 2 ^ 60" and "unat d < 2 ^ 60"
  shows "rtt_adjust r latest d \<in> {lo..hi}"
proof (cases "latest \<ge> rt_min_rtt r + d")
  case True
  have s: "unat (rt_min_rtt r + d) = unat (rt_min_rtt r) + unat d"
    using assms by (intro unat_add_u64) (auto simp: u64_le_mono)
  then have "unat d \<le> unat latest" using True by (simp add: u64_le_mono)
  then have "unat (latest - d) = unat latest - unat d" by (simp add: unat_sub_u64 u64_le_mono)
  then show ?thesis using True s assms by (auto simp: rtt_adjust_def u64_le_mono)
next
  case False
  then show ?thesis using assms by (auto simp: rtt_adjust_def)
qed

lemma u64_absdiff_le:
  assumes "a \<le> hi" and "b \<le> hi"
  shows "u64_absdiff a b \<le> hi"
  using assms by (auto simp: u64_absdiff_def u64_le_mono u64_less_mono unat_sub_u64)

lemma u64_mean_within:
  assumes "unat hi < 2 ^ 60" and "a \<in> {lo..hi}" and "b \<in> {lo..hi}" and "k \<le> 7"
  shows "(of_nat k * a + b) div (of_nat (Suc k) :: u64) \<in> {lo..hi}"
proof -
  have b: "unat a \<le> unat hi" "unat b \<le> unat hi" "unat lo \<le> unat a" "unat lo \<le> unat b" using assms(2,3) by (auto simp: u64_le_mono)
  have "k * unat a \<le> 7 * unat hi" using b(1) assms(4) by (intro mult_le_mono)
  then have ka: "k * unat a + unat b < 2 ^ 64" using b assms(1) by simp
  have k: "unat (of_nat k :: u64) = k" "unat (of_nat (Suc k) :: u64) = Suc k" using assms(4) by (simp_all add: unat_of_nat_u64 del: of_nat_Suc)
  have "unat (of_nat k * a :: u64) = k * unat a" using ka k by (simp add: unat_word_ariths)
  then have "unat (of_nat k * a + b) = k * unat a + unat b" using ka by (simp add: unat_add_u64)
  then have e: "unat ((of_nat k * a + b) div of_nat (Suc k)) = (k * unat a + unat b) div Suc k" using k by (simp only: unat_div)
  have "k * unat a + unat b \<le> Suc k * unat hi" using add_le_mono [OF b(2) mult_le_mono2 [OF b(1), of k]] by (simp add: add.commute)
  then have hi: "(k * unat a + unat b) div Suc k \<le> unat hi" by (metis div_le_mono nonzero_mult_div_cancel_left nat.distinct(1))
  have "Suc k * unat lo \<le> k * unat a + unat b" using add_le_mono [OF b(4) mult_le_mono2 [OF b(3), of k]] by (simp add: add.commute)
  then have "unat lo \<le> (k * unat a + unat b) div Suc k" by (metis div_le_mono nonzero_mult_div_cancel_left nat.distinct(1))
  then show ?thesis using hi e by (simp add: u64_le_mono)
qed

lemma rtt_sample_within:
  assumes "rtt_within lo hi r \<or> \<not> rt_have_sample r" and "latest \<in> {lo..hi}" and "unat hi < 2 ^ 60"
    and "unat (clamp_ack_delay d md hc) < 2 ^ 60"
  shows "rtt_within lo hi (rtt_sample r latest d md hc)"
proof (cases "rt_have_sample r")
  case False
  have "latest div 2 \<le> hi" using assms(2) by (auto simp: u64_le_mono unat_div)
  then show ?thesis using False assms(2) by (simp add: rtt_sample_def first_sample_def rtt_within_def)
next
  case True
  then have w: "rt_min_rtt r \<in> {lo..hi}" "rt_smoothed_rtt r \<in> {lo..hi}" "rt_rttvar r \<le> hi" using assms(1) by (auto simp: rtt_within_def)
  define ad where "ad = rtt_adjust r latest (clamp_ack_delay d md hc)"
  have ad: "ad \<in> {lo..hi}" unfolding ad_def using w(1) assms(2-4) by (rule rtt_adjust_within)
  have v: "u64_absdiff (rt_smoothed_rtt r) ad \<in> {0..hi}" using u64_absdiff_le w(2) ad by simp
  have var: "(3 * rt_rttvar r + u64_absdiff (rt_smoothed_rtt r) ad) div 4 \<le> hi"
    using u64_mean_within [OF assms(3) _ v, of "rt_rttvar r" 3] w(3) by simp
  have sm: "(7 * rt_smoothed_rtt r + ad) div 8 \<in> {lo..hi}"
    using u64_mean_within [OF assms(3) w(2) ad, of 7] by simp
  show ?thesis using True w(1) assms(2) var sm by (simp add: rtt_sample_def next_sample_def Let_def rtt_within_def flip: ad_def) (auto simp: min_def)
qed

lemma Min_insert_min:
  fixes a b :: u64
  assumes "finite S"
  shows "Min (insert (min a b) S) = Min (insert a (insert b S))"
  using assms by (cases "S = {}") (simp_all add: min.assoc)

lemma rtt_samples_within:
  assumes "\<forall>(latest, d, md, hc) \<in> set xs. latest \<in> {lo..hi} \<and> unat (clamp_ack_delay d md hc) < 2 ^ 60" and "unat hi < 2 ^ 60"
  shows "(rtt_within lo hi r \<longrightarrow> rtt_within lo hi (rtt_samples r xs) \<and> rt_min_rtt (rtt_samples r xs) = Min (insert (rt_min_rtt r) (fst ` set xs)))"
  using assms(1)
proof (induction xs arbitrary: r)
  case Nil
  then show ?case by (simp add: rtt_samples_def)
next
  case (Cons x xs)
  obtain latest d md hc where x: "x = (latest, d, md, hc)" by (cases x)
  let ?r = "rtt_sample r latest d md hc"
  show ?case
  proof
    assume w: "rtt_within lo hi r"
    have "rtt_within lo hi ?r" using Cons.prems x w assms(2) by (intro rtt_sample_within) auto
    moreover have "rt_min_rtt ?r = min (rt_min_rtt r) latest" using w by (simp add: rtt_within_def rtt_sample_def next_sample_def Let_def)
    moreover have "rtt_samples r (x # xs) = rtt_samples ?r xs" by (simp add: rtt_samples_def x)
    ultimately show "rtt_within lo hi (rtt_samples r (x # xs))
        \<and> rt_min_rtt (rtt_samples r (x # xs)) = Min (insert (rt_min_rtt r) (fst ` set (x # xs)))"
      using Cons.IH [of ?r] Cons.prems Min_insert_min [of "fst ` set xs" "rt_min_rtt r" latest] by (simp add: x)
  qed
qed

lemma unat_pto_backoff: "unat (pto_backoff n) = 2 ^ min (unat n) 16"
proof -
  have le: "unat (if n < 16 then n else 16) = min (unat n) 16" by (simp add: word_less_nat_alt min_def)
  have "(2 :: nat) ^ min (unat n) 16 \<le> 2 ^ 16" by (intro power_increasing) auto
  then have lt: "(2 :: nat) ^ min (unat n) 16 < 2 ^ 64" by (rule le_less_trans) simp
  have "pto_backoff n = of_nat (2 ^ min (unat n) 16)" by (simp only: pto_backoff_def Let_def le push_bit_eq_mult mult_1 of_nat_power of_nat_numeral)
  then show ?thesis using lt by (simp only: unat_of_nat_u64)
qed

lemma unat_base_pto:
  assumes "unat s < 2 ^ 45" and "unat v < 2 ^ 43" and "unat m < 2 ^ 45"
  shows "unat (base_pto s v m) = unat s + max (4 * unat v) 1000 + unat m \<and> unat (base_pto s v m) < 2 ^ 47"
proof -
  have v: "unat (4 * v) = 4 * unat v" using assms(2) by (simp add: unat_word_ariths)
  then have mx: "unat (max (4 * v) 1000) = max (4 * unat v) 1000" by (simp add: max_def u64_le_mono)
  then have "unat (s + max (4 * v) 1000) = unat s + max (4 * unat v) 1000" using assms by (simp add: unat_add_u64)
  then have "unat (base_pto s v m) = unat s + max (4 * unat v) 1000 + unat m" unfolding base_pto_def using assms by (simp add: unat_add_u64)
  then show ?thesis using assms by simp
qed

text \<open>
  C23. The RTT estimate stays inside the range of its samples and the probe timeout does not overflow.
  After any non-empty run of samples between \<open>lo\<close> and \<open>hi\<close>, below \<open>2\<^sup>43\<close> microseconds, the smoothed
  RTT lies between \<open>lo\<close> and \<open>hi\<close>, the variation is at most \<open>hi\<close>, and the minimum is the smallest
  sample; the probe timeout is the formula of RFC 9002 over the integers, doubled per timeout up to sixteen times.
\<close>

theorem rtt_and_pto_bounded:
  assumes "xs \<noteq> []" and "\<forall>(latest, d, md, hc) \<in> set xs. latest \<in> {lo..hi} \<and> unat (clamp_ack_delay d md hc) < 2 ^ 60"
    and "unat hi < 2 ^ 43" and "unat max_delay < 2 ^ 45" and "r = rtt_samples rtt_init xs"
  shows "rt_smoothed_rtt r \<in> {lo..hi} \<and> rt_rttvar r \<le> hi \<and> rt_min_rtt r = Min (fst ` set xs)
    \<and> unat (pto_duration (rt_smoothed_rtt r) (rt_rttvar r) max_delay n)
      = (unat (rt_smoothed_rtt r) + max (4 * unat (rt_rttvar r)) 1000 + unat max_delay) * 2 ^ min (unat n) 16"
proof -
  obtain latest d md hc ys where xs: "xs = (latest, d, md, hc) # ys" using assms(1) by (cases xs) auto
  let ?r = "rtt_sample rtt_init latest d md hc"
  have h60: "unat hi < 2 ^ 60" using assms(3) by simp
  have w: "rtt_within lo hi ?r" using assms(2) xs h60 by (intro rtt_sample_within) (auto simp: rtt_init_def)
  have m: "rt_min_rtt ?r = latest" by (simp add: rtt_sample_def rtt_init_def first_sample_def)
  have r: "r = rtt_samples ?r ys" using assms(5) by (simp add: xs rtt_samples_def)
  have res: "rtt_within lo hi r \<and> rt_min_rtt r = Min (fst ` set xs)"
    using rtt_samples_within [of ys lo hi ?r] assms(2) h60 w m unfolding r by (auto simp: xs)
  then have "unat (rt_smoothed_rtt r) < 2 ^ 45" "unat (rt_rttvar r) < 2 ^ 43" using assms(3) by (auto simp: rtt_within_def u64_le_mono)
  then have b: "unat (base_pto (rt_smoothed_rtt r) (rt_rttvar r) max_delay) = unat (rt_smoothed_rtt r) + max (4 * unat (rt_rttvar r)) 1000 + unat max_delay
      \<and> unat (base_pto (rt_smoothed_rtt r) (rt_rttvar r) max_delay) < 2 ^ 47"
    using assms(4) by (intro unat_base_pto) auto
  have "(2 :: nat) ^ min (unat n) 16 \<le> 2 ^ 16" by (intro power_increasing) auto
  then have "unat (base_pto (rt_smoothed_rtt r) (rt_rttvar r) max_delay) * 2 ^ min (unat n) 16 \<le> 2 ^ 47 * 2 ^ 16" using b by (intro mult_le_mono) auto
  then have "unat (pto_duration (rt_smoothed_rtt r) (rt_rttvar r) max_delay n) = unat (base_pto (rt_smoothed_rtt r) (rt_rttvar r) max_delay) * 2 ^ min (unat n) 16"
    by (simp add: pto_duration_def unat_word_ariths unat_pto_backoff)
  then show ?thesis using res b by (auto simp: rtt_within_def)
qed

theorem rtt_and_pto_bounded_witness:
  "rt_min_rtt (rtt_samples rtt_init [(30000, 0, 25000, False), (20000, 4000, 25000, True)]) = 20000"
proof -
  let ?xs = "[(30000, 0, 25000, False), (20000, 4000, 25000, True)] :: (u64 \<times> u64 \<times> u64 \<times> bool) list"
  have "\<forall>(latest, d, md, hc) \<in> set ?xs. latest \<in> {20000..30000} \<and> unat (clamp_ack_delay d md hc) < 2 ^ 60"
    by (simp add: clamp_ack_delay_def)
  then have "rt_min_rtt (rtt_samples rtt_init ?xs) = Min (fst ` set ?xs)"
    using rtt_and_pto_bounded [of ?xs 20000 30000 25000 "rtt_samples rtt_init ?xs" 3] by simp
  then show ?thesis by simp
qed

end
