(* ===== verification/Sha2.thy ===== *)
theory Sha2
  imports Complex_Main Bytes_Varint "HOL-Library.While_Combinator"
begin

text \<open>
  The hash functions of \<open>crypto/symmetric/hash\<close>: the streaming SHA-256, SHA-512 and SHA-384 contexts, and that
  they compute the functions of FIPS 180-4. The buffers \<open>buf\<close>, \<open>buf_len\<close> of a context are the list of pending bytes.
\<close>

unbundle bit_operations_syntax

section \<open>The round constants\<close>

text \<open>
  The tables \<open>K\<close> of \<open>sha256.c\<close> and \<open>S512_K\<close> of \<open>sha512.c\<close> are the constants of FIPS 180-4 sections 4.2.2 and
  4.2.3: the first 32 or 64 bits of the fractional parts of the cube roots of the first 64 or 80 primes. They are
  given by that rule rather than as numerals, computed bit by bit on integers: \<open>root_bits k n b r\<close> sets the
  \<open>b\<close> low bits of the integer \<open>k\<close>-th root of \<open>n\<close> below the bits \<open>r\<close>.
\<close>

fun root_bits :: "nat \<Rightarrow> nat \<Rightarrow> nat \<Rightarrow> nat \<Rightarrow> nat" where
  "root_bits k n 0 r = r"
| "root_bits k n (Suc b) r = root_bits k n b (if (r + 2 ^ b) ^ k \<le> n then r + 2 ^ b else r)"

definition root_word :: "nat \<Rightarrow> nat \<Rightarrow> 'a :: len word" where
  "root_word k p = of_nat (root_bits k (p * 2 ^ (k * LENGTH('a))) (LENGTH('a) + 5) 0)"

definition first_primes :: "int list" where
  "first_primes = filter (\<lambda>p. list_all (\<lambda>d. d < p \<longrightarrow> p mod d \<noteq> 0) [2..20]) [2..409]"

section \<open>sha256.c\<close>

definition SHA256_K :: "u32 list" where
  "SHA256_K = map (\<lambda>p. root_word 3 (nat p)) (take 64 first_primes)"

definition SHA256_H0 :: "u32 list" where
  "SHA256_H0 = [0x6a09e667, 0xbb67ae85, 0x3c6ef372, 0xa54ff53a, 0x510e527f, 0x9b05688c, 0x1f83d9ab, 0x5be0cd19]"

definition ROR :: "u32 \<Rightarrow> nat \<Rightarrow> u32" where
  "ROR x n = drop_bit n x OR push_bit (32 - n) x"

definition CH :: "'a :: len word \<Rightarrow> 'a word \<Rightarrow> 'a word \<Rightarrow> 'a word" where
  "CH x y z = (x AND y) XOR (NOT x AND z)"

definition MAJ :: "'a :: len word \<Rightarrow> 'a word \<Rightarrow> 'a word \<Rightarrow> 'a word" where
  "MAJ x y z = (x AND y) XOR (x AND z) XOR (y AND z)"

definition BS0 :: "u32 \<Rightarrow> u32" where "BS0 x = ROR x 2 XOR ROR x 13 XOR ROR x 22"
definition BS1 :: "u32 \<Rightarrow> u32" where "BS1 x = ROR x 6 XOR ROR x 11 XOR ROR x 25"
definition SS0 :: "u32 \<Rightarrow> u32" where "SS0 x = ROR x 7 XOR ROR x 18 XOR drop_bit 3 x"
definition SS1 :: "u32 \<Rightarrow> u32" where "SS1 x = ROR x 17 XOR ROR x 19 XOR drop_bit 10 x"

text \<open>\<open>sc_buf\<close> holds the \<open>buf_len\<close> pending bytes of \<open>buf\<close>.\<close>

record sha256_ctx =
  sc_h :: "u32 list"
  sc_total :: u64
  sc_buf :: bytes

definition SHA256_BLOCK :: nat where "SHA256_BLOCK = 64"

definition sha256_init :: sha256_ctx where
  "sha256_init = \<lparr>sc_h = SHA256_H0, sc_total = 0, sc_buf = []\<rparr>"

definition schedule :: "bytes \<Rightarrow> u32 list" where
  "schedule p =
     fold (\<lambda>i w. w @ [SS1 (w ! (i - 2)) + w ! (i - 7) + SS0 (w ! (i - 15)) + w ! (i - 16)]) [16..<64]
       (map (\<lambda>i. push_bit 24 (ucast (p ! (i * 4))) OR push_bit 16 (ucast (p ! (i * 4 + 1)))
                 OR push_bit 8 (ucast (p ! (i * 4 + 2))) OR ucast (p ! (i * 4 + 3))) [0..<16])"

definition round_step :: "u32 list \<Rightarrow> u32 \<Rightarrow> u32 list" where
  "round_step v kw =
     (let t1 = v ! 7 + BS1 (v ! 4) + CH (v ! 4) (v ! 5) (v ! 6) + kw;
          t2 = BS0 (v ! 0) + MAJ (v ! 0) (v ! 1) (v ! 2);
          v = fold (\<lambda>j v. v[j := v ! (j - 1)]) [7, 6, 5, 4, 3, 2, 1] v
      in v[4 := v ! 4 + t1, 0 := t1 + t2])"

definition run_rounds :: "u32 list \<Rightarrow> u32 list \<Rightarrow> u32 list" where
  "run_rounds h w = fold (\<lambda>i v. round_step v (SHA256_K ! i + w ! i)) [0..<64] h"

definition compress :: "sha256_ctx \<Rightarrow> bytes \<Rightarrow> sha256_ctx" where
  "compress s p = s\<lparr>sc_h := map2 (+) (sc_h s) (run_rounds (sc_h s) (schedule p))\<rparr>"

text \<open>The loop returns the bytes it did not consume.\<close>

function absorb_blocks :: "sha256_ctx \<Rightarrow> bytes \<Rightarrow> sha256_ctx \<times> bytes" where
  "absorb_blocks s data =
     (if length data \<ge> SHA256_BLOCK then absorb_blocks (compress s (take SHA256_BLOCK data)) (drop SHA256_BLOCK data)
      else (s, data))"
  by pat_completeness auto
termination by (relation "measure (\<lambda>(s, data). length data)") (auto simp: SHA256_BLOCK_def)

declare absorb_blocks.simps [simp del]

definition buffer :: "sha256_ctx \<Rightarrow> bytes \<Rightarrow> nat \<Rightarrow> sha256_ctx" where
  "buffer s data n = s\<lparr>sc_buf := sc_buf s @ take n data\<rparr>"

definition pending_take :: "sha256_ctx \<Rightarrow> nat \<Rightarrow> nat" where
  "pending_take s len =
     (let want = SHA256_BLOCK - length (sc_buf s) in if length (sc_buf s) \<noteq> 0 \<and> len \<ge> want then want else 0)"

definition fill_pending :: "sha256_ctx \<Rightarrow> bytes \<Rightarrow> sha256_ctx \<times> nat" where
  "fill_pending s data =
     (let n = pending_take s (length data); s = buffer s data n
      in if n \<noteq> 0 then ((compress s (sc_buf s))\<lparr>sc_buf := []\<rparr>, n) else (s, n))"

definition sha256_update :: "sha256_ctx \<Rightarrow> bytes \<Rightarrow> sha256_ctx" where
  "sha256_update s data =
     (if length data = 0 then s
      else let (s, off) = fill_pending s data; (s, rest) = absorb_blocks s (drop off data); s = buffer s rest (length rest)
           in s\<lparr>sc_total := sc_total s + of_nat (length data)\<rparr>)"

definition put_be32 :: "u32 \<Rightarrow> bytes" where
  "put_be32 v = [ucast (drop_bit 24 v), ucast (drop_bit 16 v), ucast (drop_bit 8 v), ucast v]"

definition pad_message :: "sha256_ctx \<Rightarrow> sha256_ctx" where
  "pad_message s = while (\<lambda>s. length (sc_buf s) \<noteq> 56) (\<lambda>s. sha256_update s [0]) (sha256_update s [0x80])"

definition sha256_final :: "sha256_ctx \<Rightarrow> bytes" where
  "sha256_final s =
     (let bits = sc_total s * 8; lenbe = map (\<lambda>i. ucast (drop_bit (56 - i * 8) bits)) [0..<8];
          s = sha256_update (pad_message s) lenbe
      in concat (map (\<lambda>i. put_be32 (sc_h s ! i)) [0..<8]))"

definition wired_sha256 :: "bytes \<Rightarrow> bytes" where
  "wired_sha256 data = sha256_final (sha256_update sha256_init data)"

section \<open>sha512.c, sha512\_put.c and sha384.c\<close>

definition S512_K :: "u64 list" where
  "S512_K = map (\<lambda>p. root_word 3 (nat p)) first_primes"

definition S512_H0 :: "u64 list" where
  "S512_H0 =
    [0x6a09e667f3bcc908, 0xbb67ae8584caa73b, 0x3c6ef372fe94f82b, 0xa54ff53a5f1d36f1,
     0x510e527fade682d1, 0x9b05688c2b3e6c1f, 0x1f83d9abfb41bd6b, 0x5be0cd19137e2179]"

definition sha384_h0 :: "u64 list" where
  "sha384_h0 =
    [0xcbbb9d5dc1059ed8, 0x629a292a367cd507, 0x9159015a3070dd17, 0x152fecd8f70e5939,
     0x67332667ffc00b31, 0x8eb44a8768581511, 0xdb0c2e0d64f98fa7, 0x47b5481dbefa4fa4]"

definition S512ROR :: "u64 \<Rightarrow> nat \<Rightarrow> u64" where
  "S512ROR x n = drop_bit n x OR push_bit (64 - n) x"

definition S512BS0 :: "u64 \<Rightarrow> u64" where "S512BS0 x = S512ROR x 28 XOR S512ROR x 34 XOR S512ROR x 39"
definition S512BS1 :: "u64 \<Rightarrow> u64" where "S512BS1 x = S512ROR x 14 XOR S512ROR x 18 XOR S512ROR x 41"
definition S512SS0 :: "u64 \<Rightarrow> u64" where "S512SS0 x = S512ROR x 1 XOR S512ROR x 8 XOR drop_bit 7 x"
definition S512SS1 :: "u64 \<Rightarrow> u64" where "S512SS1 x = S512ROR x 19 XOR S512ROR x 61 XOR drop_bit 6 x"

record sha512_ctx =
  sd_h :: "u64 list"
  sd_total :: u64
  sd_buf :: bytes

definition SHA512_BLOCK :: nat where "SHA512_BLOCK = 128"

definition sha512_init :: sha512_ctx where
  "sha512_init = \<lparr>sd_h = S512_H0, sd_total = 0, sd_buf = []\<rparr>"

definition load_be64 :: "bytes \<Rightarrow> nat \<Rightarrow> u64" where
  "load_be64 p off = fold (\<lambda>j v. push_bit 8 v OR ucast (p ! (off + j))) [0..<8] 0"

definition sha512_schedule :: "bytes \<Rightarrow> u64 list" where
  "sha512_schedule p =
     fold (\<lambda>i w. w @ [S512SS1 (w ! (i - 2)) + w ! (i - 7) + S512SS0 (w ! (i - 15)) + w ! (i - 16)]) [16..<80]
       (map (\<lambda>i. load_be64 p (i * 8)) [0..<16])"

definition sha512_round_step :: "u64 list \<Rightarrow> u64 \<Rightarrow> u64 list" where
  "sha512_round_step v kw =
     (let t1 = v ! 7 + S512BS1 (v ! 4) + CH (v ! 4) (v ! 5) (v ! 6) + kw;
          t2 = S512BS0 (v ! 0) + MAJ (v ! 0) (v ! 1) (v ! 2);
          v = fold (\<lambda>j v. v[j := v ! (j - 1)]) [7, 6, 5, 4, 3, 2, 1] v
      in v[4 := v ! 4 + t1, 0 := t1 + t2])"

definition sha512_run_rounds :: "u64 list \<Rightarrow> u64 list \<Rightarrow> u64 list" where
  "sha512_run_rounds h w = fold (\<lambda>i v. sha512_round_step v (S512_K ! i + w ! i)) [0..<80] h"

definition sha512_compress :: "sha512_ctx \<Rightarrow> bytes \<Rightarrow> sha512_ctx" where
  "sha512_compress s p = s\<lparr>sd_h := map2 (+) (sd_h s) (sha512_run_rounds (sd_h s) (sha512_schedule p))\<rparr>"

function sha512_absorb_blocks :: "sha512_ctx \<Rightarrow> bytes \<Rightarrow> sha512_ctx \<times> bytes" where
  "sha512_absorb_blocks s data =
     (if length data \<ge> SHA512_BLOCK
      then sha512_absorb_blocks (sha512_compress s (take SHA512_BLOCK data)) (drop SHA512_BLOCK data)
      else (s, data))"
  by pat_completeness auto
termination by (relation "measure (\<lambda>(s, data). length data)") (auto simp: SHA512_BLOCK_def)

declare sha512_absorb_blocks.simps [simp del]

definition sha512_buffer :: "sha512_ctx \<Rightarrow> bytes \<Rightarrow> nat \<Rightarrow> sha512_ctx" where
  "sha512_buffer s data n = s\<lparr>sd_buf := sd_buf s @ take n data\<rparr>"

definition sha512_pending_take :: "sha512_ctx \<Rightarrow> nat \<Rightarrow> nat" where
  "sha512_pending_take s len =
     (let want = SHA512_BLOCK - length (sd_buf s) in if length (sd_buf s) \<noteq> 0 \<and> len \<ge> want then want else 0)"

definition sha512_fill_pending :: "sha512_ctx \<Rightarrow> bytes \<Rightarrow> sha512_ctx \<times> nat" where
  "sha512_fill_pending s data =
     (let n = sha512_pending_take s (length data); s = sha512_buffer s data n
      in if n \<noteq> 0 then ((sha512_compress s (sd_buf s))\<lparr>sd_buf := []\<rparr>, n) else (s, n))"

definition sha512_update :: "sha512_ctx \<Rightarrow> bytes \<Rightarrow> sha512_ctx" where
  "sha512_update s data =
     (if length data = 0 then s
      else let (s, off) = sha512_fill_pending s data; (s, rest) = sha512_absorb_blocks s (drop off data);
               s = sha512_buffer s rest (length rest)
           in s\<lparr>sd_total := sd_total s + of_nat (length data)\<rparr>)"

definition sha512_pad_message :: "sha512_ctx \<Rightarrow> sha512_ctx" where
  "sha512_pad_message s = while (\<lambda>s. length (sd_buf s) \<noteq> 112) (\<lambda>s. sha512_update s [0]) (sha512_update s [0x80])"

definition put_len :: "u64 \<Rightarrow> bytes" where
  "put_len bits = replicate 8 0 @ map (\<lambda>i. ucast (drop_bit (56 - i * 8) bits)) [0..<8]"

definition sha512_put_be64 :: "u64 \<Rightarrow> bytes" where
  "sha512_put_be64 v = map (\<lambda>j. ucast (drop_bit (56 - j * 8) v)) [0..<8]"

definition sha512_final :: "sha512_ctx \<Rightarrow> bytes" where
  "sha512_final s =
     (let lenbe = put_len (sd_total s * 8); s = sha512_update (sha512_pad_message s) lenbe
      in concat (map (\<lambda>i. sha512_put_be64 (sd_h s ! i)) [0..<8]))"

definition sha512 :: "bytes \<Rightarrow> bytes" where
  "sha512 data = sha512_final (sha512_update sha512_init data)"

definition sha384_init :: sha512_ctx where
  "sha384_init = sha512_init\<lparr>sd_h := sha384_h0\<rparr>"

definition sha384_final :: "sha512_ctx \<Rightarrow> bytes" where
  "sha384_final s = take 48 (sha512_final s)"

definition sha384 :: "bytes \<Rightarrow> bytes" where
  "sha384 data = sha384_final (sha512_update sha384_init data)"

section \<open>Iterated hashing\<close>

text \<open>
  A Merkle-Damgard hash in one piece: \<open>md\<close> folds the compression function over the full blocks of a
  message and returns the chaining value with the bytes that do not fill a block.
\<close>

function md :: "nat \<Rightarrow> ('h \<Rightarrow> bytes \<Rightarrow> 'h) \<Rightarrow> 'h \<Rightarrow> bytes \<Rightarrow> 'h \<times> bytes" where
  "md B f h xs = (if 0 < B \<and> B \<le> length xs then md B f (f h (take B xs)) (drop B xs) else (h, xs))"
  by pat_completeness auto
termination by (relation "measure (\<lambda>(B, f, h, xs). length xs)") auto

declare md.simps [simp del]

lemma md_short: "length xs < B \<Longrightarrow> md B f h xs = (h, xs)"
  by (subst md.simps) simp

lemma md_step: "0 < B \<Longrightarrow> B \<le> length xs \<Longrightarrow> md B f h xs = md B f (f h (take B xs)) (drop B xs)"
  by (subst md.simps) simp

lemma md_append: "md B f h (xs @ ys) = (case md B f h xs of (h', r) \<Rightarrow> md B f h' (r @ ys))"
proof (induction B f h xs rule: md.induct)
  case (1 B f h xs)
  show ?case
  proof (cases "0 < B \<and> B \<le> length xs")
    case True
    then show ?thesis using 1 md_step [of B "xs @ ys" f h] md_step [of B xs f h] by simp
  next
    case False
    then have "md B f h xs = (h, xs)" by (subst md.simps) auto
    then show ?thesis by simp
  qed
qed

lemma md_rest_length: "0 < B \<Longrightarrow> length (snd (md B f h xs)) = length xs mod B"
proof (induction B f h xs rule: md.induct)
  case (1 B f h xs)
  show ?case
  proof (cases "B \<le> length xs")
    case True
    then show ?thesis using 1 md_step [of B xs f h] by (simp add: le_mod_geq)
  next
    case False
    then show ?thesis by (simp add: md_short)
  qed
qed

text \<open>The update step of the contexts, on chaining value and pending bytes.\<close>

definition md_update :: "nat \<Rightarrow> ('h \<Rightarrow> bytes \<Rightarrow> 'h) \<Rightarrow> 'h \<times> bytes \<Rightarrow> bytes \<Rightarrow> 'h \<times> bytes" where
  "md_update B f hb data =
     (let (h, b) = hb; n = (if b \<noteq> [] \<and> length data \<ge> B - length b then B - length b else 0);
          (h, b) = (if n \<noteq> 0 then (f h (b @ take n data), []) else (h, b)); (h, r) = md B f h (drop n data)
      in (h, b @ r))"

lemma md_update_eq:
  assumes "length b < B"
  shows "md_update B f (h, b) data = md B f h (b @ data)"
proof (cases "b \<noteq> [] \<and> length data \<ge> B - length b")
  case True
  then have "md B f h (b @ data) = md B f (f h (b @ take (B - length b) data)) (drop (B - length b) data)"
    using assms True md_step [of B "b @ data" f h] by (simp add: le_diff_conv)
  then show ?thesis using True assms by (simp add: md_update_def Let_def split_beta)
next
  case False
  then show ?thesis using assms by (cases "b = []") (auto simp: md_update_def md_short split_beta)
qed

text \<open>
  What the padding relies on in a hash context: \<open>hd\<close> and \<open>buf\<close> are the chaining value and pending bytes,
  \<open>tot\<close> the byte count, and \<open>upd\<close> absorbs bytes as \<open>md\<close> does.
\<close>

definition absorbs :: "nat \<Rightarrow> ('h \<Rightarrow> bytes \<Rightarrow> 'h) \<Rightarrow> 'h \<Rightarrow> 'h \<Rightarrow> bytes \<Rightarrow> u64 \<Rightarrow> bytes \<Rightarrow> bool" where
  "absorbs B f h0 h b n msg \<longleftrightarrow> (h, b) = md B f h0 msg \<and> n = of_nat (length msg)"

locale hash_ctx =
  fixes B :: nat and f :: "'h \<Rightarrow> bytes \<Rightarrow> 'h"
    and hv :: "'s \<Rightarrow> 'h" and buf :: "'s \<Rightarrow> bytes" and tot :: "'s \<Rightarrow> u64" and upd :: "'s \<Rightarrow> bytes \<Rightarrow> 's"
  assumes B: "0 < B"
    and upd_md: "length (buf s) < B \<Longrightarrow> (hv (upd s d), buf (upd s d)) = md_update B f (hv s, buf s) d"
    and upd_tot: "tot (upd s d) = tot s + of_nat (length d)"
begin

lemma absorbs_length: "absorbs B f h0 (hv s) (buf s) (tot s) msg \<Longrightarrow> length (buf s) = length msg mod B"
  unfolding absorbs_def using md_rest_length [OF B, of f h0 msg] by (cases "md B f h0 msg") simp

lemma absorbs_upd:
  assumes "absorbs B f h0 (hv s) (buf s) (tot s) msg"
  shows "absorbs B f h0 (hv (upd s d)) (buf (upd s d)) (tot (upd s d)) (msg @ d)"
proof -
  have "length (buf s) < B" using absorbs_length [OF assms] B by simp
  then have "(hv (upd s d), buf (upd s d)) = md B f (hv s) (buf s @ d)" using upd_md [of s d] md_update_eq [of "buf s" B f "hv s" d] by (simp only:)
  also have "\<dots> = md B f h0 (msg @ d)" using assms md_append [of B f h0 msg d] unfolding absorbs_def by (cases "md B f h0 msg") simp
  finally show ?thesis using assms by (simp add: absorbs_def upd_tot)
qed

lemma absorbs_fold:
  "absorbs B f h0 (hv s) (buf s) (tot s) msg \<Longrightarrow>
   absorbs B f h0 (hv (fold (\<lambda>d s. upd s d) ds s)) (buf (fold (\<lambda>d s. upd s d) ds s)) (tot (fold (\<lambda>d s. upd s d) ds s)) (msg @ concat ds)"
proof (induction ds arbitrary: s msg)
  case (Cons d ds)
  then show ?case using Cons.IH [OF absorbs_upd [OF Cons.prems, of d]] by simp
qed simp

lemma pad_loop:
  assumes "absorbs B f h0 (hv s) (buf s) (tot s) msg" and "(length msg + k) mod B = m" and "k < B" and "m < B"
  shows "\<exists>s'. while_option (\<lambda>s. length (buf s) \<noteq> m) (\<lambda>s. upd s [0]) s = Some s'
    \<and> absorbs B f h0 (hv s') (buf s') (tot s') (msg @ replicate k 0)"
  using assms
proof (induction k arbitrary: s msg)
  case 0
  then show ?case using absorbs_length [OF 0(1)] by (subst while_option_unfold) auto
next
  case (Suc k)
  have "length (buf s) \<noteq> m"
  proof
    assume "length (buf s) = m"
    then have "length msg mod B = (length msg + Suc k) mod B" using absorbs_length [OF Suc.prems(1)] Suc.prems(2) by simp
    then have "B dvd Suc k" using mod_eq_dvd_iff_nat [of "length msg" "length msg + Suc k" B] by simp
    then show False using Suc.prems(3) by (auto dest: dvd_imp_le)
  qed
  moreover have "(length (msg @ [0]) + k) mod B = m" "k < B" using Suc.prems(2,3) by simp_all
  ultimately show ?case using Suc.IH [OF absorbs_upd [OF Suc.prems(1), of "[0]"]] Suc.prems(4)
    by (subst while_option_unfold) simp
qed

end

section \<open>The contexts absorb their input\<close>

definition sha256_block :: "u32 list \<Rightarrow> bytes \<Rightarrow> u32 list" where
  "sha256_block h p = map2 (+) h (run_rounds h (schedule p))"

definition sha512_block :: "u64 list \<Rightarrow> bytes \<Rightarrow> u64 list" where
  "sha512_block h p = map2 (+) h (sha512_run_rounds h (sha512_schedule p))"

lemma compress_block: "compress s p = s\<lparr>sc_h := sha256_block (sc_h s) p\<rparr>"
  by (simp add: compress_def sha256_block_def)

lemma sha512_compress_block: "sha512_compress s p = s\<lparr>sd_h := sha512_block (sd_h s) p\<rparr>"
  by (simp add: sha512_compress_def sha512_block_def)

lemma absorb_blocks_md:
  "absorb_blocks s data = (s\<lparr>sc_h := fst (md 64 sha256_block (sc_h s) data)\<rparr>, snd (md 64 sha256_block (sc_h s) data))"
proof (induction s data rule: absorb_blocks.induct)
  case (1 s data)
  show ?case
  proof (cases "64 \<le> length data")
    case True
    then show ?thesis using 1 md_step [of 64 data sha256_block "sc_h s"]
      by (subst absorb_blocks.simps) (simp add: SHA256_BLOCK_def compress_block)
  next
    case False
    then show ?thesis by (subst absorb_blocks.simps) (simp add: SHA256_BLOCK_def md_short)
  qed
qed

lemma sha512_absorb_blocks_md:
  "sha512_absorb_blocks s data =
     (s\<lparr>sd_h := fst (md 128 sha512_block (sd_h s) data)\<rparr>, snd (md 128 sha512_block (sd_h s) data))"
proof (induction s data rule: sha512_absorb_blocks.induct)
  case (1 s data)
  show ?case
  proof (cases "128 \<le> length data")
    case True
    then show ?thesis using 1 md_step [of 128 data sha512_block "sd_h s"]
      by (subst sha512_absorb_blocks.simps) (simp add: SHA512_BLOCK_def sha512_compress_block)
  next
    case False
    then show ?thesis by (subst sha512_absorb_blocks.simps) (simp add: SHA512_BLOCK_def md_short)
  qed
qed

lemmas sha256_update_defs = sha256_update_def fill_pending_def pending_take_def buffer_def compress_block SHA256_BLOCK_def
lemmas sha512_update_defs =
  sha512_update_def sha512_fill_pending_def sha512_pending_take_def sha512_buffer_def sha512_compress_block SHA512_BLOCK_def

lemma md_update_nil: "length b < B \<Longrightarrow> md_update B f (h, b) [] = (h, b)"
  by (simp add: md_update_eq md_short)

lemma sha256_update_md:
  assumes "length (sc_buf s) < 64"
  shows "(sc_h (sha256_update s d), sc_buf (sha256_update s d)) = md_update 64 sha256_block (sc_h s, sc_buf s) d"
proof (cases "d = []")
  case True
  then show ?thesis using assms by (simp add: sha256_update_def md_update_nil)
next
  case False
  then show ?thesis using assms
    by (cases "sc_buf s \<noteq> [] \<and> 64 - length (sc_buf s) \<le> length d")
      (simp_all add: sha256_update_defs absorb_blocks_md md_update_def Let_def split_beta)
qed

lemma sha512_update_md:
  assumes "length (sd_buf s) < 128"
  shows "(sd_h (sha512_update s d), sd_buf (sha512_update s d)) = md_update 128 sha512_block (sd_h s, sd_buf s) d"
proof (cases "d = []")
  case True
  then show ?thesis using assms by (simp add: sha512_update_def md_update_nil)
next
  case False
  then show ?thesis using assms
    by (cases "sd_buf s \<noteq> [] \<and> 128 - length (sd_buf s) \<le> length d")
      (simp_all add: sha512_update_defs sha512_absorb_blocks_md md_update_def Let_def split_beta)
qed

lemma sha256_update_total: "sc_total (sha256_update s d) = sc_total s + of_nat (length d)"
  by (simp add: sha256_update_defs absorb_blocks_md Let_def)

lemma sha512_update_total: "sd_total (sha512_update s d) = sd_total s + of_nat (length d)"
  by (simp add: sha512_update_defs sha512_absorb_blocks_md Let_def)

interpretation s256: hash_ctx 64 sha256_block sc_h sc_buf sc_total sha256_update
  by unfold_locales (simp, erule sha256_update_md, rule sha256_update_total)

interpretation s512: hash_ctx 128 sha512_block sd_h sd_buf sd_total sha512_update
  by unfold_locales (simp, erule sha512_update_md, rule sha512_update_total)

section \<open>Big-endian octets and rotations\<close>

definition octets :: "nat \<Rightarrow> nat \<Rightarrow> bytes" where
  "octets n v = map (\<lambda>i. of_nat (v div 256 ^ (n - 1 - i))) [0..<n]"

lemma octet_drop_bit: "(ucast (drop_bit (8 * k) (v :: 'a :: len word)) :: u8) = of_nat (unat v div 256 ^ k)"
proof -
  have "(ucast (drop_bit (8 * k) v) :: u8) = of_nat (unat (drop_bit (8 * k) v))" by simp
  also have "unat (drop_bit (8 * k) v) = unat v div 256 ^ k" by (simp only: unat_drop_bit_eq) (simp add: drop_bit_eq_div power_mult)
  finally show ?thesis .
qed

definition octets_val :: "bytes \<Rightarrow> 'a :: len word" where
  "octets_val bs = foldl (\<lambda>v b. v * 256 + ucast b) 0 bs"

lemma octet_or:
  fixes v :: "'a :: len word"
  shows "push_bit 8 v OR ucast (b :: u8) = v * 256 + ucast b"
proof -
  have "push_bit 8 v OR ucast b = push_bit 8 v + ucast b"
    by (rule sym [OF disjunctive_add]) (auto simp: bit_simps dest: bit_imp_le_length)
  then show ?thesis by (simp add: push_bit_eq_mult)
qed

lemma octets_val4:
  "push_bit 24 (ucast (a :: u8)) OR push_bit 16 (ucast (b :: u8)) OR push_bit 8 (ucast (c :: u8)) OR ucast (d :: u8)
   = (octets_val [a, b, c, d] :: u32)"
proof -
  have "push_bit 24 (ucast a) OR push_bit 16 (ucast b) OR push_bit 8 (ucast c) OR ucast d
     = push_bit 8 (push_bit 8 (push_bit 8 (ucast a) OR ucast b) OR ucast c) OR (ucast d :: u32)"
    by (simp add: push_bit_or push_bit_push_bit or.assoc)
  then show ?thesis by (simp only: octet_or octets_val_def) simp
qed

lemma ROR_rotr:
  assumes "0 < n" "n < LENGTH('a)"
  shows "drop_bit n x OR push_bit (LENGTH('a) - n) x = word_rotr n (x :: 'a :: len word)"
proof (rule bit_word_eqI)
  fix i assume i: "i < LENGTH('a)"
  show "bit (drop_bit n x OR push_bit (LENGTH('a) - n) x) i = bit (word_rotr n x) i"
  proof (cases "i + n < LENGTH('a)")
    case True
    then have "\<not> LENGTH('a) - n \<le> i" by linarith
    then show ?thesis using i True by (simp add: bit_word_rotr_iff bit_simps add.commute)
  next
    case False
    then have "(i + n) mod LENGTH('a) = i + n - LENGTH('a)" using i assms by (simp add: le_mod_geq)
    moreover have "\<not> bit x (n + i)" using False by (auto dest: bit_imp_le_length)
    moreover have "LENGTH('a) - n \<le> i" using False by linarith
    ultimately show ?thesis using i assms by (simp add: bit_word_rotr_iff bit_simps add.commute)
  qed
qed

section \<open>The hash functions of FIPS 180-4\<close>

text \<open>
  One round on the eight working variables, the message schedule as a recurrence, the padding, and the
  iteration over the blocks of the padded message, as section 6 of FIPS 180-4 states them.
\<close>

type_synonym 'w work = "'w \<times> 'w \<times> 'w \<times> 'w \<times> 'w \<times> 'w \<times> 'w \<times> 'w"

fun fips_round :: "('a :: len word \<Rightarrow> 'a word) \<Rightarrow> ('a word \<Rightarrow> 'a word) \<Rightarrow> 'a word \<Rightarrow> 'a word work \<Rightarrow> 'a word work" where
  "fips_round S0 S1 kw (a, b, c, d, e, f, g, h) =
     (let T1 = h + S1 e + ((e AND f) XOR (NOT e AND g)) + kw; T2 = S0 a + ((a AND b) XOR (a AND c) XOR (b AND c))
      in (T1 + T2, a, b, c, d + T1, e, f, g))"

fun work_list :: "'w work \<Rightarrow> 'w list" where
  "work_list (a, b, c, d, e, f, g, h) = [a, b, c, d, e, f, g, h]"

fun list_work :: "'w list \<Rightarrow> 'w work" where
  "list_work h = (h ! 0, h ! 1, h ! 2, h ! 3, h ! 4, h ! 5, h ! 6, h ! 7)"

function W256 :: "bytes \<Rightarrow> nat \<Rightarrow> u32" where
  "W256 p t = (if t < 16 then octets_val (take 4 (drop (4 * t) p))
     else let s1 = (\<lambda>x. word_rotr 17 x XOR word_rotr 19 x XOR drop_bit 10 x); s0 = (\<lambda>x. word_rotr 7 x XOR word_rotr 18 x XOR drop_bit 3 x)
          in s1 (W256 p (t - 2)) + W256 p (t - 7) + s0 (W256 p (t - 15)) + W256 p (t - 16))"
  by pat_completeness auto
termination by (relation "measure snd") auto

function W512 :: "bytes \<Rightarrow> nat \<Rightarrow> u64" where
  "W512 p t = (if t < 16 then octets_val (take 8 (drop (8 * t) p))
     else let s1 = (\<lambda>x. word_rotr 19 x XOR word_rotr 61 x XOR drop_bit 6 x); s0 = (\<lambda>x. word_rotr 1 x XOR word_rotr 8 x XOR drop_bit 7 x)
          in s1 (W512 p (t - 2)) + W512 p (t - 7) + s0 (W512 p (t - 15)) + W512 p (t - 16))"
  by pat_completeness auto
termination by (relation "measure snd") auto

declare W256.simps [simp del] W512.simps [simp del]

text \<open>
  \<open>fips_frac k p\<close> is the first bits of the fractional part of the real \<open>k\<close>-th root of \<open>p\<close>: the round constants
  are those of the cube roots of the first primes, the initial hash values those of the square roots of the
  first eight, and of the ninth to the sixteenth for SHA-384.
\<close>

definition fips_frac :: "nat \<Rightarrow> nat \<Rightarrow> 'a :: len word" where
  "fips_frac k p = of_int \<lfloor>2 ^ LENGTH('a) * frac (root k (real p))\<rfloor>"

definition fips_K :: "nat \<Rightarrow> 'a :: len word" where
  "fips_K t = fips_frac 3 (nat (first_primes ! t))"

definition fips_H :: "nat \<Rightarrow> 'a :: len word list" where
  "fips_H n = map (\<lambda>p. fips_frac 2 (nat p)) (take 8 (drop n first_primes))"

definition fips256_block :: "u32 list \<Rightarrow> bytes \<Rightarrow> u32 list" where
  "fips256_block h p =
     (let S0 = (\<lambda>x. word_rotr 2 x XOR word_rotr 13 x XOR word_rotr 22 x); S1 = (\<lambda>x. word_rotr 6 x XOR word_rotr 11 x XOR word_rotr 25 x)
      in map2 (+) h (work_list (fold (\<lambda>t. fips_round S0 S1 (fips_K t + W256 p t)) [0..<64] (list_work h))))"

definition fips512_block :: "u64 list \<Rightarrow> bytes \<Rightarrow> u64 list" where
  "fips512_block h p =
     (let S0 = (\<lambda>x. word_rotr 28 x XOR word_rotr 34 x XOR word_rotr 39 x); S1 = (\<lambda>x. word_rotr 14 x XOR word_rotr 18 x XOR word_rotr 41 x)
      in map2 (+) h (work_list (fold (\<lambda>t. fips_round S0 S1 (fips_K t + W512 p t)) [0..<80] (list_work h))))"

definition md_pad :: "nat \<Rightarrow> nat \<Rightarrow> bytes \<Rightarrow> bytes" where
  "md_pad B l msg = msg @ [0x80] @ replicate ((2 * B - l - 1 - length msg mod B) mod B) 0 @ octets l (8 * length msg)"

definition SHA256_spec :: "bytes \<Rightarrow> bytes" where
  "SHA256_spec msg = concat (map (\<lambda>w. octets 4 (unat w)) (fst (md 64 fips256_block (fips_H 0) (md_pad 64 8 msg))))"

definition SHA512_spec :: "bytes \<Rightarrow> bytes" where
  "SHA512_spec msg = concat (map (\<lambda>w. octets 8 (unat w)) (fst (md 128 fips512_block (fips_H 0) (md_pad 128 16 msg))))"

definition SHA384_spec :: "bytes \<Rightarrow> bytes" where
  "SHA384_spec msg = take 48 (concat (map (\<lambda>w. octets 8 (unat w)) (fst (md 128 fips512_block (fips_H 8) (md_pad 128 16 msg)))))"

section \<open>The constants\<close>

lemma root_bits_exact:
  "r ^ k \<le> n \<Longrightarrow> n < (r + 2 ^ b) ^ k \<Longrightarrow> root_bits k n b r ^ k \<le> n \<and> n < (root_bits k n b r + 1) ^ k"
  by (induction k n b r rule: root_bits.induct) (auto simp: ac_simps mult_2 not_le)

lemma root_word_fips:
  assumes "0 < k" and "p < 32 ^ k"
  shows "root_word k p = (fips_frac k p :: 'a :: len word)"
proof -
  let ?w = "LENGTH('a)" and ?x = "root k (real p)"
  define c where "c = root_bits k (p * 2 ^ (k * ?w)) (?w + 5) 0"
  have "p * 2 ^ (k * ?w) < 32 ^ k * 2 ^ (k * ?w)" using assms(2) by simp
  then have n: "c ^ k \<le> p * 2 ^ (k * ?w)" "p * 2 ^ (k * ?w) < (c + 1) ^ k"
    unfolding c_def using assms(1) root_bits_exact [of 0 k "p * 2 ^ (k * ?w)" "?w + 5"]
    by (simp_all add: power_mult_distrib power_add zero_power ac_simps flip: power_mult)
  have x: "real (p * 2 ^ (k * ?w)) = (2 ^ ?w * ?x) ^ k" using assms(1) by (simp add: power_mult_distrib mult.commute flip: power_mult)
  have "real c ^ k \<le> (2 ^ ?w * ?x) ^ k" unfolding x [symmetric] of_nat_power [symmetric] of_nat_le_iff by (rule n)
  then have "real c \<le> 2 ^ ?w * ?x" using assms(1) by (simp add: power_mono_iff)
  moreover have "(2 ^ ?w * ?x) ^ k < real (c + 1) ^ k" unfolding x [symmetric] of_nat_power [symmetric] of_nat_less_iff by (rule n)
  then have "2 ^ ?w * ?x < real (c + 1)" by (rule power_less_imp_less_base) simp
  ultimately have c: "\<lfloor>2 ^ ?w * ?x\<rfloor> = int c" by linarith
  have "2 ^ ?w * frac ?x = 2 ^ ?w * ?x - of_int (2 ^ ?w * \<lfloor>?x\<rfloor>)" by (simp add: frac_def right_diff_distrib)
  then have "\<lfloor>2 ^ ?w * frac ?x\<rfloor> = int c - 2 ^ ?w * \<lfloor>?x\<rfloor>" using c by (simp only: floor_diff_of_int)
  then show ?thesis by (simp add: root_word_def fips_frac_def c_def)
qed

lemma root_bits_numeral:
  "root_bits k n (numeral b) r = root_bits k n (pred_numeral b) (if (r + 2 ^ pred_numeral b) ^ k \<le> n then r + 2 ^ pred_numeral b else r)"
  by (simp add: numeral_eq_Suc)

lemma first_primes_exact:
  "sorted first_primes" "distinct first_primes"
  "set first_primes = {p. 1 < p \<and> p < 410 \<and> (\<forall>d. 1 < d \<and> d < p \<longrightarrow> \<not> d dvd p)}"
proof -
  show "sorted first_primes" "distinct first_primes"
    unfolding first_primes_def
    by (rule sorted_wrt_filter [OF sorted_upto], rule distinct_filter [OF distinct_upto])
  have nd: "\<not> d dvd p" if p: "p < 410" "\<forall>d \<in> {2..20}. d < p \<longrightarrow> p mod d \<noteq> 0" and d: "1 < d" "d < p" for p d :: int
  proof
    assume "d dvd p"
    then obtain e where e: "p = d * e" by blast
    then have "0 < e" using d by (metis less_trans zero_less_mult_pos zero_less_one)
    moreover have "e \<noteq> 1" using d e by auto
    ultimately have e1: "1 < e" by linarith
    then have "e < p" using d e by simp
    have "d \<le> 20 \<or> e \<le> 20"
    proof (rule ccontr)
      assume "\<not> (d \<le> 20 \<or> e \<le> 20)"
      then have "21 * 21 \<le> d * e" by (intro mult_mono) auto
      then show False using p(1) e by simp
    qed
    then show False using bspec [OF p(2), of d] bspec [OF p(2), of e] d e e1 \<open>e < p\<close> by auto
  qed
  have *: "(\<forall>d \<in> {2..20}. d < p \<longrightarrow> p mod d \<noteq> 0) \<longleftrightarrow> (\<forall>d. 1 < d \<and> d < p \<longrightarrow> \<not> d dvd p)" if "p < 410" for p :: int
  proof
    assume "\<forall>d \<in> {2..20}. d < p \<longrightarrow> p mod d \<noteq> 0"
    then show "\<forall>d. 1 < d \<and> d < p \<longrightarrow> \<not> d dvd p" using nd [OF that] by blast
  next
    assume a: "\<forall>d. 1 < d \<and> d < p \<longrightarrow> \<not> d dvd p"
    show "\<forall>d \<in> {2..20}. d < p \<longrightarrow> p mod d \<noteq> 0"
    proof (intro ballI impI)
      fix d assume "d \<in> {2..20}" "d < p"
      then show "p mod d \<noteq> 0" using spec [OF a, of d] by (simp add: dvd_eq_mod_eq_0)
    qed
  qed
  have b: "p \<le> 409 \<longleftrightarrow> p < 410" "2 \<le> p \<longleftrightarrow> 1 < p" for p :: int by linarith+
  show "set first_primes = {p. 1 < p \<and> p < 410 \<and> (\<forall>d. 1 < d \<and> d < p \<longrightarrow> \<not> d dvd p)}"
    unfolding first_primes_def set_filter list_all_iff set_upto set_eq_iff
    by (simp only: mem_Collect_eq atLeastAtMost_iff b * conj_assoc simp_thms cong: conj_cong)
qed

lemma first_primes_length: "length first_primes = 80"
  by code_simp

lemma first_primes_16: "take 16 first_primes = [2, 3, 5, 7, 11, 13, 17, 19, 23, 29, 31, 37, 41, 43, 47, 53]"
  by code_simp

lemma first_primes_root: "t < 80 \<Longrightarrow> root_word 3 (nat (first_primes ! t)) = (fips_K t :: 'a :: len word)"
  unfolding fips_K_def using nth_mem [of t first_primes] by (intro root_word_fips) (auto simp: first_primes_exact(3) first_primes_length)

lemma K_fips: "t < 64 \<Longrightarrow> SHA256_K ! t = fips_K t" "u < 80 \<Longrightarrow> S512_K ! u = fips_K u"
  by (simp_all add: SHA256_K_def S512_K_def first_primes_length first_primes_root)

lemma H0_fips: "SHA256_H0 = fips_H 0" "S512_H0 = fips_H 0" "sha384_h0 = fips_H 8"
proof -
  have t: "take 8 first_primes = [2, 3, 5, 7, 11, 13, 17, 19]" "take 8 (drop 8 first_primes) = [23, 29, 31, 37, 41, 43, 47, 53]"
    using arg_cong [OF first_primes_16, of "take 8"] arg_cong [OF first_primes_16, of "drop 8"] by (simp_all add: take_drop)
  show "SHA256_H0 = fips_H 0" "S512_H0 = fips_H 0" "sha384_h0 = fips_H 8"
    by (simp_all add: fips_H_def t SHA256_H0_def S512_H0_def sha384_h0_def root_word_fips [symmetric] root_word_def root_bits_numeral)
qed

section \<open>Rounds and schedule\<close>

lemma ROR32: "0 < n \<Longrightarrow> n < 32 \<Longrightarrow> ROR x n = word_rotr n x"
  using ROR_rotr [of n x] by (simp add: ROR_def)

lemma ROR64: "0 < n \<Longrightarrow> n < 64 \<Longrightarrow> S512ROR x n = word_rotr n x"
  using ROR_rotr [of n x] by (simp add: S512ROR_def)

lemma round_step_work:
  "round_step (work_list v) kw = work_list (fips_round BS0 BS1 kw v)"
  by (cases v rule: work_list.cases) (simp add: round_step_def CH_def MAJ_def Let_def nth_Cons' eval_nat_numeral)

lemma sha512_round_step_work:
  "sha512_round_step (work_list v) kw = work_list (fips_round S512BS0 S512BS1 kw v)"
  by (cases v rule: work_list.cases) (simp add: sha512_round_step_def CH_def MAJ_def Let_def nth_Cons' eval_nat_numeral)

lemma fold_rep:
  assumes "\<And>i v. i \<in> set is \<Longrightarrow> f i (r v) = r (g i v)"
  shows "fold f is (r v) = r (fold g is v)"
  using assms by (induction "is" arbitrary: v) simp_all

lemma work_list_list_work: "length h = 8 \<Longrightarrow> work_list (list_work h) = h"
  by (simp add: eval_nat_numeral length_Suc_conv) auto

lemma length_work_list [simp]: "length (work_list v) = 8"
  by (cases v rule: work_list.cases) simp

lemma take_drop_nths: "k + n \<le> length xs \<Longrightarrow> take n (drop k xs) = map (\<lambda>i. xs ! (k + i)) [0..<n]"
  by (rule nth_equalityI) simp_all

lemma schedule_W:
  assumes p: "length p = 64" and n: "16 \<le> n"
  shows "fold (\<lambda>i w. w @ [SS1 (w ! (i - 2)) + w ! (i - 7) + SS0 (w ! (i - 15)) + w ! (i - 16)]) [16..<n]
       (map (\<lambda>i. push_bit 24 (ucast (p ! (i * 4))) OR push_bit 16 (ucast (p ! (i * 4 + 1)))
                 OR push_bit 8 (ucast (p ! (i * 4 + 2))) OR ucast (p ! (i * 4 + 3))) [0..<16])
     = map (W256 p) [0..<n]"
  using n
proof (induction n rule: dec_induct)
  case base
  have "push_bit 24 (ucast (p ! (t * 4))) OR push_bit 16 (ucast (p ! (t * 4 + 1)))
       OR push_bit 8 (ucast (p ! (t * 4 + 2))) OR ucast (p ! (t * 4 + 3)) = W256 p t" if t: "t < 16" for t
    using t p take_drop_nths [of "4 * t" 4 p]
    by (simp add: octets_val4 W256.simps upt_rec numeral_3_eq_3 mult.commute)
  then show ?case by (simp only: upt_rec [of 16 16]) (simp del: upt_conv_Cons)
next
  case (step n)
  then show ?case by (simp add: W256.simps [of p n] SS0_def SS1_def ROR32 nth_append)
qed

lemma load_be64_octets: "off + 8 \<le> length p \<Longrightarrow> load_be64 p off = octets_val (take 8 (drop off p))"
  by (simp only: load_be64_def octet_or octets_val_def take_drop_nths foldl_conv_fold fold_map comp_def)

lemma sha512_schedule_W:
  assumes p: "length p = 128" and n: "16 \<le> n"
  shows "fold (\<lambda>i w. w @ [S512SS1 (w ! (i - 2)) + w ! (i - 7) + S512SS0 (w ! (i - 15)) + w ! (i - 16)]) [16..<n]
       (map (\<lambda>i. load_be64 p (i * 8)) [0..<16])
     = map (W512 p) [0..<n]"
  using n
proof (induction n rule: dec_induct)
  case base
  have "load_be64 p (t * 8) = W512 p t" if t: "t < 16" for t
    using t p by (simp add: load_be64_octets W512.simps mult.commute)
  then show ?case by (simp only: upt_rec [of 16 16]) (simp del: upt_conv_Cons)
next
  case (step n)
  then show ?case by (simp add: W512.simps [of p n] S512SS0_def S512SS1_def ROR64 nth_append)
qed

lemma sha256_block_fips:
  assumes "length h = 8" and "length p = 64"
  shows "sha256_block h p = fips256_block h p"
proof -
  let ?g = "\<lambda>i. fips_round BS0 BS1 (SHA256_K ! i + W256 p i)"
  have w: "schedule p = map (W256 p) [0..<64]" unfolding schedule_def by (rule schedule_W) (use assms in simp_all)
  have "fold (\<lambda>i v. round_step v (SHA256_K ! i + schedule p ! i)) [0..<64] (work_list (list_work h))
      = work_list (fold ?g [0..<64] (list_work h))"
    by (rule fold_rep) (simp only: round_step_work w, simp)
  moreover have "BS0 = (\<lambda>x. word_rotr 2 x XOR word_rotr 13 x XOR word_rotr 22 x)"
    "BS1 = (\<lambda>x. word_rotr 6 x XOR word_rotr 11 x XOR word_rotr 25 x)" by (simp_all add: fun_eq_iff BS0_def BS1_def ROR32)
  moreover have "fold ?g [0..<64] (list_work h) = fold (\<lambda>i. fips_round BS0 BS1 (fips_K i + W256 p i)) [0..<64] (list_work h)"
    by (rule fold_cong) (simp_all add: K_fips)
  ultimately show ?thesis
    by (simp only: sha256_block_def fips256_block_def run_rounds_def work_list_list_work [OF assms(1)] Let_def)
qed

lemma sha512_block_fips:
  assumes "length h = 8" and "length p = 128"
  shows "sha512_block h p = fips512_block h p"
proof -
  let ?g = "\<lambda>i. fips_round S512BS0 S512BS1 (S512_K ! i + W512 p i)"
  have w: "sha512_schedule p = map (W512 p) [0..<80]" unfolding sha512_schedule_def by (rule sha512_schedule_W) (use assms in simp_all)
  have "fold (\<lambda>i v. sha512_round_step v (S512_K ! i + sha512_schedule p ! i)) [0..<80] (work_list (list_work h))
      = work_list (fold ?g [0..<80] (list_work h))"
    by (rule fold_rep) (simp only: sha512_round_step_work w, simp)
  moreover have "S512BS0 = (\<lambda>x. word_rotr 28 x XOR word_rotr 34 x XOR word_rotr 39 x)"
    "S512BS1 = (\<lambda>x. word_rotr 14 x XOR word_rotr 18 x XOR word_rotr 41 x)" by (simp_all add: fun_eq_iff S512BS0_def S512BS1_def ROR64)
  moreover have "fold ?g [0..<80] (list_work h) = fold (\<lambda>i. fips_round S512BS0 S512BS1 (fips_K i + W512 p i)) [0..<80] (list_work h)"
    by (rule fold_cong) (simp_all add: K_fips)
  ultimately show ?thesis
    by (simp only: sha512_block_def fips512_block_def sha512_run_rounds_def work_list_list_work [OF assms(1)] Let_def)
qed

lemma fips_block_length: "length h = 8 \<Longrightarrow> length (fips256_block h p) = 8"
  "length k = 8 \<Longrightarrow> length (fips512_block k p) = 8"
  by (simp_all add: fips256_block_def fips512_block_def Let_def)

lemma md_cong:
  assumes f: "\<And>h p. P h \<Longrightarrow> length p = B \<Longrightarrow> f h p = g h p \<and> P (g h p)" and "P h"
  shows "md B f h xs = md B g h xs \<and> P (fst (md B g h xs))"
  using assms(2)
proof (induction "length xs" arbitrary: h xs rule: less_induct)
  case less
  show ?case
  proof (cases "0 < B \<and> B \<le> length xs")
    case True
    then have "length (drop B xs) < length xs" by auto
    then show ?thesis using True less(1) [of "drop B xs" "g h (take B xs)"] f [of h "take B xs"] less(2) md_step [of B xs f h] md_step [of B xs g h] by simp
  next
    case False
    then have "md B f h xs = (h, xs)" "md B g h xs = (h, xs)" by (subst md.simps; force)+
    then show ?thesis using less by simp
  qed
qed

section \<open>Padding and output\<close>

lemma octets_map: "map (\<lambda>i. ucast (drop_bit (56 - i * 8) (v :: u64)) :: u8) [0..<8] = octets 8 (unat v)"
proof -
  have "(ucast (drop_bit (56 - i * 8) v) :: u8) = of_nat (unat v div 256 ^ (8 - 1 - i))" if "i < 8" for i
    using octet_drop_bit [of "7 - i" v] that by (simp add: diff_mult_distrib2 mult.commute)
  then show ?thesis unfolding octets_def by (intro map_cong) (simp_all del: upt_conv_Cons)
qed

lemma put_be32_octets: "put_be32 v = octets 4 (unat v)"
  using octet_drop_bit [of 3 v] octet_drop_bit [of 2 v] octet_drop_bit [of 1 v] octet_drop_bit [of 0 v]
  by (simp add: put_be32_def octets_def upt_rec)

lemma octets_nth: "i < n \<Longrightarrow> octets n v ! i = of_nat (v div 256 ^ (n - 1 - i))"
  by (simp add: octets_def)

lemma length_octets [simp]: "length (octets n v) = n"
  by (simp add: octets_def)

lemma octets_16:
  assumes "v < 2 ^ 64"
  shows "octets 16 v = replicate 8 0 @ octets 8 v"
proof (rule nth_equalityI)
  fix i assume i: "i < length (octets 16 v)"
  show "octets 16 v ! i = (replicate 8 0 @ octets 8 v) ! i"
  proof (cases "i < 8")
    case True
    then have "(256 :: nat) ^ 8 \<le> 256 ^ (15 - i)" by (intro power_increasing) simp_all
    then have "v < 256 ^ (15 - i)" using assms by simp
    then show ?thesis using True by (simp add: octets_nth nth_append)
  next
    case False
    then show ?thesis using i by (simp add: octets_nth nth_append)
  qed
qed simp

lemma map_nths: "length h = n \<Longrightarrow> map (\<lambda>i. f (h ! i)) [0..<n] = map f h"
  by (rule nth_equalityI) simp_all

lemma pad_zeros: "(l :: nat) + 1 \<le> B \<Longrightarrow> (n + 1 + (2 * B - l - 1 - n mod B) mod B) mod B = (B - l) mod B"
proof -
  assume l: "l + 1 \<le> B"
  then have "0 < B" by linarith
  then have r: "n mod B < B" by (rule mod_less_divisor)
  have "(n + 1 + (2 * B - l - 1 - n mod B) mod B) mod B = (n + 1 + (2 * B - l - 1 - n mod B)) mod B" by (rule mod_add_right_eq)
  also have "n + 1 + (2 * B - l - 1 - n mod B) = B * (n div B) + B + (B - l)"
    using l r mult_div_mod_eq [of B n] by linarith
  also have "\<dots> mod B = (B - l) mod B" by (simp add: add.assoc)
  finally show ?thesis .
qed

lemma pad_message_absorbs:
  assumes "absorbs 64 sha256_block h0 (sc_h s) (sc_buf s) (sc_total s) msg"
  shows "let s' = pad_message s in absorbs 64 sha256_block h0 (sc_h s') (sc_buf s') (sc_total s')
     (msg @ [0x80] @ replicate ((2 * 64 - 8 - 1 - length msg mod 64) mod 64) 0)"
  using s256.pad_loop [OF s256.absorbs_upd [OF assms, of "[0x80]"], of "(2 * 64 - 8 - 1 - length msg mod 64) mod 64" 56]
    pad_zeros [of 8 64 "length msg"]
  by (auto simp: pad_message_def while_def)

lemma sha512_pad_message_absorbs:
  assumes "absorbs 128 sha512_block h0 (sd_h s) (sd_buf s) (sd_total s) msg"
  shows "let s' = sha512_pad_message s in absorbs 128 sha512_block h0 (sd_h s') (sd_buf s') (sd_total s')
     (msg @ [0x80] @ replicate ((2 * 128 - 16 - 1 - length msg mod 128) mod 128) 0)"
  using s512.pad_loop [OF s512.absorbs_upd [OF assms, of "[0x80]"], of "(2 * 128 - 16 - 1 - length msg mod 128) mod 128" 112]
    pad_zeros [of 16 128 "length msg"]
  by (auto simp: sha512_pad_message_def while_def)

lemma bits_of_total: "n < 2 ^ 61 \<Longrightarrow> unat (of_nat n * 8 :: u64) = 8 * n"
  using unat_of_nat_u64 [of "8 * n"] by (simp add: mult.commute)

lemma sha256_final_spec:
  assumes a: "absorbs 64 sha256_block h0 (sc_h s) (sc_buf s) (sc_total s) msg" and h: "length h0 = 8" and n: "length msg < 2 ^ 61"
  shows "sha256_final s = concat (map (\<lambda>w. octets 4 (unat w)) (fst (md 64 fips256_block h0 (md_pad 64 8 msg))))"
proof -
  let ?s = "sha256_update (pad_message s) (octets 8 (8 * length msg))"
  have "absorbs 64 sha256_block h0 (sc_h ?s) (sc_buf ?s) (sc_total ?s) (md_pad 64 8 msg)"
    using s256.absorbs_upd [OF pad_message_absorbs [OF a, unfolded Let_def], of "octets 8 (8 * length msg)"]
    unfolding md_pad_def append_assoc .
  then have "sc_h ?s = fst (md 64 sha256_block h0 (md_pad 64 8 msg))" unfolding absorbs_def by (metis fst_conv)
  moreover have m: "md 64 sha256_block h0 (md_pad 64 8 msg) = md 64 fips256_block h0 (md_pad 64 8 msg)
      \<and> length (fst (md 64 fips256_block h0 (md_pad 64 8 msg))) = 8"
    by (rule md_cong [where P = "\<lambda>h. length h = 8"]) (simp_all add: h sha256_block_fips fips_block_length)
  moreover have "sc_total s * 8 = of_nat (length msg) * 8" using a by (simp add: absorbs_def)
  ultimately show ?thesis
    by (simp only: sha256_final_def Let_def octets_map put_be32_octets bits_of_total [OF n] map_nths [OF conjunct2 [OF m], of "\<lambda>w. octets 4 (unat w)"])
qed

lemma sha512_final_spec:
  assumes a: "absorbs 128 sha512_block h0 (sd_h s) (sd_buf s) (sd_total s) msg" and h: "length h0 = 8" and n: "length msg < 2 ^ 61"
  shows "sha512_final s = concat (map (\<lambda>w. octets 8 (unat w)) (fst (md 128 fips512_block h0 (md_pad 128 16 msg))))"
proof -
  let ?s = "sha512_update (sha512_pad_message s) (octets 16 (8 * length msg))"
  have "absorbs 128 sha512_block h0 (sd_h ?s) (sd_buf ?s) (sd_total ?s) (md_pad 128 16 msg)"
    using s512.absorbs_upd [OF sha512_pad_message_absorbs [OF a, unfolded Let_def], of "octets 16 (8 * length msg)"]
    unfolding md_pad_def append_assoc .
  then have "sd_h ?s = fst (md 128 sha512_block h0 (md_pad 128 16 msg))" unfolding absorbs_def by (metis fst_conv)
  moreover have m: "md 128 sha512_block h0 (md_pad 128 16 msg) = md 128 fips512_block h0 (md_pad 128 16 msg)
      \<and> length (fst (md 128 fips512_block h0 (md_pad 128 16 msg))) = 8"
    by (rule md_cong [where P = "\<lambda>h. length h = 8"]) (simp_all add: h sha512_block_fips fips_block_length)
  moreover have "sd_total s * 8 = of_nat (length msg) * 8" using a by (simp add: absorbs_def)
  moreover have "replicate 8 0 @ octets 8 (8 * length msg) = octets 16 (8 * length msg)" using n by (simp add: octets_16)
  ultimately show ?thesis
    by (simp only: sha512_final_def Let_def put_len_def sha512_put_be64_def octets_map bits_of_total [OF n] map_nths [OF conjunct2 [OF m], of "\<lambda>w. octets 8 (unat w)"])
qed

lemma sha256_init_absorbs: "absorbs 64 sha256_block SHA256_H0 (sc_h sha256_init) (sc_buf sha256_init) (sc_total sha256_init) []"
  by (simp add: absorbs_def sha256_init_def md_short)

lemma sha512_init_absorbs:
  "absorbs 128 sha512_block S512_H0 (sd_h sha512_init) (sd_buf sha512_init) (sd_total sha512_init) []"
  "absorbs 128 sha512_block sha384_h0 (sd_h sha384_init) (sd_buf sha384_init) (sd_total sha384_init) []"
  by (simp_all add: absorbs_def sha512_init_def sha384_init_def md_short)

lemma h0_length: "length SHA256_H0 = 8" "length S512_H0 = 8" "length sha384_h0 = 8"
  by (simp_all add: SHA256_H0_def S512_H0_def sha384_h0_def)

lemma sha256_stream:
  assumes "length (concat ds) < 2 ^ 61"
  shows "sha256_final (fold (\<lambda>d s. sha256_update s d) ds sha256_init) = SHA256_spec (concat ds)"
  using sha256_final_spec [OF s256.absorbs_fold [OF sha256_init_absorbs, of ds]] assms by (simp add: h0_length SHA256_spec_def flip: H0_fips)

lemma sha512_stream:
  assumes "length (concat ds) < 2 ^ 61"
  shows "sha512_final (fold (\<lambda>d s. sha512_update s d) ds sha512_init) = SHA512_spec (concat ds)"
    "sha384_final (fold (\<lambda>d s. sha512_update s d) ds sha384_init) = SHA384_spec (concat ds)"
  using sha512_final_spec [OF s512.absorbs_fold [OF sha512_init_absorbs(1), of ds]]
    sha512_final_spec [OF s512.absorbs_fold [OF sha512_init_absorbs(2), of ds]] assms
  by (simp_all add: h0_length SHA512_spec_def SHA384_spec_def sha384_final_def flip: H0_fips)



end
