(* ===== verification/Poly1305.thy ===== *)
theory Poly1305
  imports Bytes_Varint
begin

unbundle bit_operations_syntax

text \<open>
  The Poly1305 one-time authenticator of \<^verbatim>\<open>src/crypto/symmetric/aead/chacha\<close>: five 26-bit limbs in
  32-bit words, products in 64-bit words. The theory shows that no limb operation overflows and that
  the tag is the one RFC 8439 defines over the integers.
\<close>

section \<open>poly1305\_impl\_head.h\<close>

record poly =
  po_r :: "u32 list"
  po_h :: "u32 list"
  po_pad :: "u32 list"

definition poly1305_rd32le :: "bytes \<Rightarrow> u32" where
  "poly1305_rd32le p = ucast (p ! 0) OR push_bit 8 (ucast (p ! 1)) OR push_bit 16 (ucast (p ! 2)) OR push_bit 24 (ucast (p ! 3))"

definition poly_row :: "u32 list \<Rightarrow> u32 \<Rightarrow> u32 \<Rightarrow> u32 \<Rightarrow> u32 \<Rightarrow> u32 \<Rightarrow> u64" where
  "poly_row h a b c d e = ucast (h ! 0) * ucast a + ucast (h ! 1) * ucast b + ucast (h ! 2) * ucast c
     + ucast (h ! 3) * ucast d + ucast (h ! 4) * ucast e"

definition pad_byte :: "bytes \<Rightarrow> nat \<Rightarrow> nat \<Rightarrow> u8" where
  "pad_byte m i n = (if i < n then m ! i else if i = n then 1 else 0)"

fun carry_loop :: "u64 \<Rightarrow> u64 list \<Rightarrow> u32 list \<times> u64" where
  "carry_loop c [] = ([], c)"
| "carry_loop c (x # xs) =
     (let x = x + c; (h, c) = carry_loop (drop_bit 26 x) xs in ((ucast x AND 0x3ffffff) # h, c))"

definition carry_reduce :: "poly \<Rightarrow> u64 list \<Rightarrow> poly" where
  "carry_reduce st d =
     (let (h, c) = carry_loop 0 d; h0 = h ! 0 + ucast c * 5; h1 = h ! 1 + drop_bit 26 h0
      in st\<lparr>po_h := h[0 := h0 AND 0x3ffffff, 1 := h1]\<rparr>)"

definition poly_mulmod :: "poly \<Rightarrow> poly" where
  "poly_mulmod st =
     (let r = po_r st; h = po_h st; s1 = r ! 1 * 5; s2 = r ! 2 * 5; s3 = r ! 3 * 5; s4 = r ! 4 * 5
      in carry_reduce st
           [poly_row h (r ! 0) s4 s3 s2 s1, poly_row h (r ! 1) (r ! 0) s4 s3 s2, poly_row h (r ! 2) (r ! 1) (r ! 0) s4 s3,
            poly_row h (r ! 3) (r ! 2) (r ! 1) (r ! 0) s4, poly_row h (r ! 4) (r ! 3) (r ! 2) (r ! 1) (r ! 0)])"

definition poly_add :: "poly \<Rightarrow> bytes \<Rightarrow> u32 \<Rightarrow> poly" where
  "poly_add st m hibit =
     (let t0 = poly1305_rd32le m; t1 = poly1305_rd32le (drop 4 m); t2 = poly1305_rd32le (drop 8 m);
          t3 = poly1305_rd32le (drop 12 m); h = po_h st
      in st\<lparr>po_h := [h ! 0 + (t0 AND 0x3ffffff), h ! 1 + ((drop_bit 26 t0 OR push_bit 6 t1) AND 0x3ffffff),
                    h ! 2 + ((drop_bit 20 t1 OR push_bit 12 t2) AND 0x3ffffff),
                    h ! 3 + ((drop_bit 14 t2 OR push_bit 18 t3) AND 0x3ffffff), h ! 4 + (drop_bit 8 t3 OR hibit)]\<rparr>)"

definition poly_final_block :: "poly \<Rightarrow> bytes \<Rightarrow> nat \<Rightarrow> poly" where
  "poly_final_block st m n = poly_mulmod (poly_add st (map (\<lambda>i. pad_byte m i n) [0..<16]) 0)"

section \<open>poly1305\_impl.h, poly1305.c and poly1305\_full.c\<close>

function poly_blocks :: "poly \<Rightarrow> bytes \<Rightarrow> poly" where
  "poly_blocks st msg =
     (if length msg \<ge> 16 then poly_blocks (poly_mulmod (poly_add st (take 16 msg) (push_bit 24 1))) (drop 16 msg)
      else if msg \<noteq> [] then poly_final_block st msg (length msg) else st)"
  by pat_completeness auto
termination by (relation "measure (\<lambda>(st, msg). length msg)") auto

declare poly_blocks.simps [simp del]

definition poly_clamp_r :: "poly \<Rightarrow> bytes \<Rightarrow> poly" where
  "poly_clamp_r st key =
     (let t0 = poly1305_rd32le key; t1 = poly1305_rd32le (drop 4 key); t2 = poly1305_rd32le (drop 8 key);
          t3 = poly1305_rd32le (drop 12 key)
      in st\<lparr>po_r := [t0 AND 0x3ffffff, (drop_bit 26 t0 OR push_bit 6 t1) AND 0x3ffff03,
                    (drop_bit 20 t1 OR push_bit 12 t2) AND 0x3ffc0ff, (drop_bit 14 t2 OR push_bit 18 t3) AND 0x3f03fff,
                    drop_bit 8 t3 AND 0x00fffff]\<rparr>)"

definition poly_init :: "poly \<Rightarrow> bytes \<Rightarrow> poly" where
  "poly_init st key = (poly_clamp_r st key)\<lparr>po_h := replicate 5 0, po_pad := map (\<lambda>i. poly1305_rd32le (drop (16 + 4 * i) key)) [0..<4]\<rparr>"

definition full_carry :: "u32 list \<Rightarrow> u32 list" where
  "full_carry h =
     (let h = fold (\<lambda>i h. let h = h[i := h ! i + drop_bit 26 (h ! (i - 1))] in h[i - 1 := h ! (i - 1) AND 0x3ffffff]) [1..<5] h;
          h = h[0 := h ! 0 + drop_bit 26 (h ! 4) * 5];
          h = h[1 := h ! 1 + drop_bit 26 (h ! 0)];
          h = h[0 := h ! 0 AND 0x3ffffff]
      in h[4 := h ! 4 AND 0x3ffffff])"

fun plus_five_loop :: "u32 \<Rightarrow> u32 list \<Rightarrow> u32 list \<times> u32" where
  "plus_five_loop c [] = ([], c)"
| "plus_five_loop c (x # xs) = (let g = x + c; (gs, c) = plus_five_loop (drop_bit 26 g) xs in ((g AND 0x3ffffff) # gs, c))"

definition plus_five :: "u32 list \<Rightarrow> u32 list" where
  "plus_five h = (let (g, c) = plus_five_loop 5 (take 4 h) in g @ [h ! 4 + c - push_bit 26 1])"

definition select_mod :: "u32 list \<Rightarrow> u32 list \<Rightarrow> u32 list" where
  "select_mod h g = (let m = drop_bit 31 (g ! 4) - 1 in map (\<lambda>i. (h ! i AND NOT m) OR (g ! i AND m)) [0..<5])"

definition pack :: "u32 list \<Rightarrow> u32 list" where
  "pack h = [h ! 0 OR push_bit 26 (h ! 1), drop_bit 6 (h ! 1) OR push_bit 20 (h ! 2),
     drop_bit 12 (h ! 2) OR push_bit 14 (h ! 3), drop_bit 18 (h ! 3) OR push_bit 8 (h ! 4)]"

fun finish_loop :: "u64 \<Rightarrow> (u32 \<times> u32) list \<Rightarrow> bytes" where
  "finish_loop f [] = []"
| "finish_loop f ((w, p) # xs) =
     (let f = f + (ucast w + ucast p)
      in ucast f # ucast (drop_bit 8 f) # ucast (drop_bit 16 f) # ucast (drop_bit 24 f) # finish_loop (drop_bit 32 f) xs)"

definition poly_finish :: "poly \<Rightarrow> bytes" where
  "poly_finish st = (let h = full_carry (po_h st); h = select_mod h (plus_five h) in finish_loop 0 (zip (pack h) (po_pad st)))"

definition poly1305 :: "bytes \<Rightarrow> bytes \<Rightarrow> bytes" where
  "poly1305 key msg = poly_finish (poly_blocks (poly_init \<lparr>po_r = [], po_h = [], po_pad = []\<rparr> key) msg)"

section \<open>RFC 8439 over the integers\<close>

primrec le_nat :: "bytes \<Rightarrow> nat" where
  "le_nat [] = 0"
| "le_nat (b # bs) = unat b + 256 * le_nat bs"

primrec le_bytes :: "nat \<Rightarrow> nat \<Rightarrow> bytes" where
  "le_bytes 0 v = []"
| "le_bytes (Suc n) v = of_nat v # le_bytes n (v div 256)"

definition P1305 :: nat where "P1305 = 2 ^ 130 - 5"

definition clamp :: "nat \<Rightarrow> nat" where
  "clamp r = r AND 0x0ffffffc0ffffffc0ffffffc0fffffff"

function poly_spec :: "nat \<Rightarrow> nat \<Rightarrow> bytes \<Rightarrow> nat" where
  "poly_spec r a msg =
     (if msg = [] then a
      else poly_spec r ((a + le_nat (take 16 msg @ [1])) * r mod P1305) (drop 16 msg))"
  by pat_completeness auto
termination by (relation "measure (\<lambda>(r, a, msg). length msg)") auto

declare poly_spec.simps [simp del]

definition poly1305_spec :: "bytes \<Rightarrow> bytes \<Rightarrow> bytes" where
  "poly1305_spec key msg =
     le_bytes 16 (poly_spec (clamp (le_nat (take 16 key))) 0 msg + le_nat (take 16 (drop 16 key)))"

section \<open>Words as numbers\<close>

lemma or_push_nat: "a < 2 ^ n \<Longrightarrow> a OR push_bit n b = a + 2 ^ n * (b :: nat)"
proof -
  assume "a < 2 ^ n"
  then have a: "take_bit n a = a" by (simp add: take_bit_nat_eq_self_iff)
  have "a AND push_bit n b = 0"
    by (rule bit_eqI) (metis a bit_0_eq bit_and_iff bit_push_bit_iff bit_take_bit_iff bot_apply bot_bool_def not_le)
  then show ?thesis by (simp add: disjunctive_add_eq_or [symmetric] push_bit_eq_mult mult.commute)
qed

lemma and_26: "x AND 0x3ffffff = take_bit 26 (x :: 'a :: len word)"
  by (simp add: take_bit_eq_mask mask_numeral)

lemma unat_take_26: "unat (take_bit 26 x :: 'a :: len word) = unat x mod 2 ^ 26"
  by (subst unsigned_take_bit_eq) (rule take_bit_eq_mod)

lemma unat_drop: "unat (drop_bit n x :: 'a :: len word) = unat x div 2 ^ n"
  by (subst unat_drop_bit_eq) (rule drop_bit_eq_div)

lemma unat_or_push_u32:
  assumes "unat a < 2 ^ n" and "n \<le> 32"
  shows "unat (a OR push_bit n b :: u32) = unat a + 2 ^ n * unat b mod 2 ^ 32"
proof -
  have "unat (a OR push_bit n b) = unat a OR push_bit n (take_bit (32 - n) (unat b))"
    using assms(2) by (simp add: unsigned_or_eq unsigned_push_bit_eq take_bit_push_bit)
  also have "\<dots> = unat a + push_bit n (take_bit (32 - n) (unat b))"
    using or_push_nat [OF assms(1), of "take_bit (32 - n) (unat b)"] by (simp only: push_bit_eq_mult mult.commute)
  also have "push_bit n (take_bit (32 - n) (unat b)) = take_bit 32 (push_bit n (unat b))"
    using assms(2) by (simp add: take_bit_push_bit)
  also have "\<dots> = 2 ^ n * unat b mod 2 ^ 32" by (simp add: take_bit_eq_mod push_bit_eq_mult mult.commute)
  finally show ?thesis .
qed

lemma unat_limb:
  assumes "unat a < 2 ^ n" and "n \<le> 26"
  shows "unat ((a OR push_bit n b) AND 0x3ffffff :: u32) = (unat a + 2 ^ n * unat b) mod 2 ^ 26"
proof -
  have "unat ((a OR push_bit n b) AND 0x3ffffff) = (unat a + 2 ^ n * unat b mod 2 ^ 32) mod 2 ^ 26"
    using unat_or_push_u32 [OF assms(1)] assms(2) by (simp only: and_26 unat_take_26)
  also have "\<dots> = (unat a + 2 ^ n * unat b) mod 2 ^ 26"
    using mod_mod_cancel [of "2 ^ 26" "2 ^ 32" "2 ^ n * unat b"] by (subst mod_add_right_eq [symmetric], subst (2) mod_add_right_eq [symmetric]) (simp add: le_imp_power_dvd)
  finally show ?thesis .
qed

lemma le_nat_append: "le_nat (xs @ ys) = le_nat xs + 256 ^ length xs * le_nat ys"
  by (induction xs) (simp_all add: algebra_simps)

lemma le_nat_less: "le_nat xs < 256 ^ length xs"
proof (induction xs)
  case (Cons b xs)
  have "unat b < 256" by simp
  then have "unat b + 256 * le_nat xs < 256 * (le_nat xs + 1)" by simp
  also have "\<dots> \<le> 256 * 256 ^ length xs" using Cons by (intro mult_le_mono2) simp
  finally show ?case by simp
qed simp

lemma unat_or_byte:
  assumes "unat w < 2 ^ 24"
  shows "unat (ucast (b :: u8) OR push_bit 8 w :: u32) = unat b + 256 * unat w"
proof -
  have u: "unat (ucast b :: u32) = unat b" by (simp add: unsigned_ucast_eq take_bit_nat_eq_self less_trans [OF unat_lt_u8])
  have "unat (ucast b :: u32) < 2 ^ 8" using unat_lt_u8 [of b] by (simp only: u) simp
  then have "unat (ucast b OR push_bit 8 w :: u32) = unat (ucast b :: u32) + 2 ^ 8 * unat w mod 2 ^ 32" by (rule unat_or_push_u32) simp
  then show ?thesis using assms by (simp add: u)
qed

lemma unat_rd32le:
  assumes "4 \<le> length p"
  shows "unat (poly1305_rd32le p) = le_nat (take 4 p)"
proof -
  obtain a b c d q where p: "p = a # b # c # d # q"
    using assms by (auto simp: numeral_eq_Suc Suc_le_length_iff)
  have u: "unat (ucast d :: u32) = unat d" by (simp add: unsigned_ucast_eq take_bit_nat_eq_self less_trans [OF unat_lt_u8])
  have l: "unat a < 256" "unat b < 256" "unat c < 256" "unat d < 256" by simp_all
  define w1 w2 where "w1 = (ucast c OR push_bit 8 (ucast d) :: u32)" and "w2 = (ucast b OR push_bit 8 w1 :: u32)"
  have 1: "unat w1 = unat c + 256 * unat d" using unat_or_byte [of "ucast d" c] l by (simp add: u w1_def)
  have 2: "unat w2 = unat b + 256 * unat w1" using unat_or_byte [of w1 b] l by (simp add: 1 w2_def)
  have 3: "unat (ucast a OR push_bit 8 w2 :: u32) = unat a + 256 * unat w2" using unat_or_byte [of w2 a] l by (simp add: 1 2)
  have "poly1305_rd32le p = ucast a OR push_bit 8 w2"
    by (simp add: poly1305_rd32le_def p push_bit_or push_bit_push_bit or.assoc w1_def w2_def)
  then show ?thesis using 1 2 3 by (simp add: p)
qed

section \<open>Limbs\<close>

primrec limbs :: "u32 list \<Rightarrow> nat" where
  "limbs [] = 0"
| "limbs (x # xs) = unat x + 2 ^ 26 * limbs xs"

primrec limbs64 :: "u64 list \<Rightarrow> nat" where
  "limbs64 [] = 0"
| "limbs64 (x # xs) = unat x + 2 ^ 26 * limbs64 xs"

definition h_ok :: "u32 list \<Rightarrow> bool" where
  "h_ok h \<longleftrightarrow> (\<exists>h0 h1 h2 h3 h4. h = [h0, h1, h2, h3, h4] \<and> unat h0 < 2 ^ 26 \<and> unat h1 < 2 ^ 26 + 64
     \<and> unat h2 < 2 ^ 26 \<and> unat h3 < 2 ^ 26 \<and> unat h4 < 2 ^ 26)"

definition sum_ok :: "u32 list \<Rightarrow> bool" where
  "sum_ok h \<longleftrightarrow> (\<exists>h0 h1 h2 h3 h4. h = [h0, h1, h2, h3, h4] \<and> unat h0 < 2 ^ 27 \<and> unat h1 < 2 ^ 27 + 64
     \<and> unat h2 < 2 ^ 27 \<and> unat h3 < 2 ^ 27 \<and> unat h4 < 2 ^ 26 + 2 ^ 25)"

definition r_ok :: "u32 list \<Rightarrow> bool" where
  "r_ok r \<longleftrightarrow> (\<exists>r0 r1 r2 r3 r4. r = [r0, r1, r2, r3, r4] \<and> unat r0 < 2 ^ 26 \<and> unat r1 < 2 ^ 26
     \<and> unat r2 < 2 ^ 26 \<and> unat r3 < 2 ^ 26 \<and> unat r4 < 2 ^ 20)"

lemma unat_u32_u64: "unat (ucast (x :: u32) :: u64) = unat x"
  by (simp add: unsigned_ucast_eq take_bit_nat_eq_self less_trans [OF unsigned_less])

lemma unat_u64_u32: "unat x < 2 ^ 32 \<Longrightarrow> unat (ucast (x :: u64) :: u32) = unat x"
  by (simp add: unsigned_ucast_eq take_bit_nat_eq_self)

lemma unat_add_u32: "unat a + unat b < 2 ^ 32 \<Longrightarrow> unat (a + b :: u32) = unat a + unat b"
  by (simp add: unat_word_ariths)

lemma unat_mult_u32_u64: "unat (ucast (x :: u32) * ucast (y :: u32) :: u64) = unat x * unat y"
proof -
  have "unat x * unat y < 2 ^ 32 * 2 ^ 32"
    by (rule mult_strict_mono) (use unsigned_less [of x] unsigned_less [of y] in simp_all)
  then show ?thesis by (simp add: unat_word_ariths unat_u32_u64)
qed

lemma unat_times5: "unat (x :: u32) < 2 ^ 29 \<Longrightarrow> unat (x * 5) = unat x * 5"
  by (simp add: unat_word_ariths)

lemma unat_poly_row:
  assumes "unat h0 * unat a + unat h1 * unat b + unat h2 * unat c + unat h3 * unat d + unat h4 * unat e < 2 ^ 64"
  shows "unat (poly_row [h0, h1, h2, h3, h4] a b c d e)
    = unat h0 * unat a + unat h1 * unat b + unat h2 * unat c + unat h3 * unat d + unat h4 * unat e"
  using assms by (simp add: poly_row_def unat_add_u64 unat_mult_u32_u64)

lemma carry_loop_value:
  assumes "carry_loop c xs = (h, c')" and "\<forall>x \<in> set xs. unat x < 2 ^ 62" and "unat c < 2 ^ 62"
  shows "limbs h + 2 ^ (26 * length xs) * unat c' = unat c + limbs64 xs \<and> length h = length xs
    \<and> (\<forall>x \<in> set h. unat x < 2 ^ 26)"
  using assms
proof (induction xs arbitrary: c h)
  case Nil
  then show ?case by simp
next
  case (Cons x xs)
  define y where "y = x + c"
  have y: "unat y = unat x + unat c" unfolding y_def using Cons.prems(2,3) by (intro unat_add_u64) simp
  obtain g where g: "carry_loop (drop_bit 26 y) xs = (g, c')" "h = (ucast y AND 0x3ffffff) # g"
    using Cons.prems(1) by (auto simp: Let_def y_def split: prod.splits)
  have d: "unat (drop_bit 26 y) = unat y div 2 ^ 26" by (rule unat_drop)
  then have small: "unat (drop_bit 26 y) < 2 ^ 62" using less_mult_imp_div_less [of "unat y" "2 ^ 62" "2 ^ 26"] less_trans [OF unat_lt_u64 [of y], of "2 ^ 62 * 2 ^ 26"] by simp
  have l: "unat (ucast y AND 0x3ffffff :: u32) = unat y mod 2 ^ 26"
    by (simp only: and_26 unat_take_26) (simp add: unsigned_ucast_eq take_bit_eq_mod mod_mod_cancel)
  have IH: "limbs g + 2 ^ (26 * length xs) * unat c' = unat y div 2 ^ 26 + limbs64 xs" "length g = length xs" "\<forall>x \<in> set g. unat x < 2 ^ 26"
    using Cons.IH [OF g(1)] Cons.prems(2) small d by auto
  have "2 ^ (26 * length (x # xs)) * unat c' = 2 ^ 26 * (2 ^ (26 * length xs) * unat c')" by (simp add: power_add)
  then have "limbs h + 2 ^ (26 * length (x # xs)) * unat c' = unat y mod 2 ^ 26 + 2 ^ 26 * (limbs g + 2 ^ (26 * length xs) * unat c')"
    by (simp only: g(2) limbs.simps l add_mult_distrib2)
  also have "\<dots> = unat y mod 2 ^ 26 + 2 ^ 26 * (unat y div 2 ^ 26) + 2 ^ 26 * limbs64 xs" by (simp only: IH(1) add_mult_distrib2)
  also have "\<dots> = unat y + 2 ^ 26 * limbs64 xs" by (simp only: mod_mult_div_eq)
  finally show ?case using IH(2,3) l by (simp add: g(2) y)
qed

section \<open>Adding a block\<close>

lemma le_nat_split16:
  assumes "length m = 16"
  shows "le_nat m = le_nat (take 4 m) + 2 ^ 32 * le_nat (take 4 (drop 4 m)) + 2 ^ 64 * le_nat (take 4 (drop 8 m)) + 2 ^ 96 * le_nat (take 4 (drop 12 m))"
proof -
  have a: "le_nat xs = le_nat (take 4 xs) + 2 ^ 32 * le_nat (drop 4 xs)" if "4 \<le> length xs" for xs
    using le_nat_append [of "take 4 xs" "drop 4 xs"] that by simp
  have "le_nat m = le_nat (take 4 m) + 2 ^ 32 * le_nat (drop 4 m)" using assms by (intro a) simp
  moreover have "le_nat (drop 4 m) = le_nat (take 4 (drop 4 m)) + 2 ^ 32 * le_nat (drop 8 m)" using a [of "drop 4 m"] assms by simp
  moreover have "le_nat (drop 8 m) = le_nat (take 4 (drop 8 m)) + 2 ^ 32 * le_nat (drop 12 m)" using a [of "drop 8 m"] assms by simp
  moreover have "take 4 (drop 12 m) = drop 12 m" using assms by simp
  ultimately show ?thesis by simp
qed

lemma mod_limb:
  fixes a b :: nat
  assumes "a < 2 ^ n"
  shows "(a + 2 ^ n * b) mod (2 ^ n * 2 ^ k) = a + 2 ^ n * (b mod 2 ^ k)"
  using assms by (simp add: mod_mult2_eq)

lemma limb_cut:
  fixes t0 t1 t2 t3 :: nat
  assumes "t0 < 2 ^ 32" "t1 < 2 ^ 32" "t2 < 2 ^ 32"
  shows "t0 mod 2 ^ 26 + 2 ^ 26 * ((t0 div 2 ^ 26 + 2 ^ 6 * t1) mod 2 ^ 26) + 2 ^ 52 * ((t1 div 2 ^ 20 + 2 ^ 12 * t2) mod 2 ^ 26)
    + 2 ^ 78 * ((t2 div 2 ^ 14 + 2 ^ 18 * t3) mod 2 ^ 26) + 2 ^ 104 * (t3 div 2 ^ 8) = t0 + 2 ^ 32 * t1 + 2 ^ 64 * t2 + 2 ^ 96 * t3"
proof -
  have d: "t0 div 2 ^ 26 < 2 ^ 6" "t1 div 2 ^ 20 < 2 ^ 12" "t2 div 2 ^ 14 < 2 ^ 18"
    using assms by (simp_all add: less_mult_imp_div_less)
  have 1: "(t0 div 2 ^ 26 + 2 ^ 6 * t1) mod 2 ^ 26 = t0 div 2 ^ 26 + 2 ^ 6 * (t1 mod 2 ^ 20)" using mod_limb [OF d(1), of t1 20] by simp
  have 2: "(t1 div 2 ^ 20 + 2 ^ 12 * t2) mod 2 ^ 26 = t1 div 2 ^ 20 + 2 ^ 12 * (t2 mod 2 ^ 14)" using mod_limb [OF d(2), of t2 14] by simp
  have 3: "(t2 div 2 ^ 14 + 2 ^ 18 * t3) mod 2 ^ 26 = t2 div 2 ^ 14 + 2 ^ 18 * (t3 mod 2 ^ 8)" using mod_limb [OF d(3), of t3 8] by simp
  have e: "t0 = t0 mod 2 ^ 26 + 2 ^ 26 * (t0 div 2 ^ 26)" "t1 = t1 mod 2 ^ 20 + 2 ^ 20 * (t1 div 2 ^ 20)"
    "t2 = t2 mod 2 ^ 14 + 2 ^ 14 * (t2 div 2 ^ 14)" "t3 = t3 mod 2 ^ 8 + 2 ^ 8 * (t3 div 2 ^ 8)" by (simp_all only: mod_mult_div_eq)
  have "a0 + 2 ^ 26 * (b0 + 2 ^ 6 * a1) + 2 ^ 52 * (b1 + 2 ^ 12 * a2) + 2 ^ 78 * (b2 + 2 ^ 18 * a3) + 2 ^ 104 * b3
      = t0 + 2 ^ 32 * t1 + 2 ^ 64 * t2 + 2 ^ 96 * t3"
    if "t0 = a0 + 2 ^ 26 * b0" "t1 = a1 + 2 ^ 20 * b1" "t2 = a2 + 2 ^ 14 * b2" "t3 = a3 + 2 ^ 8 * b3" for a0 a1 a2 a3 b0 b1 b2 b3
    using that by simp
  then show ?thesis unfolding 1 2 3 using e by blast
qed

lemma poly_add_value:
  assumes "h_ok (po_h st)" and "length m = 16" and "unat hibit \<in> {0, 2 ^ 24}"
  shows "sum_ok (po_h (poly_add st m hibit)) \<and> limbs (po_h (poly_add st m hibit)) = limbs (po_h st) + le_nat m + 2 ^ 104 * unat hibit"
proof -
  obtain h0 h1 h2 h3 h4 where h: "po_h st = [h0, h1, h2, h3, h4]" and hb: "unat h0 < 2 ^ 26" "unat h1 < 2 ^ 26 + 64"
      "unat h2 < 2 ^ 26" "unat h3 < 2 ^ 26" "unat h4 < 2 ^ 26" using assms(1) by (auto simp: h_ok_def)
  define t0 t1 t2 t3 where "t0 = poly1305_rd32le m" and "t1 = poly1305_rd32le (drop 4 m)" and "t2 = poly1305_rd32le (drop 8 m)"
    and "t3 = poly1305_rd32le (drop 12 m)"
  note t = this
  have b: "unat t0 < 2 ^ 32" "unat t1 < 2 ^ 32" "unat t2 < 2 ^ 32" "unat t3 < 2 ^ 32"
    using unsigned_less [of t0] unsigned_less [of t1] unsigned_less [of t2] unsigned_less [of t3] by simp_all
  have d: "unat (drop_bit 26 t0) < 2 ^ 6" "unat (drop_bit 20 t1) < 2 ^ 12" "unat (drop_bit 14 t2) < 2 ^ 18" "unat (drop_bit 8 t3) < 2 ^ 24"
    using b by (simp_all only: unat_drop) (simp_all add: less_mult_imp_div_less)
  define l0 l1 l2 l3 l4 where "l0 = t0 AND 0x3ffffff" and "l1 = (drop_bit 26 t0 OR push_bit 6 t1) AND 0x3ffffff"
    and "l2 = (drop_bit 20 t1 OR push_bit 12 t2) AND 0x3ffffff" and "l3 = (drop_bit 14 t2 OR push_bit 18 t3) AND 0x3ffffff"
    and "l4 = drop_bit 8 t3 OR hibit"
  note l = this
  have u0: "unat l0 = unat t0 mod 2 ^ 26" by (simp only: l and_26 unat_take_26)
  have u1: "unat l1 = (unat t0 div 2 ^ 26 + 2 ^ 6 * unat t1) mod 2 ^ 26" using unat_limb [OF d(1)] by (simp only: l unat_drop, simp?)
  have u2: "unat l2 = (unat t1 div 2 ^ 20 + 2 ^ 12 * unat t2) mod 2 ^ 26" using unat_limb [OF d(2)] by (simp only: l unat_drop, simp?)
  have u3: "unat l3 = (unat t2 div 2 ^ 14 + 2 ^ 18 * unat t3) mod 2 ^ 26" using unat_limb [OF d(3)] by (simp only: l unat_drop, simp?)
  have u4: "unat l4 = unat t3 div 2 ^ 8 + unat hibit"
  proof (cases "unat hibit = 0")
    case False
    then have "hibit = push_bit 24 1" using assms(3) by (intro word_unat_eq_iff [THEN iffD2]) simp
    then show ?thesis using unat_or_push_u32 [OF d(4), of 1] by (simp only: l unat_drop, simp?)
  qed (simp add: l unat_drop unat_eq_0)
  have lb: "unat l0 < 2 ^ 26" "unat l1 < 2 ^ 26" "unat l2 < 2 ^ 26" "unat l3 < 2 ^ 26" unfolding u0 u1 u2 u3 by simp_all
  have l4: "unat l4 < 2 ^ 25" using u4 d(4) assms(3) by (auto simp: unat_drop)
  have s: "unat (h0 + l0) = unat h0 + unat l0" "unat (h1 + l1) = unat h1 + unat l1" "unat (h2 + l2) = unat h2 + unat l2"
    "unat (h3 + l3) = unat h3 + unat l3" "unat (h4 + l4) = unat h4 + unat l4"
    using hb lb l4 by (auto intro!: unat_add_u32)
  have p: "po_h (poly_add st m hibit) = [h0 + l0, h1 + l1, h2 + l2, h3 + l3, h4 + l4]"
    by (simp add: poly_add_def Let_def h t l)
  have "le_nat m = unat t0 + 2 ^ 32 * unat t1 + 2 ^ 64 * unat t2 + 2 ^ 96 * unat t3"
    using le_nat_split16 [OF assms(2)] assms(2) by (simp add: t unat_rd32le)
  then have "unat l0 + 2 ^ 26 * unat l1 + 2 ^ 52 * unat l2 + 2 ^ 78 * unat l3 + 2 ^ 104 * (unat t3 div 2 ^ 8) = le_nat m"
    using limb_cut [OF b(1-3), of "unat t3"] unfolding u0 u1 u2 u3 by simp
  then have "limbs (po_h (poly_add st m hibit)) = limbs (po_h st) + le_nat m + 2 ^ 104 * unat hibit"
    unfolding p h by (simp add: s u4)
  moreover have "sum_ok (po_h (poly_add st m hibit))" unfolding p sum_ok_def using s hb lb l4 by simp
  ultimately show ?thesis by blast
qed

section \<open>Multiplying by r\<close>

lemma mulmod_identity:
  fixes h0 h1 h2 h3 h4 r0 r1 r2 r3 r4 X :: nat
  shows "(h0 + X * (h1 + X * (h2 + X * (h3 + X * h4)))) * (r0 + X * (r1 + X * (r2 + X * (r3 + X * r4))))
    + 5 * (h1 * r4 + h2 * r3 + h3 * r2 + h4 * r1 + X * (h2 * r4 + h3 * r3 + h4 * r2) + X ^ 2 * (h3 * r4 + h4 * r3) + X ^ 3 * (h4 * r4))
    = h0 * r0 + h1 * (r4 * 5) + h2 * (r3 * 5) + h3 * (r2 * 5) + h4 * (r1 * 5)
      + X * (h0 * r1 + h1 * r0 + h2 * (r4 * 5) + h3 * (r3 * 5) + h4 * (r2 * 5)
      + X * (h0 * r2 + h1 * r1 + h2 * r0 + h3 * (r4 * 5) + h4 * (r3 * 5)
      + X * (h0 * r3 + h1 * r2 + h2 * r1 + h3 * r0 + h4 * (r4 * 5)
      + X * (h0 * r4 + h1 * r3 + h2 * r2 + h3 * r1 + h4 * r0))))
      + X ^ 5 * (h1 * r4 + h2 * r3 + h3 * r2 + h4 * r1 + X * (h2 * r4 + h3 * r3 + h4 * r2) + X ^ 2 * (h3 * r4 + h4 * r3) + X ^ 3 * (h4 * r4))"
  by (simp add: algebra_simps eval_nat_numeral)

lemma mult_bound: "a < A \<Longrightarrow> b < B \<Longrightarrow> a * b \<le> A * (B :: nat)"
  by (simp add: mult_le_mono)

lemma cong_P1305: "(a + 2 ^ 130 * c) mod P1305 = (a + 5 * c) mod P1305"
proof -
  have "a + 2 ^ 130 * c = a + 5 * c + P1305 * c" by (simp add: P1305_def)
  then show ?thesis by (metis mod_mult_self2)
qed

lemma carry_reduce_value:
  assumes d: "length d = 5" "\<forall>x \<in> set d. unat x < 2 ^ 62" and top: "limbs64 d < 2 ^ 130 * 805306368"
  shows "h_ok (po_h (carry_reduce st d)) \<and> limbs (po_h (carry_reduce st d)) mod P1305 = limbs64 d mod P1305"
proof -
  obtain g c where g: "carry_loop 0 d = (g, c)" by fastforce
  have v: "limbs g + 2 ^ 130 * unat c = limbs64 d" "length g = 5" "\<forall>x \<in> set g. unat x < 2 ^ 26"
    using carry_loop_value [OF g d(2)] d(1) by auto
  obtain g0 g1 g2 g3 g4 where gs: "g = [g0, g1, g2, g3, g4]" using v(2) by (auto simp: numeral_eq_Suc length_Suc_conv)
  have gb: "unat g0 < 2 ^ 26" "unat g1 < 2 ^ 26" "unat g2 < 2 ^ 26" "unat g3 < 2 ^ 26" "unat g4 < 2 ^ 26" using v(3) gs by auto
  have "2 ^ 130 * unat c < 2 ^ 130 * (805306368 :: nat)" using v(1) top by linarith
  then have cb: "unat c < 805306368" by simp
  define k where "k = (ucast c * 5 :: u32)"
  have k: "unat k = unat c * 5" using cb by (simp add: k_def unat_word_ariths unat_u64_u32)
  define h0 where "h0 = g0 + k"
  have h0: "unat h0 = unat g0 + unat c * 5" unfolding h0_def using gb(1) cb k by (subst unat_add_u32) simp_all
  have q: "unat (drop_bit 26 h0) = unat h0 div 2 ^ 26" by (rule unat_drop)
  have qb: "unat h0 div 2 ^ 26 < 64" using h0 gb(1) cb by (intro less_mult_imp_div_less) simp
  have h1: "unat (g1 + drop_bit 26 h0) = unat g1 + unat h0 div 2 ^ 26" using q qb gb(2) by (subst unat_add_u32) simp_all
  have m: "unat (h0 AND 0x3ffffff) = unat h0 mod 2 ^ 26" by (simp only: and_26 unat_take_26)
  have e: "po_h (carry_reduce st d) = [h0 AND 0x3ffffff, g1 + drop_bit 26 h0, g2, g3, g4]"
    by (simp add: carry_reduce_def g gs Let_def h0_def k_def)
  have "unat h0 = unat h0 mod 2 ^ 26 + 2 ^ 26 * (unat h0 div 2 ^ 26)" by (simp only: mod_mult_div_eq)
  then have "limbs (po_h (carry_reduce st d)) = limbs g + 5 * unat c"
    unfolding e gs limbs.simps h1 m using h0 by (simp add: algebra_simps)
  then have "limbs (po_h (carry_reduce st d)) mod P1305 = limbs64 d mod P1305" using v(1) cong_P1305 [of "limbs g" "unat c"] by simp
  moreover have "h_ok (po_h (carry_reduce st d))" unfolding e h_ok_def using gb m h1 qb by simp
  ultimately show ?thesis by blast
qed

lemma mod_add_cancel_nat:
  fixes a b c p :: nat
  assumes "(a + c) mod p = (b + c) mod p" and "0 < p"
  shows "a mod p = b mod p"
proof -
  obtain q where p: "p = Suc q" using assms(2) by (cases p) auto
  have "(a + c + q * c) mod p = (b + c + q * c) mod p" by (rule mod_add_cong) (use assms(1) in auto)
  moreover have "a + c + q * c = a + p * c" "b + c + q * c = b + p * c" by (simp_all add: p)
  ultimately show ?thesis by simp
qed

lemma P1305_pos: "0 < P1305"
  by (simp add: P1305_def)

lemma poly_mulmod_value:
  assumes "sum_ok (po_h st)" and "r_ok (po_r st)"
  shows "h_ok (po_h (poly_mulmod st)) \<and> limbs (po_h (poly_mulmod st)) mod P1305 = limbs (po_h st) * limbs (po_r st) mod P1305"
proof -
  obtain h0 h1 h2 h3 h4 where h: "po_h st = [h0, h1, h2, h3, h4]" and hb: "unat h0 < 2 ^ 27" "unat h1 < 2 ^ 27 + 64"
      "unat h2 < 2 ^ 27" "unat h3 < 2 ^ 27" "unat h4 < 2 ^ 26 + 2 ^ 25" using assms(1) by (auto simp: sum_ok_def)
  obtain r0 r1 r2 r3 r4 where r: "po_r st = [r0, r1, r2, r3, r4]" and rb: "unat r0 < 2 ^ 26" "unat r1 < 2 ^ 26"
      "unat r2 < 2 ^ 26" "unat r3 < 2 ^ 26" "unat r4 < 2 ^ 20" using assms(2) by (auto simp: r_ok_def)
  have s: "unat (r1 * 5) = unat r1 * 5" "unat (r2 * 5) = unat r2 * 5" "unat (r3 * 5) = unat r3 * 5" "unat (r4 * 5) = unat r4 * 5"
    using rb by (auto intro!: unat_times5)
  have sb: "unat r1 * 5 < 2 ^ 29" "unat r2 * 5 < 2 ^ 29" "unat r3 * 5 < 2 ^ 29" "unat r4 * 5 < 2 ^ 29"
    "unat r0 < 2 ^ 29" "unat r1 < 2 ^ 29" "unat r2 < 2 ^ 29" "unat r3 < 2 ^ 29" "unat r4 < 2 ^ 29" using rb by auto
  have hb': "unat h0 < 2 ^ 28" "unat h1 < 2 ^ 28" "unat h2 < 2 ^ 28" "unat h3 < 2 ^ 28" "unat h4 < 2 ^ 28" using hb by auto
  define f where "f a b c d e = unat h0 * unat a + unat h1 * unat b + unat h2 * unat c + unat h3 * unat d + unat h4 * unat e" for a b c d e :: u32
  have row: "unat (poly_row (po_h st) a b c d e) = f a b c d e \<and> f a b c d e < 2 ^ 60"
    if "unat a < 2 ^ 29" "unat b < 2 ^ 29" "unat c < 2 ^ 29" "unat d < 2 ^ 29" "unat e < 2 ^ 29" for a b c d e
  proof -
    have "f a b c d e \<le> 2 ^ 28 * 2 ^ 29 + 2 ^ 28 * 2 ^ 29 + 2 ^ 28 * 2 ^ 29 + 2 ^ 28 * 2 ^ 29 + 2 ^ 28 * 2 ^ 29"
      unfolding f_def by (intro add_mono mult_bound hb' that)
    then show ?thesis unfolding h by (subst unat_poly_row) (simp_all add: f_def)
  qed
  define d where "d = [poly_row (po_h st) r0 (r4 * 5) (r3 * 5) (r2 * 5) (r1 * 5), poly_row (po_h st) r1 r0 (r4 * 5) (r3 * 5) (r2 * 5),
    poly_row (po_h st) r2 r1 r0 (r4 * 5) (r3 * 5), poly_row (po_h st) r3 r2 r1 r0 (r4 * 5), poly_row (po_h st) r4 r3 r2 r1 r0]"
  have m: "poly_mulmod st = carry_reduce st d" by (simp add: poly_mulmod_def Let_def r d_def)
  have R: "unat (poly_row (po_h st) r0 (r4 * 5) (r3 * 5) (r2 * 5) (r1 * 5)) = f r0 (r4 * 5) (r3 * 5) (r2 * 5) (r1 * 5) \<and> f r0 (r4 * 5) (r3 * 5) (r2 * 5) (r1 * 5) < 2 ^ 60"
    "unat (poly_row (po_h st) r1 r0 (r4 * 5) (r3 * 5) (r2 * 5)) = f r1 r0 (r4 * 5) (r3 * 5) (r2 * 5) \<and> f r1 r0 (r4 * 5) (r3 * 5) (r2 * 5) < 2 ^ 60"
    "unat (poly_row (po_h st) r2 r1 r0 (r4 * 5) (r3 * 5)) = f r2 r1 r0 (r4 * 5) (r3 * 5) \<and> f r2 r1 r0 (r4 * 5) (r3 * 5) < 2 ^ 60"
    "unat (poly_row (po_h st) r3 r2 r1 r0 (r4 * 5)) = f r3 r2 r1 r0 (r4 * 5) \<and> f r3 r2 r1 r0 (r4 * 5) < 2 ^ 60"
    "unat (poly_row (po_h st) r4 r3 r2 r1 r0) = f r4 r3 r2 r1 r0 \<and> f r4 r3 r2 r1 r0 < 2 ^ 60"
    by (rule row; use sb s in simp)+
  have top: "f r4 r3 r2 r1 r0 \<le> 2 ^ 27 * 2 ^ 20 + (2 ^ 27 + 64) * 2 ^ 26 + 2 ^ 27 * 2 ^ 26 + 2 ^ 27 * 2 ^ 26 + (2 ^ 26 + 2 ^ 25) * 2 ^ 26"
    unfolding f_def by (intro add_mono mult_bound hb rb)
  have v: "limbs64 d = f r0 (r4 * 5) (r3 * 5) (r2 * 5) (r1 * 5) + 2 ^ 26 * (f r1 r0 (r4 * 5) (r3 * 5) (r2 * 5)
      + 2 ^ 26 * (f r2 r1 r0 (r4 * 5) (r3 * 5) + 2 ^ 26 * (f r3 r2 r1 r0 (r4 * 5) + 2 ^ 26 * f r4 r3 r2 r1 r0)))"
    using R by (simp add: d_def)
  have len: "length d = 5" by (simp add: d_def)
  have small: "\<forall>x \<in> set d. unat x < 2 ^ 62" using R by (auto simp: d_def)
  have lt: "limbs64 d < 2 ^ 130 * 805306368" unfolding v using R top by simp
  have "limbs (po_h (poly_mulmod st)) mod P1305 = limbs64 d mod P1305" "h_ok (po_h (poly_mulmod st))"
    using carry_reduce_value [OF len small lt, of st] by (simp_all add: m)
  moreover have "limbs64 d mod P1305 = limbs (po_h st) * limbs (po_r st) mod P1305"
  proof -
    define w where "w = unat h1 * unat r4 + unat h2 * unat r3 + unat h3 * unat r2 + unat h4 * unat r1
      + 2 ^ 26 * (unat h2 * unat r4 + unat h3 * unat r3 + unat h4 * unat r2) + (2 ^ 26) ^ 2 * (unat h3 * unat r4 + unat h4 * unat r3)
      + (2 ^ 26) ^ 3 * (unat h4 * unat r4)"
    have "limbs (po_h st) * limbs (po_r st) + 5 * w = limbs64 d + 2 ^ 130 * w"
      using mulmod_identity [of "unat h0" "2 ^ 26" "unat h1" "unat h2" "unat h3" "unat h4" "unat r0" "unat r1" "unat r2" "unat r3" "unat r4"]
      unfolding v f_def s h r limbs.simps w_def [symmetric] by (simp add: power_mult [symmetric] del: power_numeral) 
    then show ?thesis using cong_P1305 [of "limbs64 d" w] mod_add_cancel_nat by (metis P1305_pos)
  qed
  ultimately show ?thesis by simp
qed

section \<open>The clamped key\<close>

lemma and_limb:
  fixes a b m c :: nat
  assumes "a < 2 ^ n" and "m < 2 ^ n"
  shows "(a + 2 ^ n * b) AND (m + 2 ^ n * c) = (a AND m) + 2 ^ n * (b AND c)"
proof -
  have t: "take_bit n a = a" "take_bit n m = m" using assms by (simp_all add: take_bit_nat_eq_self_iff)
  have hi: "bit a k \<Longrightarrow> k < n" "bit m k \<Longrightarrow> k < n" for k by (metis t(1) bit_take_bit_iff, metis t(2) bit_take_bit_iff)
  have am: "a AND m < 2 ^ n" using t by (metis take_bit_and take_bit_nat_less_exp)
  have "(a + 2 ^ n * b) AND (m + 2 ^ n * c) = (a OR push_bit n b) AND (m OR push_bit n c)" using assms by (simp add: or_push_nat)
  also have "\<dots> = (a AND m) OR push_bit n (b AND c)"
    by (rule bit_eqI) (use hi in \<open>fastforce simp: bit_or_iff bit_and_iff bit_push_bit_iff\<close>)
  also have "\<dots> = (a AND m) + 2 ^ n * (b AND c)" using am by (rule or_push_nat)
  finally show ?thesis .
qed

lemma mask_limb:
  assumes "m AND 0x3ffffff = (m :: u32)"
  shows "unat (x AND m) = unat (x AND 0x3ffffff) AND unat m"
proof -
  have "x AND m = (x AND 0x3ffffff) AND m" using assms by (metis and.assoc and.commute)
  then show ?thesis by (simp only: unsigned_and_eq)
qed

lemma clamp_limbs:
  assumes "l0 < 2 ^ 26" "l1 < 2 ^ 26" "l2 < 2 ^ 26" "l3 < 2 ^ 26"
  shows "clamp (l0 + 2 ^ 26 * (l1 + 2 ^ 26 * (l2 + 2 ^ 26 * (l3 + 2 ^ 26 * l4))))
    = (l0 AND 0x3ffffff) + 2 ^ 26 * ((l1 AND 0x3ffff03) + 2 ^ 26 * ((l2 AND 0x3ffc0ff) + 2 ^ 26 * ((l3 AND 0x3f03fff) + 2 ^ 26 * (l4 AND 0xfffff))))"
proof -
  have "0x0ffffffc0ffffffc0ffffffc0fffffff = (0x3ffffff :: nat) + 2 ^ 26 * (0x3ffff03 + 2 ^ 26 * (0x3ffc0ff + 2 ^ 26 * (0x3f03fff + 2 ^ 26 * 0xfffff)))" by simp
  then have "clamp k = k AND (0x3ffffff + 2 ^ 26 * (0x3ffff03 + 2 ^ 26 * (0x3ffc0ff + 2 ^ 26 * (0x3f03fff + 2 ^ 26 * 0xfffff))))" for k
    by (simp only: clamp_def)
  moreover have "0x3ffffff < (2 :: nat) ^ 26" "0x3ffff03 < (2 :: nat) ^ 26" "0x3ffc0ff < (2 :: nat) ^ 26" "0x3f03fff < (2 :: nat) ^ 26" by simp_all
  ultimately show ?thesis by (simp only: and_limb assms)
qed

lemma poly_clamp_value:
  assumes "length key = 16"
  shows "r_ok (po_r (poly_clamp_r st key)) \<and> limbs (po_r (poly_clamp_r st key)) = clamp (le_nat key)"
proof -
  define t0 t1 t2 t3 where "t0 = poly1305_rd32le key" and "t1 = poly1305_rd32le (drop 4 key)" and "t2 = poly1305_rd32le (drop 8 key)"
    and "t3 = poly1305_rd32le (drop 12 key)"
  note t = this
  have b: "unat t0 < 2 ^ 32" "unat t1 < 2 ^ 32" "unat t2 < 2 ^ 32" "unat t3 < 2 ^ 32"
    using unsigned_less [of t0] unsigned_less [of t1] unsigned_less [of t2] unsigned_less [of t3] by simp_all
  have d: "unat (drop_bit 26 t0) < 2 ^ 6" "unat (drop_bit 20 t1) < 2 ^ 12" "unat (drop_bit 14 t2) < 2 ^ 18"
    using b by (simp_all only: unat_drop) (simp_all add: less_mult_imp_div_less)
  define w1 w2 w3 where "w1 = drop_bit 26 t0 OR push_bit 6 t1" and "w2 = drop_bit 20 t1 OR push_bit 12 t2" and "w3 = drop_bit 14 t2 OR push_bit 18 t3"
  note w = this
  have u0: "unat (t0 AND 0x3ffffff) = unat t0 mod 2 ^ 26" by (simp only: and_26 unat_take_26)
  have u1: "unat (w1 AND 0x3ffffff) = (unat t0 div 2 ^ 26 + 2 ^ 6 * unat t1) mod 2 ^ 26" using unat_limb [OF d(1)] by (simp only: w unat_drop, simp?)
  have u2: "unat (w2 AND 0x3ffffff) = (unat t1 div 2 ^ 20 + 2 ^ 12 * unat t2) mod 2 ^ 26" using unat_limb [OF d(2)] by (simp only: w unat_drop, simp?)
  have u3: "unat (w3 AND 0x3ffffff) = (unat t2 div 2 ^ 14 + 2 ^ 18 * unat t3) mod 2 ^ 26" using unat_limb [OF d(3)] by (simp only: w unat_drop, simp?)
  have u4: "unat (drop_bit 8 t3) = unat t3 div 2 ^ 8" by (rule unat_drop)
  have m0: "unat (t0 AND 0x3ffffff) = unat (t0 AND 0x3ffffff) AND 0x3ffffff" using mask_limb [of "0x3ffffff" t0] by simp
  have m1: "unat (w1 AND 0x3ffff03) = unat (w1 AND 0x3ffffff) AND 0x3ffff03" using mask_limb [of "0x3ffff03" w1] by simp
  have m2: "unat (w2 AND 0x3ffc0ff) = unat (w2 AND 0x3ffffff) AND 0x3ffc0ff" using mask_limb [of "0x3ffc0ff" w2] by simp
  have m3: "unat (w3 AND 0x3f03fff) = unat (w3 AND 0x3ffffff) AND 0x3f03fff" using mask_limb [of "0x3f03fff" w3] by simp
  have m4: "unat (drop_bit 8 t3 AND 0xfffff) = unat (drop_bit 8 t3) AND 0xfffff" by (simp add: unsigned_and_eq)
  have lb: "unat (t0 AND 0x3ffffff) < 2 ^ 26" "unat (w1 AND 0x3ffffff) < 2 ^ 26" "unat (w2 AND 0x3ffffff) < 2 ^ 26" "unat (w3 AND 0x3ffffff) < 2 ^ 26"
    unfolding u0 u1 u2 u3 by simp_all
  have p: "po_r (poly_clamp_r st key) = [t0 AND 0x3ffffff, w1 AND 0x3ffff03, w2 AND 0x3ffc0ff, w3 AND 0x3f03fff, drop_bit 8 t3 AND 0x00fffff]"
    by (simp add: poly_clamp_r_def Let_def t w)
  have "le_nat key = unat t0 + 2 ^ 32 * unat t1 + 2 ^ 64 * unat t2 + 2 ^ 96 * unat t3"
    using le_nat_split16 [OF assms] assms by (simp add: t unat_rd32le)
  then have "le_nat key = unat (t0 AND 0x3ffffff) + 2 ^ 26 * (unat (w1 AND 0x3ffffff) + 2 ^ 26 * (unat (w2 AND 0x3ffffff)
      + 2 ^ 26 * (unat (w3 AND 0x3ffffff) + 2 ^ 26 * unat (drop_bit 8 t3))))"
    using limb_cut [OF b(1-3), of "unat t3"] unfolding u0 u1 u2 u3 u4 by (simp add: add_mult_distrib2)
  then have "clamp (le_nat key) = limbs (po_r (poly_clamp_r st key))"
    unfolding p limbs.simps m1 m2 m3 m4 using clamp_limbs [OF lb] m0 by simp
  moreover have "r_ok (po_r (poly_clamp_r st key))"
  proof -
    have le: "a AND b \<le> b" for a b :: nat by (metis and_nat_def and.commute AND_upper1 of_nat_0_le_iff nat_le_iff)
    have "unat (drop_bit 8 t3 AND 0xfffff) \<le> 0xfffff" unfolding m4 by (rule le)
    moreover have "unat (w1 AND 0x3ffff03) \<le> 0x3ffff03" unfolding m1 by (rule le)
    moreover have "unat (w2 AND 0x3ffc0ff) \<le> 0x3ffc0ff" unfolding m2 by (rule le)
    moreover have "unat (w3 AND 0x3f03fff) \<le> 0x3f03fff" unfolding m3 by (rule le)
    ultimately show ?thesis unfolding p r_ok_def using lb(1) by simp
  qed
  ultimately show ?thesis by simp
qed

section \<open>Absorbing the message\<close>

lemma le_nat_zeros: "le_nat (xs @ replicate k 0) = le_nat xs"
proof -
  have "le_nat (replicate k 0) = 0" by (induction k) simp_all
  then show ?thesis by (simp add: le_nat_append)
qed

lemma pad_bytes:
  assumes "length m < 16"
  shows "map (\<lambda>i. pad_byte m i (length m)) [0..<16] = (m @ [1]) @ replicate (15 - length m) 0"
proof (rule nth_equalityI)
  fix i assume "i < length (map (\<lambda>i. pad_byte m i (length m)) [0..<16])"
  then have "i < 16" by simp
  then show "map (\<lambda>i. pad_byte m i (length m)) [0..<16] ! i = ((m @ [1]) @ replicate (15 - length m) 0) ! i"
    by (auto simp: pad_byte_def nth_append simp del: upt_rec_numeral)
qed (use assms in \<open>simp del: upt_rec_numeral\<close>)

lemma poly_add_keeps [simp]: "po_r (poly_add st m hb) = po_r st" "po_pad (poly_add st m hb) = po_pad st"
  by (simp_all add: poly_add_def Let_def)

lemma poly_mulmod_keeps [simp]: "po_r (poly_mulmod st) = po_r st" "po_pad (poly_mulmod st) = po_pad st"
  by (simp_all add: poly_mulmod_def carry_reduce_def Let_def split: prod.splits)

lemma absorb_value:
  assumes "h_ok (po_h st)" "r_ok (po_r st)" "length m = 16" "unat hb \<in> {0, 2 ^ 24}"
    and "le_nat m + 2 ^ 104 * unat hb = b" and "limbs (po_h st) mod P1305 = a mod P1305"
  shows "h_ok (po_h (poly_mulmod (poly_add st m hb)))
    \<and> limbs (po_h (poly_mulmod (poly_add st m hb))) mod P1305 = (a + b) * limbs (po_r st) mod P1305 mod P1305"
proof -
  have a: "sum_ok (po_h (poly_add st m hb))" "limbs (po_h (poly_add st m hb)) = limbs (po_h st) + b"
    using poly_add_value [OF assms(1,3,4)] assms(5) by simp_all
  have "limbs (po_h (poly_mulmod (poly_add st m hb))) mod P1305 = (limbs (po_h st) + b) * limbs (po_r st) mod P1305"
    using poly_mulmod_value [OF a(1)] assms(2) a(2) by simp
  also have "\<dots> = (a + b) * limbs (po_r st) mod P1305" by (intro mod_mult_cong mod_add_cong assms(6)) simp_all
  finally show ?thesis using poly_mulmod_value [OF a(1)] assms(2) by simp
qed

lemma poly_blocks_value:
  assumes "h_ok (po_h st)" "r_ok (po_r st)" "limbs (po_h st) mod P1305 = a mod P1305"
  shows "h_ok (po_h (poly_blocks st msg)) \<and> po_pad (poly_blocks st msg) = po_pad st
    \<and> limbs (po_h (poly_blocks st msg)) mod P1305 = poly_spec (limbs (po_r st)) a msg mod P1305"
  using assms
proof (induction st msg arbitrary: a rule: poly_blocks.induct)
  case (1 st msg)
  consider (full) "16 \<le> length msg" | (rest) "length msg < 16" "msg \<noteq> []" | (none) "msg = []" by force
  then show ?case
  proof cases
    case full
    let ?st = "poly_mulmod (poly_add st (take 16 msg) (push_bit 24 1))"
    have v: "le_nat (take 16 msg) + 2 ^ 104 * unat (push_bit 24 1 :: u32) = le_nat (take 16 msg @ [1])"
      using full by (simp add: le_nat_append)
    have ab: "h_ok (po_h ?st)" "limbs (po_h ?st) mod P1305 = (a + le_nat (take 16 msg @ [1])) * limbs (po_r st) mod P1305 mod P1305"
      using absorb_value [OF "1.prems"(1,2) _ _ v "1.prems"(3)] full by simp_all
    have "poly_blocks st msg = poly_blocks ?st (drop 16 msg)" using full by (subst poly_blocks.simps) simp
    moreover have "poly_spec (limbs (po_r st)) a msg = poly_spec (limbs (po_r st)) ((a + le_nat (take 16 msg @ [1])) * limbs (po_r st) mod P1305) (drop 16 msg)"
      using full by (subst poly_spec.simps) auto
    ultimately show ?thesis using "1.IH"(1) [OF full ab(1) _ ab(2)] "1.prems"(2) by simp
  next
    case rest
    let ?b = "map (\<lambda>i. pad_byte msg i (length msg)) [0..<16]"
    have v: "le_nat ?b + 2 ^ 104 * unat (0 :: u32) = le_nat (msg @ [1])" unfolding pad_bytes [OF rest(1)] le_nat_zeros by simp
    have "poly_blocks st msg = poly_mulmod (poly_add st ?b 0)" using rest by (subst poly_blocks.simps) (simp add: poly_final_block_def)
    moreover have "poly_spec (limbs (po_r st)) a msg = (a + le_nat (msg @ [1])) * limbs (po_r st) mod P1305"
      using rest by (subst poly_spec.simps, subst poly_spec.simps) simp
    ultimately show ?thesis using absorb_value [OF "1.prems"(1,2) _ _ v "1.prems"(3)] by simp
  next
    case none
    then show ?thesis using "1.prems" by (subst (1 2 3) poly_blocks.simps, subst poly_spec.simps) simp
  qed
qed

section \<open>The final reduction\<close>

definition limbs_full :: "u32 list \<Rightarrow> bool" where
  "limbs_full h \<longleftrightarrow> length h = 5 \<and> (\<forall>x \<in> set h. unat x < 2 ^ 26)"

lemma limbs_fullE:
  assumes "limbs_full h"
  obtains h0 h1 h2 h3 h4 where "h = [h0, h1, h2, h3, h4]" "unat h0 < 2 ^ 26" "unat h1 < 2 ^ 26" "unat h2 < 2 ^ 26" "unat h3 < 2 ^ 26" "unat h4 < 2 ^ 26"
proof -
  have "length h = Suc (Suc (Suc (Suc (Suc 0))))" using assms by (simp add: limbs_full_def)
  then obtain h0 h1 h2 h3 h4 where "h = [h0, h1, h2, h3, h4]" by (auto simp: length_Suc_conv)
  then show ?thesis using assms that by (simp add: limbs_full_def)
qed

lemma full_carry_list:
  "full_carry [h0, h1, h2, h3, h4] =
     (let g1 = h1 + drop_bit 26 h0; g2 = h2 + drop_bit 26 g1; g3 = h3 + drop_bit 26 g2; g4 = h4 + drop_bit 26 g3;
          g0 = (h0 AND 0x3ffffff) + drop_bit 26 g4 * 5
      in [g0 AND 0x3ffffff, (g1 AND 0x3ffffff) + drop_bit 26 g0, g2 AND 0x3ffffff, g3 AND 0x3ffffff, g4 AND 0x3ffffff])"
  by (simp add: full_carry_def Let_def upt_rec)

lemma carry_step:
  assumes "unat x < 2 ^ 26" and "unat c \<le> 1"
  shows "unat (x + c :: u32) = unat x + unat c" "unat (drop_bit 26 (x + c)) \<le> 1"
    "unat ((x + c) AND 0x3ffffff) + 2 ^ 26 * unat (drop_bit 26 (x + c)) = unat x + unat c"
    "unat (drop_bit 26 (x + c)) = 1 \<longleftrightarrow> unat x = 2 ^ 26 - 1 \<and> unat c = 1"
proof -
  show s: "unat (x + c) = unat x + unat c" using assms by (intro unat_add_u32) simp
  have d: "unat (drop_bit 26 (x + c)) = (unat x + unat c) div 2 ^ 26" by (simp only: unat_drop s)
  have m: "unat ((x + c) AND 0x3ffffff) = (unat x + unat c) mod 2 ^ 26" by (simp only: and_26 unat_take_26 s)
  show "unat ((x + c) AND 0x3ffffff) + 2 ^ 26 * unat (drop_bit 26 (x + c)) = unat x + unat c" unfolding d m by (rule mod_mult_div_eq)
  define k where "k = unat x + unat c"
  have k: "k < 2 ^ 26 \<or> k = 2 ^ 26" unfolding k_def using assms by linarith
  then have dk: "k div 2 ^ 26 = (if k = 2 ^ 26 then 1 else 0)" by auto
  have e: "k = 2 ^ 26 \<longleftrightarrow> unat x = 2 ^ 26 - 1 \<and> unat c = 1" unfolding k_def using assms by linarith
  show "unat (drop_bit 26 (x + c)) \<le> 1" unfolding d k_def [symmetric] dk by simp
  show "unat (drop_bit 26 (x + c)) = 1 \<longleftrightarrow> unat x = 2 ^ 26 - 1 \<and> unat c = 1" unfolding d k_def [symmetric] dk e [symmetric] by simp
qed

lemma full_carry_value:
  assumes "h_ok h"
  shows "limbs_full (full_carry h) \<and> limbs (full_carry h) mod P1305 = limbs h mod P1305"
proof -
  obtain h0 h1 h2 h3 h4 where h: "h = [h0, h1, h2, h3, h4]" and hb: "unat h0 < 2 ^ 26" "unat h1 < 2 ^ 26 + 64"
      "unat h2 < 2 ^ 26" "unat h3 < 2 ^ 26" "unat h4 < 2 ^ 26" using assms by (auto simp: h_ok_def)
  have "unat (drop_bit 26 h0) = 0" using hb(1) by (simp only: unat_drop) simp
  then have z: "drop_bit 26 h0 = 0" by (simp add: unat_eq_0)
  define c1 where "c1 = drop_bit 26 h1"
  define g2 where "g2 = h2 + c1"
  define c2 where "c2 = drop_bit 26 g2"
  define g3 where "g3 = h3 + c2"
  define c3 where "c3 = drop_bit 26 g3"
  define g4 where "g4 = h4 + c3"
  define c4 where "c4 = drop_bit 26 g4"
  define g0 where "g0 = (h0 AND 0x3ffffff) + c4 * 5"
  define m where "m x = x AND 0x3ffffff" for x :: u32
  have mu: "unat (m x) = unat x mod 2 ^ 26" for x by (simp only: m_def and_26 unat_take_26)
  then have mb: "unat (m x) < 2 ^ 26" for x by simp
  have fc: "full_carry h = [m g0, m h1 + drop_bit 26 g0, m g2, m g3, m g4]"
    by (simp add: h full_carry_list z Let_def m_def g0_def c4_def g4_def c3_def g3_def c2_def g2_def c1_def)
  have c1: "unat c1 = unat h1 div 2 ^ 26" by (simp only: c1_def unat_drop)
  have s1: "unat (m h1) + 2 ^ 26 * unat c1 = unat h1" unfolding mu c1 by (rule mod_mult_div_eq)
  have "unat h1 div 2 ^ 26 < 2" using hb(2) by (intro less_mult_imp_div_less) simp
  then have c1b: "unat c1 \<le> 1" using c1 by simp
  note k2 = carry_step [OF hb(3) c1b, folded g2_def, folded c2_def, folded m_def]
  note k3 = carry_step [OF hb(4) k2(2), folded g3_def, folded c3_def, folded m_def]
  note k4 = carry_step [OF hb(5) k3(2), folded g4_def, folded c4_def, folded m_def]
  have m0: "unat (m h0) = unat h0" using hb(1) by (simp add: mu)
  have f5: "unat (c4 * 5) = unat c4 * 5" using k4(2) by (intro unat_times5) simp
  have g0: "unat g0 = unat h0 + 5 * unat c4" using unat_add_u32 [of "m h0" "c4 * 5"] f5 m0 hb(1) k4(2) by (simp add: g0_def m_def)
  have d0: "unat (drop_bit 26 g0) = unat g0 div 2 ^ 26" by (rule unat_drop)
  have small: "unat (m h1) + unat g0 div 2 ^ 26 < 2 ^ 26"
  proof (cases "unat c4 = 0")
    case True
    then show ?thesis using g0 hb(1) mb [of h1] by simp
  next
    case False
    then have "unat c4 = 1" "unat c3 = 1" "unat c2 = 1" "unat c1 = 1" using k4(2,4) k3(4) k2(4) c1b by auto
    moreover have "unat g0 div 2 ^ 26 < 2" using g0 hb(1) k4(2) by (intro less_mult_imp_div_less) simp
    ultimately show ?thesis using s1 hb(2) by simp
  qed
  have u1: "unat (m h1 + drop_bit 26 g0) = unat (m h1) + unat g0 div 2 ^ 26" using small d0 by (subst unat_add_u32) simp_all
  have s0: "unat (m g0) + 2 ^ 26 * (unat g0 div 2 ^ 26) = unat g0" unfolding mu by (rule mod_mult_div_eq)
  have "limbs (full_carry h) + 2 ^ 130 * unat c4 = limbs h + 5 * unat c4"
    using s0 s1 g0 k2(3) k3(3) k4(3) u1 by (simp add: fc) (simp add: h)
  then have "(limbs (full_carry h) + 5 * unat c4) mod P1305 = (limbs h + 5 * unat c4) mod P1305"
    using cong_P1305 [of "limbs (full_carry h)" "unat c4"] by (simp only:)
  then have "limbs (full_carry h) mod P1305 = limbs h mod P1305" by (rule mod_add_cancel_nat) (rule P1305_pos)
  moreover have "limbs_full (full_carry h)" unfolding fc limbs_full_def using mb small u1 by simp
  ultimately show ?thesis by blast
qed

lemma plus_five_loop_value:
  assumes "plus_five_loop c xs = (g, c')" and "\<forall>x \<in> set xs. unat x < 2 ^ 26" and "unat c \<le> 5"
  shows "limbs g + 2 ^ (26 * length xs) * unat c' = limbs xs + unat c \<and> length g = length xs \<and> (\<forall>x \<in> set g. unat x < 2 ^ 26) \<and> unat c' \<le> 5"
  using assms
proof (induction xs arbitrary: c g)
  case (Cons x xs)
  define y where "y = x + c"
  have y: "unat y = unat x + unat c" unfolding y_def using Cons.prems(2,3) by (intro unat_add_u32) simp
  obtain t where t: "plus_five_loop (drop_bit 26 y) xs = (t, c')" "g = (y AND 0x3ffffff) # t"
    using Cons.prems(1) by (auto simp: Let_def y_def split: prod.splits)
  have d: "unat (drop_bit 26 y) = unat y div 2 ^ 26" by (rule unat_drop)
  have "unat y div 2 ^ 26 < 2" using y Cons.prems(2,3) by (intro less_mult_imp_div_less) simp
  then have small: "unat (drop_bit 26 y) \<le> 5" using d by simp
  have l: "unat (y AND 0x3ffffff) = unat y mod 2 ^ 26" by (simp only: and_26 unat_take_26)
  have "\<forall>x \<in> set xs. unat x < 2 ^ 26" using Cons.prems(2) by simp
  note IHs = Cons.IH [OF t(1) this small, unfolded d]
  then have IH: "limbs t + 2 ^ (26 * length xs) * unat c' = limbs xs + unat y div 2 ^ 26" "length t = length xs" "\<forall>x \<in> set t. unat x < 2 ^ 26" "unat c' \<le> 5"
    by blast+
  have "2 ^ (26 * length (x # xs)) * unat c' = 2 ^ 26 * (2 ^ (26 * length xs) * unat c')" by (simp add: power_add)
  then have "limbs g + 2 ^ (26 * length (x # xs)) * unat c' = unat y mod 2 ^ 26 + 2 ^ 26 * (limbs t + 2 ^ (26 * length xs) * unat c')"
    by (simp only: t(2) limbs.simps l add_mult_distrib2)
  also have "\<dots> = unat y mod 2 ^ 26 + 2 ^ 26 * (unat y div 2 ^ 26) + 2 ^ 26 * limbs xs" by (subst IH(1)) simp
  also have "\<dots> = unat y + 2 ^ 26 * limbs xs" by (simp only: mod_mult_div_eq)
  finally have "limbs g + 2 ^ (26 * length (x # xs)) * unat c' = limbs (x # xs) + unat c" by (simp add: y)
  moreover have "unat (y AND 0x3ffffff) < 2 ^ 26" unfolding l by simp
  ultimately show ?case using IH(2-4) by (simp add: t(2))
qed simp

lemma limbs_full_less:
  assumes "limbs_full h"
  shows "limbs h < 2 ^ 130"
proof -
  obtain h0 h1 h2 h3 h4 where "h = [h0, h1, h2, h3, h4]" "unat h0 < 2 ^ 26" "unat h1 < 2 ^ 26" "unat h2 < 2 ^ 26" "unat h3 < 2 ^ 26" "unat h4 < 2 ^ 26"
    using assms by (rule limbs_fullE)
  then show ?thesis by simp
qed

lemma select_value:
  assumes "limbs_full h"
  shows "limbs_full (select_mod h (plus_five h)) \<and> limbs (select_mod h (plus_five h)) = limbs h mod P1305"
proof -
  obtain h0 h1 h2 h3 h4 where h: "h = [h0, h1, h2, h3, h4]" and hb: "unat h0 < 2 ^ 26" "unat h1 < 2 ^ 26" "unat h2 < 2 ^ 26" "unat h3 < 2 ^ 26" "unat h4 < 2 ^ 26"
    using assms by (rule limbs_fullE)
  obtain g c where g: "plus_five_loop 5 [h0, h1, h2, h3] = (g, c)" by fastforce
  have all: "\<forall>x \<in> set [h0, h1, h2, h3]. unat x < 2 ^ 26" using hb by simp
  have v: "limbs g + 2 ^ 104 * unat c = limbs [h0, h1, h2, h3] + 5" "length g = 4" "\<forall>x \<in> set g. unat x < 2 ^ 26"
    using plus_five_loop_value [OF g all] by (simp_all del: limbs.simps)
  have "length g = Suc (Suc (Suc (Suc 0)))" using v(2) by simp
  then obtain g0 g1 g2 g3 where gs: "g = [g0, g1, g2, g3]" by (auto simp: length_Suc_conv)
  have gb: "unat g0 < 2 ^ 26" "unat g1 < 2 ^ 26" "unat g2 < 2 ^ 26" "unat g3 < 2 ^ 26" using v(3) gs by auto
  have lo: "limbs [h0, h1, h2, h3] < 2 ^ 104" using hb by simp
  then have "2 ^ 104 * unat c < 2 ^ 104 * 2" using v(1) by (simp del: limbs.simps)
  then have c: "unat c < 2" by simp
  have p: "plus_five h = [g0, g1, g2, g3, h4 + c - push_bit 26 1]" by (simp add: plus_five_def h g gs del: plus_five_loop.simps)
  have hc: "unat (h4 + c) = unat h4 + unat c" using hb(5) c by (intro unat_add_u32) simp
  have tot: "limbs h + 5 = limbs g + 2 ^ 104 * (unat h4 + unat c)" using v(1) by (simp add: h)
  have gl: "limbs g < 2 ^ 104" using gb by (simp add: gs)
  show ?thesis
  proof (cases "unat h4 + unat c < 2 ^ 26")
    case True
    have lt: "h4 + c < push_bit 26 1" using True hc by (simp add: word_less_nat_alt)
    have "unat (h4 + c - push_bit 26 1) = unat (h4 + c) + 2 ^ 32 - 2 ^ 26"
      using lt by (simp add: unat_sub_if' word_le_nat_alt word_less_nat_alt)
    then have "unat (drop_bit 31 (h4 + c - push_bit 26 1)) = (unat h4 + unat c + 2 ^ 32 - 2 ^ 26) div 2 ^ 31" by (simp only: unat_drop hc)
    also have "\<dots> = 1" using True by (intro div_nat_eqI) simp_all
    finally have "drop_bit 31 (h4 + c - push_bit 26 1) = 1" by (simp add: word_unat_eq_iff)
    then have e: "select_mod h (plus_five h) = h" unfolding p by (simp add: select_mod_def h upt_rec Let_def)
    have "2 ^ 104 * (unat h4 + unat c) + 2 ^ 104 \<le> 2 ^ 130" using True by simp
    then have "limbs h < P1305" using tot gl by (simp add: P1305_def)
    then show ?thesis using e assms by simp
  next
    case False
    then have h4: "unat h4 + unat c = 2 ^ 26" using hb(5) c by simp
    then have "h4 + c = push_bit 26 1" using hc by (simp add: word_unat_eq_iff)
    then have g4: "h4 + c - push_bit 26 1 = 0" by simp
    have e: "select_mod h (plus_five h) = [g0, g1, g2, g3, 0]" unfolding p g4 by (simp add: select_mod_def h upt_rec Let_def)
    have "limbs h = limbs g + P1305" using tot h4 by (simp add: P1305_def)
    moreover have "limbs g < P1305" using gl by (simp add: P1305_def)
    ultimately have "limbs h mod P1305 = limbs g" by simp
    moreover have "limbs [g0, g1, g2, g3, 0] = limbs g" by (simp add: gs)
    ultimately show ?thesis using gb by (simp add: e limbs_full_def)
  qed
qed

section \<open>The tag\<close>

primrec words32 :: "u32 list \<Rightarrow> nat" where
  "words32 [] = 0"
| "words32 (x # xs) = unat x + 2 ^ 32 * words32 xs"

lemma mult_pow_mod: "2 ^ n * b mod (2 ^ n * 2 ^ k) = 2 ^ n * (b mod 2 ^ k :: nat)"
  by (rule mod_mult_mult1)

lemma pack_value:
  assumes "limbs_full h"
  shows "words32 (pack h) = limbs h mod 2 ^ 128 \<and> length (pack h) = 4"
proof -
  obtain h0 h1 h2 h3 h4 where h: "h = [h0, h1, h2, h3, h4]" and hb: "unat h0 < 2 ^ 26" "unat h1 < 2 ^ 26" "unat h2 < 2 ^ 26" "unat h3 < 2 ^ 26" "unat h4 < 2 ^ 26"
    using assms by (rule limbs_fullE)
  have d: "unat (drop_bit 6 h1) < 2 ^ 20" "unat (drop_bit 12 h2) < 2 ^ 14" "unat (drop_bit 18 h3) < 2 ^ 8"
    using hb by (simp_all only: unat_drop) (simp_all add: less_mult_imp_div_less)
  have w0: "unat (h0 OR push_bit 26 h1) = unat h0 + 2 ^ 26 * (unat h1 mod 2 ^ 6)"
    using unat_or_push_u32 [OF hb(1)] mult_pow_mod [of 26 "unat h1" 6] by simp
  have w1: "unat (drop_bit 6 h1 OR push_bit 20 h2) = unat h1 div 2 ^ 6 + 2 ^ 20 * (unat h2 mod 2 ^ 12)"
    using unat_or_push_u32 [OF d(1)] mult_pow_mod [of 20 "unat h2" 12] by (simp add: unat_drop)
  have w2: "unat (drop_bit 12 h2 OR push_bit 14 h3) = unat h2 div 2 ^ 12 + 2 ^ 14 * (unat h3 mod 2 ^ 18)"
    using unat_or_push_u32 [OF d(2)] mult_pow_mod [of 14 "unat h3" 18] by (simp add: unat_drop)
  have w3: "unat (drop_bit 18 h3 OR push_bit 8 h4) = unat h3 div 2 ^ 18 + 2 ^ 8 * (unat h4 mod 2 ^ 24)"
    using unat_or_push_u32 [OF d(3)] mult_pow_mod [of 8 "unat h4" 24] by (simp add: unat_drop)
  define x where "x = unat h0 + 2 ^ 26 * unat h1 + 2 ^ 52 * unat h2 + 2 ^ 78 * unat h3 + 2 ^ 104 * (unat h4 mod 2 ^ 24)"
  have "a0 + 2 ^ 26 * bm + 2 ^ 32 * (bd + 2 ^ 20 * cm + 2 ^ 32 * (cd + 2 ^ 14 * em + 2 ^ 32 * (ed + 2 ^ 8 * f0)))
      = a0 + 2 ^ 26 * b0 + 2 ^ 52 * c0 + 2 ^ 78 * e0 + 2 ^ 104 * (f0 :: nat)"
    if "bm + 2 ^ 6 * bd = b0" "cm + 2 ^ 12 * cd = c0" "em + 2 ^ 18 * ed = e0" for a0 b0 c0 e0 f0 bm bd cm cd em ed
    using that [symmetric] by simp
  note id = this [OF mod_mult_div_eq mod_mult_div_eq mod_mult_div_eq]
  have pk: "pack h = [h0 OR push_bit 26 h1, drop_bit 6 h1 OR push_bit 20 h2, drop_bit 12 h2 OR push_bit 14 h3, drop_bit 18 h3 OR push_bit 8 h4]"
    by (simp add: pack_def h)
  have px: "words32 (pack h) = x" unfolding pk words32.simps w0 w1 w2 w3 x_def mult_0_right add_0_right by (rule id)
  have "u < 2 ^ 24 \<Longrightarrow> unat h0 + 2 ^ 26 * unat h1 + 2 ^ 52 * unat h2 + 2 ^ 78 * unat h3 + 2 ^ 104 * u < 2 ^ 128" for u
    using hb by simp
  then have "x < 2 ^ 128" unfolding x_def by simp
  moreover have "limbs [h0, h1, h2, h3, h4] = unat h0 + 2 ^ 26 * unat h1 + 2 ^ 52 * unat h2 + 2 ^ 78 * unat h3 + 2 ^ 104 * m + 2 ^ 128 * k"
    if "m + 2 ^ 24 * k = unat h4" for m k
    using that [symmetric] by simp
  note this [OF mod_mult_div_eq, folded x_def h]
  ultimately show ?thesis using px by (simp add: pack_def)
qed

lemma le_bytes_numeral: "le_bytes (numeral k) v = of_nat v # le_bytes (pred_numeral k) (v div 256)"
  by (simp only: numeral_eq_Suc [of k] le_bytes.simps)

lemma le_bytes_4:
  "le_bytes (Suc (Suc (Suc (Suc n)))) v = of_nat v # of_nat (v div 2 ^ 8) # of_nat (v div 2 ^ 16) # of_nat (v div 2 ^ 24) # le_bytes n (v div 2 ^ 32)"
  by (simp add: div_mult2_eq [symmetric])

lemma ucast_u8_of_nat: "(ucast (x :: u64) :: u8) = of_nat (unat x)"
  by (simp add: unsigned_of_nat of_nat_unat)

lemma of_nat_u8_add: "256 dvd k \<Longrightarrow> (of_nat (a + k) :: u8) = of_nat a"
proof -
  assume "256 dvd k"
  then obtain q where q: "k = 256 * q" by (rule dvdE)
  have z: "(256 :: u8) = 0" by (rule word_unat_eq_iff [THEN iffD2]) simp
  show ?thesis unfolding q of_nat_add of_nat_mult of_nat_numeral z by simp
qed

lemma finish_loop_value:
  assumes "length ws = length ps" and "unat f < 2 ^ 33"
  shows "finish_loop f (zip ws ps) = le_bytes (4 * length ws) (unat f + words32 ws + words32 ps)"
  using assms
proof (induction ws ps arbitrary: f rule: list_induct2)
  case (Cons w ws p ps)
  define g where "g = f + (ucast w + ucast p)"
  have b: "unat w < 2 ^ 32" "unat p < 2 ^ 32" using unsigned_less [of w] unsigned_less [of p] by simp_all
  have wp: "unat (ucast w + ucast p :: u64) = unat w + unat p" using b by (subst unat_add_u64) (simp_all add: unat_u32_u64)
  have g: "unat g = unat f + unat w + unat p" unfolding g_def using b Cons.prems wp by (subst unat_add_u64) simp_all
  define r where "r = words32 ws + words32 ps"
  define v where "v = unat g + 2 ^ 32 * r"
  have v: "unat f + words32 (w # ws) + words32 (p # ps) = v" by (simp add: v_def g r_def)
  have byte: "(of_nat (v div 2 ^ k) :: u8) = ucast (drop_bit k g)" if "k \<in> {0, 8, 16, 24}" for k
  proof -
    have "2 ^ 32 = 2 ^ k * (2 :: nat) ^ (32 - k)" using that by (subst power_add [symmetric]) auto
    then have "v = unat g + 2 ^ k * (2 ^ (32 - k) * r)" by (simp only: v_def mult.assoc)
    then have "v div 2 ^ k = unat g div 2 ^ k + 2 ^ (32 - k) * r" by simp
    moreover have "256 dvd 2 ^ (32 - k) * r" using that by (intro dvd_mult2) auto
    ultimately show ?thesis using of_nat_u8_add [of "2 ^ (32 - k) * r" "unat g div 2 ^ k"] by (simp only: ucast_u8_of_nat unat_drop)
  qed
  have vd: "v div 2 ^ 32 = unat (drop_bit 32 g) + r" by (simp only: v_def unat_drop) simp
  have "unat g div 2 ^ 32 < 2 ^ 33" using g b Cons.prems by (intro less_mult_imp_div_less) simp
  then have IH: "finish_loop (drop_bit 32 g) (zip ws ps) = le_bytes (4 * length ws) (v div 2 ^ 32)"
    using Cons.IH [of "drop_bit 32 g"] vd by (simp add: unat_drop r_def add.assoc)
  have n: "4 * length (w # ws) = Suc (Suc (Suc (Suc (4 * length ws))))" by simp
  show ?case unfolding v n le_bytes_4 using byte [of 0] byte [of 8] byte [of 16] byte [of 24] IH by (simp add: Let_def g_def)
qed simp

lemma le_bytes_mod: "le_bytes n (v mod 256 ^ n) = le_bytes n v"
proof (induction n arbitrary: v)
  case (Suc n)
  have "v mod 256 ^ Suc n div 256 = v div 256 mod 256 ^ n" by (simp add: mod_mult2_eq)
  moreover have "(of_nat (v mod 256 ^ Suc n) :: u8) = of_nat v"
    using of_nat_u8_add [of "256 ^ Suc n * (v div 256 ^ Suc n)" "v mod 256 ^ Suc n"] by (simp only: mod_mult_div_eq) (simp add: mult.assoc)
  ultimately show ?case using Suc by simp
qed simp

lemma pad_words:
  assumes "length key = 32"
  shows "words32 (map (\<lambda>i. poly1305_rd32le (drop (16 + 4 * i) key)) [0..<4]) = le_nat (take 16 (drop 16 key))"
proof -
  have "le_nat (drop 16 key) = le_nat (take 4 (drop 16 key)) + 2 ^ 32 * le_nat (take 4 (drop 20 key)) + 2 ^ 64 * le_nat (take 4 (drop 24 key))
      + 2 ^ 96 * le_nat (take 4 (drop 28 key))"
    using le_nat_split16 [of "drop 16 key"] assms by simp
  then show ?thesis using assms by (simp add: upt_rec unat_rd32le)
qed

lemma poly_finish_value:
  assumes "h_ok (po_h st)" and "length (po_pad st) = 4"
  shows "poly_finish st = le_bytes 16 (limbs (po_h st) mod P1305 + words32 (po_pad st))"
proof -
  define h where "h = select_mod (full_carry (po_h st)) (plus_five (full_carry (po_h st)))"
  have fc: "limbs_full (full_carry (po_h st))" "limbs (full_carry (po_h st)) mod P1305 = limbs (po_h st) mod P1305"
    using full_carry_value [OF assms(1)] by simp_all
  have h: "limbs_full h" "limbs h = limbs (po_h st) mod P1305" using select_value [OF fc(1)] fc(2) by (simp_all add: h_def)
  have pk: "words32 (pack h) = limbs h mod 2 ^ 128" "length (pack h) = 4" using pack_value [OF h(1)] by simp_all
  have "poly_finish st = finish_loop 0 (zip (pack h) (po_pad st))" by (simp add: poly_finish_def Let_def h_def)
  also have "\<dots> = le_bytes 16 (limbs h mod 2 ^ 128 + words32 (po_pad st))"
    using finish_loop_value [of "pack h" "po_pad st" 0] pk assms(2) by simp
  also have "\<dots> = le_bytes 16 ((limbs h mod 2 ^ 128 + words32 (po_pad st)) mod 256 ^ 16)" by (rule le_bytes_mod [symmetric])
  also have "(limbs h mod 2 ^ 128 + words32 (po_pad st)) mod 256 ^ 16 = (limbs h + words32 (po_pad st)) mod 256 ^ 16"
    by (simp add: mod_add_left_eq)
  also have "le_bytes 16 \<dots> = le_bytes 16 (limbs h + words32 (po_pad st))" by (rule le_bytes_mod)
  finally show ?thesis by (simp only: h(2))
qed

lemma poly1305_spec_eq:
  assumes "length key = 32"
  shows "poly1305 key msg = poly1305_spec key msg"
proof -
  define st where "st = poly_init \<lparr>po_r = [], po_h = [], po_pad = []\<rparr> key"
  have cl: "poly_clamp_r s (take 16 key) = poly_clamp_r s key" for s
    using assms by (simp add: poly_clamp_r_def poly1305_rd32le_def)
  have r: "r_ok (po_r st)" "limbs (po_r st) = clamp (le_nat (take 16 key))"
    using poly_clamp_value [of "take 16 key" "\<lparr>po_r = [], po_h = [], po_pad = []\<rparr>"] assms by (simp_all add: st_def poly_init_def cl)
  have h: "po_h st = [0, 0, 0, 0, 0]" by (simp add: st_def poly_init_def numeral_eq_Suc)
  then have h0: "h_ok (po_h st)" "limbs (po_h st) mod P1305 = 0 mod P1305" by (simp_all add: h_ok_def)
  have pad: "length (po_pad st) = 4" "words32 (po_pad st) = le_nat (take 16 (drop 16 key))"
    using pad_words [OF assms] by (simp_all add: st_def poly_init_def)
  have b: "h_ok (po_h (poly_blocks st msg))" "po_pad (poly_blocks st msg) = po_pad st"
    "limbs (po_h (poly_blocks st msg)) mod P1305 = poly_spec (limbs (po_r st)) 0 msg mod P1305"
    using poly_blocks_value [OF h0(1) r(1) h0(2), of msg] by simp_all
  have lt: "a < P1305 \<Longrightarrow> poly_spec k a m < P1305" for k a m
    by (induction k a m rule: poly_spec.induct) (subst poly_spec.simps, simp add: P1305_pos)
  have "poly1305 key msg = le_bytes 16 (poly_spec (limbs (po_r st)) 0 msg mod P1305 + words32 (po_pad st))"
    using poly_finish_value [OF b(1)] b(2,3) pad(1) by (simp add: poly1305_def st_def)
  then show ?thesis using lt [OF P1305_pos] pad(2) r(2) by (simp add: poly1305_spec_def)
qed

text \<open>
  C27. The limb arithmetic of Poly1305 computes the authenticator RFC 8439 defines. For every
  32-byte key and every message the tag is the little-endian low 128 bits of the polynomial in the
  clamped key half modulo \<open>2\<^sup>130 - 5\<close>, plus the other key half: no 32-bit or 64-bit operation on the
  limbs overflows, and the constant-time final subtraction is exact.
\<close>

theorem poly1305_correct:
  assumes "length key = 32"
  shows "poly1305 key msg = poly1305_spec key msg"
  using assms by (rule poly1305_spec_eq)

definition rfc8439_key :: bytes where
  "rfc8439_key = [0x85, 0xd6, 0xbe, 0x78, 0x57, 0x55, 0x6d, 0x33, 0x7f, 0x44, 0x52, 0xfe, 0x42, 0xd5, 0x06, 0xa8, 0x01, 0x03, 0x80, 0x8a, 0xfb, 0x0d, 0xb2, 0xfd, 0x4a, 0xbf, 0xf6, 0xaf, 0x41, 0x49, 0xf5, 0x1b]"

definition rfc8439_msg :: bytes where
  "rfc8439_msg = [0x43, 0x72, 0x79, 0x70, 0x74, 0x6f, 0x67, 0x72, 0x61, 0x70, 0x68, 0x69, 0x63, 0x20, 0x46, 0x6f, 0x72, 0x75, 0x6d, 0x20, 0x52, 0x65, 0x73, 0x65, 0x61, 0x72, 0x63, 0x68, 0x20, 0x47, 0x72, 0x6f, 0x75, 0x70]"

theorem poly1305_correct_witness:
  "poly1305 rfc8439_key rfc8439_msg = [0xa8, 0x06, 0x1d, 0xc1, 0x30, 0x51, 0x36, 0xc6, 0xc2, 0x2b, 0x8b, 0xaf, 0x0c, 0x01, 0x27, 0xa9]"
proof -
  have l: "length rfc8439_key = 32" by (simp add: rfc8439_key_def)
  have k: "clamp (le_nat (take 16 rfc8439_key)) = 10669302975710760130990824415874176645" "le_nat (take 16 (drop 16 rfc8439_key)) = 37162754436723567162214218529947779841"
    by (simp_all add: rfc8439_key_def clamp_def)
  have "poly1305_spec rfc8439_key rfc8439_msg = [0xa8, 0x06, 0x1d, 0xc1, 0x30, 0x51, 0x36, 0xc6, 0xc2, 0x2b, 0x8b, 0xaf, 0x0c, 0x01, 0x27, 0xa9]"
    unfolding poly1305_spec_def k rfc8439_msg_def by (simp add: poly_spec.simps P1305_def) (simp add: le_bytes_numeral)
  then show ?thesis using poly1305_correct [OF l, of rfc8439_msg] by simp
qed

end
