(* ===== verification/Chacha_Poly.thy ===== *)
theory Chacha_Poly
  imports Poly1305
begin

unbundle bit_operations_syntax

text \<open>
  ChaCha20 and the ChaCha20-Poly1305 AEAD: \<^verbatim>\<open>src/crypto/symmetric/aead/chacha/chacha20.c\<close> and
  \<^verbatim>\<open>aead.c\<close>. The authenticator's input is assembled in a stack array of 3032 bytes; an input that
  does not fit is undefined behaviour, the outer \<open>None\<close> of a result.
\<close>

section \<open>chacha20.c\<close>

record chacha_ctx =
  cx_key :: bytes
  cx_nonce :: bytes
  cx_counter :: u32

definition ROTL :: "u32 \<Rightarrow> nat \<Rightarrow> u32" where
  "ROTL x n = push_bit n x OR drop_bit (32 - n) x"

definition QR :: "nat \<Rightarrow> nat \<Rightarrow> nat \<Rightarrow> nat \<Rightarrow> u32 list \<Rightarrow> u32 list" where
  "QR i j k l x =
     (let a = x ! i; b = x ! j; c = x ! k; d = x ! l;
          a = a + b; d = d XOR a; d = ROTL d 16;
          c = c + d; b = b XOR c; b = ROTL b 12;
          a = a + b; d = d XOR a; d = ROTL d 8;
          c = c + d; b = b XOR c; b = ROTL b 7
      in x[i := a, j := b, k := c, l := d])"

definition rd32 :: "bytes \<Rightarrow> u32" where
  "rd32 p = ucast (p ! 0) OR push_bit 8 (ucast (p ! 1)) OR push_bit 16 (ucast (p ! 2)) OR push_bit 24 (ucast (p ! 3))"

definition double_round :: "u32 list \<Rightarrow> u32 list" where
  "double_round x =
     (let x = QR 0 4 8 12 x; x = QR 1 5 9 13 x; x = QR 2 6 10 14 x; x = QR 3 7 11 15 x;
          x = QR 0 5 10 15 x; x = QR 1 6 11 12 x; x = QR 2 7 8 13 x
      in QR 3 4 9 14 x)"

definition init_state :: "bytes \<Rightarrow> u32 \<Rightarrow> bytes \<Rightarrow> u32 list" where
  "init_state key counter nonce =
     [0x61707865, 0x3320646e, 0x79622d32, 0x6b206574] @ map (\<lambda>i. rd32 (drop (4 * i) key)) [0..<8]
     @ [counter] @ map (\<lambda>i. rd32 (drop (4 * i) nonce)) [0..<3]"

definition serialize :: "u32 list \<Rightarrow> u32 list \<Rightarrow> bytes" where
  "serialize x s = concat (map (\<lambda>i. let v = x ! i + s ! i in
     [ucast v, ucast (drop_bit 8 v), ucast (drop_bit 16 v), ucast (drop_bit 24 v)]) [0..<16])"

definition chacha20_block :: "bytes \<Rightarrow> u32 \<Rightarrow> bytes \<Rightarrow> bytes" where
  "chacha20_block key counter nonce = (let s = init_state key counter nonce in serialize ((double_round ^^ 10) s) s)"

definition xor_chunk :: "chacha_ctx \<Rightarrow> bytes \<Rightarrow> bytes" where
  "xor_chunk c src =
     (let n = min (length src) 64; ks = chacha20_block (cx_key c) (cx_counter c) (cx_nonce c)
      in map2 (XOR) (take n src) (take n ks))"

function chacha20_xor :: "chacha_ctx \<Rightarrow> bytes \<Rightarrow> bytes" where
  "chacha20_xor c src =
     (if src = [] then []
      else xor_chunk c src @ chacha20_xor (c\<lparr>cx_counter := cx_counter c + 1\<rparr>) (drop 64 src))"
  by pat_completeness auto
termination by (relation "measure (\<lambda>(c, src). length src)") auto

declare chacha20_xor.simps [simp del]

section \<open>aead.c\<close>

record chapoly_ctx =
  cp_key :: bytes
  cp_nonce :: bytes
  cp_aad :: bytes

definition put_padded :: "bytes \<Rightarrow> bytes \<Rightarrow> bytes" where
  "put_padded buf src = buf @ src @ replicate ((16 - length src mod 16) mod 16) 0"

definition put_le64 :: "bytes \<Rightarrow> u64 \<Rightarrow> bytes" where
  "put_le64 buf v = buf @ map (\<lambda>i. ucast (drop_bit (8 * i) v)) [0..<8]"

definition poly_key :: "chapoly_ctx \<Rightarrow> bytes" where
  "poly_key c = take 32 (chacha20_block (cp_key c) 0 (cp_nonce c))"

definition chapoly_tag :: "chapoly_ctx \<Rightarrow> bytes \<Rightarrow> bytes option" where
  "chapoly_tag c ct =
     (let mac = put_padded (put_padded [] (cp_aad c)) ct;
          mac = put_le64 (put_le64 mac (of_nat (length (cp_aad c)))) (of_nat (length ct))
      in if length mac \<le> 16 + 1500 + 1500 + 16 then Some (poly1305 (poly_key c) mac) else None)"

definition chapoly_stream :: "chapoly_ctx \<Rightarrow> bytes \<Rightarrow> bytes" where
  "chapoly_stream c src = chacha20_xor \<lparr>cx_key = cp_key c, cx_nonce = cp_nonce c, cx_counter = 1\<rparr> src"

definition chapoly_seal :: "chapoly_ctx \<Rightarrow> bytes \<Rightarrow> bytes option" where
  "chapoly_seal c pt = do { let ct = chapoly_stream c pt; tag \<leftarrow> chapoly_tag c ct; Some (ct @ tag) }"

definition chapoly_open :: "chapoly_ctx \<Rightarrow> bytes \<Rightarrow> bytes option option" where
  "chapoly_open c ct =
     (if length ct < 16 then Some None
      else do { let body = take (length ct - 16) ct;
                want \<leftarrow> chapoly_tag c body;
                Some (if ct_diff16 want (drop (length ct - 16) ct) \<noteq> 0 then None else Some (chapoly_stream c body)) })"

section \<open>The stream cipher is an involution\<close>

lemma xor_twice: "length ks = length xs \<Longrightarrow> map2 (XOR) (map2 (XOR) xs ks) ks = (xs :: bytes)"
  by (rule nth_equalityI) (simp_all add: xor.assoc)

lemma length_serialize [simp]: "length (serialize x s) = 64"
  by (simp add: serialize_def length_concat comp_def Let_def sum_list_triv)

lemma length_chacha20_block [simp]: "length (chacha20_block key n nonce) = 64"
  by (simp add: chacha20_block_def Let_def)

lemma length_xor_chunk [simp]: "length (xor_chunk c src) = min (length src) 64"
  by (simp add: xor_chunk_def Let_def)

lemma xor_chunk_twice: "xor_chunk c (xor_chunk c src) = take 64 src"
proof -
  have "take (min (length src) 64) src = take 64 src" by (simp add: min_def)
  then show ?thesis unfolding xor_chunk_def Let_def by (subst take_all) (simp_all add: xor_twice)
qed

lemma xor_chunk_append: "length a = 64 \<Longrightarrow> xor_chunk c (a @ b) = xor_chunk c a"
  by (simp add: xor_chunk_def Let_def)

lemma length_chacha20_xor [simp]: "length (chacha20_xor c src) = length src"
  by (induction c src rule: chacha20_xor.induct) (subst chacha20_xor.simps, simp add: min_def)

lemma chacha20_xor_twice: "chacha20_xor c (chacha20_xor c src) = src"
proof (induction c src rule: chacha20_xor.induct)
  case (1 c src)
  show ?case
  proof (cases "src = []")
    case True
    then show ?thesis by (simp add: chacha20_xor.simps)
  next
    case False
    define y where "y = chacha20_xor (c\<lparr>cx_counter := cx_counter c + 1\<rparr>) (drop 64 src)"
    have e: "chacha20_xor c src = xor_chunk c src @ y" using False by (subst chacha20_xor.simps) (simp add: y_def)
    have ne: "xor_chunk c src @ y \<noteq> []" using False by (metis append_is_Nil_conv length_0_conv length_xor_chunk min_0R min_def zero_neq_numeral)
    have "xor_chunk c (xor_chunk c src @ y) = take 64 src \<and> drop 64 (xor_chunk c src @ y) = y"
    proof (cases "64 \<le> length src")
      case True
      then show ?thesis by (simp add: xor_chunk_append xor_chunk_twice)
    next
      case False
      then have "y = []" by (simp add: y_def chacha20_xor.simps)
      then show ?thesis using False by (simp add: xor_chunk_twice)
    qed
    then have "chacha20_xor c (xor_chunk c src @ y) = take 64 src @ chacha20_xor (c\<lparr>cx_counter := cx_counter c + 1\<rparr>) y"
      using chacha20_xor.simps [of c "xor_chunk c src @ y"] by (simp only: ne if_False)
    then show ?thesis using "1.IH" [OF False] by (simp add: e y_def)
  qed
qed

section \<open>The AEAD\<close>

lemma length_le_bytes [simp]: "length (le_bytes n v) = n"
  by (induction n arbitrary: v) simp_all

lemma length_poly1305:
  assumes "length key = 32"
  shows "length (poly1305 key msg) = 16"
  by (simp add: poly1305_spec_eq [OF assms] poly1305_spec_def)

lemma length_chapoly_tag: "chapoly_tag c ct = Some tag \<Longrightarrow> length tag = 16"
  by (auto simp: chapoly_tag_def Let_def poly_key_def length_poly1305 split: if_splits)

lemma chapoly_stream_twice [simp]: "chapoly_stream c (chapoly_stream c x) = x"
  by (simp add: chapoly_stream_def chacha20_xor_twice)

lemma length_chapoly_stream [simp]: "length (chapoly_stream c x) = length x"
  by (simp add: chapoly_stream_def)

lemma chapoly_open_seal:
  assumes "chapoly_seal c pt = Some x"
  shows "chapoly_open c x = Some (Some pt)"
proof -
  obtain tag where t: "chapoly_tag c (chapoly_stream c pt) = Some tag" "x = chapoly_stream c pt @ tag"
    using assms by (auto simp: chapoly_seal_def Let_def split: bind_splits)
  then show ?thesis using length_chapoly_tag [OF t(1)] by (simp add: chapoly_open_def ct_diff16_0)
qed

lemma chapoly_open_only_sealed:
  assumes "chapoly_open c x = Some (Some pt)"
  shows "chapoly_seal c pt = Some x"
proof -
  let ?body = "take (length x - 16) x"
  have l: "16 \<le> length x" using assms by (auto simp: chapoly_open_def split: if_splits)
  obtain want where w: "chapoly_tag c ?body = Some want" "ct_diff16 want (drop (length x - 16) x) = 0" "pt = chapoly_stream c ?body"
    using assms l by (auto simp: chapoly_open_def Let_def split: bind_splits if_splits)
  have "want = drop (length x - 16) x" using w(2) length_chapoly_tag [OF w(1)] l by (simp add: ct_diff16_0)
  then show ?thesis using w(1,3) by (simp add: chapoly_seal_def)
qed

lemma chapoly_fits:
  assumes "length (cp_aad c) + length ct \<le> 2984"
  shows "chapoly_tag c ct \<noteq> None"
proof -
  have p: "length xs + (16 - length xs mod 16) mod 16 \<le> length xs + 15" for xs :: bytes
    using mod_less_divisor [of 16 "16 - length xs mod 16"] by linarith
  show ?thesis using assms p [of "cp_aad c"] p [of ct] by (simp add: chapoly_tag_def Let_def put_padded_def put_le64_def)
qed

lemma QR_rfc8439:
  "QR 0 1 2 3 [0x11111111, 0x01020304, 0x9b8d6f43, 0x01234567] = [0xea2a92f4, 0xcb1cf8ce, 0x4581472e, 0x5881c4bb]"
  by (simp add: QR_def ROTL_def Let_def)
end
