(* ===== verification/Aes_Gcm.thy ===== *)
theory Aes_Gcm
  imports Chacha_Poly
begin

unbundle bit_operations_syntax

text \<open>
  AES-128 and AES-256 in GCM, the portable implementation: \<^verbatim>\<open>src/crypto/symmetric/aead/aes\<close> and
  \<^verbatim>\<open>aead/gcm\<close>. A key schedule is its list of round-key words, a 16-byte block a list of bytes.
\<close>

section \<open>aes.c and aes\_shift.c\<close>

type_synonym aes128 = "u32 list"
type_synonym aes256 = "u32 list"

definition SBOX :: "u8 list" where
  "SBOX = [
    0x63, 0x7c, 0x77, 0x7b, 0xf2, 0x6b, 0x6f, 0xc5, 0x30, 0x01, 0x67, 0x2b, 0xfe, 0xd7, 0xab, 0x76,
    0xca, 0x82, 0xc9, 0x7d, 0xfa, 0x59, 0x47, 0xf0, 0xad, 0xd4, 0xa2, 0xaf, 0x9c, 0xa4, 0x72, 0xc0,
    0xb7, 0xfd, 0x93, 0x26, 0x36, 0x3f, 0xf7, 0xcc, 0x34, 0xa5, 0xe5, 0xf1, 0x71, 0xd8, 0x31, 0x15,
    0x04, 0xc7, 0x23, 0xc3, 0x18, 0x96, 0x05, 0x9a, 0x07, 0x12, 0x80, 0xe2, 0xeb, 0x27, 0xb2, 0x75,
    0x09, 0x83, 0x2c, 0x1a, 0x1b, 0x6e, 0x5a, 0xa0, 0x52, 0x3b, 0xd6, 0xb3, 0x29, 0xe3, 0x2f, 0x84,
    0x53, 0xd1, 0x00, 0xed, 0x20, 0xfc, 0xb1, 0x5b, 0x6a, 0xcb, 0xbe, 0x39, 0x4a, 0x4c, 0x58, 0xcf,
    0xd0, 0xef, 0xaa, 0xfb, 0x43, 0x4d, 0x33, 0x85, 0x45, 0xf9, 0x02, 0x7f, 0x50, 0x3c, 0x9f, 0xa8,
    0x51, 0xa3, 0x40, 0x8f, 0x92, 0x9d, 0x38, 0xf5, 0xbc, 0xb6, 0xda, 0x21, 0x10, 0xff, 0xf3, 0xd2,
    0xcd, 0x0c, 0x13, 0xec, 0x5f, 0x97, 0x44, 0x17, 0xc4, 0xa7, 0x7e, 0x3d, 0x64, 0x5d, 0x19, 0x73,
    0x60, 0x81, 0x4f, 0xdc, 0x22, 0x2a, 0x90, 0x88, 0x46, 0xee, 0xb8, 0x14, 0xde, 0x5e, 0x0b, 0xdb,
    0xe0, 0x32, 0x3a, 0x0a, 0x49, 0x06, 0x24, 0x5c, 0xc2, 0xd3, 0xac, 0x62, 0x91, 0x95, 0xe4, 0x79,
    0xe7, 0xc8, 0x37, 0x6d, 0x8d, 0xd5, 0x4e, 0xa9, 0x6c, 0x56, 0xf4, 0xea, 0x65, 0x7a, 0xae, 0x08,
    0xba, 0x78, 0x25, 0x2e, 0x1c, 0xa6, 0xb4, 0xc6, 0xe8, 0xdd, 0x74, 0x1f, 0x4b, 0xbd, 0x8b, 0x8a,
    0x70, 0x3e, 0xb5, 0x66, 0x48, 0x03, 0xf6, 0x0e, 0x61, 0x35, 0x57, 0xb9, 0x86, 0xc1, 0x1d, 0x9e,
    0xe1, 0xf8, 0x98, 0x11, 0x69, 0xd9, 0x8e, 0x94, 0x9b, 0x1e, 0x87, 0xe9, 0xce, 0x55, 0x28, 0xdf,
    0x8c, 0xa1, 0x89, 0x0d, 0xbf, 0xe6, 0x42, 0x68, 0x41, 0x99, 0x2d, 0x0f, 0xb0, 0x54, 0xbb, 0x16]"

definition RCON :: "u8 list" where
  "RCON = [0x01, 0x02, 0x04, 0x08, 0x10, 0x20, 0x40, 0x80, 0x1b, 0x36]"

definition sub_word :: "u32 \<Rightarrow> u32" where
  "sub_word w = push_bit 24 (ucast (SBOX ! unat (drop_bit 24 w AND 0xff))) OR push_bit 16 (ucast (SBOX ! unat (drop_bit 16 w AND 0xff)))
     OR push_bit 8 (ucast (SBOX ! unat (drop_bit 8 w AND 0xff))) OR ucast (SBOX ! unat (w AND 0xff))"

definition schedule_word :: "u32 \<Rightarrow> nat \<Rightarrow> u32" where
  "schedule_word prev i =
     (if i mod 4 \<noteq> 0 then prev
      else sub_word (push_bit 8 prev OR drop_bit 24 prev) XOR push_bit 24 (ucast (RCON ! (i div 4 - 1))))"

definition aes128_schedule_word256 :: "u32 \<Rightarrow> nat \<Rightarrow> u32" where
  "aes128_schedule_word256 prev i =
     (if i mod 8 = 0 then sub_word (push_bit 8 prev OR drop_bit 24 prev) XOR push_bit 24 (ucast (RCON ! (i div 8 - 1)))
      else if i mod 8 = 4 then sub_word prev else prev)"

definition key_word :: "bytes \<Rightarrow> nat \<Rightarrow> u32" where
  "key_word key i = push_bit 24 (ucast (key ! (4 * i))) OR push_bit 16 (ucast (key ! (4 * i + 1)))
     OR push_bit 8 (ucast (key ! (4 * i + 2))) OR ucast (key ! (4 * i + 3))"

definition aes128_init :: "bytes \<Rightarrow> aes128" where
  "aes128_init key =
     fold (\<lambda>i rk. rk @ [rk ! (i - 4) XOR schedule_word (rk ! (i - 1)) i]) [4..<44] (map (key_word key) [0..<4])"

definition aes256_init :: "bytes \<Rightarrow> aes256" where
  "aes256_init key =
     fold (\<lambda>i rk. rk @ [rk ! (i - 8) XOR aes128_schedule_word256 (rk ! (i - 1)) i]) [8..<60] (map (key_word key) [0..<8])"

definition add_round_key :: "bytes \<Rightarrow> u32 list \<Rightarrow> bytes" where
  "add_round_key s rk = concat (map (\<lambda>c.
     [s ! (4 * c) XOR ucast (drop_bit 24 (rk ! c)), s ! (4 * c + 1) XOR ucast (drop_bit 16 (rk ! c)),
      s ! (4 * c + 2) XOR ucast (drop_bit 8 (rk ! c)), s ! (4 * c + 3) XOR ucast (rk ! c)]) [0..<4])"

definition sub_bytes :: "bytes \<Rightarrow> bytes" where
  "sub_bytes s = map (\<lambda>b. SBOX ! unat b) s"

definition shift_col :: "bytes \<Rightarrow> nat \<Rightarrow> bytes" where
  "shift_col s c = map (\<lambda>r. s ! (4 * ((c + r) mod 4) + r)) [0..<4]"

definition shift_rows :: "bytes \<Rightarrow> bytes" where
  "shift_rows s = concat (map (shift_col s) [0..<4])"

definition XTIME :: "u8 \<Rightarrow> u8" where
  "XTIME x = push_bit 1 x XOR (drop_bit 7 x * 0x1b)"

definition mix_one :: "bytes \<Rightarrow> bytes" where
  "mix_one col =
     (let a0 = col ! 0; a1 = col ! 1; a2 = col ! 2; a3 = col ! 3
      in [XTIME a0 XOR (XTIME a1 XOR a1) XOR a2 XOR a3, a0 XOR XTIME a1 XOR (XTIME a2 XOR a2) XOR a3,
          a0 XOR a1 XOR XTIME a2 XOR (XTIME a3 XOR a3), (XTIME a0 XOR a0) XOR a1 XOR a2 XOR XTIME a3])"

definition mix_columns :: "bytes \<Rightarrow> bytes" where
  "mix_columns s = concat (map (\<lambda>c. mix_one (take 4 (drop (4 * c) s))) [0..<4])"

definition round_full :: "bytes \<Rightarrow> u32 list \<Rightarrow> bytes" where
  "round_full s rk = add_round_key (mix_columns (shift_rows (sub_bytes s))) rk"

definition round_last :: "bytes \<Rightarrow> u32 list \<Rightarrow> bytes" where
  "round_last s rk = add_round_key (shift_rows (sub_bytes s)) rk"

definition aes128_encrypt :: "aes128 \<Rightarrow> bytes \<Rightarrow> bytes" where
  "aes128_encrypt a src =
     (let s = fold (\<lambda>r s. round_full s (drop (4 * r) a)) [1..<10] (add_round_key (take 16 src) a)
      in round_last s (drop (4 * 10) a))"

definition aes256_encrypt :: "aes256 \<Rightarrow> bytes \<Rightarrow> bytes" where
  "aes256_encrypt a src =
     (let s = fold (\<lambda>r s. round_full s (drop (4 * r) a)) [1..<14] (add_round_key (take 16 src) a)
      in round_last s (drop (4 * 14) a))"

section \<open>gcm\_impl\_head.h and gcm\_impl.h\<close>

definition block_n :: "nat \<Rightarrow> nat \<Rightarrow> nat" where
  "block_n off len = (if len - off < 16 then len - off else 16)"

definition load_block :: "bytes \<Rightarrow> nat \<Rightarrow> nat \<Rightarrow> bytes" where
  "load_block p off len = (let n = block_n off len in map (\<lambda>i. if i < n then p ! (off + i) else 0) [0..<16])"

definition gcm_ctr_inc :: "bytes \<Rightarrow> bytes" where
  "gcm_ctr_inc c =
     (let c = c[15 := c ! 15 + 1]
      in if c ! 15 \<noteq> 0 then c
         else let c = c[14 := c ! 14 + 1]
              in if c ! 14 \<noteq> 0 then c
                 else let c = c[13 := c ! 13 + 1]
                      in if c ! 13 \<noteq> 0 then c else c[12 := c ! 12 + 1])"

definition shr1 :: "bytes \<Rightarrow> bytes" where
  "shr1 x = map (\<lambda>i. if i = 0 then drop_bit 1 (x ! 0) else drop_bit 1 (x ! i) OR push_bit 7 (x ! (i - 1))) [0..<16]"

definition gf_step :: "bytes \<times> bytes \<Rightarrow> u8 \<Rightarrow> bytes \<times> bytes" where
  "gf_step zv m =
     (let (z, v) = zv; z = map (\<lambda>j. z ! j XOR (v ! j AND m)) [0..<16]; lsb = - (v ! 15 AND 1); v = shr1 v
      in (z, v[0 := v ! 0 XOR (0xe1 AND lsb)]))"

definition gcm_xor16 :: "bytes \<Rightarrow> bytes \<Rightarrow> bytes" where
  "gcm_xor16 dst src = map (\<lambda>i. dst ! i XOR src ! i) [0..<16]"

definition gcm_gf_mul :: "bytes \<Rightarrow> bytes \<Rightarrow> bytes" where
  "gcm_gf_mul x y =
     fst (fold (\<lambda>b zv. gf_step zv (- (drop_bit (7 - b mod 8) (y ! (b div 8)) AND 1))) [0..<128] (replicate 16 0, take 16 x))"

definition gcm_ghash_block :: "bytes \<Rightarrow> bytes \<Rightarrow> bytes \<Rightarrow> bytes" where
  "gcm_ghash_block h y block = gcm_gf_mul (gcm_xor16 y block) (take 16 h)"

definition gcm_put_be64 :: "u64 \<Rightarrow> bytes" where
  "gcm_put_be64 v = map (\<lambda>i. ucast (drop_bit (56 - i * 8) v)) [0..<8]"

function ghash_loop :: "bytes \<Rightarrow> bytes \<Rightarrow> bytes \<Rightarrow> nat \<Rightarrow> bytes" where
  "ghash_loop h y p off =
     (if off < length p then ghash_loop h (gcm_ghash_block h y (load_block p off (length p))) p (off + 16) else y)"
  by pat_completeness auto
termination by (relation "measure (\<lambda>(h, y, p, off). length p - off)") auto

declare ghash_loop.simps [simp del]

definition gcm_ghash_bytes :: "bytes \<Rightarrow> bytes \<Rightarrow> bytes \<Rightarrow> bytes" where
  "gcm_ghash_bytes h y p = ghash_loop h y p 0"

section \<open>gcm\_ctr.c, gcm\_open.c and gcm\_gcm256.c\<close>

text \<open>
  The AES-128 and AES-256 functions differ only in the block cipher they call; \<open>gcm_ctx\<close> holds the
  key schedule, the nonce and the associated data, \<open>gcm_st\<close> the hash key and \<open>J0\<close>.
\<close>

record gcm_ctx =
  gc_aes :: "u32 list"
  gc_nonce :: bytes
  gc_aad :: bytes

record gcm_st =
  gs_g :: gcm_ctx
  gs_h :: bytes
  gs_j0 :: bytes

definition ctr_chunk :: "aes128 \<Rightarrow> bytes \<Rightarrow> bytes \<Rightarrow> bytes \<times> bytes" where
  "ctr_chunk a ctr src =
     (let n = min (length src) 16; ks = aes128_encrypt a ctr in (map2 (XOR) (take n src) (take n ks), gcm_ctr_inc ctr))"

function gcm_ctr_xor :: "aes128 \<Rightarrow> bytes \<Rightarrow> bytes \<Rightarrow> bytes" where
  "gcm_ctr_xor a ctr src =
     (if src = [] then [] else let (o1, ctr) = ctr_chunk a ctr src in o1 @ gcm_ctr_xor a ctr (drop 16 src))"
  by pat_completeness auto
termination by (relation "measure (\<lambda>(a, ctr, src). length src)") auto

declare gcm_ctr_xor.simps [simp del]

definition gcm_setup :: "gcm_ctx \<Rightarrow> gcm_st" where
  "gcm_setup g = \<lparr>gs_g = g, gs_h = aes128_encrypt (gc_aes g) (replicate 16 0), gs_j0 = take 12 (gc_nonce g) @ [0, 0, 0, 1]\<rparr>"

definition data_ctr :: "gcm_st \<Rightarrow> bytes" where
  "data_ctr st = gcm_ctr_inc (gs_j0 st)"

definition gcm_tag :: "gcm_st \<Rightarrow> bytes \<Rightarrow> bytes" where
  "gcm_tag st ct =
     (let y = gcm_ghash_bytes (gs_h st) (replicate 16 0) (gc_aad (gs_g st));
          y = gcm_ghash_bytes (gs_h st) y ct;
          lens = gcm_put_be64 (of_nat (length (gc_aad (gs_g st))) * 8) @ gcm_put_be64 (of_nat (length ct) * 8);
          y = gcm_ghash_block (gs_h st) y lens;
          ej0 = aes128_encrypt (gc_aes (gs_g st)) (gs_j0 st)
      in map (\<lambda>i. y ! i XOR ej0 ! i) [0..<16])"

definition gcm_seal_scalar :: "gcm_ctx \<Rightarrow> bytes \<Rightarrow> bytes" where
  "gcm_seal_scalar g pt = (let st = gcm_setup g; ct = gcm_ctr_xor (gc_aes g) (data_ctr st) pt in ct @ gcm_tag st ct)"

definition gcm_open_scalar :: "gcm_ctx \<Rightarrow> bytes \<Rightarrow> bytes option" where
  "gcm_open_scalar g ct =
     (let body = take (length ct - 16) ct; st = gcm_setup g; want = gcm_tag st body
      in if ct_diff16 want (drop (length ct - 16) ct) \<noteq> 0 then None else Some (gcm_ctr_xor (gc_aes g) (data_ctr st) body))"

definition ctr_chunk256 :: "aes256 \<Rightarrow> bytes \<Rightarrow> bytes \<Rightarrow> bytes \<times> bytes" where
  "ctr_chunk256 a ctr src =
     (let n = min (length src) 16; ks = aes256_encrypt a ctr in (map2 (XOR) (take n src) (take n ks), gcm_ctr_inc ctr))"

function ctr_xor256 :: "aes256 \<Rightarrow> bytes \<Rightarrow> bytes \<Rightarrow> bytes" where
  "ctr_xor256 a ctr src =
     (if src = [] then [] else let (o1, ctr) = ctr_chunk256 a ctr src in o1 @ ctr_xor256 a ctr (drop 16 src))"
  by pat_completeness auto
termination by (relation "measure (\<lambda>(a, ctr, src). length src)") auto

declare ctr_xor256.simps [simp del]

definition gcm_setup256 :: "gcm_ctx \<Rightarrow> gcm_st" where
  "gcm_setup256 g = \<lparr>gs_g = g, gs_h = aes256_encrypt (gc_aes g) (replicate 16 0), gs_j0 = take 12 (gc_nonce g) @ [0, 0, 0, 1]\<rparr>"

definition data_ctr256 :: "gcm_st \<Rightarrow> bytes" where
  "data_ctr256 st = gcm_ctr_inc (gs_j0 st)"

definition gcm_tag256 :: "gcm_st \<Rightarrow> bytes \<Rightarrow> bytes" where
  "gcm_tag256 st ct =
     (let y = gcm_ghash_bytes (gs_h st) (replicate 16 0) (gc_aad (gs_g st));
          y = gcm_ghash_bytes (gs_h st) y ct;
          lens = gcm_put_be64 (of_nat (length (gc_aad (gs_g st))) * 8) @ gcm_put_be64 (of_nat (length ct) * 8);
          y = gcm_ghash_block (gs_h st) y lens;
          ej0 = aes256_encrypt (gc_aes (gs_g st)) (gs_j0 st)
      in map (\<lambda>i. y ! i XOR ej0 ! i) [0..<16])"

definition gcm256_seal :: "gcm_ctx \<Rightarrow> bytes \<Rightarrow> bytes" where
  "gcm256_seal g pt = (let st = gcm_setup256 g; ct = ctr_xor256 (gc_aes g) (data_ctr256 st) pt in ct @ gcm_tag256 st ct)"

definition gcm256_open :: "gcm_ctx \<Rightarrow> bytes \<Rightarrow> bytes option" where
  "gcm256_open g ct =
     (if length ct < 16 then None
      else let body = take (length ct - 16) ct; st = gcm_setup256 g; want = gcm_tag256 st body
           in if ct_diff16 want (drop (length ct - 16) ct) \<noteq> 0 then None else Some (ctr_xor256 (gc_aes g) (data_ctr256 st) body))"

section \<open>Counter mode\<close>

text \<open>
  Counter mode over a block function \<open>ks\<close>, the shape both \<open>gcm_ctr_xor\<close> and \<open>ctr_xor256\<close> have.
\<close>

function ctr_mode :: "(bytes \<Rightarrow> bytes) \<Rightarrow> bytes \<Rightarrow> bytes \<Rightarrow> bytes" where
  "ctr_mode ks ctr src =
     (if src = [] then [] else map2 (XOR) (take 16 src) (take (length src) (ks ctr)) @ ctr_mode ks (gcm_ctr_inc ctr) (drop 16 src))"
  by pat_completeness auto
termination by (relation "measure (\<lambda>(ks, ctr, src). length src)") auto

declare ctr_mode.simps [simp del]

lemma length_add_round_key [simp]: "length (add_round_key s rk) = 16"
  by (simp add: add_round_key_def length_concat comp_def sum_list_triv)

lemma length_round_last [simp]: "length (round_last s rk) = 16"
  by (simp add: round_last_def)

lemma length_aes128_encrypt [simp]: "length (aes128_encrypt a src) = 16"
  by (simp add: aes128_encrypt_def Let_def)

lemma length_aes256_encrypt [simp]: "length (aes256_encrypt a src) = 16"
  by (simp add: aes256_encrypt_def Let_def)

lemma gcm_ctr_xor_mode: "gcm_ctr_xor a ctr src = ctr_mode (aes128_encrypt a) ctr src"
proof (induction a ctr src rule: gcm_ctr_xor.induct)
  case (1 a ctr src)
  have t: "take (min (length src) 16) src = take 16 src" "take (min (length src) 16) (aes128_encrypt a ctr) = take (length src) (aes128_encrypt a ctr)"
    by (simp_all add: min_def)
  show ?case using 1 by (subst gcm_ctr_xor.simps, subst ctr_mode.simps) (simp add: ctr_chunk_def Let_def t)
qed

lemma ctr_xor256_mode: "ctr_xor256 a ctr src = ctr_mode (aes256_encrypt a) ctr src"
proof (induction a ctr src rule: ctr_xor256.induct)
  case (1 a ctr src)
  have t: "take (min (length src) 16) src = take 16 src" "take (min (length src) 16) (aes256_encrypt a ctr) = take (length src) (aes256_encrypt a ctr)"
    by (simp_all add: min_def)
  show ?case using 1 by (subst ctr_xor256.simps, subst ctr_mode.simps) (simp add: ctr_chunk256_def Let_def t)
qed

locale block_cipher =
  fixes ks :: "bytes \<Rightarrow> bytes"
  assumes length_ks [simp]: "length (ks c) = 16"
begin

lemma length_ctr_mode [simp]: "length (ctr_mode ks ctr src) = length src"
proof (induction "length src" arbitrary: ctr src rule: less_induct)
  case less
  then show ?case by (cases "src = []") (simp_all add: ctr_mode.simps [of ks ctr src] ctr_mode.simps [of ks ctr "[]"] min_def)
qed

lemma ctr_mode_twice: "ctr_mode ks ctr (ctr_mode ks ctr src) = src"
proof (induction "length src" arbitrary: ctr src rule: less_induct)
  case less
  show ?case
  proof (cases "src = []")
    case True
    then show ?thesis by (simp add: ctr_mode.simps)
  next
    case False
    define x y where "x = map2 (XOR) (take 16 src) (take (length src) (ks ctr))" and "y = ctr_mode ks (gcm_ctr_inc ctr) (drop 16 src)"
    have e: "ctr_mode ks ctr src = x @ y" using False by (simp add: ctr_mode.simps [of ks ctr src] x_def y_def)
    have lx: "length x = min (length src) 16" and ly: "length y = length src - 16" by (simp_all add: x_def y_def min_def)
    have ne: "(x @ y = []) = False" using False lx by (cases src) auto
    have "take 16 (x @ y) = x" "drop 16 (x @ y) = y" using lx ly by (auto simp: min_def)
    moreover have "length (x @ y) = length src" using lx ly by (simp add: min_def)
    moreover have "map2 (XOR) x (take (length src) (ks ctr)) = take 16 src" unfolding x_def by (rule xor_twice) (simp add: min_def)
    moreover have "ctr_mode ks (gcm_ctr_inc ctr) y = drop 16 src" unfolding y_def using False by (intro less) simp
    ultimately have "ctr_mode ks ctr (x @ y) = take 16 src @ drop 16 src"
      using ctr_mode.simps [of ks ctr "x @ y"] by (simp only: ne if_False)
    then show ?thesis by (simp add: e)
  qed
qed

end

interpretation aes128: block_cipher "aes128_encrypt a" for a
  by unfold_locales simp

interpretation aes256: block_cipher "aes256_encrypt a" for a
  by unfold_locales simp

section \<open>Sealing and opening\<close>

text \<open>
  What packet protection relies on in an AEAD: sealing adds 16 bytes, and opening accepts exactly
  what sealing produces. \<open>None\<close> of \<open>seal\<close> and the outer \<open>None\<close> of \<open>unseal\<close> are undefined behaviour.
\<close>

locale aead =
  fixes seal :: "'c \<Rightarrow> bytes \<Rightarrow> bytes option"
    and unseal :: "'c \<Rightarrow> bytes \<Rightarrow> bytes option option"
  assumes unseal_seal: "seal c pt = Some x \<Longrightarrow> unseal c x = Some (Some pt)"
    and only_sealed: "unseal c x = Some (Some pt) \<Longrightarrow> seal c pt = Some x"
    and seal_length: "seal c pt = Some x \<Longrightarrow> length x = length pt + 16"
begin

lemma unseal_iff: "unseal c x = Some (Some pt) \<longleftrightarrow> seal c pt = Some x"
  using unseal_seal only_sealed by blast

lemma seal_inj: "seal c pt = Some x \<Longrightarrow> seal c pt' = Some x \<Longrightarrow> pt = pt'"
  using unseal_seal [of c pt x] unseal_seal [of c pt' x] by simp

lemma unseal_length: "unseal c x = Some (Some pt) \<Longrightarrow> length x = length pt + 16"
  using seal_length only_sealed by blast

lemma unseal_short: "length x < 16 \<Longrightarrow> unseal c x \<noteq> Some (Some pt)"
  using unseal_length by fastforce

end

lemma length_gcm_tag [simp]: "length (gcm_tag st ct) = 16"
  by (simp add: gcm_tag_def Let_def)

lemma length_gcm_tag256 [simp]: "length (gcm_tag256 st ct) = 16"
  by (simp add: gcm_tag256_def Let_def)

interpretation chapoly: aead chapoly_seal chapoly_open
proof
  show "chapoly_seal c pt = Some x \<Longrightarrow> length x = length pt + 16" for c pt x
    by (auto simp: chapoly_seal_def Let_def dest: length_chapoly_tag split: bind_splits)
qed (auto intro: chapoly_open_seal chapoly_open_only_sealed)

interpretation gcm256: aead "\<lambda>g pt. Some (gcm256_seal g pt)" "\<lambda>g ct. Some (gcm256_open g ct)"
proof
  show "Some (gcm256_seal c pt) = Some x \<Longrightarrow> Some (gcm256_open c x) = Some (Some pt)" for c pt x
    by (auto simp: gcm256_seal_def gcm256_open_def Let_def ct_diff16_0 ctr_xor256_mode aes256.ctr_mode_twice)
  show "Some (gcm256_seal c pt) = Some x" if "Some (gcm256_open c x) = Some (Some pt)" for c pt x
  proof -
    let ?body = "take (length x - 16) x" and ?tag = "drop (length x - 16) x" and ?st = "gcm_setup256 c"
    have o: "16 \<le> length x" "ct_diff16 (gcm_tag256 ?st ?body) ?tag = 0" "pt = ctr_xor256 (gc_aes c) (data_ctr256 ?st) ?body"
      using that by (auto simp: gcm256_open_def Let_def split: if_splits)
    then have "gcm_tag256 ?st ?body = ?tag" by (simp add: ct_diff16_0)
    then show ?thesis using o(3) by (simp add: gcm256_seal_def Let_def ctr_xor256_mode aes256.ctr_mode_twice)
  qed
  show "Some (gcm256_seal c pt) = Some x \<Longrightarrow> length x = length pt + 16" for c pt x
    by (auto simp: gcm256_seal_def Let_def ctr_xor256_mode)
qed

lemma gcm_scalar_open_seal: "gcm_open_scalar g (gcm_seal_scalar g pt) = Some pt"
  by (simp add: gcm_seal_scalar_def gcm_open_scalar_def Let_def ct_diff16_0 gcm_ctr_xor_mode aes128.ctr_mode_twice)

lemma gcm_scalar_only_sealed:
  assumes "gcm_open_scalar g x = Some pt" and "16 \<le> length x"
  shows "gcm_seal_scalar g pt = x"
proof -
  let ?body = "take (length x - 16) x" and ?tag = "drop (length x - 16) x" and ?st = "gcm_setup g"
  have o: "ct_diff16 (gcm_tag ?st ?body) ?tag = 0" "pt = gcm_ctr_xor (gc_aes g) (data_ctr ?st) ?body"
    using assms(1) by (auto simp: gcm_open_scalar_def Let_def split: if_splits)
  then have "gcm_tag ?st ?body = ?tag" using assms(2) by (simp add: ct_diff16_0)
  then show ?thesis using o(2) by (simp add: gcm_seal_scalar_def Let_def gcm_ctr_xor_mode aes128.ctr_mode_twice)
qed

lemma length_gcm_seal_scalar [simp]: "length (gcm_seal_scalar g pt) = length pt + 16"
  by (simp add: gcm_seal_scalar_def Let_def gcm_ctr_xor_mode)
end
