(* ===== verification/Gcm_X86.thy ===== *)
theory Gcm_X86
  imports Aes_Gcm
begin

unbundle bit_operations_syntax

text \<open>
  AES-128-GCM on x86-64 with AES-NI and PCLMULQDQ: \<^verbatim>\<open>src/crypto/symmetric/aead/gcmx86\<close> over the
  instruction wrappers of \<^verbatim>\<open>src/common/arch/x8664/simd128.h\<close>, and the run-time choice between it and
  the portable code in \<^verbatim>\<open>gcm_open.c\<close>. An SSE register is a 128-bit word whose byte lane \<open>i\<close> is bits
  \<open>8 * i\<close> to \<open>8 * i + 7\<close>. The theory shows that both paths compute the same function.
\<close>

section \<open>simd128.h\<close>

text \<open>
  The instructions, as the Intel manual gives them: \<open>pclmulqdq\<close> multiplies the selected 64-bit halves
  without carries, \<open>pslldq\<close> and \<open>psrldq\<close> shift by bytes, \<open>aesenc\<close> is ShiftRows, SubBytes, MixColumns
  and the round key, \<open>aesenclast\<close> the same without MixColumns.
\<close>

type_synonym v128 = "128 word"

definition half64 :: "v128 \<Rightarrow> bool \<Rightarrow> v128" where
  "half64 a hi = (if hi then drop_bit 64 a else take_bit 64 a)"

definition WIRED_ARCH_CLMUL :: "v128 \<Rightarrow> v128 \<Rightarrow> u8 \<Rightarrow> v128" where
  "WIRED_ARCH_CLMUL a b imm =
     (let x = half64 a (bit imm 0); y = half64 b (bit imm 4)
      in fold (\<lambda>i r. if bit y i then r XOR push_bit i x else r) [0..<64] 0)"

definition WIRED_ARCH_VSHLB :: "v128 \<Rightarrow> nat \<Rightarrow> v128" where
  "WIRED_ARCH_VSHLB a imm = push_bit (8 * imm) a"

definition WIRED_ARCH_VSHRB :: "v128 \<Rightarrow> nat \<Rightarrow> v128" where
  "WIRED_ARCH_VSHRB a imm = drop_bit (8 * imm) a"

definition lane :: "v128 \<Rightarrow> nat \<Rightarrow> u32" where
  "lane a i = ucast (drop_bit (32 * i) a)"

definition of_lanes :: "(nat \<Rightarrow> u32) \<Rightarrow> v128" where
  "of_lanes f = ucast (f 0) OR push_bit 32 (ucast (f 1)) OR push_bit 64 (ucast (f 2)) OR push_bit 96 (ucast (f 3))"

definition lanes_shl :: "v128 \<Rightarrow> nat \<Rightarrow> v128" where
  "lanes_shl a k = of_lanes (\<lambda>i. push_bit k (lane a i))"

definition lanes_shr :: "v128 \<Rightarrow> nat \<Rightarrow> v128" where
  "lanes_shr a k = of_lanes (\<lambda>i. drop_bit k (lane a i))"

section \<open>gcmx86\_impl.h: the field\<close>

definition gcmx86_shl1_256 :: "v128 \<times> v128 \<Rightarrow> v128 \<times> v128" where
  "gcmx86_shl1_256 lohi =
     (let (lo, hi) = lohi; cl = lanes_shr lo 31; ch = lanes_shr hi 31
      in (lanes_shl lo 1 OR WIRED_ARCH_VSHLB cl 4,
          lanes_shl hi 1 OR WIRED_ARCH_VSHLB ch 4 OR WIRED_ARCH_VSHRB cl 12))"

definition gcmx86_reduce :: "v128 \<Rightarrow> v128 \<Rightarrow> v128" where
  "gcmx86_reduce lo hi =
     (let l = lo; t = lanes_shl l 31 XOR lanes_shl l 30 XOR lanes_shl l 25; kept = WIRED_ARCH_VSHRB t 4;
          l = l XOR WIRED_ARCH_VSHLB t 12;
          r = lanes_shr l 1 XOR lanes_shr l 2 XOR lanes_shr l 7 XOR kept
      in hi XOR (l XOR r))"

definition gcmx86_clmul256 :: "v128 \<Rightarrow> v128 \<Rightarrow> v128 \<times> v128" where
  "gcmx86_clmul256 a b =
     (let d = WIRED_ARCH_CLMUL a b 0x00; c = WIRED_ARCH_CLMUL a b 0x11;
          ax = a XOR WIRED_ARCH_VSHRB a 8; bx = b XOR WIRED_ARCH_VSHRB b 8;
          e = WIRED_ARCH_CLMUL ax bx 0x00 XOR c XOR d
      in (d XOR WIRED_ARCH_VSHLB e 8, c XOR WIRED_ARCH_VSHRB e 8))"

definition gcmx86_gfmul :: "v128 \<Rightarrow> v128 \<Rightarrow> v128" where
  "gcmx86_gfmul a b =
     (let lohi = gcmx86_clmul256 a b; (lo, hi) = gcmx86_shl1_256 lohi in gcmx86_reduce lo hi)"

section \<open>Sums without carries\<close>

primrec xsum :: "(nat \<Rightarrow> 'a :: len word) \<Rightarrow> nat \<Rightarrow> 'a word" where
  "xsum f 0 = 0"
| "xsum f (Suc n) = xsum f n XOR f n"

lemma fold_xsum: "fold (\<lambda>i r. if P i then r XOR f i else r) [0..<n] 0 = xsum (\<lambda>i. if P i then f i else 0) n"
  by (induction n) auto

lemma xsum_cong: "(\<And>i. i < n \<Longrightarrow> f i = g i) \<Longrightarrow> xsum f n = xsum g n"
  by (induction n) auto

lemma xsum_xor: "xsum (\<lambda>i. f i XOR g i) n = xsum f n XOR xsum g n"
  by (induction n) (simp_all add: xor.assoc xor.left_commute)

lemma xsum_map:
  assumes "\<And>a b. T (a XOR b) = T a XOR T b" and "T 0 = 0"
  shows "T (xsum f n) = xsum (\<lambda>i. T (f i)) n"
  by (induction n) (simp_all add: assms)

lemma xsum_shift: "xsum f (Suc n) = f 0 XOR xsum (\<lambda>i. f (Suc i)) n"
  by (induction n) (simp_all add: xor.assoc)

lemma xsum_rev: "xsum f n = xsum (\<lambda>i. f (n - 1 - i)) n"
proof (induction n arbitrary: f)
  case (Suc n)
  have "xsum f (Suc n) = f 0 XOR xsum (\<lambda>i. f (Suc (n - 1 - i))) n" using Suc.IH [of "\<lambda>i. f (Suc i)"] by (simp only: xsum_shift)
  also have "xsum (\<lambda>i. f (Suc (n - 1 - i))) n = xsum (\<lambda>i. f (Suc n - 1 - i)) n"
    by (rule xsum_cong) (simp add: Suc_diff_Suc)
  finally show ?case by (simp add: xor.commute)
qed simp

lemma xsum_add: "xsum f (m + n) = xsum f m XOR xsum (\<lambda>i. f (m + i)) n"
  by (induction n) (simp_all add: xor.assoc)

lemma push_bit_xor_word: "push_bit n (a XOR b) = push_bit n a XOR (push_bit n b :: 'a :: len word)"
  by (rule bit_word_eqI) (auto simp: bit_simps)

lemma drop_bit_xor_word: "drop_bit n (a XOR b) = drop_bit n a XOR (drop_bit n b :: 'a :: len word)"
  by (rule bit_word_eqI) (auto simp: bit_simps)

section \<open>Lanes\<close>

lemma bit_of_lanes: "bit (of_lanes f) n \<longleftrightarrow> n < 128 \<and> bit (f (n div 32)) (n mod 32)"
proof -
  consider "n < 32" | "32 \<le> n" "n < 64" | "64 \<le> n" "n < 96" | "96 \<le> n" "n < 128" | "128 \<le> n" by linarith
  then show ?thesis
  proof cases
    case 1
    then show ?thesis by (auto simp: of_lanes_def bit_simps)
  next
    case 2
    then have "n div 32 = 1" "n mod 32 = n - 32" by (auto intro: div_nat_eqI simp: mod_nat_eqI le_mod_geq)
    then show ?thesis using 2 by (auto simp: of_lanes_def bit_simps dest: bit_imp_le_length)
  next
    case 3
    then have "n div 32 = 2" "n mod 32 = n - 64" by (auto intro: div_nat_eqI simp: le_mod_geq)
    then show ?thesis using 3 by (auto simp: of_lanes_def bit_simps dest: bit_imp_le_length)
  next
    case 4
    then have "n div 32 = 3" "n mod 32 = n - 96" by (auto intro: div_nat_eqI simp: le_mod_geq)
    then show ?thesis using 4 by (auto simp: of_lanes_def bit_simps dest: bit_imp_le_length)
  next
    case 5
    then show ?thesis by (auto simp: of_lanes_def bit_simps dest: bit_imp_le_length)
  qed
qed

lemma bit_lane: "bit (lane a i) n \<longleftrightarrow> n < 32 \<and> bit a (32 * i + n)"
  by (auto simp: lane_def bit_simps)

lemma bit_lanes_shl: "bit (lanes_shl a k) n \<longleftrightarrow> n < 128 \<and> k \<le> n mod 32 \<and> bit a (n - k)"
proof -
  have "32 * (n div 32) + (n mod 32 - k) = n - k" if "k \<le> n mod 32" using that mult_div_mod_eq [of 32 n] by linarith
  then show ?thesis by (auto simp: lanes_shl_def bit_of_lanes bit_push_bit_iff bit_lane)
qed

lemma bit_lanes_shr: "bit (lanes_shr a k) n \<longleftrightarrow> n < 128 \<and> n mod 32 + k < 32 \<and> bit a (n + k)"
proof -
  have "32 * (n div 32) + (k + n mod 32) = n + k" using mult_div_mod_eq [of 32 n] by linarith
  then show ?thesis by (auto simp: lanes_shr_def bit_of_lanes bit_drop_bit_eq bit_lane add.commute)
qed

section \<open>The carry-less product\<close>

definition clm :: "256 word \<Rightarrow> v128 \<Rightarrow> nat \<Rightarrow> 256 word" where
  "clm a b n = xsum (\<lambda>i. if bit b i then push_bit i a else 0) n"

lemma clm_xor_left: "clm (a XOR a') b n = clm a b n XOR clm a' b n"
  unfolding clm_def by (subst xsum_xor [symmetric], rule xsum_cong) (simp add: push_bit_xor_word)

lemma clm_xor_right: "clm a (b XOR b') n = clm a b n XOR clm a b' n"
  unfolding clm_def by (subst xsum_xor [symmetric], rule xsum_cong) (simp add: bit_xor_iff)

lemma clm_push: "clm (push_bit k a) b n = push_bit k (clm a b n)"
  unfolding clm_def by (subst xsum_map [where T = "push_bit k"])
    (auto simp: push_bit_xor_word push_bit_push_bit add.commute intro!: xsum_cong)

lemma clm_low: "clm a (take_bit 64 b) 64 = clm a b 64"
  unfolding clm_def by (rule xsum_cong) (simp add: bit_take_bit_iff)

lemma clm_split: "clm a b 128 = clm a b 64 XOR push_bit 64 (clm a (drop_bit 64 b) 64)"
proof -
  have "clm a b 128 = clm a b 64 XOR xsum (\<lambda>i. if bit b (64 + i) then push_bit (64 + i) a else 0) 64"
    using xsum_add [of "\<lambda>i. if bit b i then push_bit i a else 0" 64 64] by (simp add: clm_def)
  also have "xsum (\<lambda>i. if bit b (64 + i) then push_bit (64 + i) a else 0) 64 = push_bit 64 (clm a (drop_bit 64 b) 64)"
    unfolding clm_def by (subst xsum_map [where T = "push_bit 64"])
      (auto simp: push_bit_xor_word push_bit_push_bit bit_drop_bit_eq add.commute intro!: xsum_cong)
  finally show ?thesis .
qed

lemma ucast_xor: "(ucast (a XOR b) :: 'b :: len word) = ucast (a :: 'a :: len word) XOR ucast b"
  by (rule bit_word_eqI) (auto simp: bit_simps)

lemma ucast_clmul:
  "(ucast (WIRED_ARCH_CLMUL a b imm) :: 256 word) = clm (ucast (half64 a (bit imm 0))) (half64 b (bit imm 4)) 64"
proof -
  let ?x = "half64 a (bit imm 0)" and ?y = "half64 b (bit imm 4)"
  have x: "\<not> bit ?x n" if "64 \<le> n" for n
    using that by (auto simp: half64_def bit_take_bit_iff bit_drop_bit_eq dest: bit_imp_le_length)
  have "(ucast (push_bit i ?x) :: 256 word) = push_bit i (ucast ?x)" if "i < 64" for i
  proof (rule bit_word_eqI)
    fix n :: nat assume "n < LENGTH(256)"
    then show "bit (ucast (push_bit i ?x) :: 256 word) n = bit (push_bit i (ucast ?x :: 256 word)) n"
      using that x [of "n - i"] by (cases "64 \<le> n - i") (auto simp: bit_ucast_iff bit_push_bit_iff)
  qed
  then have "xsum (\<lambda>i. ucast (if bit ?y i then push_bit i ?x else 0) :: 256 word) 64
      = xsum (\<lambda>i. if bit ?y i then push_bit i (ucast ?x) else 0) 64" by (intro xsum_cong) auto
  then show ?thesis unfolding WIRED_ARCH_CLMUL_def Let_def fold_xsum clm_def
    by (subst xsum_map [where T = ucast]) (simp_all add: ucast_xor)
qed

lemma halves: "(ucast (a :: v128) :: 256 word) = ucast (half64 a False) XOR push_bit 64 (ucast (half64 a True))"
  by (rule bit_word_eqI) (auto simp: half64_def bit_simps dest: bit_imp_le_length)

lemma clmul256_product:
  assumes "gcmx86_clmul256 a b = (lo, hi)"
  shows "ucast lo XOR push_bit 128 (ucast hi) = clm (ucast a) b 128"
proof -
  define d c e where "d = WIRED_ARCH_CLMUL a b 0x00" and "c = WIRED_ARCH_CLMUL a b 0x11"
    and "e = WIRED_ARCH_CLMUL (a XOR WIRED_ARCH_VSHRB a 8) (b XOR WIRED_ARCH_VSHRB b 8) 0x00 XOR c XOR d"
  let ?u = "ucast :: v128 \<Rightarrow> 256 word"
  let ?a0 = "?u (half64 a False)" and ?a1 = "?u (half64 a True)" and ?b0 = "half64 b False" and ?b1 = "half64 b True"
  have lohi: "lo = d XOR push_bit 64 e" "hi = c XOR drop_bit 64 e"
    using assms by (simp_all add: gcmx86_clmul256_def Let_def d_def c_def e_def WIRED_ARCH_VSHLB_def WIRED_ARCH_VSHRB_def)
  have d: "?u d = clm ?a0 ?b0 64" and c: "?u c = clm ?a1 ?b1 64" by (simp_all add: d_def c_def ucast_clmul bit_numeral_rec)
  have hx: "half64 (x XOR WIRED_ARCH_VSHRB x 8) False = half64 x False XOR half64 x True" for x
    by (rule bit_word_eqI) (auto simp: half64_def WIRED_ARCH_VSHRB_def bit_simps dest: bit_imp_le_length)
  have "?u e = clm (?a0 XOR ?a1) (?b0 XOR ?b1) 64 XOR ?u c XOR ?u d" by (simp add: e_def ucast_xor ucast_clmul hx)
  also have "\<dots> = clm ?a0 ?b1 64 XOR clm ?a1 ?b0 64"
    unfolding d c clm_xor_left clm_xor_right by (simp add: xor.assoc xor.left_commute xor.commute)
  finally have e: "?u e = clm ?a0 ?b1 64 XOR clm ?a1 ?b0 64" .
  have "?u lo XOR push_bit 128 (?u hi) = ?u d XOR push_bit 64 (?u e) XOR push_bit 128 (?u c)"
    unfolding lohi by (rule bit_word_eqI) (auto simp: bit_simps dest: bit_imp_le_length)
  moreover have "clm (?u a) b 128 = clm ?a0 b 64 XOR push_bit 64 (clm ?a1 b 64) XOR push_bit 64 (clm ?a0 (drop_bit 64 b) 64) XOR push_bit 128 (clm ?a1 (drop_bit 64 b) 64)"
    unfolding halves [of a] clm_xor_left clm_push clm_split [of ?a0] clm_split [of ?a1] push_bit_xor_word push_bit_push_bit
    by (simp add: xor.assoc xor.left_commute)
  moreover have "clm x b 64 = clm x ?b0 64" "drop_bit 64 b = ?b1" for x by (simp_all add: half64_def clm_low)
  ultimately show ?thesis unfolding d c e push_bit_xor_word by (simp add: xor.assoc xor.left_commute xor.commute)
qed

section \<open>Shifting and reducing\<close>

lemma bit_push_1: "bit (push_bit 1 (x :: 'a :: len word)) n \<longleftrightarrow> 1 \<le> n \<and> n < LENGTH('a) \<and> bit x (n - 1)"
  by (simp only: bit_push_bit_iff possible_bit_word, blast?)

lemma shl1_256_shifts:
  assumes "gcmx86_shl1_256 (lo, hi) = (lo', hi')"
  shows "ucast lo' XOR push_bit 128 (ucast hi') = push_bit 1 (ucast lo XOR push_bit 128 (ucast hi) :: 256 word)"
proof -
  have step: "(n mod 32 = 0 \<and> 32 \<le> n \<or> 1 \<le> n mod 32) \<longleftrightarrow> 1 \<le> n" for n :: nat
    using mod_less_eq_dividend [of n 32] by (cases "n < 32") auto
  have lo: "lo' = push_bit 1 lo"
  proof (rule bit_word_eqI)
    fix n :: nat assume n: "n < LENGTH(128)"
    have "bit lo' n \<longleftrightarrow> (1 \<le> n mod 32 \<or> n mod 32 = 0 \<and> 32 \<le> n) \<and> bit lo (n - 1)"
      using assms n by (auto simp: gcmx86_shl1_256_def Let_def WIRED_ARCH_VSHLB_def bit_simps bit_lanes_shl bit_lanes_shr le_mod_geq)
    then show "bit lo' n = bit (push_bit 1 lo) n" using step [of n] n unfolding bit_push_1 by auto
  qed
  have top: "bit lo (127 + n) \<longleftrightarrow> n = 0 \<and> bit lo 127" for n
    by (cases n) (auto dest: bit_imp_le_length)
  have hi: "hi' = push_bit 1 hi OR drop_bit 127 lo"
  proof (rule bit_word_eqI)
    fix n :: nat assume n: "n < LENGTH(128)"
    have "bit hi' n \<longleftrightarrow> (1 \<le> n mod 32 \<or> n mod 32 = 0 \<and> 32 \<le> n) \<and> bit hi (n - 1) \<or> n = 0 \<and> bit lo 127"
      using assms n by (auto simp: gcmx86_shl1_256_def Let_def WIRED_ARCH_VSHLB_def WIRED_ARCH_VSHRB_def bit_simps bit_lanes_shl bit_lanes_shr le_mod_geq top)
    then show "bit hi' n = bit (push_bit 1 hi OR drop_bit 127 lo) n"
      using step [of n] n unfolding bit_or_iff bit_push_1 bit_drop_bit_eq comp_def top by auto
  qed
  show ?thesis unfolding lo hi
    by (rule bit_word_eqI, unfold bit_xor_iff bit_push_1 bit_push_bit_iff bit_ucast_iff bit_or_iff bit_drop_bit_eq)
      (auto simp: bit_simps dest: bit_imp_le_length)
qed

definition spread :: "v128 \<Rightarrow> v128" where
  "spread l = l XOR push_bit 127 l XOR push_bit 126 l XOR push_bit 121 l"

definition refold :: "v128 \<Rightarrow> v128" where
  "refold l = l XOR drop_bit 1 l XOR drop_bit 2 l XOR drop_bit 7 l"

lemma reduce_top:
  "l XOR WIRED_ARCH_VSHLB (lanes_shl l 31 XOR lanes_shl l 30 XOR lanes_shl l 25) 12 = spread l"
proof (rule bit_word_eqI)
  fix n :: nat assume n: "n < LENGTH(128)"
  show "bit (l XOR WIRED_ARCH_VSHLB (lanes_shl l 31 XOR lanes_shl l 30 XOR lanes_shl l 25) 12) n = bit (spread l) n"
  proof (cases "96 \<le> n")
    case True
    then have "(n - 96) mod 32 = n - 96" using n by simp
    then show ?thesis using True n by (auto simp: spread_def WIRED_ARCH_VSHLB_def bit_xor_iff bit_push_bit_iff bit_lanes_shl)
  next
    case False
    then show ?thesis using n by (auto simp: spread_def WIRED_ARCH_VSHLB_def bit_xor_iff bit_push_bit_iff bit_lanes_shl)
  qed
qed

lemma lanes_split:
  assumes "k \<le> 7" and "0 < k" and "l' = spread l" and "n < 128"
  shows "bit (drop_bit k l') n \<longleftrightarrow> bit (lanes_shr l' k) n \<noteq> (n < 96 \<and> 32 - k \<le> n mod 32 \<and> bit l (n + k))"
proof -
  have same: "bit l' (n + k) = bit l (n + k)" if "n < 96" "32 - k \<le> n mod 32"
  proof -
    have "n mod 32 + k - 32 < 7" using assms(1) mod_less_divisor [of 32 n] by linarith
    have "n + k < 103" using that(1) assms(1) by linarith
    then show ?thesis using assms(3) by (auto simp: spread_def bit_xor_iff bit_push_bit_iff)
  qed
  have "n mod 32 + k < 32 \<longleftrightarrow> \<not> 32 - k \<le> n mod 32" using assms(1) by linarith
  moreover have "\<not> bit l' (n + k)" if "96 \<le> n" "32 - k \<le> n mod 32"
  proof -
    have "n mod 32 = n - 96" using that(1) assms(4) by (simp add: le_mod_geq)
    then have "128 \<le> n + k" using that assms(1) by linarith
    then show ?thesis by (auto dest: bit_imp_le_length)
  qed
  moreover have "n < 96 \<or> 96 \<le> n" by linarith
  moreover have "bit (drop_bit k l') n = bit l' (n + k)" by (simp add: bit_drop_bit_eq add.commute)
  ultimately show ?thesis using same assms(4) unfolding bit_lanes_shr by blast
qed

lemma gcmx86_reduce_eq: "gcmx86_reduce lo hi = hi XOR refold (spread lo)"
proof -
  define t where "t = lanes_shl lo 31 XOR lanes_shl lo 30 XOR lanes_shl lo 25"
  define l where "l = spread lo"
  have e: "gcmx86_reduce lo hi = hi XOR (l XOR (lanes_shr l 1 XOR lanes_shr l 2 XOR lanes_shr l 7 XOR drop_bit 32 t))"
    by (simp add: gcmx86_reduce_def Let_def reduce_top l_def [symmetric] t_def WIRED_ARCH_VSHRB_def)
  have "lanes_shr l 1 XOR lanes_shr l 2 XOR lanes_shr l 7 XOR drop_bit 32 t = drop_bit 1 l XOR drop_bit 2 l XOR drop_bit 7 l"
  proof (rule bit_word_eqI)
    fix n :: nat assume "n < LENGTH(128)"
    then have n: "n < 128" by simp
    have tb: "bit t (32 + n) \<longleftrightarrow> ((n < 96 \<and> 32 - 1 \<le> n mod 32 \<and> bit lo (n + 1)) \<noteq> (n < 96 \<and> 32 - 2 \<le> n mod 32 \<and> bit lo (n + 2)))
        \<noteq> (n < 96 \<and> 32 - 7 \<le> n mod 32 \<and> bit lo (n + 7))"
      unfolding t_def bit_xor_iff bit_lanes_shl by (simp add: add.commute [of n]) blast
    show "bit (lanes_shr l 1 XOR lanes_shr l 2 XOR lanes_shr l 7 XOR drop_bit 32 t) n = bit (drop_bit 1 l XOR drop_bit 2 l XOR drop_bit 7 l) n"
      using lanes_split [of 1 l lo n] lanes_split [of 2 l lo n] lanes_split [of 7 l lo n] n tb
      by (simp add: l_def bit_xor_iff bit_drop_bit_eq [of 32]) blast
  qed
  then show ?thesis unfolding e by (simp add: refold_def l_def xor.assoc)
qed

section \<open>The field of SP 800-38D\<close>

definition mulx :: "v128 \<Rightarrow> v128" where
  "mulx v = drop_bit 1 v XOR (if bit v 0 then push_bit 120 0xe1 else 0)"

definition gf_word :: "v128 \<Rightarrow> v128 \<Rightarrow> v128" where
  "gf_word x y = xsum (\<lambda>i. if bit y (127 - i) then (mulx ^^ i) x else 0) 128"

definition reduce256 :: "256 word \<Rightarrow> v128" where
  "reduce256 w = gcmx86_reduce (ucast w) (ucast (drop_bit 128 w))"

lemma refold_xor: "refold (a XOR b) = refold a XOR refold b"
  by (rule bit_word_eqI) (auto simp: refold_def bit_simps)

lemma spread_xor: "spread (a XOR b) = spread a XOR spread b"
  unfolding spread_def by (simp only: push_bit_xor_word xor.assoc xor.left_commute xor.commute)

lemma reduce256_xor: "reduce256 (a XOR b) = reduce256 a XOR reduce256 b"
  by (simp only: reduce256_def gcmx86_reduce_eq drop_bit_xor_word ucast_xor spread_xor refold_xor xor.assoc xor.left_commute xor.commute)

lemma reduce256_0: "reduce256 0 = 0"
  by (simp add: reduce256_def gcmx86_reduce_eq refold_def spread_def)

lemma refold_drop: "refold (drop_bit 1 a) = drop_bit 1 (refold a)"
  by (simp only: refold_def drop_bit_xor_word drop_bit_drop_bit add.commute)

lemma spread_bit: "n < 121 \<Longrightarrow> bit (spread l) n = bit l n"
  by (auto simp: spread_def bit_xor_iff bit_push_bit_iff)

lemma reduce256_drop:
  assumes "\<not> bit w 0"
  shows "reduce256 (drop_bit 1 w) = mulx (reduce256 w)"
proof -
  define lo hi where "lo = (ucast w :: v128)" and "hi = (ucast (drop_bit 128 w) :: v128)"
  have bl: "bit lo n \<longleftrightarrow> n < 128 \<and> bit w n" and bh: "bit hi n \<longleftrightarrow> n < 128 \<and> bit w (128 + n)" for n
    by (auto simp: lo_def hi_def bit_ucast_iff bit_drop_bit_eq)
  have hi2: "(ucast (drop_bit 128 (drop_bit 1 w)) :: v128) = drop_bit 1 hi"
    by (rule bit_word_eqI) (auto simp: hi_def bit_simps dest: bit_imp_le_length)
  have lo2: "(ucast (drop_bit 1 w) :: v128) = drop_bit 1 lo XOR push_bit 127 hi"
  proof (rule bit_word_eqI)
    fix n :: nat assume "n < LENGTH(128)"
    then consider "n < 127" | "n = 127" by fastforce
    then show "bit (ucast (drop_bit 1 w) :: v128) n = bit (drop_bit 1 lo XOR push_bit 127 hi) n"
      by cases (simp_all add: bit_xor_iff bit_push_bit_iff bit_ucast_iff bit_drop_bit_eq bl bh)
  qed
  define c where "c = bit (reduce256 w) 0"
  have c: "c \<longleftrightarrow> bit hi 0 \<noteq> (bit lo 1 \<noteq> (bit lo 2 \<noteq> bit lo 7))"
    using assms by (simp add: c_def reduce256_def gcmx86_reduce_eq lo_def [symmetric] hi_def [symmetric] refold_def
      bit_xor_iff bit_drop_bit_eq spread_bit) (simp add: bl)
  have sp: "spread (drop_bit 1 lo XOR push_bit 127 hi) = drop_bit 1 (spread lo) XOR (if c then push_bit 127 1 else 0)"
  proof (rule bit_word_eqI)
    fix n :: nat assume "n < LENGTH(128)"
    then have n: "n < 128" by simp
    have z: "\<not> bit lo 0" using assms by (simp add: bl)
    show "bit (spread (drop_bit 1 lo XOR push_bit 127 hi)) n = bit (drop_bit 1 (spread lo) XOR (if c then push_bit 127 1 else 0)) n"
    proof (cases "n < 120")
      case True
      then have "bit (spread lo) (Suc n) = bit lo (Suc n)" by (intro spread_bit) simp
      moreover have "\<not> bit (push_bit 127 1 :: v128) n" "\<not> bit (push_bit 127 hi) n" using True by (simp_all only: bit_push_bit_iff, simp_all)
      ultimately show ?thesis using True by (simp only: spread_bit bit_xor_iff bit_drop_bit_eq comp_def if_distrib [of "\<lambda>x. bit x n"]) simp
    next
      case False
      then consider "n = 120" | "n = 121" | "n = 122" | "n = 123" | "n = 124" | "n = 125" | "n = 126" | "n = 127" using n by fastforce
      then show ?thesis
        using z c by cases (simp_all add: spread_def bit_xor_iff bit_drop_bit_eq bit_push_bit_iff bit_1_iff bl bh, auto simp: numeral_2_eq_2 numeral_3_eq_3)
    qed
  qed
  have one: "refold (if c then push_bit 127 1 else 0) = (if c then push_bit 120 0xe1 else 0)"
    by (simp add: refold_def)
  have "reduce256 (drop_bit 1 w) = drop_bit 1 hi XOR (drop_bit 1 (refold (spread lo)) XOR (if c then push_bit 120 0xe1 else 0))"
    unfolding reduce256_def gcmx86_reduce_eq hi2 lo2 sp refold_xor one refold_drop ..
  also have "\<dots> = mulx (reduce256 w)"
    by (simp add: mulx_def c_def [symmetric]) (simp add: reduce256_def gcmx86_reduce_eq lo_def hi_def drop_bit_xor_word xor.assoc)
  finally show ?thesis .
qed

lemma reduce256_high: "reduce256 (push_bit 128 (ucast a)) = a"
proof -
  have "(ucast (push_bit 128 (ucast a :: 256 word)) :: v128) = 0" "(ucast (drop_bit 128 (push_bit 128 (ucast a :: 256 word))) :: v128) = a"
    by (rule bit_word_eqI, auto simp: bit_simps dest: bit_imp_le_length)+
  then show ?thesis by (simp add: reduce256_def gcmx86_reduce_eq refold_def spread_def)
qed

lemma mulx_power:
  assumes "i \<le> 128"
  shows "reduce256 (push_bit (128 - i) (ucast a)) = (mulx ^^ i) a"
  using assms
proof (induction i)
  case (Suc i)
  have "push_bit (128 - Suc i) (ucast a :: 256 word) = drop_bit 1 (push_bit (128 - i) (ucast a))"
    using Suc.prems by (intro bit_word_eqI) (auto simp: bit_push_bit_iff bit_drop_bit_eq bit_ucast_iff dest: bit_imp_le_length)
  moreover have "\<not> bit (push_bit (128 - i) (ucast a :: 256 word)) 0" using Suc.prems by (simp add: bit_push_bit_iff)
  ultimately show ?case using Suc reduce256_drop [of "push_bit (128 - i) (ucast a)"] by simp
qed (simp add: reduce256_high)

lemma diff_numeral_128: "128 - 1 = (127 :: nat)"
  by simp

lemma gcmx86_gfmul_eq: "gcmx86_gfmul a b = gf_word a b"
proof -
  obtain lo hi where p: "gcmx86_clmul256 a b = (lo, hi)" by fastforce
  obtain lo' hi' where sh: "gcmx86_shl1_256 (lo, hi) = (lo', hi')" by fastforce
  define w where "w = (ucast lo' XOR push_bit 128 (ucast hi') :: 256 word)"
  have "lo' = ucast w" "hi' = ucast (drop_bit 128 w)"
    by (rule bit_word_eqI, auto simp: w_def bit_xor_iff bit_ucast_iff bit_push_bit_iff bit_drop_bit_eq dest: bit_imp_le_length)+
  then have r: "gcmx86_gfmul a b = reduce256 w" by (simp add: gcmx86_gfmul_def p sh Let_def reduce256_def)
  have w: "w = push_bit 1 (clm (ucast a) b 128)" unfolding w_def using shl1_256_shifts [OF sh] clmul256_product [OF p] by simp
  have "reduce256 w = xsum (\<lambda>i. reduce256 (push_bit 1 (if bit b i then push_bit i (ucast a) else 0))) 128"
    unfolding w clm_def by (rule xsum_map [where T = "\<lambda>x. reduce256 (push_bit 1 x)"])
      (simp_all only: push_bit_xor_word reduce256_xor push_bit_of_0 reduce256_0)
  also have "\<dots> = xsum (\<lambda>i. reduce256 (push_bit 1 (if bit b (127 - i) then push_bit (127 - i) (ucast a) else 0))) 128"
    using xsum_rev [of "\<lambda>i. reduce256 (push_bit 1 (if bit b i then push_bit i (ucast a) else 0))" 128] by (simp only: diff_numeral_128)
  also have "\<dots> = gf_word a b" unfolding gf_word_def
  proof (rule xsum_cong)
    fix i :: nat assume i: "i < 128"
    have "push_bit 1 (push_bit (127 - i) (ucast a :: 256 word)) = push_bit (128 - i) (ucast a)"
    proof -
      have "1 + (127 - i) = 128 - i" using i by simp
      then show ?thesis using push_bit_push_bit [of 1 "127 - i" "ucast a :: 256 word"] by (simp only:)
    qed
    then show "reduce256 (push_bit 1 (if bit b (127 - i) then push_bit (127 - i) (ucast a) else 0)) = (if bit b (127 - i) then (mulx ^^ i) a else 0)"
      using i mulx_power [of i a] by (simp only: if_distrib [of "push_bit 1"] if_distrib [of reduce256] push_bit_of_0 reduce256_0, simp?)
  qed
  finally show ?thesis using r by simp
qed

section \<open>Registers and byte strings\<close>

definition of_bytes :: "(nat \<Rightarrow> u8) \<Rightarrow> v128" where
  "of_bytes f = fold (\<lambda>i v. v OR push_bit (8 * i) (ucast (f i))) [0..<16] 0"

definition byte_lane :: "v128 \<Rightarrow> nat \<Rightarrow> u8" where
  "byte_lane a i = ucast (drop_bit (8 * i) a)"

definition gcmx86_load :: "bytes \<Rightarrow> v128" where
  "gcmx86_load p = of_bytes (\<lambda>i. p ! i)"

definition gcmx86_store :: "v128 \<Rightarrow> bytes" where
  "gcmx86_store v = map (byte_lane v) [0..<16]"

definition gcmx86_load_rev :: "bytes \<Rightarrow> nat \<Rightarrow> v128" where
  "gcmx86_load_rev p n = of_bytes (\<lambda>i. if 15 - i < n then p ! (15 - i) else 0)"

definition gcmx86_rev :: "v128 \<Rightarrow> v128" where
  "gcmx86_rev a = of_bytes (\<lambda>i. byte_lane a (15 - i))"

lemma sub15 [simp]: "15 - i < (16 :: nat)" "[0..<16] ! (15 - i) = 15 - i"
proof -
  show l: "15 - i < (16 :: nat)" by (rule le_less_trans [of _ 15]) simp_all
  then show "[0..<16] ! (15 - i) = 15 - i" by (simp only: nth_upt add_0)
qed

lemma bit_of_bytes: "bit (of_bytes f) n \<longleftrightarrow> n < 128 \<and> bit (f (n div 8)) (n mod 8)"
proof -
  have step: "bit (fold (\<lambda>i v. v OR push_bit (8 * i) (ucast (f i))) [0..<k] (0 :: v128)) n \<longleftrightarrow> n < 8 * k \<and> bit (f (n div 8)) (n mod 8)" if "k \<le> 16" for k
    using that
  proof (induction k)
    case (Suc k)
    have "bit (push_bit (8 * k) (ucast (f k)) :: v128) n \<longleftrightarrow> 8 * k \<le> n \<and> n < 8 * Suc k \<and> bit (f k) (n - 8 * k)"
      using Suc.prems by (auto simp: bit_push_bit_iff bit_ucast_iff dest: bit_imp_le_length)
    moreover have "n div 8 = k" "n mod 8 = n - 8 * k" if "8 * k \<le> n" "n < 8 * Suc k"
    proof -
      show d: "n div 8 = k" using that by (intro div_nat_eqI) simp_all
      show "n mod 8 = n - 8 * k" using minus_mult_div_eq_mod [of n 8] d by simp
    qed
    ultimately show ?case using Suc by (auto simp: bit_or_iff)
  qed simp
  show ?thesis using step [of 16] by (simp add: of_bytes_def)
qed

lemma bit_byte_lane: "bit (byte_lane a i) n \<longleftrightarrow> n < 8 \<and> bit a (8 * i + n)"
  by (auto simp: byte_lane_def bit_ucast_iff bit_drop_bit_eq)

lemma of_bytes_lanes: "of_bytes (byte_lane a) = a"
  by (rule bit_word_eqI) (simp add: bit_of_bytes bit_byte_lane mult.commute)

lemma byte_lane_of_bytes: "i < 16 \<Longrightarrow> byte_lane (of_bytes f) i = f i"
  by (rule bit_word_eqI) (auto simp: bit_of_bytes bit_byte_lane)

lemma of_bytes_cong: "(\<And>i. i < 16 \<Longrightarrow> f i = g i) \<Longrightarrow> of_bytes f = of_bytes g"
  by (rule bit_word_eqI) (simp add: bit_of_bytes less_mult_imp_div_less)

lemma of_bytes_xor: "of_bytes f XOR of_bytes g = of_bytes (\<lambda>i. f i XOR g i)"
  by (rule bit_word_eqI) (auto simp: bit_of_bytes bit_xor_iff)

definition be_load :: "bytes \<Rightarrow> v128" where
  "be_load p = of_bytes (\<lambda>i. p ! (15 - i))"

definition be_store :: "v128 \<Rightarrow> bytes" where
  "be_store v = map (\<lambda>i. byte_lane v (15 - i)) [0..<16]"

lemma length_store [simp]: "length (be_store v) = 16" "length (gcmx86_store v) = 16"
  by (simp_all add: be_store_def gcmx86_store_def)

lemma be_load_store [simp]: "be_load (be_store v) = v"
proof -
  have "be_load (be_store v) = of_bytes (byte_lane v)" unfolding be_load_def be_store_def by (rule of_bytes_cong) simp
  then show ?thesis by (simp add: of_bytes_lanes)
qed

lemma be_store_load: "length p = 16 \<Longrightarrow> be_store (be_load p) = p"
  by (rule nth_equalityI) (simp_all add: be_store_def be_load_def byte_lane_of_bytes)

lemma load_store [simp]: "gcmx86_load (gcmx86_store v) = v"
proof -
  have "gcmx86_load (gcmx86_store v) = of_bytes (byte_lane v)" unfolding gcmx86_load_def gcmx86_store_def by (rule of_bytes_cong) simp
  then show ?thesis by (simp add: of_bytes_lanes)
qed

lemma store_load: "length p = 16 \<Longrightarrow> gcmx86_store (gcmx86_load p) = p"
  by (rule nth_equalityI) (simp_all add: gcmx86_store_def gcmx86_load_def byte_lane_of_bytes)

lemma rev_load: "gcmx86_rev (gcmx86_load p) = be_load p"
  unfolding gcmx86_rev_def gcmx86_load_def be_load_def by (rule of_bytes_cong) (simp add: byte_lane_of_bytes)

lemma store_rev: "gcmx86_rev v = gcmx86_load (be_store v)"
  unfolding gcmx86_rev_def gcmx86_load_def be_store_def by (rule of_bytes_cong) simp

lemma load_rev_full: "gcmx86_load_rev p 16 = be_load p"
  unfolding gcmx86_load_rev_def be_load_def by (rule of_bytes_cong) simp

lemma load_rev_part: "gcmx86_load_rev p n = be_load (map (\<lambda>i. if i < n then p ! i else 0) [0..<16])"
  unfolding gcmx86_load_rev_def be_load_def by (rule of_bytes_cong) (simp del: upt_rec_numeral)

lemma bit_be_load: "bit (be_load p) n \<longleftrightarrow> n < 128 \<and> bit (p ! (15 - n div 8)) (n mod 8)"
  by (simp add: be_load_def bit_of_bytes)

lemma be_load_xor: "be_load (map (\<lambda>i. p ! i XOR q ! i) [0..<16]) = be_load p XOR be_load q"
  unfolding be_load_def of_bytes_xor by (rule of_bytes_cong) (simp del: upt_rec_numeral)

section \<open>The portable multiplication on words\<close>

lemma neg_one_bit: "- (x AND 1 :: u8) = (if bit x 0 then - 1 else 0)"
  by (simp add: and_one_eq bit_0 odd_iff_mod_2_eq_one)

lemma be_load_shr1: "be_load (shr1 v) = drop_bit 1 (be_load v)"
proof (rule bit_word_eqI)
  fix n :: nat assume "n < LENGTH(128)"
  then have n: "n < 128" by simp
  define q r where "q = n div 8" and "r = n mod 8"
  have qr: "n = 8 * q + r" "r < 8" "q < 16" using n by (auto simp: q_def r_def)
  show "bit (be_load (shr1 v)) n = bit (drop_bit 1 (be_load v)) n"
  proof (cases "r = 7")
    case True
    have s: "Suc n div 8 = Suc q" "Suc n mod 8 = 0" using qr True by simp_all
    show ?thesis using qr True s
      by (auto simp: bit_be_load shr1_def bit_drop_bit_eq bit_or_iff bit_push_bit_iff dest: bit_imp_le_length simp del: upt_rec_numeral)
  next
    case False
    have s: "Suc n div 8 = q" "Suc n mod 8 = Suc r" using qr False by (simp_all add: div_nat_eqI)
    show ?thesis using qr False s
      by (auto simp: bit_be_load shr1_def bit_drop_bit_eq bit_or_iff bit_push_bit_iff dest: bit_imp_le_length simp del: upt_rec_numeral)
  qed
qed

lemma be_load_mask: "be_load (map (\<lambda>j. z ! j XOR (v ! j AND (if c then - 1 else 0))) [0..<16]) = be_load z XOR (if c then be_load v else 0)"
  by (rule bit_word_eqI) (auto simp: bit_be_load bit_xor_iff bit_and_iff simp del: upt_rec_numeral)

lemma shr1_length [simp]: "length (shr1 v) = 16"
  by (simp add: shr1_def)

lemma be_load_mulx:
  assumes "length v = 16" and "m = - (v ! 15 AND 1)"
  shows "be_load ((shr1 v)[0 := shr1 v ! 0 XOR (0xe1 AND m)]) = mulx (be_load v)"
proof -
  have b0: "bit (be_load v) 0 = bit (v ! 15) 0" by (simp add: bit_be_load)
  have e1: "be_load ((shr1 v)[0 := shr1 v ! 0 XOR x]) = be_load (shr1 v) XOR push_bit 120 (ucast x)" for x
  proof (rule bit_word_eqI)
    fix n :: nat assume "n < LENGTH(128)"
    then have n: "n < 128" by simp
    show "bit (be_load ((shr1 v)[0 := shr1 v ! 0 XOR x])) n = bit (be_load (shr1 v) XOR push_bit 120 (ucast x)) n"
    proof (cases "120 \<le> n")
      case True
      then have d: "n div 8 = 15" using n by (intro div_nat_eqI) simp_all
      then have "n mod 8 = n - 120" using minus_mult_div_eq_mod [of n 8] by simp
      moreover have "n - 120 < 128" using n by simp
      ultimately show ?thesis using True n d by (simp add: bit_be_load bit_xor_iff bit_push_bit_iff bit_ucast_iff)
    next
      case False
      then have "n div 8 < 15" by (intro less_mult_imp_div_less) simp
      then show ?thesis using False by (simp add: bit_be_load bit_xor_iff bit_push_bit_iff)
    qed
  qed
  show ?thesis unfolding e1 be_load_shr1 mulx_def b0 assms(2) neg_one_bit by simp
qed

lemma gf_step_word:
  assumes "length z = 16" and "length v = 16" and "gf_step (z, v) (if c then - 1 else 0) = (z', v')"
  shows "length z' = 16" "length v' = 16" "be_load z' = be_load z XOR (if c then be_load v else 0)" "be_load v' = mulx (be_load v)"
proof -
  have z: "z' = map (\<lambda>j. z ! j XOR (v ! j AND (if c then - 1 else 0))) [0..<16]"
    and v: "v' = (shr1 v)[0 := shr1 v ! 0 XOR (0xe1 AND (- (v ! 15 AND 1)))]"
    using assms(3) by (simp_all only: gf_step_def Let_def prod.case prod.inject)
  show "length z' = 16" "length v' = 16" by (simp_all add: z v)
  show "be_load z' = be_load z XOR (if c then be_load v else 0)" unfolding z by (rule be_load_mask)
  show "be_load v' = mulx (be_load v)" unfolding v by (rule be_load_mulx [OF assms(2) refl])
qed

lemma y_bit:
  assumes "b < 128"
  shows "- (drop_bit (7 - b mod 8) (y ! (b div 8)) AND 1 :: u8) = (if bit (be_load y) (127 - b) then - 1 else 0)"
proof -
  define q r where "q = b div 8" and "r = b mod 8"
  have qr: "b = 8 * q + r" "r < 8" "q < 16" using assms by (auto simp: q_def r_def)
  have "127 - b = 8 * (15 - q) + (7 - r)" using qr by simp
  then have "(127 - b) div 8 = 15 - q" "(127 - b) mod 8 = 7 - r" by simp_all
  then show ?thesis using qr unfolding neg_one_bit bit_be_load q_def [symmetric] r_def [symmetric] by (simp add: bit_drop_bit_eq)
qed

lemma gf_mul_loop:
  assumes "n \<le> 128" and "length x = 16"
    and "fold (\<lambda>b zv. gf_step zv (- (drop_bit (7 - b mod 8) (y ! (b div 8)) AND 1))) [0..<n] (replicate 16 0, x) = (z, v)"
  shows "length z = 16 \<and> length v = 16 \<and> be_load v = (mulx ^^ n) (be_load x)
    \<and> be_load z = xsum (\<lambda>i. if bit (be_load y) (127 - i) then (mulx ^^ i) (be_load x) else 0) n"
  using assms(1,3)
proof (induction n arbitrary: z v)
  case 0
  have "be_load (replicate 16 0) = 0" by (rule bit_word_eqI) (simp add: bit_be_load nth_replicate)
  then show ?case using 0 assms(2) by auto
next
  case (Suc n)
  obtain z0 v0 where f: "fold (\<lambda>b zv. gf_step zv (- (drop_bit (7 - b mod 8) (y ! (b div 8)) AND 1))) [0..<n] (replicate 16 0, x) = (z0, v0)" by fastforce
  have IH: "length z0 = 16" "length v0 = 16" "be_load v0 = (mulx ^^ n) (be_load x)"
    "be_load z0 = xsum (\<lambda>i. if bit (be_load y) (127 - i) then (mulx ^^ i) (be_load x) else 0) n"
    using Suc.IH [OF _ f] Suc.prems(1) by simp_all
  have "gf_step (z0, v0) (if bit (be_load y) (127 - n) then - 1 else 0) = (z, v)"
    using Suc.prems f y_bit [of n y] by simp
  note st = gf_step_word [OF IH(1,2) this]
  show ?case using st IH(3,4) by simp
qed

lemma gcm_gf_mul_word:
  assumes "length x = 16"
  shows "gcm_gf_mul x y = be_store (gf_word (be_load x) (be_load y))" "length (gcm_gf_mul x y) = 16"
proof -
  obtain z v where f: "fold (\<lambda>b zv. gf_step zv (- (drop_bit (7 - b mod 8) (y ! (b div 8)) AND 1))) [0..<128] (replicate 16 0, x) = (z, v)" by fastforce
  have e: "gcm_gf_mul x y = z" unfolding gcm_gf_mul_def using f assms by simp
  have r: "length z = 16" "be_load z = gf_word (be_load x) (be_load y)" using gf_mul_loop [OF order_refl assms f] by (simp_all add: gf_word_def)
  show "length (gcm_gf_mul x y) = 16" using e r by simp
  show "gcm_gf_mul x y = be_store (gf_word (be_load x) (be_load y))" using be_store_load [OF r(1)] r(2) e by simp
qed

lemma gcm_ghash_block_word:
  assumes "length h = 16"
  shows "be_load (gcm_ghash_block h y b) = gcmx86_gfmul (be_load y XOR be_load b) (be_load h)" "length (gcm_ghash_block h y b) = 16"
  using assms gcm_gf_mul_word [of "gcm_xor16 y b" h]
  by (simp_all add: gcm_ghash_block_def gcmx86_gfmul_eq gcm_xor16_def be_load_xor del: upt_rec_numeral)

section \<open>AES rounds in hardware\<close>

definition wired_arch_aesenc :: "v128 \<Rightarrow> v128 \<Rightarrow> v128" where
  "wired_arch_aesenc s rk = gcmx86_load (mix_columns (sub_bytes (shift_rows (gcmx86_store s)))) XOR rk"

definition wired_arch_aesenclast :: "v128 \<Rightarrow> v128 \<Rightarrow> v128" where
  "wired_arch_aesenclast s rk = gcmx86_load (sub_bytes (shift_rows (gcmx86_store s))) XOR rk"

record gcmx86 =
  gx_rk :: "bytes list"
  gx_h :: bytes

definition gcmx86_aes :: "gcmx86 \<Rightarrow> v128 \<Rightarrow> v128" where
  "gcmx86_aes x src =
     (let s = src XOR gcmx86_load (gx_rk x ! 0);
          s = fold (\<lambda>i s. wired_arch_aesenc s (gcmx86_load (gx_rk x ! i))) [1..<10] s
      in wired_arch_aesenclast s (gcmx86_load (gx_rk x ! 10)))"

function gcmx86_ghash :: "v128 \<Rightarrow> v128 \<Rightarrow> bytes \<Rightarrow> v128" where
  "gcmx86_ghash h y src =
     (if 16 \<le> length src then gcmx86_ghash h (gcmx86_gfmul (y XOR gcmx86_rev (gcmx86_load src)) h) (drop 16 src)
      else if src \<noteq> [] then gcmx86_gfmul (y XOR gcmx86_load_rev src (length src)) h else y)"
  by pat_completeness auto
termination by (relation "measure (\<lambda>(h, y, src). length src)") auto

declare gcmx86_ghash.simps [simp del]

definition gcmx86_inc32 :: "bytes \<Rightarrow> bytes" where
  "gcmx86_inc32 j =
     (let j = j[15 := j ! 15 + 1]
      in if j ! 15 \<noteq> 0 then j
         else let j = j[14 := j ! 14 + 1]
              in if j ! 14 \<noteq> 0 then j
                 else let j = j[13 := j ! 13 + 1]
                      in if j ! 13 \<noteq> 0 then j else j[12 := j ! 12 + 1])"

definition gcmx86_ctr_block :: "gcmx86 \<Rightarrow> bytes \<Rightarrow> bytes \<Rightarrow> bytes \<times> bytes" where
  "gcmx86_ctr_block x j src =
     (let j = gcmx86_inc32 j in (gcmx86_store (gcmx86_load src XOR gcmx86_aes x (gcmx86_load j)), j))"

section \<open>gcmx86\_ctr.c, gcmx86\_load.c and gcmx86\_seal.c\<close>

definition gcmx86_aes4_init :: "gcmx86 \<Rightarrow> v128 list \<Rightarrow> v128 list" where
  "gcmx86_aes4_init x s = (let rk0 = gcmx86_load (gx_rk x ! 0) in map (\<lambda>i. s ! i XOR rk0) [0..<4])"

definition gcmx86_aes4_round :: "gcmx86 \<Rightarrow> v128 list \<Rightarrow> nat \<Rightarrow> v128 list" where
  "gcmx86_aes4_round x s r = (let rk = gcmx86_load (gx_rk x ! r) in map (\<lambda>i. wired_arch_aesenc (s ! i) rk) [0..<4])"

definition gcmx86_aes4_last :: "gcmx86 \<Rightarrow> v128 list \<Rightarrow> v128 list" where
  "gcmx86_aes4_last x s = (let rk = gcmx86_load (gx_rk x ! 10) in map (\<lambda>i. wired_arch_aesenclast (s ! i) rk) [0..<4])"

definition gcmx86_aes4 :: "gcmx86 \<Rightarrow> v128 list \<Rightarrow> v128 list" where
  "gcmx86_aes4 x s = gcmx86_aes4_last x (fold (\<lambda>r s. gcmx86_aes4_round x s r) [1..<10] (gcmx86_aes4_init x s))"

definition gcmx86_ctr_x4_advance :: "bytes \<Rightarrow> v128 list \<times> bytes" where
  "gcmx86_ctr_x4_advance j =
     fold (\<lambda>i (s, j). let j = gcmx86_inc32 j in (s @ [gcmx86_load j], j)) [0..<4] ([], j)"

definition gcmx86_ctr_x4_store :: "v128 list \<Rightarrow> bytes \<Rightarrow> bytes" where
  "gcmx86_ctr_x4_store s src = concat (map (\<lambda>i. gcmx86_store (gcmx86_load (drop (16 * i) src) XOR s ! i)) [0..<4])"

definition gcmx86_ctr_x4 :: "gcmx86 \<Rightarrow> bytes \<Rightarrow> bytes \<Rightarrow> bytes \<times> bytes" where
  "gcmx86_ctr_x4 x j src =
     (let (s, j) = gcmx86_ctr_x4_advance j; s = gcmx86_aes4 x s in (gcmx86_ctr_x4_store s src, j))"

function gcmx86_ctr_x4_all :: "gcmx86 \<Rightarrow> bytes \<Rightarrow> bytes \<Rightarrow> bytes \<times> bytes \<times> bytes" where
  "gcmx86_ctr_x4_all x j src =
     (if 64 \<le> length src
      then let (o1, j) = gcmx86_ctr_x4 x j src; (o2, j, rest) = gcmx86_ctr_x4_all x j (drop 64 src) in (o1 @ o2, j, rest)
      else ([], j, src))"
  by pat_completeness auto
termination by (relation "measure (\<lambda>(x, j, src). length src)") auto

declare gcmx86_ctr_x4_all.simps [simp del]

definition gcmx86_ctr_tail :: "gcmx86 \<Rightarrow> bytes \<Rightarrow> bytes \<Rightarrow> bytes" where
  "gcmx86_ctr_tail x j src =
     (let j = gcmx86_inc32 j; ks = gcmx86_store (gcmx86_aes x (gcmx86_load j)) in map (\<lambda>i. src ! i XOR ks ! i) [0..<length src])"

function gcmx86_ctr_rest :: "gcmx86 \<Rightarrow> bytes \<Rightarrow> bytes \<Rightarrow> bytes" where
  "gcmx86_ctr_rest x j src =
     (if 16 \<le> length src then let (o1, j) = gcmx86_ctr_block x j src in o1 @ gcmx86_ctr_rest x j (drop 16 src)
      else if src \<noteq> [] then gcmx86_ctr_tail x j src else [])"
  by pat_completeness auto
termination by (relation "measure (\<lambda>(x, j, src). length src)") auto

declare gcmx86_ctr_rest.simps [simp del]

definition gcmx86_ctr :: "gcmx86 \<Rightarrow> bytes \<Rightarrow> bytes \<Rightarrow> bytes" where
  "gcmx86_ctr x j src = (let (o1, j, rest) = gcmx86_ctr_x4_all x j src in o1 @ gcmx86_ctr_rest x j rest)"

definition gcmx86_j0 :: "bytes \<Rightarrow> bytes" where
  "gcmx86_j0 nonce = take 12 nonce @ [0, 0, 0, 1]"

definition gcmx86_tag :: "gcmx86 \<Rightarrow> bytes \<Rightarrow> bytes \<Rightarrow> bytes \<Rightarrow> bytes" where
  "gcmx86_tag x j0 aad ct =
     (let h = gcmx86_load_rev (gx_h x) 16; y = gcmx86_ghash h 0 aad; y = gcmx86_ghash h y ct;
          lens = be_put_be64 (be_put_be64 (replicate 16 0) 0 (of_nat (length aad) * 8)) 8 (of_nat (length ct) * 8);
          y = gcmx86_gfmul (y XOR gcmx86_load_rev lens 16) h
      in gcmx86_store (gcmx86_rev y XOR gcmx86_aes x (gcmx86_load j0)))"

definition gcmx86_init :: "bytes \<Rightarrow> gcmx86" where
  "gcmx86_init key =
     (let a = aes128_init key; rk = map (\<lambda>r. concat (map (\<lambda>i. be_put_be32 (replicate 4 0) 0 (a ! (4 * r + i))) [0..<4])) [0..<11];
          x = \<lparr>gx_rk = rk, gx_h = []\<rparr>
      in x\<lparr>gx_h := gcmx86_store (gcmx86_aes x 0)\<rparr>)"

definition gcmx86_seal :: "gcmx86 \<Rightarrow> bytes \<Rightarrow> bytes \<Rightarrow> bytes \<Rightarrow> bytes" where
  "gcmx86_seal x nonce aad pt = (let j0 = gcmx86_j0 nonce; ct = gcmx86_ctr x j0 pt in ct @ gcmx86_tag x j0 aad ct)"

definition gcmx86_open :: "gcmx86 \<Rightarrow> bytes \<Rightarrow> bytes \<Rightarrow> bytes \<Rightarrow> nat \<times> bytes option" where
  "gcmx86_open x nonce aad ct =
     (if length ct < 16 then (0, None)
      else let body = take (length ct - 16) ct; j = gcmx86_j0 nonce; want = gcmx86_tag x j aad body
           in if ct_diff16 want (drop (length ct - 16) ct) \<noteq> 0 then (0, None)
              else (length body, Some (gcmx86_ctr x j body)))"

section \<open>gcm\_open.c: the run-time choice\<close>

definition gcm_key_from_aes128 :: "aes128 \<Rightarrow> bytes" where
  "gcm_key_from_aes128 a = concat (map (\<lambda>i. be_put_be32 (replicate 4 0) 0 (a ! i)) [0..<4])"

definition gcm_x86_from :: "gcm_ctx \<Rightarrow> gcmx86" where
  "gcm_x86_from g = gcmx86_init (gcm_key_from_aes128 (gc_aes g))"

definition gcm_open_x86_empty :: "gcm_ctx \<Rightarrow> bytes \<Rightarrow> bool" where
  "gcm_open_x86_empty g ct \<longleftrightarrow> ct_diff16 (gcm_tag (gcm_setup g) []) ct = 0"

definition gcm_open_x86 :: "gcm_ctx \<Rightarrow> bytes \<Rightarrow> bytes option" where
  "gcm_open_x86 g ct =
     (if length ct = 16 then if gcm_open_x86_empty g ct then Some [] else None
      else let (n, pt) = gcmx86_open (gcm_x86_from g) (gc_nonce g) (gc_aad g) ct in if n \<noteq> 0 then pt else None)"

definition gcm_seal :: "bool \<Rightarrow> gcm_ctx \<Rightarrow> bytes \<Rightarrow> bytes" where
  "gcm_seal supported g pt =
     (if supported then gcmx86_seal (gcm_x86_from g) (gc_nonce g) (gc_aad g) pt else gcm_seal_scalar g pt)"

definition gcm_open :: "bool \<Rightarrow> gcm_ctx \<Rightarrow> bytes \<Rightarrow> bytes option" where
  "gcm_open supported g ct =
     (if length ct < 16 then None else if supported then gcm_open_x86 g ct else gcm_open_scalar g ct)"

section \<open>The hardware cipher is AES-128\<close>

lemma gcmx86_inc32_eq: "gcmx86_inc32 = gcm_ctr_inc"
  by (simp add: fun_eq_iff gcmx86_inc32_def gcm_ctr_inc_def)

lemma sub_shift:
  assumes "length s = 16"
  shows "sub_bytes (shift_rows s) = shift_rows (sub_bytes s)"
  using assms by (simp add: sub_bytes_def shift_rows_def shift_col_def upt_rec)

lemma load_xor: "gcmx86_load p XOR gcmx86_load q = gcmx86_load (map (\<lambda>i. p ! i XOR q ! i) [0..<16])"
  unfolding gcmx86_load_def of_bytes_xor by (rule of_bytes_cong) simp

definition rk_bytes :: "u32 list \<Rightarrow> bytes" where
  "rk_bytes rk = concat (map (\<lambda>i. be32_wire (rk ! i)) [0..<4])"

lemma add_round_key_xor: "add_round_key s rk = map (\<lambda>i. s ! i XOR rk_bytes rk ! i) [0..<16]"
  by (simp add: add_round_key_def rk_bytes_def be32_wire_def upt_rec numeral_eq_Suc)

lemma aesenc_round:
  assumes "length s = 16"
  shows "wired_arch_aesenc (gcmx86_load s) (gcmx86_load (rk_bytes rk)) = gcmx86_load (round_full s rk)"
    "wired_arch_aesenclast (gcmx86_load s) (gcmx86_load (rk_bytes rk)) = gcmx86_load (round_last s rk)"
  using assms by (simp_all add: wired_arch_aesenc_def wired_arch_aesenclast_def store_load load_xor sub_shift
      round_full_def round_last_def add_round_key_xor del: upt_rec_numeral)

lemma be_put_be32_fresh: "be_put_be32 (replicate 4 0) 0 v = be32_wire v"
  by (simp add: be_put_be32_write write_at_eq)

lemma length_aes128_init: "length (aes128_init key) = 44"
proof -
  have "length (fold (\<lambda>i rk. rk @ [rk ! (i - 4) XOR schedule_word (rk ! (i - 1)) i]) xs r) = length r + length xs" for xs and r :: "u32 list"
    by (induction xs arbitrary: r) simp_all
  then show ?thesis by (simp add: aes128_init_def del: upt_rec_numeral)
qed

lemma length_round_full [simp]: "length (round_full s rk) = 16"
  by (simp add: round_full_def)

lemma gx_rk_init:
  assumes "r < 11"
  shows "gx_rk (gcmx86_init key) ! r = rk_bytes (drop (4 * r) (aes128_init key))"
proof -
  have "map (\<lambda>i. be_put_be32 (replicate 4 0) 0 (aes128_init key ! (4 * r + i))) [0..<4]
      = map (\<lambda>i. be32_wire (drop (4 * r) (aes128_init key) ! i)) [0..<4]"
    using assms by (intro map_cong) (simp_all add: be_put_be32_fresh length_aes128_init)
  moreover have "gx_rk (gcmx86_init key) ! r = concat (map (\<lambda>i. be_put_be32 (replicate 4 0) 0 (aes128_init key ! (4 * r + i))) [0..<4])"
    using assms by (simp add: gcmx86_init_def Let_def del: upt_rec_numeral)
  ultimately show ?thesis by (simp only: rk_bytes_def)
qed

lemma aes_rounds:
  assumes "length s = 16" and "\<forall>r \<in> set rs. r < 11"
  shows "fold (\<lambda>i s. wired_arch_aesenc s (gcmx86_load (gx_rk (gcmx86_init key) ! i))) rs (gcmx86_load s)
    = gcmx86_load (fold (\<lambda>r s. round_full s (drop (4 * r) (aes128_init key))) rs s)
    \<and> length (fold (\<lambda>r s. round_full s (drop (4 * r) (aes128_init key))) rs s) = 16"
  using assms
proof (induction rs arbitrary: s)
  case (Cons r rs)
  then show ?case by (simp add: gx_rk_init aesenc_round)
qed simp

lemma gcmx86_aes_eq:
  assumes "length s = 16"
  shows "gcmx86_aes (gcmx86_init key) (gcmx86_load s) = gcmx86_load (aes128_encrypt (aes128_init key) s)"
proof -
  let ?a = "aes128_init key"
  have i: "gcmx86_load s XOR gcmx86_load (gx_rk (gcmx86_init key) ! 0) = gcmx86_load (add_round_key s ?a)"
    using gx_rk_init [of 0 key] by (simp add: load_xor add_round_key_xor del: upt_rec_numeral)
  have r: "\<forall>r \<in> set [1..<10]. r < (11 :: nat)" by (simp del: upt_rec_numeral)
  note f = aes_rounds [OF length_add_round_key r, of key s ?a]
  show ?thesis unfolding gcmx86_aes_def Let_def i aes128_encrypt_def using f assms gx_rk_init [of 10 key]
    by (simp add: aesenc_round del: upt_rec_numeral)
qed

lemma load_zero: "gcmx86_load (replicate 16 0) = 0"
  by (rule bit_word_eqI) (simp add: gcmx86_load_def bit_of_bytes nth_replicate less_mult_imp_div_less)

lemma gcmx86_aes_rk: "gx_rk x = gx_rk y \<Longrightarrow> gcmx86_aes x = gcmx86_aes y"
  by (simp add: fun_eq_iff gcmx86_aes_def)

lemma gx_h_init: "gx_h (gcmx86_init key) = aes128_encrypt (aes128_init key) (replicate 16 0)"
proof -
  obtain rk where e: "gcmx86_init key = \<lparr>gx_rk = rk, gx_h = gcmx86_store (gcmx86_aes \<lparr>gx_rk = rk, gx_h = []\<rparr> 0)\<rparr>"
    by (simp add: gcmx86_init_def Let_def del: upt_rec_numeral)
  have "gcmx86_aes \<lparr>gx_rk = rk, gx_h = []\<rparr> = gcmx86_aes (gcmx86_init key)" by (rule gcmx86_aes_rk) (simp add: e)
  then have "gx_h (gcmx86_init key) = gcmx86_store (gcmx86_aes (gcmx86_init key) 0)" by (simp add: e)
  also have "\<dots> = gcmx86_store (gcmx86_load (aes128_encrypt (aes128_init key) (replicate 16 0)))"
    using gcmx86_aes_eq [of "replicate 16 0" key] by (simp only: load_zero length_replicate)
  finally show ?thesis by (simp add: store_load)
qed

section \<open>The hash and the counter mode agree\<close>

lemma be_load_block:
  assumes "off < length p"
  shows "be_load (load_block p off (length p)) =
    (if 16 \<le> length p - off then gcmx86_rev (gcmx86_load (drop off p)) else gcmx86_load_rev (drop off p) (length p - off))"
  using assms unfolding rev_load load_rev_part
  by (auto simp: be_load_def load_block_def block_n_def Let_def less_diff_conv add.commute intro!: of_bytes_cong simp del: upt_rec_numeral)

lemma ghash_agrees:
  assumes "length h = 16"
  shows "length y = 16 \<Longrightarrow> be_load (ghash_loop h y p off) = gcmx86_ghash (be_load h) (be_load y) (drop off p) \<and> length (ghash_loop h y p off) = 16"
proof (induction "length p - off" arbitrary: y off rule: less_induct)
  case less
  define y' where "y' = gcm_ghash_block h y (load_block p off (length p))"
  have y': "be_load y' = gcmx86_gfmul (be_load y XOR be_load (load_block p off (length p))) (be_load h)" "length y' = 16"
    unfolding y'_def using gcm_ghash_block_word [OF assms] by simp_all
  show ?case
  proof (cases "off < length p")
    case True
    have l: "ghash_loop h y p off = ghash_loop h y' p (off + 16)" using True by (simp add: ghash_loop.simps [of h y] y'_def)
    have IH: "be_load (ghash_loop h y' p (off + 16)) = gcmx86_ghash (be_load h) (be_load y') (drop (off + 16) p) \<and> length (ghash_loop h y' p (off + 16)) = 16"
      using True y'(2) by (intro less) simp_all
    show ?thesis
    proof (cases "16 \<le> length p - off")
      case True
      then show ?thesis using IH l y'(1) be_load_block [OF \<open>off < length p\<close>]
        by (simp add: gcmx86_ghash.simps [of _ "be_load y"] add.commute)
    next
      case False
      then show ?thesis using IH l y'(1) be_load_block [OF \<open>off < length p\<close>] True
        by (simp add: gcmx86_ghash.simps [of _ "be_load y"] gcmx86_ghash.simps [of _ _ "[]"])
    qed
  next
    case False
    then show ?thesis using less.prems by (simp add: ghash_loop.simps gcmx86_ghash.simps)
  qed
qed

lemma length_gcm_ctr_inc [simp]: "length (gcm_ctr_inc c) = length c"
  by (simp add: gcm_ctr_inc_def Let_def)

definition hw_block :: "bytes \<Rightarrow> bytes \<Rightarrow> bytes \<Rightarrow> bytes" where
  "hw_block key j src = gcmx86_store (gcmx86_load src XOR gcmx86_aes (gcmx86_init key) (gcmx86_load j))"

lemma hw_block_xor:
  assumes "length j = 16" and "16 \<le> length src"
  shows "hw_block key j src = map2 (XOR) (take 16 src) (take (length src) (aes128_encrypt (aes128_init key) j))"
proof -
  have "hw_block key j src = map (\<lambda>i. src ! i XOR aes128_encrypt (aes128_init key) j ! i) [0..<16]"
    unfolding hw_block_def gcmx86_aes_eq [OF assms(1)] load_xor by (rule store_load) simp
  also have "\<dots> = map2 (XOR) (take 16 src) (take (length src) (aes128_encrypt (aes128_init key) j))"
    using assms(2) by (intro nth_equalityI) (simp_all del: upt_rec_numeral)
  finally show ?thesis .
qed

lemma ctr_mode_block:
  assumes "length j = 16" and "16 \<le> length src"
  shows "ctr_mode (aes128_encrypt (aes128_init key)) j src
    = hw_block key j src @ ctr_mode (aes128_encrypt (aes128_init key)) (gcm_ctr_inc j) (drop 16 src)"
proof -
  have "src \<noteq> []" using assms(2) by auto
  then show ?thesis using ctr_mode.simps [of _ j src] by (simp add: hw_block_xor [OF assms])
qed

lemma ctr_rest_agrees:
  assumes "length j = 16"
  shows "gcmx86_ctr_rest (gcmx86_init key) j src = ctr_mode (aes128_encrypt (aes128_init key)) (gcm_ctr_inc j) src"
  using assms
proof (induction "length src" arbitrary: j src rule: less_induct)
  case less
  let ?E = "aes128_encrypt (aes128_init key)"
  consider (full) "16 \<le> length src" | (part) "length src < 16" "src \<noteq> []" | (none) "src = []" by force
  then show ?case
  proof cases
    case full
    have "gcmx86_ctr_rest (gcmx86_init key) (gcm_ctr_inc j) (drop 16 src) = ctr_mode ?E (gcm_ctr_inc (gcm_ctr_inc j)) (drop 16 src)"
      using full less.prems by (intro less.hyps) simp_all
    then show ?thesis using full less.prems ctr_mode_block [of "gcm_ctr_inc j" src key]
      by (simp add: gcmx86_ctr_rest.simps [of _ j] gcmx86_ctr_block_def Let_def gcmx86_inc32_eq hw_block_def [symmetric])
  next
    case part
    have ks: "gcmx86_store (gcmx86_aes (gcmx86_init key) (gcmx86_load (gcm_ctr_inc j))) = ?E (gcm_ctr_inc j)"
      using less.prems by (simp add: gcmx86_aes_eq store_load)
    have "gcmx86_ctr_rest (gcmx86_init key) j src = map (\<lambda>i. src ! i XOR ?E (gcm_ctr_inc j) ! i) [0..<length src]"
      using part by (simp add: gcmx86_ctr_rest.simps [of _ j] gcmx86_ctr_tail_def Let_def gcmx86_inc32_eq ks)
    also have "\<dots> = map2 (XOR) (take 16 src) (take (length src) (?E (gcm_ctr_inc j)))"
      using part by (intro nth_equalityI) simp_all
    finally show ?thesis using part ctr_mode.simps [of ?E _ "[]"] by (simp add: ctr_mode.simps [of ?E _ src])
  next
    case none
    then show ?thesis by (simp add: gcmx86_ctr_rest.simps ctr_mode.simps)
  qed
qed

lemma aes4_lanes: "gcmx86_aes4 x [s0, s1, s2, s3] = map (gcmx86_aes x) [s0, s1, s2, s3]"
proof -
  have r: "fold (\<lambda>r s. gcmx86_aes4_round x s r) rs [a, b, c, d]
      = map (fold (\<lambda>i s. wired_arch_aesenc s (gcmx86_load (gx_rk x ! i))) rs) [a, b, c, d]" for rs a b c d
    by (induction rs arbitrary: a b c d) (simp_all add: gcmx86_aes4_round_def Let_def upt_rec)
  have i: "gcmx86_aes4_init x [s0, s1, s2, s3] = map (\<lambda>s. s XOR gcmx86_load (gx_rk x ! 0)) [s0, s1, s2, s3]"
    by (simp add: gcmx86_aes4_init_def Let_def upt_rec)
  have l: "gcmx86_aes4_last x [a, b, c, d] = map (\<lambda>s. wired_arch_aesenclast s (gcmx86_load (gx_rk x ! 10))) [a, b, c, d]" for a b c d
    by (simp add: gcmx86_aes4_last_def Let_def upt_rec)
  show ?thesis unfolding gcmx86_aes4_def i list.map r l by (simp add: gcmx86_aes_def Let_def)
qed

lemma ctr_x4_blocks:
  "gcmx86_ctr_x4 (gcmx86_init key) j src =
     (let j1 = gcm_ctr_inc j; j2 = gcm_ctr_inc j1; j3 = gcm_ctr_inc j2; j4 = gcm_ctr_inc j3
      in (hw_block key j1 src @ hw_block key j2 (drop 16 src) @ hw_block key j3 (drop 32 src) @ hw_block key j4 (drop 48 src), j4))"
  by (simp add: gcmx86_ctr_x4_def gcmx86_ctr_x4_advance_def gcmx86_ctr_x4_store_def upt_rec Let_def gcmx86_inc32_eq aes4_lanes hw_block_def)

lemma ctr_x4_all_agrees:
  assumes "length j = 16" and "gcmx86_ctr_x4_all (gcmx86_init key) j src = (o1, j', rest)"
  shows "ctr_mode (aes128_encrypt (aes128_init key)) (gcm_ctr_inc j) src
    = o1 @ ctr_mode (aes128_encrypt (aes128_init key)) (gcm_ctr_inc j') rest \<and> length j' = 16"
  using assms
proof (induction "length src" arbitrary: j src o1 rule: less_induct)
  case less
  let ?E = "aes128_encrypt (aes128_init key)"
  show ?case
  proof (cases "64 \<le> length src")
    case True
    define j1 where "j1 = gcm_ctr_inc j"
    define j2 where "j2 = gcm_ctr_inc j1"
    define j3 where "j3 = gcm_ctr_inc j2"
    define j4 where "j4 = gcm_ctr_inc j3"
    have len: "length j1 = 16" "length j2 = 16" "length j3 = 16" "length j4 = 16"
      using less.prems(1) by (simp_all add: j1_def j2_def j3_def j4_def)
    obtain o2 where r: "gcmx86_ctr_x4_all (gcmx86_init key) j4 (drop 64 src) = (o2, j', rest)"
      and o: "o1 = (hw_block key j1 src @ hw_block key j2 (drop 16 src) @ hw_block key j3 (drop 32 src) @ hw_block key j4 (drop 48 src)) @ o2"
      using less.prems(2) True
      by (auto simp: gcmx86_ctr_x4_all.simps [of _ j] ctr_x4_blocks Let_def j1_def j2_def j3_def j4_def split: prod.splits)
    have "ctr_mode ?E j1 src = hw_block key j1 src @ hw_block key j2 (drop 16 src) @ hw_block key j3 (drop 32 src) @ hw_block key j4 (drop 48 src)
        @ ctr_mode ?E (gcm_ctr_inc j4) (drop 64 src)"
      using True len by (simp add: ctr_mode_block [of j1 src] ctr_mode_block [of j2 "drop 16 src"] ctr_mode_block [of j3 "drop 32 src"]
          ctr_mode_block [of j4 "drop 48 src"] flip: j2_def j3_def j4_def)
    moreover have "ctr_mode ?E (gcm_ctr_inc j4) (drop 64 src) = o2 @ ctr_mode ?E (gcm_ctr_inc j') rest \<and> length j' = 16"
      using True by (intro less.hyps [OF _ len(4) r]) simp
    ultimately show ?thesis by (simp add: o flip: j1_def)
  next
    case False
    then show ?thesis using less.prems by (simp add: gcmx86_ctr_x4_all.simps [of _ j])
  qed
qed

lemma ctr_agrees:
  assumes "length j = 16"
  shows "gcmx86_ctr (gcmx86_init key) j src = ctr_mode (aes128_encrypt (aes128_init key)) (gcm_ctr_inc j) src"
proof -
  obtain o1 j' rest where a: "gcmx86_ctr_x4_all (gcmx86_init key) j src = (o1, j', rest)" using prod_cases3 by blast
  show ?thesis using ctr_x4_all_agrees [OF assms a] ctr_rest_agrees [of j' key rest] by (simp add: gcmx86_ctr_def a)
qed

section \<open>Both paths are one cipher\<close>

lemma ucast_byte_u32: "k \<le> 24 \<Longrightarrow> (ucast (drop_bit k (ucast (v :: u64) :: u32)) :: u8) = ucast (drop_bit k v)"
  by (rule bit_word_eqI) (auto simp: bit_ucast_iff bit_drop_bit_eq)

lemma be64_wire: "be32_wire (ucast (drop_bit 32 v)) @ be32_wire (ucast v) = gcm_put_be64 v"
proof -
  have "(ucast (ucast x :: u32) :: u8) = ucast x" for x :: u64 using ucast_byte_u32 [of 0 x] by simp
  then show ?thesis by (simp add: be32_wire_def gcm_put_be64_def upt_rec ucast_byte_u32)
qed

lemma be64_fresh: "be_put_be64 (be_put_be64 (replicate 16 0) 0 a) 8 b = gcm_put_be64 a @ gcm_put_be64 b"
  unfolding be64_wire [symmetric] by (simp add: be_put_be64_def be_put_be32_write write_at_eq)

lemma be32_bytes:
  "be32_wire (push_bit 24 (ucast a) OR push_bit 16 (ucast b) OR push_bit 8 (ucast c) OR ucast d) = [a, b, c, d]" for a b c d :: u8
proof -
  let ?w = "push_bit 24 (ucast a) OR push_bit 16 (ucast b) OR push_bit 8 (ucast c) OR ucast d :: u32"
  have "ucast (drop_bit 24 ?w) = a" "ucast (drop_bit 16 ?w) = b" "ucast (drop_bit 8 ?w) = c" "ucast ?w = d"
    by (rule bit_word_eqI, auto simp: bit_ucast_iff bit_drop_bit_eq bit_or_iff bit_push_bit_iff dest: bit_imp_le_length)+
  then show ?thesis by (simp add: be32_wire_def)
qed

lemma aes128_init_key:
  assumes "i < 4"
  shows "aes128_init key ! i = key_word key i"
proof -
  have "i < length r \<Longrightarrow> fold (\<lambda>i rk. rk @ [rk ! (i - 4) XOR schedule_word (rk ! (i - 1)) i]) xs r ! i = r ! i" for xs and r :: "u32 list"
    by (induction xs arbitrary: r) (simp_all add: nth_append)
  then show ?thesis using assms by (simp add: aes128_init_def del: upt_rec_numeral)
qed

lemma gcm_key_recovered:
  assumes "length key = 16"
  shows "gcm_key_from_aes128 (aes128_init key) = key"
proof -
  have w: "be_put_be32 (replicate 4 0) 0 (aes128_init key ! i) = [key ! (4 * i), key ! (4 * i + 1), key ! (4 * i + 2), key ! (4 * i + 3)]" if "i < 4" for i
    unfolding aes128_init_key [OF that] be_put_be32_fresh key_word_def by (rule be32_bytes)
  have "gcm_key_from_aes128 (aes128_init key) = map (\<lambda>i. key ! i) [0..<16]"
  proof -
    define f where "f i = be_put_be32 (replicate 4 0) 0 (aes128_init key ! i)" for i
    have "gcm_key_from_aes128 (aes128_init key) = concat (map f [0..<4])" by (simp only: gcm_key_from_aes128_def f_def [abs_def])
    then show ?thesis using w [of 0, folded f_def] w [of 1, folded f_def] w [of 2, folded f_def] w [of 3, folded f_def]
      by (simp add: upt_rec numeral_eq_Suc)
  qed
  also have "\<dots> = key" using assms map_nth [of key] by simp
  finally show ?thesis .
qed

lemma be_load_zero: "be_load (replicate 16 0) = 0"
  by (rule bit_word_eqI) (simp add: bit_be_load nth_replicate)

lemma tag_agrees:
  assumes "length (gc_nonce g) = 12" and "gc_aes g = aes128_init key"
  shows "gcmx86_tag (gcmx86_init key) (gcmx86_j0 (gc_nonce g)) (gc_aad g) ct = gcm_tag (gcm_setup g) ct"
proof -
  let ?h = "gs_h (gcm_setup g)"
  have h: "length ?h = 16" "gx_h (gcmx86_init key) = ?h" by (simp_all add: gcm_setup_def gx_h_init assms(2))
  define y1 where "y1 = gcm_ghash_bytes ?h (replicate 16 0) (gc_aad g)"
  define y2 where "y2 = gcm_ghash_bytes ?h y1 ct"
  define lens where "lens = gcm_put_be64 (of_nat (length (gc_aad g)) * 8) @ gcm_put_be64 (of_nat (length ct) * 8)"
  define y3 where "y3 = gcm_ghash_block ?h y2 lens"
  define ej where "ej = aes128_encrypt (aes128_init key) (gs_j0 (gcm_setup g))"
  have y1: "be_load y1 = gcmx86_ghash (be_load ?h) 0 (gc_aad g)" "length y1 = 16"
    using ghash_agrees [OF h(1), of "replicate 16 0" "gc_aad g" 0] by (simp_all only: y1_def gcm_ghash_bytes_def length_replicate be_load_zero drop_0)
  have y2: "be_load y2 = gcmx86_ghash (be_load ?h) (be_load y1) ct"
    using ghash_agrees [OF h(1) y1(2), of ct 0] by (simp add: y2_def gcm_ghash_bytes_def)
  have y3: "be_load y3 = gcmx86_gfmul (be_load y2 XOR be_load lens) (be_load ?h)" "length y3 = 16"
    unfolding y3_def using gcm_ghash_block_word [OF h(1)] by simp_all
  have j: "gcmx86_j0 (gc_nonce g) = gs_j0 (gcm_setup g)" "length (gs_j0 (gcm_setup g)) = 16"
    using assms(1) by (simp_all add: gcmx86_j0_def gcm_setup_def)
  have "gcmx86_tag (gcmx86_init key) (gcmx86_j0 (gc_nonce g)) (gc_aad g) ct = gcmx86_store (gcmx86_rev (be_load y3) XOR gcmx86_load ej)"
    by (simp add: gcmx86_tag_def Let_def h load_rev_full be64_fresh y1(1) [symmetric] y2 [symmetric] y3(1) [symmetric] lens_def [symmetric]
        j gcmx86_aes_eq ej_def)
  also have "\<dots> = gcmx86_store (gcmx86_load (map (\<lambda>i. y3 ! i XOR ej ! i) [0..<16]))"
    by (simp only: store_rev be_store_load [OF y3(2)] load_xor)
  also have "\<dots> = map (\<lambda>i. y3 ! i XOR ej ! i) [0..<16]" by (rule store_load) simp
  also have "\<dots> = gcm_tag (gcm_setup g) ct"
    unfolding gcm_tag_def Let_def y3_def y2_def y1_def lens_def ej_def by (simp add: gcm_setup_def assms(2) del: upt_rec_numeral)
  finally show ?thesis .
qed

lemma gcm_seal_agrees:
  assumes "length key = 16" and "gc_aes g = aes128_init key" and "length (gc_nonce g) = 12"
  shows "gcm_seal supported g pt = gcm_seal_scalar g pt"
proof -
  have x: "gcm_x86_from g = gcmx86_init key" by (simp add: gcm_x86_from_def assms(2) gcm_key_recovered [OF assms(1)])
  have j: "gcmx86_j0 (gc_nonce g) = gs_j0 (gcm_setup g)" "length (gcmx86_j0 (gc_nonce g)) = 16"
    using assms(3) by (simp_all add: gcmx86_j0_def gcm_setup_def)
  have c: "gcmx86_ctr (gcmx86_init key) (gcmx86_j0 (gc_nonce g)) pt = gcm_ctr_xor (gc_aes g) (data_ctr (gcm_setup g)) pt"
    by (simp add: ctr_agrees j(2) gcm_ctr_xor_mode data_ctr_def assms(2) flip: j(1))
  show ?thesis
    by (simp add: gcm_seal_def gcm_seal_scalar_def gcmx86_seal_def Let_def x c tag_agrees [OF assms(3,2)])
qed

lemma gcm_open_agrees:
  assumes "length key = 16" and "gc_aes g = aes128_init key" and "length (gc_nonce g) = 12"
  shows "gcm_open supported g ct = (if length ct < 16 then None else gcm_open_scalar g ct)"
proof -
  have x: "gcm_x86_from g = gcmx86_init key" by (simp add: gcm_x86_from_def assms(2) gcm_key_recovered [OF assms(1)])
  have j: "gcmx86_j0 (gc_nonce g) = gs_j0 (gcm_setup g)" "length (gcmx86_j0 (gc_nonce g)) = 16"
    using assms(3) by (simp_all add: gcmx86_j0_def gcm_setup_def)
  have c: "gcmx86_ctr (gcmx86_init key) (gcmx86_j0 (gc_nonce g)) b = gcm_ctr_xor (gc_aes g) (data_ctr (gcm_setup g)) b" for b
    by (simp add: ctr_agrees j(2) gcm_ctr_xor_mode data_ctr_def assms(2) flip: j(1))
  have "gcm_open_x86 g ct = gcm_open_scalar g ct" if "16 \<le> length ct"
  proof (cases "length ct = 16")
    case True
    then show ?thesis by (simp add: gcm_open_x86_def gcm_open_x86_empty_def gcm_open_scalar_def Let_def gcm_ctr_xor.simps)
  next
    case False
    then show ?thesis using that
      by (simp add: gcm_open_x86_def gcm_open_scalar_def gcmx86_open_def Let_def x c tag_agrees [OF assms(3,2)])
  qed
  then show ?thesis by (simp add: gcm_open_def)
qed

text \<open>
  A key schedule as \<open>aes128_init\<close> leaves it and a 12-byte nonce: what every caller of \<open>gcm_seal\<close> and
  \<open>gcm_open\<close> passes.
\<close>

definition gcm_ctx_ok :: "gcm_ctx \<Rightarrow> bool" where
  "gcm_ctx_ok g \<longleftrightarrow> (\<exists>key. length key = 16 \<and> gc_aes g = aes128_init key) \<and> length (gc_nonce g) = 12"

lemma gcm_paths:
  assumes "gcm_ctx_ok g"
  shows "gcm_seal s g pt = gcm_seal_scalar g pt" "gcm_open s g ct = (if length ct < 16 then None else gcm_open_scalar g ct)"
  using assms gcm_seal_agrees gcm_open_agrees unfolding gcm_ctx_ok_def by blast+

text \<open>
  C28. The AES-NI and PCLMULQDQ implementation of AES-128-GCM and the portable one are the same
  function, for every key, nonce, associated data and input, so a connection's bytes do not depend on the
  CPU; and opening accepts exactly the sealed messages, the empty one included: \<open>gcm_open\<close> returns a
  plaintext if and only if the input is its sealing.
\<close>

theorem gcm_backends_agree:
  assumes "length key = 16" and "length nonce = 12" and "g = \<lparr>gc_aes = aes128_init key, gc_nonce = nonce, gc_aad = aad\<rparr>"
  shows "gcm_seal True g pt = gcm_seal False g pt \<and> gcm_open True g ct = gcm_open False g ct
    \<and> (gcm_open supported g ct = Some pt \<longleftrightarrow> gcm_seal supported g pt = ct)"
proof -
  have ok: "gcm_ctx_ok g" using assms by (auto simp: gcm_ctx_ok_def)
  show ?thesis unfolding gcm_paths [OF ok] using gcm_scalar_open_seal [of g pt] gcm_scalar_only_sealed [of g ct pt] by auto
qed

theorem gcm_backends_agree_witness:
  "gcm_open True \<lparr>gc_aes = aes128_init (replicate 16 7), gc_nonce = replicate 12 9, gc_aad = [1, 2]\<rparr>
     (gcm_seal False \<lparr>gc_aes = aes128_init (replicate 16 7), gc_nonce = replicate 12 9, gc_aad = [1, 2]\<rparr> [0xAA, 0xBB, 0xCC]) = Some [0xAA, 0xBB, 0xCC]"
proof -
  let ?g = "\<lparr>gc_aes = aes128_init (replicate 16 7), gc_nonce = replicate 12 9, gc_aad = [1, 2]\<rparr>"
  have l: "length (replicate 16 7 :: bytes) = 16" "length (replicate 12 9 :: bytes) = 12" by simp_all
  show ?thesis using gcm_backends_agree [OF l refl, of "[1, 2]" "[0xAA, 0xBB, 0xCC]" "gcm_seal False ?g [0xAA, 0xBB, 0xCC]" True] by blast
qed

end
