(* ===== verification/Packet_Protect.thy ===== *)
theory Packet_Protect
  imports Gcm_X86 Packet_Header
begin

text \<open>
  Packet protection: \<^verbatim>\<open>src/transport/packet/protect\<close>, \<^verbatim>\<open>src/transport/packet/build/vpn\<close> and
  \<^verbatim>\<open>hspkt\<close>, and \<^verbatim>\<open>txpacket.c\<close> and \<^verbatim>\<open>rxpacket.c\<close> of the frame pipeline. A packet is sealed with its
  header as associated data, then bits of the first byte and the packet number are masked with a function of
  a ciphertext sample. Each operation exists for AES-128-GCM and for a negotiated cipher suite. The theory
  shows that masking is undone exactly, that what is built is opened to the same payload, and that only
  what was sealed under the keys is opened.
\<close>

unbundle bit_operations_syntax

section \<open>cipher.h, aead\_params.c and initial.h\<close>

definition TLS_AES_128_GCM_SHA256 :: u16 where "TLS_AES_128_GCM_SHA256 = 0x1301"
definition TLS_AES_256_GCM_SHA384 :: u16 where "TLS_AES_256_GCM_SHA384 = 0x1302"
definition TLS_CHACHA20_POLY1305_SHA256 :: u16 where "TLS_CHACHA20_POLY1305_SHA256 = 0x1303"

lemmas suite_codes = TLS_AES_128_GCM_SHA256_def TLS_AES_256_GCM_SHA384_def TLS_CHACHA20_POLY1305_SHA256_def

definition aead_params_tab :: "(u16 \<times> nat) list" where
  "aead_params_tab = [(TLS_AES_128_GCM_SHA256, 16), (TLS_AES_256_GCM_SHA384, 32), (TLS_CHACHA20_POLY1305_SHA256, 32)]"

definition aead_key_len :: "u16 \<Rightarrow> nat" where
  "aead_key_len suite = (case map_of aead_params_tab suite of None \<Rightarrow> 0 | Some n \<Rightarrow> n)"

definition aead_tag_len :: "u16 \<Rightarrow> nat" where
  "aead_tag_len suite = (if aead_key_len suite \<noteq> 0 then 16 else 0)"

record initial_keys =
  ik_key :: bytes
  ik_iv :: bytes
  ik_hp :: bytes

record protect_keys =
  pk_keys :: initial_keys
  pk_hp :: aes128

section \<open>hp.c, hp\_chacha.c, hpapply.c, hpsample.c and hp\_suite.c\<close>

definition HP_LONG_MASK :: u8 where "HP_LONG_MASK = 0x0f"
definition HP_SHORT_MASK :: u8 where "HP_SHORT_MASK = 0x1f"

definition hp_mask :: "aes128 \<Rightarrow> bytes \<Rightarrow> bytes" where
  "hp_mask hp sample = take 5 (aes128_encrypt hp sample)"

definition hp_chacha_mask :: "bytes \<Rightarrow> bytes \<Rightarrow> bytes" where
  "hp_chacha_mask hp_key sample =
     (let counter = ucast (sample ! 0) OR push_bit 8 (ucast (sample ! 1)) OR push_bit 16 (ucast (sample ! 2))
                    OR push_bit 24 (ucast (sample ! 3))
      in take 5 (chacha20_block hp_key counter (drop 4 sample)))"

text \<open>The packet number is the \<open>pn_len\<close> bytes at \<open>off\<close> of the packet.\<close>

definition hp_protect_pn :: "bytes \<Rightarrow> nat \<Rightarrow> nat \<Rightarrow> bytes \<Rightarrow> bytes" where
  "hp_protect_pn pkt off pn_len msk =
     fold (\<lambda>i p. p[off + i := p ! (off + i) XOR msk ! (1 + i)]) [0..<pn_len] pkt"

text \<open>\<open>hp_fields\<close>: \<open>byte0\<close> is the first byte of the packet, \<open>pn\<close> its byte \<open>pn_off\<close>.\<close>

definition hp_apply :: "bytes \<Rightarrow> bytes \<Rightarrow> nat \<Rightarrow> nat \<Rightarrow> u8 \<Rightarrow> bytes" where
  "hp_apply msk pkt pn_off pn_len bits_mask =
     hp_protect_pn (pkt[0 := pkt ! 0 XOR (msk ! 0 AND bits_mask)]) pn_off pn_len msk"

definition hp_sample_offset :: "nat \<Rightarrow> nat" where
  "hp_sample_offset pn_offset = pn_offset + 4"

definition hp_sample_ok :: "nat \<Rightarrow> nat \<Rightarrow> bool" where
  "hp_sample_ok packet_len sample_offset \<longleftrightarrow> sample_offset + 16 \<le> packet_len"

definition hps_aes128 :: "bytes \<Rightarrow> bytes \<Rightarrow> bytes" where
  "hps_aes128 hp_key sample = hp_mask (aes128_init hp_key) sample"

definition hps_aes256 :: "bytes \<Rightarrow> bytes \<Rightarrow> bytes" where
  "hps_aes256 hp_key sample = take 5 (aes256_encrypt (aes256_init hp_key) sample)"

definition hps_tab :: "(u16 \<times> (bytes \<Rightarrow> bytes \<Rightarrow> bytes)) list" where
  "hps_tab = [(TLS_AES_128_GCM_SHA256, hps_aes128), (TLS_AES_256_GCM_SHA384, hps_aes256),
     (TLS_CHACHA20_POLY1305_SHA256, hp_chacha_mask)]"

definition hp_suite_mask :: "u16 \<Rightarrow> bytes \<Rightarrow> bytes \<Rightarrow> bytes option" where
  "hp_suite_mask suite hp_key sample = map_option (\<lambda>m. m hp_key sample) (map_of hps_tab suite)"

section \<open>aead\_suite.c\<close>

definition suite_nonce :: "bytes \<Rightarrow> u64 \<Rightarrow> bytes" where
  "suite_nonce iv pn =
     fold (\<lambda>i nonce. nonce[11 - i := nonce ! (11 - i) XOR ucast (drop_bit (8 * i) pn)]) [0..<8] (map (\<lambda>i. iv ! i) [0..<12])"

record aead_suite_io =
  io_key :: bytes
  io_nonce :: bytes
  io_aad :: bytes
  io_in :: bytes

text \<open>
  Sealing returns the bytes written. Opening gets the ciphertext with its tag and returns the length the
  source returns, 0 for a failure, with the plaintext. The outer \<open>None\<close> is undefined behaviour: the MAC
  scratch buffer of ChaCha20-Poly1305 overflows.
\<close>

definition aead_gcm_seal :: "bool \<Rightarrow> aead_suite_io \<Rightarrow> bytes option" where
  "aead_gcm_seal supported io =
     Some (gcm_seal supported \<lparr>gc_aes = aes128_init (io_key io), gc_nonce = io_nonce io, gc_aad = io_aad io\<rparr> (io_in io))"

definition aead_gcm256_seal :: "aead_suite_io \<Rightarrow> bytes option" where
  "aead_gcm256_seal io =
     Some (gcm256_seal \<lparr>gc_aes = aes256_init (io_key io), gc_nonce = io_nonce io, gc_aad = io_aad io\<rparr> (io_in io))"

definition cha_seal :: "aead_suite_io \<Rightarrow> bytes option" where
  "cha_seal io = chapoly_seal \<lparr>cp_key = io_key io, cp_nonce = io_nonce io, cp_aad = io_aad io\<rparr> (io_in io)"

definition aead_gcm_open :: "bool \<Rightarrow> aead_suite_io \<Rightarrow> (nat \<times> bytes) option" where
  "aead_gcm_open supported io =
     Some (case gcm_open supported \<lparr>gc_aes = aes128_init (io_key io), gc_nonce = io_nonce io, gc_aad = io_aad io\<rparr> (io_in io) of
             None \<Rightarrow> (0, []) | Some pt \<Rightarrow> (length (io_in io) - 16, pt))"

definition aead_gcm256_open :: "aead_suite_io \<Rightarrow> (nat \<times> bytes) option" where
  "aead_gcm256_open io =
     Some (case gcm256_open \<lparr>gc_aes = aes256_init (io_key io), gc_nonce = io_nonce io, gc_aad = io_aad io\<rparr> (io_in io) of
             None \<Rightarrow> (0, []) | Some pt \<Rightarrow> (length (io_in io) - 16, pt))"

definition cha_open :: "aead_suite_io \<Rightarrow> (nat \<times> bytes) option" where
  "cha_open io =
     map_option (\<lambda>r. case r of None \<Rightarrow> (0, []) | Some pt \<Rightarrow> (length (io_in io) - 16, pt))
       (chapoly_open \<lparr>cp_key = io_key io, cp_nonce = io_nonce io, cp_aad = io_aad io\<rparr> (io_in io))"

definition aead_suite_tab ::
    "bool \<Rightarrow> (u16 \<times> (aead_suite_io \<Rightarrow> bytes option) \<times> (aead_suite_io \<Rightarrow> (nat \<times> bytes) option)) list" where
  "aead_suite_tab supported =
     [(TLS_AES_128_GCM_SHA256, aead_gcm_seal supported, aead_gcm_open supported),
      (TLS_AES_256_GCM_SHA384, aead_gcm256_seal, aead_gcm256_open),
      (TLS_CHACHA20_POLY1305_SHA256, cha_seal, cha_open)]"

record aead_suite_op =
  so_suite :: u16
  so_key :: bytes
  so_iv :: bytes
  so_pn :: u64
  so_aad :: bytes

definition suite_io :: "aead_suite_op \<Rightarrow> bytes \<Rightarrow> aead_suite_io" where
  "suite_io op src =
     \<lparr>io_key = so_key op, io_nonce = suite_nonce (so_iv op) (so_pn op), io_aad = so_aad op, io_in = src\<rparr>"

definition aead_suite_seal :: "bool \<Rightarrow> aead_suite_op \<Rightarrow> bytes \<Rightarrow> (nat \<times> bytes) option" where
  "aead_suite_seal supported op pt =
     (case map_of (aead_suite_tab supported) (so_suite op) of
        None \<Rightarrow> Some (0, [])
      | Some (sl, _) \<Rightarrow> map_option (\<lambda>x. (length x, x)) (sl (suite_io op pt)))"

definition aead_suite_open :: "bool \<Rightarrow> aead_suite_op \<Rightarrow> bytes \<Rightarrow> (nat \<times> bytes) option" where
  "aead_suite_open supported op ct =
     (case map_of (aead_suite_tab supported) (so_suite op) of
        None \<Rightarrow> Some (0, [])
      | Some (_, opn) \<Rightarrow> opn (suite_io op ct))"

section \<open>protect.c\<close>

definition protect_nonce :: "bytes \<Rightarrow> u64 \<Rightarrow> bytes" where
  "protect_nonce iv pn =
     fold (\<lambda>i nonce. nonce[12 - 1 - i := nonce ! (12 - 1 - i) XOR ucast (drop_bit (8 * i) pn)]) [0..<8]
       (map (\<lambda>i. iv ! i) [0..<12])"

text \<open>
  A packet is built in an output buffer of \<open>cap\<close> bytes; the operations return the bytes written. An inner
  \<open>None\<close> is the failure the source reports as 0; the outer \<open>None\<close> is undefined behaviour, here a
  header-protection sample that lies outside the bytes written.
\<close>

record protect_seal_io =
  ps_hdr :: bytes
  ps_pn_off :: nat
  ps_pn_len :: nat
  ps_pn :: u64
  ps_payload :: bytes
  ps_cap :: nat

definition read_sample :: "bytes \<Rightarrow> nat \<Rightarrow> bytes option" where
  "read_sample pkt off = (if off + 16 \<le> length pkt then Some (take 16 (drop off pkt)) else None)"

definition gcm_of :: "initial_keys \<Rightarrow> u64 \<Rightarrow> bytes \<Rightarrow> gcm_ctx" where
  "gcm_of keys pn aad = \<lparr>gc_aes = aes128_init (ik_key keys), gc_nonce = protect_nonce (ik_iv keys) pn, gc_aad = aad\<rparr>"

definition seal_into :: "bool \<Rightarrow> initial_keys \<Rightarrow> protect_seal_io \<Rightarrow> bytes option" where
  "seal_into supported keys io =
     (if length (ps_hdr io) + length (ps_payload io) + 16 > ps_cap io then None
      else Some (ps_hdr io @ gcm_seal supported (gcm_of keys (ps_pn io) (ps_hdr io)) (ps_payload io)))"

definition protect_header :: "aes128 \<Rightarrow> bytes \<Rightarrow> nat \<Rightarrow> nat \<Rightarrow> bytes option" where
  "protect_header hp_aes pkt pn_off pn_len =
     map_option (\<lambda>sample. hp_apply (hp_mask hp_aes sample) pkt pn_off pn_len HP_LONG_MASK) (read_sample pkt (pn_off + 4))"

definition protect_seal :: "bool \<Rightarrow> protect_keys \<Rightarrow> protect_seal_io \<Rightarrow> bytes option option" where
  "protect_seal supported k io =
     (case seal_into supported (pk_keys k) io of None \<Rightarrow> Some None
      | Some pkt \<Rightarrow> map_option Some (protect_header (pk_hp k) pkt (ps_pn_off io) (ps_pn_len io)))"

record protect_open_io =
  pi_pkt :: bytes
  pi_hdr_len :: nat
  pi_pn_off :: nat
  pi_pn_len :: nat
  pi_pn :: u64

definition protect_open :: "bool \<Rightarrow> protect_keys \<Rightarrow> protect_open_io \<Rightarrow> (nat \<times> bytes) option" where
  "protect_open supported k io =
     (if length (pi_pkt io) < pi_hdr_len io + 16 then None
      else do {
        pkt \<leftarrow> protect_header (pk_hp k) (pi_pkt io) (pi_pn_off io) (pi_pn_len io);
        Some (case gcm_open supported (gcm_of (pk_keys k) (pi_pn io) (take (pi_hdr_len io) pkt)) (drop (pi_hdr_len io) pkt) of
                None \<Rightarrow> (0, []) | Some pt \<Rightarrow> (length pkt - pi_hdr_len io - 16, pt)) })"

definition suite_op :: "u16 \<Rightarrow> initial_keys \<Rightarrow> u64 \<Rightarrow> bytes \<Rightarrow> aead_suite_op" where
  "suite_op suite keys pn aad = \<lparr>so_suite = suite, so_key = ik_key keys, so_iv = ik_iv keys, so_pn = pn, so_aad = aad\<rparr>"

definition seal_into_suite :: "bool \<Rightarrow> u16 \<Rightarrow> initial_keys \<Rightarrow> protect_seal_io \<Rightarrow> bytes option option" where
  "seal_into_suite supported suite keys io =
     (if length (ps_hdr io) + length (ps_payload io) + aead_tag_len suite > ps_cap io then Some None
      else do {
        (n, ct) \<leftarrow> aead_suite_seal supported (suite_op suite keys (ps_pn io) (ps_hdr io)) (ps_payload io);
        Some (if n \<noteq> 0 then Some (ps_hdr io @ ct) else None) })"

definition protect_header_suite :: "u16 \<Rightarrow> bytes \<Rightarrow> bytes \<Rightarrow> nat \<Rightarrow> nat \<Rightarrow> bytes option option" where
  "protect_header_suite suite hp_key pkt pn_off pn_len = do {
     sample \<leftarrow> read_sample pkt (pn_off + 4);
     Some (map_option (\<lambda>msk. hp_apply msk pkt pn_off pn_len HP_LONG_MASK) (hp_suite_mask suite hp_key sample)) }"

definition protect_seal_suite :: "bool \<Rightarrow> u16 \<Rightarrow> protect_keys \<Rightarrow> protect_seal_io \<Rightarrow> bytes option option" where
  "protect_seal_suite supported suite k io = do {
     r \<leftarrow> seal_into_suite supported suite (pk_keys k) io;
     (case r of None \<Rightarrow> Some None
      | Some pkt \<Rightarrow> protect_header_suite suite (ik_hp (pk_keys k)) pkt (ps_pn_off io) (ps_pn_len io)) }"

definition protect_open_suite :: "bool \<Rightarrow> u16 \<Rightarrow> protect_keys \<Rightarrow> protect_open_io \<Rightarrow> (nat \<times> bytes) option" where
  "protect_open_suite supported suite k io =
     (if length (pi_pkt io) < pi_hdr_len io + aead_tag_len suite then None
      else do {
        r \<leftarrow> protect_header_suite suite (ik_hp (pk_keys k)) (pi_pkt io) (pi_pn_off io) (pi_pn_len io);
        (case r of None \<Rightarrow> Some (0, [])
         | Some pkt \<Rightarrow> aead_suite_open supported (suite_op suite (pk_keys k) (pi_pn io) (take (pi_hdr_len io) pkt))
                          (drop (pi_hdr_len io) pkt)) })"

section \<open>txpacket.c\<close>

record tx_desc =
  tx_byte0 :: u8
  tx_dcid :: bytes
  tx_scid :: bytes
  tx_is_initial :: bool
  tx_token :: bytes
  tx_pn :: u64
  tx_frames :: bytes
  tx_version :: u32

definition TX_PN_LEN :: nat where "TX_PN_LEN = 4"

definition tx_version_or_v1 :: "u32 \<Rightarrow> u32" where
  "tx_version_or_v1 v = (if v \<noteq> 0 then v else VERSION_1)"

definition tx_lhdr :: "tx_desc \<Rightarrow> lhdr_desc" where
  "tx_lhdr d = \<lparr>ld_byte0 = tx_byte0 d, ld_version = tx_version_or_v1 (tx_version d), ld_dcid = tx_dcid d, ld_scid = tx_scid d,
     ld_is_initial = tx_is_initial d, ld_token = tx_token d, ld_payload_len = length (tx_frames d), ld_pn = tx_pn d,
     ld_pn_len = of_nat TX_PN_LEN\<rparr>"

text \<open>The header buffer has 64 bytes and room for two connection IDs.\<close>

definition tx_build_hdr :: "tx_desc \<Rightarrow> nat \<Rightarrow> protect_seal_io option" where
  "tx_build_hdr d cap =
     (case lhdr_build (tx_lhdr d) (replicate (64 + 2 * WIRED_MAX_CID_LEN) 0) of
        (n, hdr, _) \<Rightarrow>
          if n = 0 then None
          else Some \<lparr>ps_hdr = take n hdr, ps_pn_off = n - TX_PN_LEN, ps_pn_len = TX_PN_LEN, ps_pn = tx_pn d,
                     ps_payload = tx_frames d, ps_cap = cap\<rparr>)"

definition tx_packet :: "bool \<Rightarrow> protect_keys \<Rightarrow> tx_desc \<Rightarrow> nat \<Rightarrow> bytes option option" where
  "tx_packet supported k d cap =
     (case tx_build_hdr d cap of None \<Rightarrow> Some None | Some io \<Rightarrow> protect_seal supported k io)"

definition tx_packet_suite :: "bool \<Rightarrow> u16 \<Rightarrow> protect_keys \<Rightarrow> tx_desc \<Rightarrow> nat \<Rightarrow> bytes option option" where
  "tx_packet_suite supported suite k d cap =
     (case tx_build_hdr d cap of None \<Rightarrow> Some None | Some io \<Rightarrow> protect_seal_suite supported suite k io)"

section \<open>vpn\_open.c\<close>

record vpn_desc =
  vd_pkt :: bytes
  vd_pn_off :: nat
  vd_length :: u64
  vd_largest_pn :: u64

definition pn_len_of :: "u8 \<Rightarrow> nat" where
  "pn_len_of byte0 = unat (byte0 AND 0x03) + 1"

definition region_ok :: "vpn_desc \<Rightarrow> bool" where
  "region_ok d \<longleftrightarrow> hp_sample_ok (length (vd_pkt d)) (hp_sample_offset (vd_pn_off d))
     \<and> unat (vd_length d) \<ge> 4 + 16 \<and> unat (vd_length d) \<le> length (vd_pkt d) - vd_pn_off d"

definition remove_hp :: "aes128 \<Rightarrow> vpn_desc \<Rightarrow> u64 \<times> nat \<times> bytes" where
  "remove_hp hp d =
     (let pkt = vd_pkt d; msk = hp_mask hp (take 16 (drop (hp_sample_offset (vd_pn_off d)) pkt));
          pkt = pkt[0 := pkt ! 0 XOR (msk ! 0 AND HP_LONG_MASK)]; pn_len = pn_len_of (pkt ! 0);
          pkt = hp_protect_pn pkt (vd_pn_off d) pn_len msk
      in (pnum_decode (drop (vd_pn_off d) pkt) pn_len (vd_largest_pn d), pn_len, pkt))"

record vpnopen_dims =
  vo_hdr_len :: nat
  vo_ct_len :: nat
  vo_pn :: u64

definition vpn_aead_open :: "bool \<Rightarrow> initial_keys \<Rightarrow> bytes \<Rightarrow> vpnopen_dims \<Rightarrow> bytes option" where
  "vpn_aead_open supported keys pkt v =
     gcm_open supported (gcm_of keys (vo_pn v) (take (vo_hdr_len v) pkt)) (take (vo_ct_len v + 16) (drop (vo_hdr_len v) pkt))"

definition vpn_open :: "bool \<Rightarrow> protect_keys \<Rightarrow> vpn_desc \<Rightarrow> bytes option" where
  "vpn_open supported k d =
     (if \<not> region_ok d then None
      else let (pn, pn_len, pkt) = remove_hp (pk_hp k) d
           in vpn_aead_open supported (pk_keys k) pkt
                \<lparr>vo_hdr_len = vd_pn_off d + pn_len, vo_ct_len = unat (vd_length d) - pn_len - 16, vo_pn = pn\<rparr>)"

definition remove_hp_suite :: "u16 \<Rightarrow> bytes \<Rightarrow> vpn_desc \<Rightarrow> (nat \<times> bytes) option" where
  "remove_hp_suite suite hp_key d =
     map_option (\<lambda>msk. let pkt = vd_pkt d; pkt = pkt[0 := pkt ! 0 XOR (msk ! 0 AND HP_LONG_MASK)]; pn_len = pn_len_of (pkt ! 0)
                         in (pn_len, hp_protect_pn pkt (vd_pn_off d) pn_len msk))
       (hp_suite_mask suite hp_key (take 16 (drop (hp_sample_offset (vd_pn_off d)) (vd_pkt d))))"

definition vpn_aead_open_suite :: "bool \<Rightarrow> u16 \<Rightarrow> initial_keys \<Rightarrow> bytes \<Rightarrow> vpnopen_dims \<Rightarrow> bytes option option" where
  "vpn_aead_open_suite supported suite keys pkt v = do {
     (n, pt) \<leftarrow> aead_suite_open supported (suite_op suite keys (vo_pn v) (take (vo_hdr_len v) pkt))
                   (take (vo_ct_len v + 16) (drop (vo_hdr_len v) pkt));
     Some (if n \<noteq> 0 then Some pt else None) }"

definition vpn_length_ok :: "vpn_desc \<Rightarrow> nat \<Rightarrow> bool" where
  "vpn_length_ok d tag_len \<longleftrightarrow> unat (vd_length d) \<ge> 4 + tag_len \<and> unat (vd_length d) \<le> length (vd_pkt d) - vd_pn_off d"

definition region_ok_suite :: "vpn_desc \<Rightarrow> nat \<Rightarrow> bool" where
  "region_ok_suite d tag_len \<longleftrightarrow> tag_len \<noteq> 0 \<and> hp_sample_ok (length (vd_pkt d)) (hp_sample_offset (vd_pn_off d)) \<and> vpn_length_ok d tag_len"

definition vpn_open_dims_suite :: "u16 \<Rightarrow> bytes \<Rightarrow> vpn_desc \<Rightarrow> nat \<Rightarrow> (vpnopen_dims \<times> bytes) option" where
  "vpn_open_dims_suite suite hp_key d tag_len =
     map_option (\<lambda>(pn_len, pkt).
         (\<lparr>vo_hdr_len = vd_pn_off d + pn_len, vo_ct_len = unat (vd_length d) - pn_len - tag_len,
           vo_pn = pnum_decode (drop (vd_pn_off d) pkt) pn_len (vd_largest_pn d)\<rparr>, pkt))
       (remove_hp_suite suite hp_key d)"

definition vpn_open_suite_head :: "u16 \<Rightarrow> protect_keys \<Rightarrow> vpn_desc \<Rightarrow> nat \<Rightarrow> (vpnopen_dims \<times> bytes) option" where
  "vpn_open_suite_head suite k d tag_len =
     (if \<not> region_ok_suite d tag_len then None else vpn_open_dims_suite suite (ik_hp (pk_keys k)) d tag_len)"

definition vpn_open_suite :: "bool \<Rightarrow> u16 \<Rightarrow> protect_keys \<Rightarrow> vpn_desc \<Rightarrow> bytes option option" where
  "vpn_open_suite supported suite k d =
     (case vpn_open_suite_head suite k d (aead_tag_len suite) of None \<Rightarrow> Some None
      | Some (v, pkt) \<Rightarrow> vpn_aead_open_suite supported suite (pk_keys k) pkt v)"

section \<open>rxpacket.c, hspkt\_build.c and hspkt\_open.c\<close>

record rx_desc =
  rx_pkt :: bytes
  rx_is_initial :: bool
  rx_largest_pn :: u64

definition rx_packet :: "bool \<Rightarrow> protect_keys \<Rightarrow> rx_desc \<Rightarrow> bytes option" where
  "rx_packet supported k d =
     (case lhdr_parse (rx_pkt d) (rx_is_initial d) of None \<Rightarrow> None
      | Some h \<Rightarrow> vpn_open supported k \<lparr>vd_pkt = rx_pkt d, vd_pn_off = lh_pn_off h, vd_length = lh_length h,
                                        vd_largest_pn = rx_largest_pn d\<rparr>)"

record hspkt_desc =
  hs_dcid :: bytes
  hs_scid :: bytes
  hs_pn :: u64
  hs_payload :: bytes
  hs_version :: u32

definition hspkt_byte0 :: "u32 \<Rightarrow> u8" where
  "hspkt_byte0 version =
     (let wire = (if version = VERSION_2 then v2_packet_type LT_HANDSHAKE else v1_packet_type LT_HANDSHAKE)
      in 0xc3 OR push_bit 4 (word_of_int wire))"

definition hspkt_tx_desc :: "hspkt_desc \<Rightarrow> tx_desc" where
  "hspkt_tx_desc d = \<lparr>tx_byte0 = hspkt_byte0 (hs_version d), tx_dcid = hs_dcid d, tx_scid = hs_scid d, tx_is_initial = False,
     tx_token = [], tx_pn = hs_pn d, tx_frames = hs_payload d, tx_version = hs_version d\<rparr>"

definition hspkt_build :: "bool \<Rightarrow> protect_keys \<Rightarrow> hspkt_desc \<Rightarrow> nat \<Rightarrow> bytes option option" where
  "hspkt_build supported k d cap = tx_packet supported k (hspkt_tx_desc d) cap"

definition hspkt_build_suite :: "bool \<Rightarrow> u16 \<Rightarrow> protect_keys \<Rightarrow> hspkt_desc \<Rightarrow> nat \<Rightarrow> bytes option option" where
  "hspkt_build_suite supported suite k d cap = tx_packet_suite supported suite k (hspkt_tx_desc d) cap"

definition hspkt_open :: "bool \<Rightarrow> protect_keys \<Rightarrow> bytes \<Rightarrow> u64 \<Rightarrow> bytes option" where
  "hspkt_open supported k pkt largest_pn =
     (case lhdr_parse pkt False of None \<Rightarrow> None
      | Some h \<Rightarrow> vpn_open supported k \<lparr>vd_pkt = pkt, vd_pn_off = lh_pn_off h, vd_length = lh_length h, vd_largest_pn = largest_pn\<rparr>)"

definition hspkt_open_suite :: "bool \<Rightarrow> u16 \<Rightarrow> protect_keys \<Rightarrow> bytes \<Rightarrow> u64 \<Rightarrow> bytes option option" where
  "hspkt_open_suite supported suite k pkt largest_pn =
     (case lhdr_parse pkt False of None \<Rightarrow> Some None
      | Some h \<Rightarrow> vpn_open_suite supported suite k
                    \<lparr>vd_pkt = pkt, vd_pn_off = lh_pn_off h, vd_length = lh_length h, vd_largest_pn = largest_pn\<rparr>)"

section \<open>keyphase.c, spin.c, bitset.c and onertt.c\<close>

definition keyphase_set :: "u8 \<Rightarrow> bool \<Rightarrow> u8" where
  "keyphase_set byte0 phase = (byte0 AND NOT 0x04) OR (if phase then 0x04 else 0)"

definition spin_set :: "u8 \<Rightarrow> bool \<Rightarrow> u8" where
  "spin_set byte0 spin = (let cleared = byte0 AND NOT 0x20 in if spin then cleared OR 0x20 else cleared)"

definition greasebit_apply :: "u8 \<Rightarrow> bool \<Rightarrow> u8" where
  "greasebit_apply byte0 clear = (if clear then byte0 AND NOT 0x40 else byte0 OR 0x40)"

record hspkt_onertt_desc =
  on_dcid :: bytes
  on_pn :: u64
  on_payload :: bytes
  on_phase_bit :: bool
  on_spin :: bool
  on_clear_quic_bit :: bool

definition ONERTT_BYTE0 :: u8 where "ONERTT_BYTE0 = 0x43"

definition onertt_byte0 :: "hspkt_onertt_desc \<Rightarrow> u8" where
  "onertt_byte0 d =
     greasebit_apply (spin_set (keyphase_set ONERTT_BYTE0 (on_phase_bit d)) (on_spin d)) (on_clear_quic_bit d)"

definition build_short_header :: "hspkt_onertt_desc \<Rightarrow> bytes" where
  "build_short_header d =
     onertt_byte0 d # on_dcid d @ map (\<lambda>i. ucast (drop_bit (8 * (3 - i)) (on_pn d))) [0..<4]"

definition onertt_seal_gcm :: "bool \<Rightarrow> protect_keys \<Rightarrow> hspkt_onertt_desc \<Rightarrow> bytes \<Rightarrow> bytes" where
  "onertt_seal_gcm supported k d hdr = hdr @ gcm_seal supported (gcm_of (pk_keys k) (on_pn d) hdr) (on_payload d)"

text \<open>
  The header is written before the capacity is compared: an output buffer smaller than the header is
  undefined behaviour.
\<close>

definition hspkt_onertt_build :: "bool \<Rightarrow> protect_keys \<Rightarrow> hspkt_onertt_desc \<Rightarrow> nat \<Rightarrow> bytes option option" where
  "hspkt_onertt_build supported k d cap =
     (let hdr = build_short_header d; pn_off = 1 + length (on_dcid d)
      in if cap < length hdr then None
         else if length hdr + length (on_payload d) + 16 > cap then Some None
         else let o1 = onertt_seal_gcm supported k d hdr
              in map_option (\<lambda>sample. Some (hp_apply (hp_mask (pk_hp k) sample) o1 pn_off 4 HP_SHORT_MASK))
                   (read_sample o1 (pn_off + 4)))"

definition onertt_seal_suite :: "bool \<Rightarrow> u16 \<Rightarrow> protect_keys \<Rightarrow> hspkt_onertt_desc \<Rightarrow> bytes \<Rightarrow> nat \<Rightarrow> nat \<Rightarrow> bytes option option" where
  "onertt_seal_suite supported suite k d hdr need cap =
     (if need > cap then Some None
      else do {
        (n, ct) \<leftarrow> aead_suite_seal supported (suite_op suite (pk_keys k) (on_pn d) hdr) (on_payload d);
        Some (if n \<noteq> 0 then Some (hdr @ ct) else None) })"

definition hspkt_onertt_build_suite :: "bool \<Rightarrow> u16 \<Rightarrow> protect_keys \<Rightarrow> hspkt_onertt_desc \<Rightarrow> nat \<Rightarrow> bytes option option" where
  "hspkt_onertt_build_suite supported suite k d cap =
     (let hdr = build_short_header d; pn_off = 1 + length (on_dcid d);
          need = length hdr + length (on_payload d) + aead_tag_len suite
      in if cap < length hdr then None
         else do {
           r \<leftarrow> onertt_seal_suite supported suite k d hdr need cap;
           (case r of None \<Rightarrow> Some None
            | Some o1 \<Rightarrow> do {
                sample \<leftarrow> read_sample o1 (pn_off + 4);
                Some (map_option (\<lambda>msk. hp_apply msk o1 pn_off 4 HP_SHORT_MASK)
                       (hp_suite_mask suite (ik_hp (pk_keys k)) sample)) }) })"

section \<open>unprotect.c\<close>

record hspkt_unprotect_desc =
  ud_pkt :: bytes
  ud_hdr_len :: nat
  ud_pn_off :: nat
  ud_bits_mask :: u8
  ud_largest_pn :: u64

definition aead_open :: "bool \<Rightarrow> initial_keys \<Rightarrow> bytes \<Rightarrow> nat \<Rightarrow> u64 \<Rightarrow> bytes option" where
  "aead_open supported keys pkt hdr_len pn = gcm_open supported (gcm_of keys pn (take hdr_len pkt)) (drop hdr_len pkt)"

definition open_pkt :: "bool \<Rightarrow> initial_keys \<Rightarrow> hspkt_unprotect_desc \<Rightarrow> bytes \<Rightarrow> bytes \<Rightarrow> bytes option" where
  "open_pkt supported keys d pkt msk =
     (let pn_off = ud_pn_off d; pn_len = unat (pkt ! 0 AND 0x03) + 1; hdr_len = pn_off + pn_len;
          pkt = hp_protect_pn pkt pn_off pn_len msk
      in if length pkt \<le> hdr_len + 16 then None
         else aead_open supported keys pkt hdr_len (pnum_decode (drop pn_off pkt) pn_len (ud_largest_pn d)))"

definition hspkt_unprotect :: "bool \<Rightarrow> protect_keys \<Rightarrow> hspkt_unprotect_desc \<Rightarrow> bytes option" where
  "hspkt_unprotect supported k d =
     (if \<not> hp_sample_ok (length (ud_pkt d)) (hp_sample_offset (ud_pn_off d)) then None
      else let pkt = ud_pkt d; msk = hp_mask (pk_hp k) (take 16 (drop (hp_sample_offset (ud_pn_off d)) pkt))
           in open_pkt supported (pk_keys k) d (pkt[0 := pkt ! 0 XOR (msk ! 0 AND ud_bits_mask d)]) msk)"

definition aead_open_suite :: "bool \<Rightarrow> u16 \<Rightarrow> initial_keys \<Rightarrow> bytes \<Rightarrow> nat \<Rightarrow> u64 \<Rightarrow> bytes option option" where
  "aead_open_suite supported suite keys pkt hdr_len pn = do {
     (n, pt) \<leftarrow> aead_suite_open supported (suite_op suite keys pn (take hdr_len pkt)) (drop hdr_len pkt);
     Some (if n \<noteq> 0 then Some pt else None) }"

definition open_pkt_suite_head :: "hspkt_unprotect_desc \<Rightarrow> bytes \<Rightarrow> bytes \<Rightarrow> nat \<Rightarrow> (nat \<times> bytes) option" where
  "open_pkt_suite_head d pkt msk tag_len =
     (let pn_len = unat (pkt ! 0 AND 0x03) + 1
      in if tag_len = 0 then None
         else let pkt = hp_protect_pn pkt (ud_pn_off d) pn_len msk; hdr_len = ud_pn_off d + pn_len
              in if length pkt > hdr_len + tag_len then Some (hdr_len, pkt) else None)"

definition open_pkt_suite :: "bool \<Rightarrow> u16 \<Rightarrow> initial_keys \<Rightarrow> hspkt_unprotect_desc \<Rightarrow> bytes \<Rightarrow> bytes \<Rightarrow> bytes option option" where
  "open_pkt_suite supported suite keys d pkt msk =
     (case open_pkt_suite_head d pkt msk (aead_tag_len suite) of None \<Rightarrow> Some None
      | Some (hdr_len, pkt) \<Rightarrow>
          aead_open_suite supported suite keys pkt hdr_len
            (pnum_decode (drop (ud_pn_off d) pkt) (hdr_len - ud_pn_off d) (ud_largest_pn d)))"

definition hspkt_unprotect_suite :: "bool \<Rightarrow> u16 \<Rightarrow> protect_keys \<Rightarrow> hspkt_unprotect_desc \<Rightarrow> bytes option option" where
  "hspkt_unprotect_suite supported suite k d =
     (if \<not> hp_sample_ok (length (ud_pkt d)) (hp_sample_offset (ud_pn_off d)) then Some None
      else case hp_suite_mask suite (ik_hp (pk_keys k)) (take 16 (drop (hp_sample_offset (ud_pn_off d)) (ud_pkt d))) of
             None \<Rightarrow> Some None
           | Some msk \<Rightarrow>
               open_pkt_suite supported suite (pk_keys k) d
                 ((ud_pkt d)[0 := ud_pkt d ! 0 XOR (msk ! 0 AND ud_bits_mask d)]) msk)"

record hspkt_onertt_open_desc =
  oo_pkt :: bytes
  oo_dcid_len :: u8
  oo_largest_pn :: u64

definition onertt_unprotect_desc :: "hspkt_onertt_open_desc \<Rightarrow> hspkt_unprotect_desc" where
  "onertt_unprotect_desc d = \<lparr>ud_pkt = oo_pkt d, ud_hdr_len = 5 + unat (oo_dcid_len d), ud_pn_off = 1 + unat (oo_dcid_len d),
     ud_bits_mask = HP_SHORT_MASK, ud_largest_pn = oo_largest_pn d\<rparr>"

definition hspkt_onertt_open :: "bool \<Rightarrow> protect_keys \<Rightarrow> hspkt_onertt_open_desc \<Rightarrow> bytes option" where
  "hspkt_onertt_open supported k d = hspkt_unprotect supported k (onertt_unprotect_desc d)"

definition hspkt_onertt_open_suite :: "bool \<Rightarrow> u16 \<Rightarrow> protect_keys \<Rightarrow> hspkt_onertt_open_desc \<Rightarrow> bytes option option" where
  "hspkt_onertt_open_suite supported suite k d = hspkt_unprotect_suite supported suite k (onertt_unprotect_desc d)"

section \<open>Header protection is undone exactly\<close>

lemma length_hp_protect_pn [simp]: "length (hp_protect_pn pkt off n m) = length pkt"
  by (induction n) (simp_all add: hp_protect_pn_def)

lemma nth_hp_protect_pn:
  "off + n \<le> length pkt \<Longrightarrow>
   hp_protect_pn pkt off n m ! j = (if off \<le> j \<and> j < off + n then pkt ! j XOR m ! (1 + (j - off)) else pkt ! j)"
proof (induction n)
  case 0
  then show ?case by (auto simp: hp_protect_pn_def)
next
  case (Suc n)
  have "hp_protect_pn pkt off (Suc n) m
      = (hp_protect_pn pkt off n m)[off + n := hp_protect_pn pkt off n m ! (off + n) XOR m ! (1 + n)]"
    by (simp add: hp_protect_pn_def)
  with Suc show ?case by (auto simp: nth_list_update less_Suc_eq)
qed

lemma length_hp_apply [simp]: "length (hp_apply m pkt off n bits) = length pkt"
  by (simp add: hp_apply_def)

lemma nth_hp_apply:
  assumes "1 \<le> off" and "off + n \<le> length pkt"
  shows "hp_apply m pkt off n bits ! j =
    (if off \<le> j \<and> j < off + n then pkt ! j XOR m ! (1 + (j - off)) else if j = 0 then pkt ! 0 XOR (m ! 0 AND bits) else pkt ! j)"
  using assms by (cases "pkt = []") (auto simp: hp_apply_def nth_hp_protect_pn nth_list_update)

lemma xor_xor_u8: "(a XOR b) XOR b = (a :: u8)"
  by (auto simp: bit_eq_iff bit_simps)

lemma hp_apply_twice:
  assumes "1 \<le> off" and "off + n \<le> length pkt"
  shows "hp_apply m (hp_apply m pkt off n bits) off n bits = pkt"
  using assms by (intro nth_equalityI) (auto simp: nth_hp_apply xor_xor_u8)

lemma hp_sample_kept:
  assumes "1 \<le> off" and "n \<le> 4" and "off + 4 \<le> length pkt"
  shows "drop (off + 4) (hp_apply m pkt off n bits) = drop (off + 4) pkt"
  using assms by (intro nth_equalityI) (auto simp: nth_hp_apply)

lemma pn_len_range: "1 \<le> pn_len_of b" "pn_len_of b \<le> 4"
proof -
  have "unat (b AND 3) \<le> unat (3 :: u8)" by (metis word_and_le1 word_le_nat_alt)
  then show "1 \<le> pn_len_of b" "pn_len_of b \<le> 4" by (simp_all add: pn_len_of_def)
qed

text \<open>
  What the packets on the wire are: \<open>protected\<close> masks the first byte and the packet number of the header
  \<open>hdr\<close> followed by the ciphertext \<open>ct\<close>, \<open>unprotected\<close> recovers both.
\<close>

definition protected :: "(bytes \<Rightarrow> bytes option) \<Rightarrow> u8 \<Rightarrow> nat \<Rightarrow> bytes \<Rightarrow> bytes \<Rightarrow> bytes option" where
  "protected msk bits off hdr ct =
     map_option (\<lambda>m. hp_apply m (hdr @ ct) off (length hdr - off) bits) (msk (take 16 (drop (off + 4) (hdr @ ct))))"

definition unprotected :: "(bytes \<Rightarrow> bytes option) \<Rightarrow> u8 \<Rightarrow> nat \<Rightarrow> bytes \<Rightarrow> (bytes \<times> bytes) option" where
  "unprotected msk bits off pkt =
     (if length pkt < off + 20 then None
      else map_option (\<lambda>m. let n = pn_len_of (pkt ! 0 XOR (m ! 0 AND bits)); p = hp_apply m pkt off n bits
                            in (take (off + n) p, drop (off + n) p)) (msk (take 16 (drop (off + 4) pkt))))"

lemma unprotected_iff:
  assumes off: "1 \<le> off"
  shows "unprotected msk bits off pkt = Some (hdr, ct) \<longleftrightarrow>
    length hdr = off + pn_len_of (hdr ! 0) \<and> off + 20 \<le> length hdr + length ct \<and> protected msk bits off hdr ct = Some pkt"
    (is "?L \<longleftrightarrow> ?R")
proof
  assume ?L
  then obtain m where m: "off + 20 \<le> length pkt" "msk (take 16 (drop (off + 4) pkt)) = Some m"
    and p: "hdr = take (off + pn_len_of (pkt ! 0 XOR (m ! 0 AND bits))) (hp_apply m pkt off (pn_len_of (pkt ! 0 XOR (m ! 0 AND bits))) bits)"
      "ct = drop (off + pn_len_of (pkt ! 0 XOR (m ! 0 AND bits))) (hp_apply m pkt off (pn_len_of (pkt ! 0 XOR (m ! 0 AND bits))) bits)"
    by (auto simp: unprotected_def Let_def split: if_splits)
  define n where "n = pn_len_of (pkt ! 0 XOR (m ! 0 AND bits))"
  have n: "1 \<le> n" "n \<le> 4" using pn_len_range n_def by simp_all
  have a: "hdr @ ct = hp_apply m pkt off n bits" by (simp add: p n_def)
  have l: "length hdr = off + n" using m(1) n by (simp add: p n_def)
  have "hdr ! 0 = (hdr @ ct) ! 0" using l n by (simp add: nth_append)
  also have "\<dots> = pkt ! 0 XOR (m ! 0 AND bits)" unfolding a using off m(1) n by (simp add: nth_hp_apply)
  finally have "pn_len_of (hdr ! 0) = n" by (simp add: n_def)
  moreover have "length hdr + length ct = length pkt" using arg_cong [OF a, of length] by simp
  moreover have "drop (off + 4) (hdr @ ct) = drop (off + 4) pkt" unfolding a using off n m(1) by (intro hp_sample_kept) simp_all
  then have "protected msk bits off hdr ct = Some pkt"
    unfolding protected_def a using m n l off by (simp add: hp_apply_twice)
  ultimately show ?R using l m(1) by simp
next
  assume R: ?R
  define n where "n = pn_len_of (hdr ! 0)"
  have n: "1 \<le> n" "n \<le> 4" using pn_len_range n_def by simp_all
  have l: "length hdr = off + n" using R n_def by simp
  from R obtain m where m: "msk (take 16 (drop (off + 4) (hdr @ ct))) = Some m" "pkt = hp_apply m (hdr @ ct) off n bits"
    using l by (auto simp: protected_def)
  have "drop (off + 4) pkt = drop (off + 4) (hdr @ ct)" unfolding m(2) using off n R by (intro hp_sample_kept) simp_all
  moreover have "pkt ! 0 XOR (m ! 0 AND bits) = hdr ! 0"
    unfolding m(2) using off l n by (simp add: nth_hp_apply nth_append xor_xor_u8)
  moreover have "hp_apply m pkt off n bits = hdr @ ct" unfolding m(2) using off l by (simp add: hp_apply_twice)
  moreover have "length pkt = length hdr + length ct" unfolding m(2) by simp
  ultimately show ?L using R m(1) l by (simp add: unprotected_def n_def [symmetric])
qed
text \<open>Opening a packet: header protection, packet number, AEAD.\<close>

definition opened :: "(bytes \<Rightarrow> bytes option) \<Rightarrow> (u64 \<Rightarrow> bytes \<Rightarrow> bytes \<Rightarrow> bytes option option) \<Rightarrow> u8 \<Rightarrow> nat \<Rightarrow> u64 \<Rightarrow> bytes
    \<Rightarrow> bytes option option" where
  "opened msk unseal bits off largest pkt =
     (case unprotected msk bits off pkt of None \<Rightarrow> Some None
      | Some (hdr, ct) \<Rightarrow> unseal (pnum_decode (drop off hdr) (length hdr - off) largest) hdr ct)"

section \<open>What packet protection needs of a cipher\<close>

text \<open>
  The mask function has a value, and for a non-empty payload opening accepts exactly what sealing
  produces. \<open>ok\<close> says which keys the laws hold for. An empty payload is left out: the suite functions
  report the plaintext length, so that an authentic empty payload looks like a failure, and QUIC does not
  allow packets without frames.
\<close>

locale packet_cipher =
  fixes ok :: "'k \<Rightarrow> bool"
    and msk :: "'k \<Rightarrow> bytes \<Rightarrow> bytes option"
    and seal :: "'k \<Rightarrow> u64 \<Rightarrow> bytes \<Rightarrow> bytes \<Rightarrow> bytes option"
    and unseal :: "'k \<Rightarrow> u64 \<Rightarrow> bytes \<Rightarrow> bytes \<Rightarrow> bytes option option"
  assumes msk_some: "ok k \<Longrightarrow> \<exists>m. msk k s = Some m"
    and unseal_iff: "ok k \<Longrightarrow> pt \<noteq> [] \<Longrightarrow> unseal k pn aad x = Some (Some pt) \<longleftrightarrow> seal k pn aad pt = Some x"
    and seal_length: "ok k \<Longrightarrow> seal k pn aad pt = Some x \<Longrightarrow> length x = length pt + 16"
begin

lemma protected_some: "ok k \<Longrightarrow> \<exists>pkt. protected (msk k) bits off hdr ct = Some pkt \<and> length pkt = length hdr + length ct"
  using msk_some [of k "take 16 (drop (off + 4) (hdr @ ct))"] by (auto simp: protected_def)

lemma opened_iff:
  assumes "ok k" and "1 \<le> off" and "pt \<noteq> []"
  shows "opened (msk k) (unseal k) bits off largest pkt = Some (Some pt)
    \<longleftrightarrow> (\<exists>hdr ct. length hdr = off + pn_len_of (hdr ! 0) \<and> off + 20 \<le> length hdr + length pt + 16
        \<and> seal k (pnum_decode (drop off hdr) (length hdr - off) largest) hdr pt = Some ct
        \<and> protected (msk k) bits off hdr ct = Some pkt)"
proof -
  have "unprotected (msk k) bits off pkt = Some (hdr, ct)
        \<and> unseal k (pnum_decode (drop off hdr) (length hdr - off) largest) hdr ct = Some (Some pt)
    \<longleftrightarrow> length hdr = off + pn_len_of (hdr ! 0) \<and> off + 20 \<le> length hdr + length pt + 16
        \<and> seal k (pnum_decode (drop off hdr) (length hdr - off) largest) hdr pt = Some ct
        \<and> protected (msk k) bits off hdr ct = Some pkt" for hdr ct
    unfolding unprotected_iff [OF assms(2)] unseal_iff [OF assms(1,3)]
    using seal_length [OF assms(1), of _ hdr pt ct] by auto
  moreover have "opened (msk k) (unseal k) bits off largest pkt = Some (Some pt) \<longleftrightarrow>
      (\<exists>hdr ct. unprotected (msk k) bits off pkt = Some (hdr, ct)
        \<and> unseal k (pnum_decode (drop off hdr) (length hdr - off) largest) hdr ct = Some (Some pt))"
    by (auto simp: opened_def split: option.splits)
  ultimately show ?thesis by simp
qed

end

definition keys_ok :: "initial_keys \<Rightarrow> bool" where
  "keys_ok keys \<longleftrightarrow> length (ik_key keys) = 32 \<and> length (ik_iv keys) = 12 \<and> length (ik_hp keys) = 32"

lemma aes128_init_take: "16 \<le> length key \<Longrightarrow> aes128_init (take 16 key) = aes128_init key"
proof -
  assume "16 \<le> length key"
  then have "map (key_word (take 16 key)) [0..<4] = map (key_word key) [0..<4]" by (intro map_cong) (auto simp: key_word_def)
  then show ?thesis by (simp only: aes128_init_def)
qed

lemma length_fold_upd: "length (fold (\<lambda>i xs. xs[f i := g i xs]) is xs) = length xs"
  by (induction "is" arbitrary: xs) simp_all

lemma length_suite_nonce [simp]: "length (suite_nonce iv pn) = 12"
  unfolding suite_nonce_def by (subst length_fold_upd) simp

lemma protect_nonce_eq: "protect_nonce = suite_nonce"
  by (simp add: fun_eq_iff protect_nonce_def suite_nonce_def)

lemma gcm_of_ok: "keys_ok keys \<Longrightarrow> gcm_ctx_ok (gcm_of keys pn aad)"
  unfolding gcm_ctx_ok_def gcm_of_def
  by (auto simp: keys_ok_def protect_nonce_eq aes128_init_take intro!: exI [of _ "take 16 (ik_key keys)"])

lemma gcm_seal_iff:
  assumes "gcm_ctx_ok g"
  shows "gcm_open s g x = Some pt \<longleftrightarrow> gcm_seal s g pt = x"
  unfolding gcm_paths [OF assms] using gcm_scalar_open_seal [of g pt] gcm_scalar_only_sealed [of g x pt] by auto

lemma gcm_seal_length: "gcm_ctx_ok g \<Longrightarrow> length (gcm_seal s g pt) = length pt + 16"
  by (simp add: gcm_paths)

interpretation aes: packet_cipher "\<lambda>k. keys_ok (pk_keys k)" "\<lambda>k sample. Some (hp_mask (pk_hp k) sample)"
    "\<lambda>k pn aad pt. Some (gcm_seal s (gcm_of (pk_keys k) pn aad) pt)"
    "\<lambda>k pn aad x. Some (gcm_open s (gcm_of (pk_keys k) pn aad) x)" for s
  by unfold_locales (auto simp: gcm_of_ok gcm_seal_iff gcm_seal_length)

section \<open>The cipher suites\<close>

definition suite_known :: "u16 \<Rightarrow> bool" where
  "suite_known suite \<longleftrightarrow> suite \<in> {TLS_AES_128_GCM_SHA256, TLS_AES_256_GCM_SHA384, TLS_CHACHA20_POLY1305_SHA256}"

lemma suite_unknown:
  assumes "\<not> suite_known suite"
  shows "aead_tag_len suite = 0" "hp_suite_mask suite key sample = None"
  using assms by (simp_all add: suite_known_def aead_tag_len_def aead_key_len_def aead_params_tab_def hp_suite_mask_def hps_tab_def)

lemma suite_knownE:
  assumes "suite_known suite"
  obtains "suite = TLS_AES_128_GCM_SHA256" | "suite = TLS_AES_256_GCM_SHA384" | "suite = TLS_CHACHA20_POLY1305_SHA256"
  using assms by (auto simp: suite_known_def)

lemma suite_tag_len: "suite_known suite \<Longrightarrow> aead_tag_len suite = 16"
  by (auto simp: suite_known_def aead_tag_len_def aead_key_len_def aead_params_tab_def suite_codes)

lemma suite_mask_some: "suite_known suite \<Longrightarrow> \<exists>m. hp_suite_mask suite key sample = Some m"
  by (auto simp: suite_known_def hp_suite_mask_def hps_tab_def suite_codes)

lemma aead_suite_exact:
  assumes known: "suite_known suite" and keys: "keys_ok keys" and ne: "pt \<noteq> []"
  shows "(\<exists>n. aead_suite_open s (suite_op suite keys pn aad) x = Some (n, pt) \<and> n \<noteq> 0)
    \<longleftrightarrow> aead_suite_seal s (suite_op suite keys pn aad) pt = Some (length x, x)"
proof -
  define io where "io src = suite_io (suite_op suite keys pn aad) src" for src
  have nonce: "suite_nonce (ik_iv keys) pn = protect_nonce (ik_iv keys) pn" by (simp add: protect_nonce_eq)
  have len: "length x - 16 \<noteq> 0" if "length x = length pt + 16" using that ne by simp
  from known show ?thesis
  proof (cases rule: suite_knownE)
    case 1
    have g: "gcm_ctx_ok (gcm_of keys pn aad)" by (rule gcm_of_ok [OF keys])
    have l: "length x = length pt + 16" if "gcm_seal s (gcm_of keys pn aad) pt = x" using that by (auto simp: gcm_paths [OF g])
    show ?thesis
      using gcm_seal_iff [OF g, of s x pt] l len unfolding 1
      by (auto simp: aead_suite_open_def aead_suite_seal_def aead_suite_tab_def suite_codes aead_gcm_open_def aead_gcm_seal_def
          suite_io_def suite_op_def gcm_of_def nonce split: option.splits)
  next
    case 2
    let ?g = "\<lparr>gc_aes = aes256_init (ik_key keys), gc_nonce = suite_nonce (ik_iv keys) pn, gc_aad = aad\<rparr>"
    show ?thesis
      using gcm256.unseal_iff [of ?g x pt] gcm256.unseal_length [of ?g x pt] len unfolding 2
      by (auto simp: aead_suite_open_def aead_suite_seal_def aead_suite_tab_def suite_codes aead_gcm256_open_def aead_gcm256_seal_def
          suite_io_def suite_op_def split: option.splits)
  next
    case 3
    let ?c = "\<lparr>cp_key = ik_key keys, cp_nonce = suite_nonce (ik_iv keys) pn, cp_aad = aad\<rparr>"
    have o: "aead_suite_open s (suite_op suite keys pn aad) x
        = map_option (\<lambda>r. case r of None \<Rightarrow> (0, []) | Some pt \<Rightarrow> (length x - 16, pt)) (chapoly_open ?c x)"
      unfolding 3 by (simp add: aead_suite_open_def aead_suite_tab_def suite_codes cha_open_def suite_io_def suite_op_def cong: option.case_cong)
    have sl: "aead_suite_seal s (suite_op suite keys pn aad) pt = map_option (\<lambda>x. (length x, x)) (chapoly_seal ?c pt)"
      unfolding 3 by (simp add: aead_suite_seal_def aead_suite_tab_def suite_codes cha_seal_def suite_io_def suite_op_def)
    have "(\<exists>n. aead_suite_open s (suite_op suite keys pn aad) x = Some (n, pt) \<and> n \<noteq> 0) \<longleftrightarrow> chapoly_open ?c x = Some (Some pt)"
      using chapoly.unseal_length [of ?c x pt] ne unfolding o by (cases "chapoly_open ?c x") (auto split: option.splits)
    then show ?thesis unfolding sl chapoly.unseal_iff by auto
  qed
qed
definition suite_seal :: "bool \<Rightarrow> u16 \<times> protect_keys \<Rightarrow> u64 \<Rightarrow> bytes \<Rightarrow> bytes \<Rightarrow> bytes option" where
  "suite_seal s = (\<lambda>(suite, k) pn aad pt. map_option snd (aead_suite_seal s (suite_op suite (pk_keys k) pn aad) pt))"

definition suite_unseal :: "bool \<Rightarrow> u16 \<times> protect_keys \<Rightarrow> u64 \<Rightarrow> bytes \<Rightarrow> bytes \<Rightarrow> bytes option option" where
  "suite_unseal s = (\<lambda>(suite, k) pn aad x. map_option (\<lambda>(n, pt). if n \<noteq> 0 then Some pt else None)
     (aead_suite_open s (suite_op suite (pk_keys k) pn aad) x))"

definition suite_msk :: "u16 \<times> protect_keys \<Rightarrow> bytes \<Rightarrow> bytes option" where
  "suite_msk = (\<lambda>(suite, k). hp_suite_mask suite (ik_hp (pk_keys k)))"

definition suite_ok :: "u16 \<times> protect_keys \<Rightarrow> bool" where
  "suite_ok = (\<lambda>(suite, k). suite_known suite \<and> keys_ok (pk_keys k))"

lemma aead_suite_seal_length:
  assumes known: "suite_known suite" and keys: "keys_ok keys" and "aead_suite_seal s (suite_op suite keys pn aad) pt = Some (n, x)"
  shows "n = length x \<and> length x = length pt + 16"
  using known
proof (cases rule: suite_knownE)
  case 1
  have "gcm_seal s (gcm_of keys pn aad) pt = x \<and> n = length x"
    using assms(3) unfolding 1 by (auto simp: aead_suite_seal_def aead_suite_tab_def suite_codes aead_gcm_seal_def
        suite_io_def suite_op_def gcm_of_def protect_nonce_eq)
  then show ?thesis using gcm_seal_length [OF gcm_of_ok [OF keys]] by metis
next
  case 2
  then show ?thesis using assms(3) gcm256.seal_length
    by (auto simp: aead_suite_seal_def aead_suite_tab_def suite_codes aead_gcm256_seal_def suite_io_def suite_op_def)
next
  case 3
  then show ?thesis using assms(3) chapoly.seal_length
    by (auto simp: aead_suite_seal_def aead_suite_tab_def suite_codes cha_seal_def suite_io_def suite_op_def)
qed

lemma aead_suite_seal_some:
  assumes known: "suite_known suite" and fits: "length aad + length pt \<le> 2984"
  shows "aead_suite_seal s (suite_op suite keys pn aad) pt \<noteq> None"
  using known
proof (cases rule: suite_knownE)
  case 3
  let ?c = "\<lparr>cp_key = ik_key keys, cp_nonce = suite_nonce (ik_iv keys) pn, cp_aad = aad\<rparr>"
  show ?thesis using chapoly_fits [of ?c "chapoly_stream ?c pt"] fits unfolding 3
    by (auto simp: aead_suite_seal_def aead_suite_tab_def suite_codes cha_seal_def chapoly_seal_def Let_def suite_io_def suite_op_def)
qed (simp_all add: aead_suite_seal_def aead_suite_tab_def suite_codes aead_gcm256_seal_def aead_gcm_seal_def suite_op_def)

lemma aead_suite_any_cpu:
  assumes "keys_ok keys"
  shows "aead_suite_seal s (suite_op suite keys pn aad) pt = aead_suite_seal s' (suite_op suite keys pn aad) pt"
    "aead_suite_open s (suite_op suite keys pn aad) x = aead_suite_open s' (suite_op suite keys pn aad) x"
proof -
  have g: "gcm_ctx_ok \<lparr>gc_aes = aes128_init (ik_key keys), gc_nonce = suite_nonce (ik_iv keys) pn, gc_aad = aad\<rparr>"
    using gcm_of_ok [OF assms, of pn aad] by (simp add: gcm_of_def protect_nonce_eq)
  show "aead_suite_seal s (suite_op suite keys pn aad) pt = aead_suite_seal s' (suite_op suite keys pn aad) pt"
    "aead_suite_open s (suite_op suite keys pn aad) x = aead_suite_open s' (suite_op suite keys pn aad) x"
    by (simp_all add: aead_suite_seal_def aead_suite_open_def aead_suite_tab_def aead_gcm_seal_def aead_gcm_open_def suite_io_def
        suite_op_def gcm_paths [OF g])
qed

interpretation suite: packet_cipher suite_ok suite_msk "suite_seal s" "suite_unseal s" for s
proof (unfold_locales, goal_cases)
  case (1 k x)
  then show ?case using suite_mask_some by (cases k) (simp add: suite_ok_def suite_msk_def)
next
  case (2 k pt pn aad x)
  obtain st kk where k: "k = (st, kk)" by fastforce
  have ok: "suite_known st" "keys_ok (pk_keys kk)" using 2(1) by (simp_all add: suite_ok_def k)
  have "suite_unseal s k pn aad x = Some (Some pt) \<longleftrightarrow> (\<exists>n. aead_suite_open s (suite_op st (pk_keys kk) pn aad) x = Some (n, pt) \<and> n \<noteq> 0)"
    by (auto simp: suite_unseal_def k split: if_splits)
  moreover have "suite_seal s k pn aad pt = Some x \<longleftrightarrow> aead_suite_seal s (suite_op st (pk_keys kk) pn aad) pt = Some (length x, x)"
    using aead_suite_seal_length [OF ok] by (auto simp: suite_seal_def k)
  ultimately show ?case using aead_suite_exact [OF ok 2(2)] by simp
next
  case (3 k pn aad pt x)
  then show ?case by (cases k) (auto simp: suite_ok_def suite_seal_def dest: aead_suite_seal_length)
qed

section \<open>Opening a packet\<close>

lemma pnum_decode_take: "pnum_decode (take n buf) n largest = pnum_decode buf n largest"
  by (simp add: pnum_decode_def read_be_def)

lemma opened_step:
  assumes "off + 20 \<le> length pkt" and "msk (take 16 (drop (off + 4) pkt)) = Some m"
    and n: "n = pn_len_of (pkt ! 0 XOR (m ! 0 AND bits))" and p: "p = hp_protect_pn (pkt[0 := pkt ! 0 XOR (m ! 0 AND bits)]) off n m"
  shows "opened msk unseal bits off largest pkt = unseal (pnum_decode (drop off p) n largest) (take (off + n) p) (drop (off + n) p)"
proof -
  have "n \<le> 4" using pn_len_range n by simp
  moreover have p': "p = hp_apply m pkt off n bits" by (simp add: p hp_apply_def)
  ultimately have "length (take (off + n) p) - off = n" using assms(1) by simp
  then have "pnum_decode (drop off (take (off + n) p)) (length (take (off + n) p) - off) largest = pnum_decode (drop off p) n largest"
    using pnum_decode_take [of n "drop off p" largest] by (simp add: take_drop add.commute)
  moreover have "unprotected msk bits off pkt = Some (take (off + n) p, drop (off + n) p)"
    using assms p' by (simp add: unprotected_def Let_def)
  ultimately show ?thesis by (simp add: opened_def)
qed

lemma pn_len_byte0: "pkt \<noteq> [] \<Longrightarrow> unat (pkt[0 := b] ! 0 AND 0x03) + 1 = pn_len_of b"
  by (cases pkt) (simp_all add: pn_len_of_def)

lemma aead_open_suite_eq:
  "aead_open_suite s suite (pk_keys k) pkt n pn = suite_unseal s (suite, k) pn (take n pkt) (drop n pkt)"
  by (cases "aead_suite_open s (suite_op suite (pk_keys k) pn (take n pkt)) (drop n pkt)")
    (auto simp: aead_open_suite_def suite_unseal_def)

lemma hspkt_unprotect_suite_iff:
  assumes ok: "suite_ok (suite, k)" and off: "1 \<le> ud_pn_off d" and ne: "pt \<noteq> []"
  shows "hspkt_unprotect_suite s suite k d = Some (Some pt) \<longleftrightarrow>
    opened (suite_msk (suite, k)) (suite_unseal s (suite, k)) (ud_bits_mask d) (ud_pn_off d) (ud_largest_pn d) (ud_pkt d) = Some (Some pt)"
proof (cases "length (ud_pkt d) < ud_pn_off d + 20")
  case True
  then show ?thesis by (simp add: hspkt_unprotect_suite_def hp_sample_ok_def hp_sample_offset_def opened_def unprotected_def)
next
  case False
  define off pkt bits where "off = ud_pn_off d" and "pkt = ud_pkt d" and "bits = ud_bits_mask d"
  have known: "suite_known suite" using ok by (simp add: suite_ok_def)
  obtain m where m: "hp_suite_mask suite (ik_hp (pk_keys k)) (take 16 (drop (off + 4) pkt)) = Some m"
    using suite_mask_some [OF known] by blast
  define n where "n = pn_len_of (pkt ! 0 XOR (m ! 0 AND bits))"
  define p where "p = hp_protect_pn (pkt[0 := pkt ! 0 XOR (m ! 0 AND bits)]) off n m"
  let ?u = "suite_unseal s (suite, k) (pnum_decode (drop off p) n (ud_largest_pn d)) (take (off + n) p) (drop (off + n) p)"
  have l: "off + 20 \<le> length pkt" using False by (simp add: off_def pkt_def)
  then have "pkt \<noteq> []" by auto
  then have p0: "unat (pkt[0 := pkt ! 0 XOR (m ! 0 AND bits)] ! 0 AND 0x03) + 1 = n" unfolding n_def by (rule pn_len_byte0)
  have "opened (suite_msk (suite, k)) (suite_unseal s (suite, k)) bits off (ud_largest_pn d) pkt = ?u"
    by (rule opened_step [OF l _ n_def p_def]) (simp add: suite_msk_def m)
  moreover have "hspkt_unprotect_suite s suite k d = open_pkt_suite s suite (pk_keys k) d (pkt[0 := pkt ! 0 XOR (m ! 0 AND bits)]) m"
    using l m by (simp add: hspkt_unprotect_suite_def hp_sample_ok_def hp_sample_offset_def off_def pkt_def bits_def add.commute)
  moreover have "\<dots> = (if off + n + 16 < length p then ?u else Some None)"
    unfolding open_pkt_suite_def open_pkt_suite_head_def Let_def off_def [symmetric] p0 p_def [symmetric]
    using suite_tag_len [OF known] by (simp add: aead_open_suite_eq)
  moreover have "off + n + 16 < length p" if "?u = Some (Some pt)"
  proof -
    have "suite_seal s (suite, k) (pnum_decode (drop off p) n (ud_largest_pn d)) (take (off + n) p) pt = Some (drop (off + n) p)"
      using that suite.unseal_iff [OF ok ne] by blast
    from suite.seal_length [OF ok this] show ?thesis using ne by (cases pt) auto
  qed
  ultimately show ?thesis unfolding off_def pkt_def bits_def by auto
qed
lemma take_hp_protect_pn:
  assumes "off + n \<le> k" and "k \<le> length pkt"
  shows "take k (hp_protect_pn pkt off n m) = hp_protect_pn (take k pkt) off n m"
  using assms by (intro nth_equalityI) (auto simp: nth_hp_protect_pn)

lemma vpn_aead_open_suite_eq:
  "vpn_aead_open_suite s suite (pk_keys k) pkt v =
     suite_unseal s (suite, k) (vo_pn v) (take (vo_hdr_len v) pkt) (take (vo_ct_len v + 16) (drop (vo_hdr_len v) pkt))"
  by (cases "aead_suite_open s (suite_op suite (pk_keys k) (vo_pn v) (take (vo_hdr_len v) pkt))
      (take (vo_ct_len v + 16) (drop (vo_hdr_len v) pkt))")
    (auto simp: vpn_aead_open_suite_def suite_unseal_def)

lemma vpn_open_suite_eq:
  assumes ok: "suite_ok (suite, k)" and r: "region_ok d"
  shows "vpn_open_suite s suite k d =
    opened (suite_msk (suite, k)) (suite_unseal s (suite, k)) HP_LONG_MASK (vd_pn_off d) (vd_largest_pn d)
      (take (vd_pn_off d + unat (vd_length d)) (vd_pkt d))"
proof -
  define off pkt len where "off = vd_pn_off d" and "pkt = vd_pkt d" and "len = unat (vd_length d)"
  define w where "w = take (off + len) pkt"
  have known: "suite_known suite" using ok by (simp add: suite_ok_def)
  have l: "off + 20 \<le> length pkt" "20 \<le> len" "off + len \<le> length pkt"
    using r by (auto simp: region_ok_def hp_sample_ok_def hp_sample_offset_def off_def pkt_def len_def)
  then have wl: "length w = off + len" "w ! 0 = pkt ! 0" "take 16 (drop (off + 4) w) = take 16 (drop (off + 4) pkt)"
    by (auto simp: w_def drop_take min_def)
  obtain m where m: "hp_suite_mask suite (ik_hp (pk_keys k)) (take 16 (drop (off + 4) pkt)) = Some m"
    using suite_mask_some [OF known] by blast
  define n where "n = pn_len_of (w ! 0 XOR (m ! 0 AND HP_LONG_MASK))"
  define p where "p = hp_protect_pn (w[0 := w ! 0 XOR (m ! 0 AND HP_LONG_MASK)]) off n m"
  define q where "q = hp_protect_pn (pkt[0 := pkt ! 0 XOR (m ! 0 AND HP_LONG_MASK)]) off n m"
  have n: "1 \<le> n" "n \<le> 4" using pn_len_range by (simp_all add: n_def)
  have p: "p = take (off + len) q"
    unfolding p_def q_def w_def using n l by (subst take_hp_protect_pn) (auto simp: take_update_swap)
  have qn: "pn_len_of (pkt[0 := pkt ! 0 XOR (m ! 0 AND HP_LONG_MASK)] ! 0) = n" using l by (cases pkt) (simp_all add: n_def wl)
  have pq: "take (off + n) p = take (off + n) q" "drop (off + n) p = take (len - n) (drop (off + n) q)"
    using n l unfolding p by (simp_all add: drop_take)
  have "take n (drop off p) = take n (drop off q)" using n l unfolding p by (simp add: drop_take)
  then have pn: "pnum_decode (drop off p) n (vd_largest_pn d) = pnum_decode (drop off q) n (vd_largest_pn d)"
    by (metis pnum_decode_take)
  have "vpn_open_suite s suite k d = vpn_aead_open_suite s suite (pk_keys k) q
      \<lparr>vo_hdr_len = off + n, vo_ct_len = len - n - 16, vo_pn = pnum_decode (drop off q) n (vd_largest_pn d)\<rparr>"
    using r suite_tag_len [OF known] m qn
    by (simp add: vpn_open_suite_def vpn_open_suite_head_def region_ok_suite_def vpn_length_ok_def region_ok_def vpn_open_dims_suite_def
        remove_hp_suite_def hp_sample_offset_def Let_def off_def pkt_def len_def q_def add.commute)
  also have "\<dots> = suite_unseal s (suite, k) (pnum_decode (drop off p) n (vd_largest_pn d)) (take (off + n) p) (drop (off + n) p)"
    using n l by (simp add: vpn_aead_open_suite_eq pq pn)
  also have "\<dots> = opened (suite_msk (suite, k)) (suite_unseal s (suite, k)) HP_LONG_MASK off (vd_largest_pn d) w"
    using l by (intro opened_step [OF _ _ n_def p_def, symmetric]) (simp_all add: wl suite_msk_def m)
  finally show ?thesis by (simp add: off_def len_def w_def pkt_def)
qed
section \<open>Building a packet\<close>

lemma length_build_short_header [simp]: "length (build_short_header d) = 5 + length (on_dcid d)"
  by (simp add: build_short_header_def)

lemma onertt_pn_len: "pn_len_of (onertt_byte0 d) = 4"
  by (cases "on_phase_bit d"; cases "on_spin d"; cases "on_clear_quic_bit d")
    (simp_all add: onertt_byte0_def ONERTT_BYTE0_def keyphase_set_def spin_set_def greasebit_apply_def pn_len_of_def Let_def)

lemma short_header_facts:
  "build_short_header d ! 0 = onertt_byte0 d" "drop (Suc (length (on_dcid d))) (build_short_header d) = be_bytes 4 (on_pn d)"
  by (simp_all add: build_short_header_def upt_rec numeral_eq_Suc)

lemma pnum_decode_be:
  assumes "1 \<le> n" "n \<le> 4" and "unat lr < 2 ^ 62" and "unat pn < 2 ^ 62"
    and "unat lr + 1 < unat pn + 2 ^ (8 * n - 1)" and "unat pn \<le> unat lr + 1 + 2 ^ (8 * n - 1)"
  shows "pnum_decode (be_bytes n pn) n lr = pn"
proof -
  have "pnum_encode (replicate n 0) 0 pn n = (n, be_bytes n pn)" by (simp add: pnum_encode_def put_be_loop_eq write_at_eq)
  from pnum_decode_truncated [OF assms(1,2) _ this assms(3-6)] show ?thesis by simp
qed

lemma read_sample_ok: "off + 16 \<le> length pkt \<Longrightarrow> read_sample pkt off = Some (take 16 (drop off pkt))"
  by (simp add: read_sample_def)

lemma suite_seal_n:
  assumes "suite_ok (suite, k)"
  shows "aead_suite_seal s (suite_op suite (pk_keys k) pn aad) pt = map_option (\<lambda>x. (length x, x)) (suite_seal s (suite, k) pn aad pt)"
  using assms aead_suite_seal_length
  by (cases "aead_suite_seal s (suite_op suite (pk_keys k) pn aad) pt") (fastforce simp: suite_seal_def suite_ok_def)+

lemma onertt_build_suite_eq:
  assumes ok: "suite_ok (suite, k)" and fits: "length (build_short_header d) + length (on_payload d) + 16 \<le> cap"
  shows "hspkt_onertt_build_suite s suite k d cap =
    map_option (protected (suite_msk (suite, k)) HP_SHORT_MASK (1 + length (on_dcid d)) (build_short_header d))
      (suite_seal s (suite, k) (on_pn d) (build_short_header d) (on_payload d))"
proof (cases "suite_seal s (suite, k) (on_pn d) (build_short_header d) (on_payload d)")
  case None
  then show ?thesis using ok fits suite_tag_len [of suite]
    by (simp add: hspkt_onertt_build_suite_def onertt_seal_suite_def suite_seal_n suite_ok_def)
next
  case (Some ct)
  have l: "length ct = length (on_payload d) + 16" by (rule suite.seal_length [OF ok Some])
  have known: "suite_known suite" using ok by (simp add: suite_ok_def)
  show ?thesis using ok fits l suite_tag_len [OF known] Some
    by (simp add: hspkt_onertt_build_suite_def onertt_seal_suite_def suite_seal_n read_sample_ok protected_def suite_msk_def add.commute)
qed

context packet_cipher
begin

lemma opened_protected:
  assumes "ok k" and "1 \<le> off" and "pt \<noteq> []" and "length hdr = off + pn_len_of (hdr ! 0)" and "4 \<le> pn_len_of (hdr ! 0) + length pt"
    and "seal k (pnum_decode (drop off hdr) (pn_len_of (hdr ! 0)) largest) hdr pt = Some ct"
    and "protected (msk k) bits off hdr ct = Some pkt"
  shows "opened (msk k) (unseal k) bits off largest pkt = Some (Some pt)"
  unfolding opened_iff [OF assms(1-3)] using assms(4-7) by (intro exI [of _ hdr] exI [of _ ct]) simp

end

section \<open>Packets with a short header\<close>

lemma suite_seal_any_cpu: "suite_ok k \<Longrightarrow> suite_seal s k pn aad pt = suite_seal s' k pn aad pt"
  by (cases k) (simp add: suite_seal_def suite_ok_def aead_suite_any_cpu(1) [of _ s _ _ _ _ s'])

lemma suite_seal_fits: "suite_ok k \<Longrightarrow> length aad + length pt \<le> 2984 \<Longrightarrow> \<exists>ct. suite_seal s k pn aad pt = Some ct"
  using aead_suite_seal_some by (cases k) (fastforce simp: suite_seal_def suite_ok_def)

text \<open>The window in which a 4-byte packet number is recovered from the largest number received.\<close>

definition pn_in_window :: "u64 \<Rightarrow> u64 \<Rightarrow> bool" where
  "pn_in_window pn largest \<longleftrightarrow> unat largest < 2 ^ 62 \<and> unat pn < 2 ^ 62
     \<and> unat largest + 1 < unat pn + 2 ^ 31 \<and> unat pn \<le> unat largest + 1 + 2 ^ 31"

lemma pnum_decode_window: "pn_in_window pn largest \<Longrightarrow> pnum_decode (be_bytes 4 pn) 4 largest = pn"
  by (rule pnum_decode_be) (simp_all add: pn_in_window_def)

lemma onertt_opens:
  assumes suite: "suite_known suite" and keys: "keys_ok (pk_keys k)"
    and dcid: "length (on_dcid d) \<le> 255" and ne: "on_payload d \<noteq> []"
    and fits: "length (on_dcid d) + length (on_payload d) + 21 \<le> cap" "length (on_dcid d) + length (on_payload d) + 5 \<le> 2984"
    and pn: "pn_in_window (on_pn d) largest"
  shows "\<exists>pkt. hspkt_onertt_build_suite s suite k d cap = Some (Some pkt)
    \<and> length pkt = length (on_dcid d) + length (on_payload d) + 21
    \<and> hspkt_onertt_open_suite s' suite k \<lparr>oo_pkt = pkt, oo_dcid_len = of_nat (length (on_dcid d)), oo_largest_pn = largest\<rparr>
       = Some (Some (on_payload d))"
proof -
  let ?hdr = "build_short_header d" and ?off = "1 + length (on_dcid d)" and ?k = "(suite, k)"
  have ok: "suite_ok ?k" using suite keys by (simp add: suite_ok_def)
  obtain ct where ct: "suite_seal s ?k (on_pn d) ?hdr (on_payload d) = Some ct" using suite_seal_fits [OF ok] fits by fastforce
  have l: "length ct = length (on_payload d) + 16" by (rule suite.seal_length [OF ok ct])
  obtain pkt where p: "protected (suite_msk ?k) HP_SHORT_MASK ?off ?hdr ct = Some pkt" "length pkt = length ?hdr + length ct"
    using suite.protected_some [OF ok] by blast
  have b: "hspkt_onertt_build_suite s suite k d cap = Some (Some pkt)"
    using onertt_build_suite_eq [OF ok] fits(1) ct p by simp
  have "pnum_decode (drop ?off ?hdr) (pn_len_of (?hdr ! 0)) largest = on_pn d"
    using pnum_decode_window [OF pn] by (simp add: short_header_facts onertt_pn_len)
  then have "opened (suite_msk ?k) (suite_unseal s' ?k) HP_SHORT_MASK ?off largest pkt = Some (Some (on_payload d))"
    using ct suite_seal_any_cpu [OF ok, of s _ _ _ s']
    by (intro suite.opened_protected [OF ok _ ne _ _ _ p(1)]) (simp_all add: short_header_facts onertt_pn_len)
  moreover have "unat (of_nat (length (on_dcid d)) :: u8) = length (on_dcid d)" using dcid by (simp add: unat_of_nat)
  ultimately have "hspkt_onertt_open_suite s' suite k \<lparr>oo_pkt = pkt, oo_dcid_len = of_nat (length (on_dcid d)), oo_largest_pn = largest\<rparr>
       = Some (Some (on_payload d))"
    by (simp add: hspkt_onertt_open_suite_def hspkt_unprotect_suite_iff [OF ok _ ne] onertt_unprotect_desc_def)
  then show ?thesis using b p(2) l by auto
qed

text \<open>
  C7. A 1-RTT packet arrives as it was sent. For each of the three cipher suites, any keys, connection ID,
  key phase, spin and QUIC bit, and any non-empty payload that fits the output buffer and the MAC scratch
  buffer, the packet is built, and the receiver, on any CPU, opens it to the same payload, provided the
  largest packet number it has received is within the window a 4-byte packet number can express.
\<close>

theorem onertt_roundtrip:
  assumes suite: "suite_known suite" and keys: "keys_ok (pk_keys k)"
    and dcid: "length (on_dcid d) \<le> 255" and ne: "on_payload d \<noteq> []"
    and fits: "length (on_dcid d) + length (on_payload d) + 21 \<le> cap" "length (on_dcid d) + length (on_payload d) + 5 \<le> 2984"
    and pn: "pn_in_window (on_pn d) largest"
  shows "\<exists>pkt. hspkt_onertt_build_suite s suite k d cap = Some (Some pkt)
    \<and> length pkt = length (on_dcid d) + length (on_payload d) + 21
    \<and> hspkt_onertt_open_suite s' suite k \<lparr>oo_pkt = pkt, oo_dcid_len = of_nat (length (on_dcid d)), oo_largest_pn = largest\<rparr>
       = Some (Some (on_payload d))"
  by (rule onertt_opens [OF assms])

definition example_keys :: protect_keys where
  "example_keys = \<lparr>pk_keys = \<lparr>ik_key = replicate 32 1, ik_iv = replicate 12 2, ik_hp = replicate 32 3\<rparr>,
     pk_hp = aes128_init (replicate 32 3)\<rparr>"

lemma example_keys_ok: "keys_ok (pk_keys example_keys)" "pk_hp example_keys = aes128_init (ik_hp (pk_keys example_keys))"
  by (simp_all add: example_keys_def keys_ok_def)

definition example_onertt :: hspkt_onertt_desc where
  "example_onertt = \<lparr>on_dcid = [1, 2, 3], on_pn = 0x100000007, on_payload = [6, 0, 1, 9], on_phase_bit = True, on_spin = False,
     on_clear_quic_bit = False\<rparr>"

theorem onertt_roundtrip_witness:
  "\<exists>pkt. hspkt_onertt_build_suite True 0x1303 example_keys example_onertt 1200 = Some (Some pkt)
    \<and> hspkt_onertt_open_suite False 0x1303 example_keys \<lparr>oo_pkt = pkt, oo_dcid_len = 3, oo_largest_pn = 0xFFFFFFFF\<rparr>
       = Some (Some [6, 0, 1, 9])"
proof -
  have h: "suite_known 0x1303" "length (on_dcid example_onertt) \<le> 255" "on_payload example_onertt \<noteq> []"
    "length (on_dcid example_onertt) + length (on_payload example_onertt) + 21 \<le> 1200"
    "length (on_dcid example_onertt) + length (on_payload example_onertt) + 5 \<le> 2984"
    "pn_in_window (on_pn example_onertt) 0xFFFFFFFF"
    by (simp_all add: suite_known_def suite_codes example_onertt_def pn_in_window_def)
  show ?thesis using onertt_roundtrip [OF h(1) example_keys_ok(1) h(2-6), of True False] by (auto simp: example_onertt_def)
qed

text \<open>
  C8. What a 1-RTT packet is opened to was sealed under the connection's keys. The receiver returns the
  payload \<open>pt\<close> for a packet if and only if the packet is the header-protected form of a header and a
  ciphertext, the ciphertext is the sealing of \<open>pt\<close> with that header as associated data and the nonce of
  the packet number the header carries: no bit of the packet, header or payload, is outside authentication.
\<close>

theorem onertt_open_exact:
  assumes "suite_known suite" and "keys_ok (pk_keys k)" and "pt \<noteq> []"
  shows "hspkt_onertt_open_suite s suite k d = Some (Some pt) \<longleftrightarrow>
    (\<exists>hdr ct. let off = 1 + unat (oo_dcid_len d); n = pn_len_of (hdr ! 0) in
       length hdr = off + n \<and> 4 \<le> n + length pt
       \<and> aead_suite_seal s (suite_op suite (pk_keys k) (pnum_decode (drop off hdr) n (oo_largest_pn d)) hdr) pt = Some (length ct, ct)
       \<and> protected (hp_suite_mask suite (ik_hp (pk_keys k))) HP_SHORT_MASK off hdr ct = Some (oo_pkt d))"
proof -
  let ?k = "(suite, k)" and ?off = "1 + unat (oo_dcid_len d)"
  have ok: "suite_ok ?k" using assms by (simp add: suite_ok_def)
  have "hspkt_onertt_open_suite s suite k d = Some (Some pt) \<longleftrightarrow>
      opened (suite_msk ?k) (suite_unseal s ?k) HP_SHORT_MASK ?off (oo_largest_pn d) (oo_pkt d) = Some (Some pt)"
    by (simp add: hspkt_onertt_open_suite_def hspkt_unprotect_suite_iff [OF ok _ assms(3)] onertt_unprotect_desc_def)
  also have "\<dots> \<longleftrightarrow> (\<exists>hdr ct. length hdr = ?off + pn_len_of (hdr ! 0) \<and> ?off + 20 \<le> length hdr + length pt + 16
        \<and> suite_seal s ?k (pnum_decode (drop ?off hdr) (length hdr - ?off) (oo_largest_pn d)) hdr pt = Some ct
        \<and> protected (suite_msk ?k) HP_SHORT_MASK ?off hdr ct = Some (oo_pkt d))"
    by (rule suite.opened_iff [OF ok _ assms(3)]) simp
  also have "\<dots> \<longleftrightarrow> (\<exists>hdr ct. let off = ?off; n = pn_len_of (hdr ! 0) in
       length hdr = off + n \<and> 4 \<le> n + length pt
       \<and> aead_suite_seal s (suite_op suite (pk_keys k) (pnum_decode (drop off hdr) n (oo_largest_pn d)) hdr) pt = Some (length ct, ct)
       \<and> protected (hp_suite_mask suite (ik_hp (pk_keys k))) HP_SHORT_MASK off hdr ct = Some (oo_pkt d))"
    unfolding Let_def suite_seal_n [OF ok] by (intro ex_cong1) (auto simp: suite_msk_def)
  finally show ?thesis .
qed

theorem onertt_open_exact_witness:
  "\<exists>pkt hdr ct. hspkt_onertt_build_suite True 0x1301 example_keys example_onertt 1200 = Some (Some pkt)
    \<and> length hdr = 4 + pn_len_of (hdr ! 0)
    \<and> aead_suite_seal False (suite_op 0x1301 (pk_keys example_keys) (pnum_decode (drop 4 hdr) (pn_len_of (hdr ! 0)) 0xFFFFFFFF) hdr)
         [6, 0, 1, 9] = Some (length ct, ct)
    \<and> protected (hp_suite_mask 0x1301 (ik_hp (pk_keys example_keys))) HP_SHORT_MASK 4 hdr ct = Some pkt"
proof -
  have h: "suite_known 0x1301" "length (on_dcid example_onertt) \<le> 255" "on_payload example_onertt \<noteq> []"
    "length (on_dcid example_onertt) + length (on_payload example_onertt) + 21 \<le> 1200"
    "length (on_dcid example_onertt) + length (on_payload example_onertt) + 5 \<le> 2984"
    "pn_in_window (on_pn example_onertt) 0xFFFFFFFF" "[6, 0, 1, 9 :: u8] \<noteq> []"
    by (simp_all add: suite_known_def suite_codes example_onertt_def pn_in_window_def)
  obtain pkt where p: "hspkt_onertt_build_suite True 0x1301 example_keys example_onertt 1200 = Some (Some pkt)"
    "hspkt_onertt_open_suite False 0x1301 example_keys \<lparr>oo_pkt = pkt, oo_dcid_len = 3, oo_largest_pn = 0xFFFFFFFF\<rparr> = Some (Some [6, 0, 1, 9])"
    using onertt_opens [OF h(1) example_keys_ok(1) h(2-6), of True False] by (auto simp: example_onertt_def)
  from p(2) show ?thesis
    unfolding onertt_open_exact [OF h(1) example_keys_ok(1) h(7)] using p(1) by (auto simp: Let_def)
qed

section \<open>Packets with a long header\<close>

lemma tx_build_hdr_eq:
  assumes "lhdr_ok (tx_lhdr d)" and "length (lhdr_wire (tx_lhdr d)) \<le> 104"
  shows "tx_build_hdr d cap = Some \<lparr>ps_hdr = lhdr_wire (tx_lhdr d), ps_pn_off = length (lhdr_wire (tx_lhdr d)) - 4, ps_pn_len = 4,
    ps_pn = tx_pn d, ps_payload = tx_frames d, ps_cap = cap\<rparr>"
proof -
  have "length (lhdr_wire (tx_lhdr d)) \<noteq> 0" by (simp add: lhdr_wire_def lhdr_pre_wire_def)
  then show ?thesis using lhdr_build_fits [OF assms(1), of "replicate 104 0"] assms(2)
    by (simp add: tx_build_hdr_def WIRED_MAX_CID_LEN_def TX_PN_LEN_def)
qed

lemma tx_wire:
  assumes "lhdr_ok (tx_lhdr d)"
  defines "w \<equiv> lhdr_wire (tx_lhdr d)"
  shows "w = lhdr_pre_wire (tx_lhdr d) @ token_wire (tx_lhdr d) @ varint_wire (lhdr_remaining (tx_lhdr d)) @ be_bytes 4 (tx_pn d)"
    "1 \<le> length w - 4" "length w = length w - 4 + 4" "pn_len_of (w ! 0) = 4" "drop (length w - 4) w = be_bytes 4 (tx_pn d)"
proof -
  show w: "w = lhdr_pre_wire (tx_lhdr d) @ token_wire (tx_lhdr d) @ varint_wire (lhdr_remaining (tx_lhdr d)) @ be_bytes 4 (tx_pn d)"
    by (simp add: w_def lhdr_wire_def tx_lhdr_def TX_PN_LEN_def)
  then show "1 \<le> length w - 4" "length w = length w - 4 + 4" "drop (length w - 4) w = be_bytes 4 (tx_pn d)"
    by (simp_all add: lhdr_pre_wire_def)
  have "w ! 0 = lhdr_byte0_pnlen (tx_byte0 d) 4" by (simp add: w lhdr_pre_wire_def long_wire_def tx_lhdr_def TX_PN_LEN_def)
  then show "pn_len_of (w ! 0) = 4" using lhdr_byte0_facts(1) [of 4 "tx_byte0 d"] by (simp add: pn_len_of_def lhdr_pn_len_def)
qed

lemma tx_packet_suite_eq:
  assumes ok: "suite_ok (suite, k)" and hdr: "lhdr_ok (tx_lhdr d)" "length (lhdr_wire (tx_lhdr d)) \<le> 104"
    and fits: "length (lhdr_wire (tx_lhdr d)) + length (tx_frames d) + 16 \<le> cap"
  shows "tx_packet_suite s suite k d cap =
    map_option (protected (suite_msk (suite, k)) HP_LONG_MASK (length (lhdr_wire (tx_lhdr d)) - 4) (lhdr_wire (tx_lhdr d)))
      (suite_seal s (suite, k) (tx_pn d) (lhdr_wire (tx_lhdr d)) (tx_frames d))"
proof (cases "suite_seal s (suite, k) (tx_pn d) (lhdr_wire (tx_lhdr d)) (tx_frames d)")
  case None
  then show ?thesis using ok fits suite_tag_len [of suite]
    by (simp add: tx_packet_suite_def tx_build_hdr_eq [OF hdr] protect_seal_suite_def seal_into_suite_def suite_seal_n suite_ok_def)
next
  case (Some ct)
  have l: "length ct = length (tx_frames d) + 16" by (rule suite.seal_length [OF ok Some])
  have known: "suite_known suite" using ok by (simp add: suite_ok_def)
  note w = tx_wire(3) [OF hdr(1)]
  then show ?thesis using ok fits l suite_tag_len [OF known] Some
    by (simp add: tx_packet_suite_def tx_build_hdr_eq [OF hdr] protect_seal_suite_def seal_into_suite_def suite_seal_n
        protect_header_suite_def read_sample_ok protected_def suite_msk_def add.commute)
qed


lemma hp_apply_head:
  assumes "1 \<le> off" and "off + n \<le> length pkt"
  shows "hp_apply m pkt off n bits = (pkt ! 0 XOR (m ! 0 AND bits)) # take (off - 1) (tl pkt) @ drop off (hp_apply m pkt off n bits)"
proof -
  have "take off (hp_apply m pkt off n bits) = (pkt ! 0 XOR (m ! 0 AND bits)) # take (off - 1) (tl pkt)"
    using assms by (intro nth_equalityI) (auto simp: nth_hp_apply nth_Cons nth_tl split: nat.splits)
  then show ?thesis by (metis append_Cons append_take_drop_id)
qed

lemma long_bit_kept: "(b XOR (x AND HP_LONG_MASK)) AND 0x80 = b AND (0x80 :: u8)"
  by (simp add: HP_LONG_MASK_def bit.conj_xor_distrib2 and.assoc)

lemma protected_parse:
  assumes hdr: "lhdr_ok (tx_lhdr d)" and p: "protected msk HP_LONG_MASK (length (lhdr_wire (tx_lhdr d)) - 4) (lhdr_wire (tx_lhdr d)) ct = Some pkt"
  shows "lhdr_parse (pkt @ rest) (tx_is_initial d) = Some (lhdr_of (tx_lhdr d))"
proof -
  define l where "l = tx_lhdr d"
  define w off where "w = lhdr_wire l" and "off = length w - 4"
  have ok: "lhdr_ok l" using hdr by (simp add: l_def)
  note w = tx_wire [OF hdr, folded l_def, folded w_def, folded off_def]
  from p obtain m where pkt: "pkt = hp_apply m (w @ ct) off 4 HP_LONG_MASK"
    using w(3) by (auto simp: protected_def l_def w_def off_def)
  define hb where "hb = w ! 0 XOR (m ! 0 AND HP_LONG_MASK)"
  have pre: "lhdr_pre_wire l = long_wire (lhdr_byte0_pnlen (ld_byte0 l) (ld_pn_len l)) (ld_version l) (ld_dcid l) (ld_scid l)"
    by (simp add: lhdr_pre_wire_def)
  have w0: "w ! 0 = lhdr_byte0_pnlen (ld_byte0 l) (ld_pn_len l)" by (simp add: w(1) pre long_wire_def)
  have "lhdr_byte0_pnlen (ld_byte0 l) (ld_pn_len l) AND 0x80 \<noteq> 0" using lhdr_byte0_facts(2) ok by (simp add: lhdr_ok_def)
  then have hb: "hb AND 0x80 \<noteq> 0" by (simp add: hb_def w0 long_bit_kept)
  have "hb # take (off - 1) (tl (w @ ct)) = long_wire hb (ld_version l) (ld_dcid l) (ld_scid l) @ token_wire l @ varint_wire (lhdr_remaining l)"
    unfolding off_def by (simp add: w(1) pre long_wire_def)
  moreover have "off + 4 \<le> length (w @ ct)" "(w @ ct) ! 0 = w ! 0" using w(2,3) by (simp_all add: nth_append)
  ultimately have "pkt = (long_wire hb (ld_version l) (ld_dcid l) (ld_scid l) @ token_wire l @ varint_wire (lhdr_remaining l)) @ drop off pkt"
    using hp_apply_head [OF w(2), of 4 "w @ ct" m HP_LONG_MASK] unfolding pkt hb_def by (metis append_Cons)
  then have "lhdr_parse (pkt @ rest) (ld_is_initial l) = Some (lhdr_of l)"
    using lhdr_parse_any [OF ok hb, of "drop off pkt @ rest"] by (metis append.assoc)
  then show ?thesis by (simp add: l_def tx_lhdr_def)
qed

lemma vpn_open_tx:
  assumes ok: "suite_ok (suite, k)" and hdr: "lhdr_ok (tx_lhdr d)" and ne: "tx_frames d \<noteq> []" and pn: "pn_in_window (tx_pn d) largest"
    and ct: "suite_seal s (suite, k) (tx_pn d) (lhdr_wire (tx_lhdr d)) (tx_frames d) = Some ct"
    and p: "protected (suite_msk (suite, k)) HP_LONG_MASK (length (lhdr_wire (tx_lhdr d)) - 4) (lhdr_wire (tx_lhdr d)) ct = Some pkt"
    and h: "h = lhdr_of (tx_lhdr d)"
  shows "vpn_open_suite s' suite k \<lparr>vd_pkt = pkt @ rest, vd_pn_off = lh_pn_off h, vd_length = lh_length h, vd_largest_pn = largest\<rparr>
    = Some (Some (tx_frames d))"
proof -
  define w off where "w = lhdr_wire (tx_lhdr d)" and "off = length w - 4"
  note w = tx_wire [OF hdr, folded w_def, folded off_def]
  have l: "length ct = length (tx_frames d) + 16" by (rule suite.seal_length [OF ok ct])
  have "lh_length h = lhdr_remaining (tx_lhdr d)" "lh_pn_off h = off"
    by (simp_all add: h lhdr_of_def off_def w_def) (simp add: tx_lhdr_def TX_PN_LEN_def)
  moreover have "unat (lhdr_remaining (tx_lhdr d)) = 4 + length (tx_frames d) + 16"
    using lhdr_remaining_unat(1) [OF hdr] by (simp add: tx_lhdr_def TX_PN_LEN_def)
  moreover have pl: "length pkt = length w + length ct" using p by (auto simp: protected_def w_def)
  ultimately have r: "region_ok \<lparr>vd_pkt = pkt @ rest, vd_pn_off = lh_pn_off h, vd_length = lh_length h, vd_largest_pn = largest\<rparr>"
    "take (lh_pn_off h + unat (lh_length h)) (pkt @ rest) = pkt" "lh_pn_off h = off"
    using w(2,3) l by (simp_all add: region_ok_def hp_sample_ok_def hp_sample_offset_def)
  have "pnum_decode (drop off w) (pn_len_of (w ! 0)) largest = tx_pn d"
    using pnum_decode_window [OF pn] by (simp add: w(4,5))
  then have "opened (suite_msk (suite, k)) (suite_unseal s' (suite, k)) HP_LONG_MASK off largest pkt = Some (Some (tx_frames d))"
    using w(2-4) ct suite_seal_any_cpu [OF ok, of s _ _ _ s'] p
    by (intro suite.opened_protected [OF ok _ ne, of off w _ _ ct]) (simp_all add: w_def [symmetric] off_def [symmetric])
  then show ?thesis using vpn_open_suite_eq [OF ok r(1), of s'] r(2,3) by simp
qed

section \<open>The operations for AES-128-GCM\<close>

definition aes_keys :: "protect_keys \<Rightarrow> bool" where
  "aes_keys k \<longleftrightarrow> keys_ok (pk_keys k) \<and> pk_hp k = aes128_init (ik_hp (pk_keys k))"

lemma aes_suite_seal:
  assumes "keys_ok keys"
  shows "aead_suite_seal s (suite_op TLS_AES_128_GCM_SHA256 keys pn aad) pt
    = Some (length pt + 16, gcm_seal s (gcm_of keys pn aad) pt)"
  using gcm_seal_length [OF gcm_of_ok [OF assms], of s pn aad pt]
  by (simp add: aead_suite_seal_def aead_suite_tab_def aead_gcm_seal_def suite_io_def suite_op_def gcm_of_def protect_nonce_eq)

lemma aes_suite_open:
  assumes "keys_ok keys"
  shows "aead_suite_open s (suite_op TLS_AES_128_GCM_SHA256 keys pn aad) x
    = Some (case gcm_open s (gcm_of keys pn aad) x of None \<Rightarrow> (0, []) | Some pt \<Rightarrow> (length pt, pt))"
proof -
  have "length x - 16 = length pt" if "gcm_open s (gcm_of keys pn aad) x = Some pt" for pt
    using that gcm_seal_length [OF gcm_of_ok [OF assms], of s pn aad pt]
    by (auto simp: gcm_seal_iff [OF gcm_of_ok [OF assms]])
  then show ?thesis
    by (auto simp: aead_suite_open_def aead_suite_tab_def aead_gcm_open_def suite_io_def suite_op_def gcm_of_def protect_nonce_eq
        split: option.splits)
qed

lemma aes_suite_mask: "hp_suite_mask TLS_AES_128_GCM_SHA256 key sample = Some (hp_mask (aes128_init key) sample)"
  by (simp add: hp_suite_mask_def hps_tab_def hps_aes128_def)

lemma aes_tag_len: "aead_tag_len TLS_AES_128_GCM_SHA256 = 16"
  by (simp add: suite_tag_len suite_known_def)

lemma tx_packet_aes:
  assumes "aes_keys k"
  shows "tx_packet s k d cap = tx_packet_suite s TLS_AES_128_GCM_SHA256 k d cap"
proof -
  have keys: "keys_ok (pk_keys k)" "pk_hp k = aes128_init (ik_hp (pk_keys k))" using assms by (simp_all add: aes_keys_def)
  have "seal_into_suite s TLS_AES_128_GCM_SHA256 (pk_keys k) io = Some (seal_into s (pk_keys k) io)" for io
    by (simp add: seal_into_suite_def seal_into_def aes_tag_len aes_suite_seal [OF keys(1)])
  moreover have "protect_header_suite TLS_AES_128_GCM_SHA256 (ik_hp (pk_keys k)) pkt off n = map_option Some (protect_header (pk_hp k) pkt off n)"
    for pkt off n
    by (cases "read_sample pkt (off + 4)") (simp_all add: protect_header_suite_def protect_header_def aes_suite_mask keys(2))
  ultimately show ?thesis by (auto simp: tx_packet_def tx_packet_suite_def protect_seal_def protect_seal_suite_def split: option.splits)
qed

lemma onertt_build_aes:
  assumes "aes_keys k"
  shows "hspkt_onertt_build s k d cap = hspkt_onertt_build_suite s TLS_AES_128_GCM_SHA256 k d cap"
proof -
  have keys: "keys_ok (pk_keys k)" "pk_hp k = aes128_init (ik_hp (pk_keys k))" using assms by (simp_all add: aes_keys_def)
  show ?thesis
    by (auto simp: hspkt_onertt_build_def hspkt_onertt_build_suite_def Let_def onertt_seal_suite_def onertt_seal_gcm_def aes_tag_len
        aes_suite_seal [OF keys(1)] aes_suite_mask keys(2) map_option_case split: option.splits)
qed

lemma vpn_open_aes:
  assumes "aes_keys k"
  shows "vpn_open_suite s TLS_AES_128_GCM_SHA256 k d = Some (case vpn_open s k d of Some [] \<Rightarrow> None | r \<Rightarrow> r)"
proof -
  have keys: "keys_ok (pk_keys k)" "pk_hp k = aes128_init (ik_hp (pk_keys k))" using assms by (simp_all add: aes_keys_def)
  have r: "region_ok_suite d 16 = region_ok d" by (auto simp: region_ok_suite_def region_ok_def vpn_length_ok_def)
  have o: "vpn_aead_open_suite s TLS_AES_128_GCM_SHA256 (pk_keys k) pkt v
      = Some (case vpn_aead_open s (pk_keys k) pkt v of Some [] \<Rightarrow> None | r \<Rightarrow> r)" for pkt v
    by (auto simp: vpn_aead_open_suite_def vpn_aead_open_def aes_suite_open [OF keys(1)] split: option.splits list.splits)
  show ?thesis
    by (simp add: vpn_open_suite_def vpn_open_suite_head_def vpn_open_dims_suite_def remove_hp_suite_def vpn_open_def remove_hp_def
        aes_tag_len aes_suite_mask r o keys(2) Let_def)
qed

lemma hspkt_unprotect_aes:
  assumes "aes_keys k"
  shows "hspkt_unprotect_suite s TLS_AES_128_GCM_SHA256 k d = Some (hspkt_unprotect s k d)"
proof -
  have keys: "keys_ok (pk_keys k)" "pk_hp k = aes128_init (ik_hp (pk_keys k))" using assms by (simp_all add: aes_keys_def)
  have "aead_open_suite s TLS_AES_128_GCM_SHA256 (pk_keys k) pkt n pn = Some (aead_open s (pk_keys k) pkt n pn)" if "n + 16 < length pkt" for pkt n pn
  proof -
    have "pt \<noteq> []" if "aead_open s (pk_keys k) pkt n pn = Some pt" for pt
      using that \<open>n + 16 < length pkt\<close> gcm_seal_length [OF gcm_of_ok [OF keys(1)], of s pn "take n pkt" pt]
      by (auto simp: aead_open_def gcm_seal_iff [OF gcm_of_ok [OF keys(1)]])
    then show ?thesis
      by (auto simp: aead_open_suite_def aead_open_def aes_suite_open [OF keys(1)] split: option.splits)
  qed
  then show ?thesis
    by (simp add: hspkt_unprotect_suite_def hspkt_unprotect_def open_pkt_suite_def open_pkt_suite_head_def open_pkt_def
        aes_tag_len aes_suite_mask keys(2) Let_def)
qed

text \<open>
  C29. The operations for AES-128-GCM are the suite operations with \<open>TLS_AES_128_GCM_SHA256\<close>, as the
  comments say: building a long- or short-header packet and opening a short-header one agree on every input.
  Opening a long-header packet agrees except on an authentic packet without payload, which \<open>vpn_open\<close>
  accepts and \<open>vpn_open_suite\<close> refuses.
\<close>

theorem aes_paths_agree:
  assumes "aes_keys k"
  shows "tx_packet s k d cap = tx_packet_suite s TLS_AES_128_GCM_SHA256 k d cap
    \<and> hspkt_onertt_build s k e cap = hspkt_onertt_build_suite s TLS_AES_128_GCM_SHA256 k e cap
    \<and> hspkt_onertt_open_suite s TLS_AES_128_GCM_SHA256 k f = Some (hspkt_onertt_open s k f)
    \<and> vpn_open_suite s TLS_AES_128_GCM_SHA256 k v = Some (case vpn_open s k v of Some [] \<Rightarrow> None | r \<Rightarrow> r)"
  by (simp add: tx_packet_aes [OF assms] onertt_build_aes [OF assms] vpn_open_aes [OF assms] hspkt_unprotect_aes [OF assms]
      hspkt_onertt_open_suite_def hspkt_onertt_open_def)

theorem aes_paths_agree_witness:
  "hspkt_onertt_build True example_keys example_onertt 1200 = hspkt_onertt_build_suite True TLS_AES_128_GCM_SHA256 example_keys example_onertt 1200"
  using aes_paths_agree [of example_keys True _ 1200 example_onertt] example_keys_ok unfolding aes_keys_def by blast

lemma long_opens:
  assumes suite: "suite_known suite" and keys: "keys_ok (pk_keys k)" and hdr: "lhdr_ok (tx_lhdr d)" and ne: "tx_frames d \<noteq> []"
    and fits: "length (lhdr_wire (tx_lhdr d)) \<le> 104" "length (lhdr_wire (tx_lhdr d)) + length (tx_frames d) + 16 \<le> cap"
      "length (lhdr_wire (tx_lhdr d)) + length (tx_frames d) \<le> 2984"
    and pn: "pn_in_window (tx_pn d) largest"
  obtains pkt where "tx_packet_suite s suite k d cap = Some (Some pkt)"
    "length pkt = length (lhdr_wire (tx_lhdr d)) + length (tx_frames d) + 16"
    "\<And>rest. lhdr_parse (pkt @ rest) (tx_is_initial d) = Some (lhdr_of (tx_lhdr d))"
    "\<And>s' rest. vpn_open_suite s' suite k \<lparr>vd_pkt = pkt @ rest, vd_pn_off = lh_pn_off (lhdr_of (tx_lhdr d)),
       vd_length = lh_length (lhdr_of (tx_lhdr d)), vd_largest_pn = largest\<rparr> = Some (Some (tx_frames d))"
proof -
  let ?w = "lhdr_wire (tx_lhdr d)" and ?k = "(suite, k)"
  have ok: "suite_ok ?k" using suite keys by (simp add: suite_ok_def)
  obtain ct where ct: "suite_seal s ?k (tx_pn d) ?w (tx_frames d) = Some ct" using suite_seal_fits [OF ok] fits by fastforce
  have l: "length ct = length (tx_frames d) + 16" by (rule suite.seal_length [OF ok ct])
  obtain pkt where p: "protected (suite_msk ?k) HP_LONG_MASK (length ?w - 4) ?w ct = Some pkt" "length pkt = length ?w + length ct"
    using suite.protected_some [OF ok] by blast
  show thesis
  proof (rule that)
    show "tx_packet_suite s suite k d cap = Some (Some pkt)" using tx_packet_suite_eq [OF ok hdr fits(1,2)] ct p by simp
    show "length pkt = length ?w + length (tx_frames d) + 16" using p(2) l by simp
    show "lhdr_parse (pkt @ rest) (tx_is_initial d) = Some (lhdr_of (tx_lhdr d))" for rest by (rule protected_parse [OF hdr p(1)])
    show "vpn_open_suite s' suite k \<lparr>vd_pkt = pkt @ rest, vd_pn_off = lh_pn_off (lhdr_of (tx_lhdr d)),
       vd_length = lh_length (lhdr_of (tx_lhdr d)), vd_largest_pn = largest\<rparr> = Some (Some (tx_frames d))" for s' rest
      by (rule vpn_open_tx [OF ok hdr ne pn ct p(1) refl])
  qed
qed

text \<open>
  C25. A long-header packet arrives as it was sent, also when other packets follow it in the datagram. A
  Handshake packet built under any of the three suites is opened to the same frames, and an Initial or
  Handshake packet built with AES-128-GCM is opened by \<open>rx_packet\<close>, on any CPU, whatever bytes follow.
\<close>

theorem long_packet_roundtrip:
  assumes suite: "suite_known suite" and keys: "aes_keys k" and hdr: "lhdr_ok (tx_lhdr d)" and ne: "tx_frames d \<noteq> []"
    and fits: "length (lhdr_wire (tx_lhdr d)) \<le> 104" "length (lhdr_wire (tx_lhdr d)) + length (tx_frames d) + 16 \<le> cap"
      "length (lhdr_wire (tx_lhdr d)) + length (tx_frames d) \<le> 2984"
    and pn: "pn_in_window (tx_pn d) largest"
  shows "(\<exists>pkt. tx_packet_suite s suite k d cap = Some (Some pkt)
       \<and> (\<not> tx_is_initial d \<longrightarrow> hspkt_open_suite s' suite k (pkt @ rest) largest = Some (Some (tx_frames d))))
    \<and> (\<exists>pkt. tx_packet s k d cap = Some (Some pkt)
       \<and> rx_packet s' k \<lparr>rx_pkt = pkt @ rest, rx_is_initial = tx_is_initial d, rx_largest_pn = largest\<rparr> = Some (tx_frames d))"
proof
  have ok: "keys_ok (pk_keys k)" using keys by (simp add: aes_keys_def)
  obtain pkt where "tx_packet_suite s suite k d cap = Some (Some pkt)"
    "lhdr_parse (pkt @ rest) (tx_is_initial d) = Some (lhdr_of (tx_lhdr d))"
    "vpn_open_suite s' suite k \<lparr>vd_pkt = pkt @ rest, vd_pn_off = lh_pn_off (lhdr_of (tx_lhdr d)),
       vd_length = lh_length (lhdr_of (tx_lhdr d)), vd_largest_pn = largest\<rparr> = Some (Some (tx_frames d))"
    using long_opens [OF suite ok hdr ne fits pn, of s] by metis
  then show "\<exists>pkt. tx_packet_suite s suite k d cap = Some (Some pkt)
       \<and> (\<not> tx_is_initial d \<longrightarrow> hspkt_open_suite s' suite k (pkt @ rest) largest = Some (Some (tx_frames d)))"
    by (intro exI [of _ pkt]) (auto simp: hspkt_open_suite_def)
  have "suite_known TLS_AES_128_GCM_SHA256" by (simp add: suite_known_def)
  then obtain pkt where p: "tx_packet_suite s TLS_AES_128_GCM_SHA256 k d cap = Some (Some pkt)"
    "lhdr_parse (pkt @ rest) (tx_is_initial d) = Some (lhdr_of (tx_lhdr d))"
    "vpn_open_suite s' TLS_AES_128_GCM_SHA256 k \<lparr>vd_pkt = pkt @ rest, vd_pn_off = lh_pn_off (lhdr_of (tx_lhdr d)),
       vd_length = lh_length (lhdr_of (tx_lhdr d)), vd_largest_pn = largest\<rparr> = Some (Some (tx_frames d))"
    using long_opens [OF _ ok hdr ne fits pn, of TLS_AES_128_GCM_SHA256 s] by metis
  from p(3) have "vpn_open s' k \<lparr>vd_pkt = pkt @ rest, vd_pn_off = lh_pn_off (lhdr_of (tx_lhdr d)),
       vd_length = lh_length (lhdr_of (tx_lhdr d)), vd_largest_pn = largest\<rparr> = Some (tx_frames d)"
    by (auto simp: vpn_open_aes [OF keys] split: option.splits list.splits)
  then show "\<exists>pkt. tx_packet s k d cap = Some (Some pkt)
       \<and> rx_packet s' k \<lparr>rx_pkt = pkt @ rest, rx_is_initial = tx_is_initial d, rx_largest_pn = largest\<rparr> = Some (tx_frames d)"
    using p(1,2) by (auto simp: tx_packet_aes [OF keys] rx_packet_def)
qed

definition example_tx :: tx_desc where
  "example_tx = \<lparr>tx_byte0 = 0xC0, tx_dcid = [1, 2, 3, 4], tx_scid = [9, 9], tx_is_initial = True, tx_token = [7, 7], tx_pn = 5,
     tx_frames = [1, 0, 0], tx_version = 0\<rparr>"

lemma example_tx_ok: "lhdr_ok (tx_lhdr example_tx)" "length (lhdr_wire (tx_lhdr example_tx)) = 21"
proof -
  have "lhdr_remaining (tx_lhdr example_tx) = 23" by (simp add: lhdr_remaining_def tx_lhdr_def example_tx_def TX_PN_LEN_def)
  then show "length (lhdr_wire (tx_lhdr example_tx)) = 21"
    by (simp add: lhdr_wire_def lhdr_pre_wire_def token_wire_def varint_wire_def Let_def tx_lhdr_def example_tx_def TX_PN_LEN_def varint_len_def)
qed (simp add: lhdr_ok_def cids_ok_def tx_lhdr_def example_tx_def TX_PN_LEN_def WIRED_MAX_CID_LEN_def)

theorem long_packet_roundtrip_witness:
  "\<exists>pkt. tx_packet True example_keys example_tx 1200 = Some (Some pkt)
    \<and> rx_packet False example_keys \<lparr>rx_pkt = pkt @ [0x40, 1, 2], rx_is_initial = True, rx_largest_pn = 3\<rparr> = Some [1, 0, 0]"
proof -
  have h: "suite_known 0x1302" "aes_keys example_keys" "tx_frames example_tx \<noteq> []"
    "length (lhdr_wire (tx_lhdr example_tx)) \<le> 104" "length (lhdr_wire (tx_lhdr example_tx)) + length (tx_frames example_tx) + 16 \<le> 1200"
    "length (lhdr_wire (tx_lhdr example_tx)) + length (tx_frames example_tx) \<le> 2984" "pn_in_window (tx_pn example_tx) 3"
    using example_keys_ok by (simp_all add: suite_known_def suite_codes aes_keys_def example_tx_ok pn_in_window_def) (simp_all add: example_tx_def)
  show ?thesis using long_packet_roundtrip [OF h(1,2) example_tx_ok(1) h(3-7), of True False "[0x40, 1, 2]"] by (simp add: example_tx_def)
qed

end
