(* ===== verification/Key_Schedule.thy ===== *)
theory Key_Schedule
  imports Sha2 Packet_Protect
begin

text \<open>
  Key derivation: HMAC and HKDF over the hash functions (\<open>crypto/symmetric/hash/hash/hmac.c\<close>,
  \<open>crypto/kdf/hkdf\<close>), the Initial keys, the handshake, application and early keys, the exporter, Finished
  and binder computations and the transcript hash (\<open>tls/handshake/core/tls\<close>), and the key schedule that
  drives them (\<open>tls/keys/schedule_drive\<close>). The lemmas relate them to RFC 2104, RFC 5869, RFC 8446 and RFC 9001.
\<close>

unbundle bit_operations_syntax

section \<open>hmac.c\<close>

definition SHA256_DIGEST :: nat where "SHA256_DIGEST = 32"
definition SHA384_DIGEST :: nat where "SHA384_DIGEST = 48"
definition SHA512_DIGEST :: nat where "SHA512_DIGEST = 64"

definition short_key :: "bytes \<Rightarrow> bytes" where
  "short_key key = write_at (replicate SHA256_BLOCK 0) 0 key"

definition key_block :: "bytes \<Rightarrow> bytes" where
  "key_block key =
     (if length key > SHA256_BLOCK then write_at (replicate SHA256_BLOCK 0) 0 (wired_sha256 key) else short_key key)"

definition feed_pad :: "sha256_ctx \<Rightarrow> bytes \<Rightarrow> u8 \<Rightarrow> sha256_ctx" where
  "feed_pad s kb pad = sha256_update s (map (\<lambda>b. b XOR pad) kb)"

definition inner_hash :: "bytes \<Rightarrow> bytes \<Rightarrow> bytes" where
  "inner_hash kb msg = (let s = feed_pad sha256_init kb 0x36; s = sha256_update s msg in sha256_final s)"

definition hmac_sha256 :: "bytes \<Rightarrow> bytes \<Rightarrow> bytes" where
  "hmac_sha256 key msg =
     (let kb = key_block key; inner = inner_hash kb msg; s = feed_pad sha256_init kb 0x5c; s = sha256_update s inner
      in sha256_final s)"

definition hmac_sha256_truncated :: "bytes \<Rightarrow> bytes \<Rightarrow> nat \<Rightarrow> bytes" where
  "hmac_sha256_truncated key msg out_len =
     (let n = (if out_len < SHA256_DIGEST then out_len else SHA256_DIGEST) in take n (hmac_sha256 key msg))"

record hmac512_hash =
  hh_init :: sha512_ctx
  hh_final :: "sha512_ctx \<Rightarrow> bytes"
  hh_n :: nat

definition HMAC512_SHA384 :: hmac512_hash where
  "HMAC512_SHA384 = \<lparr>hh_init = sha384_init, hh_final = sha384_final, hh_n = SHA384_DIGEST\<rparr>"

definition HMAC512_SHA512 :: hmac512_hash where
  "HMAC512_SHA512 = \<lparr>hh_init = sha512_init, hh_final = sha512_final, hh_n = SHA512_DIGEST\<rparr>"

definition hmac512_hash2 :: "hmac512_hash \<Rightarrow> bytes \<Rightarrow> bytes \<Rightarrow> bytes" where
  "hmac512_hash2 h prefix msg = hh_final h (sha512_update (sha512_update (hh_init h) prefix) msg)"

definition hmac512_key_block :: "hmac512_hash \<Rightarrow> bytes \<Rightarrow> bytes" where
  "hmac512_key_block h key =
     (let kb = replicate SHA512_BLOCK 0
      in if length key > SHA512_BLOCK then write_at kb 0 (hmac512_hash2 h key []) else write_at kb 0 key)"

definition hmac512_pad_hash :: "hmac512_hash \<Rightarrow> bytes \<Rightarrow> u8 \<Rightarrow> bytes \<Rightarrow> bytes" where
  "hmac512_pad_hash h kb pad msg = hmac512_hash2 h (map (\<lambda>b. b XOR pad) kb) msg"

definition hmac512_mac :: "hmac512_hash \<Rightarrow> bytes \<Rightarrow> bytes \<Rightarrow> bytes" where
  "hmac512_mac h key msg =
     (let kb = hmac512_key_block h key; inner = hmac512_pad_hash h kb 0x36 msg
      in hmac512_pad_hash h kb 0x5c (take (hh_n h) inner))"

definition hmac_sha384 :: "bytes \<Rightarrow> bytes \<Rightarrow> bytes" where
  "hmac_sha384 key msg = hmac512_mac HMAC512_SHA384 key msg"

definition hmac_sha512 :: "bytes \<Rightarrow> bytes \<Rightarrow> bytes" where
  "hmac_sha512 key msg = hmac512_mac HMAC512_SHA512 key msg"

section \<open>Digest lengths\<close>

lemma length_concat_map: "(\<And>x. x \<in> set xs \<Longrightarrow> length (f x) = n) \<Longrightarrow> length (concat (map f xs)) = n * length xs"
  by (induction xs) simp_all

lemma length_sha256_final [simp]: "length (sha256_final s) = 32"
  unfolding sha256_final_def Let_def by (subst length_concat_map [where n = 4]) (simp_all add: put_be32_def)

lemma length_sha512_final [simp]: "length (sha512_final s) = 64"
  unfolding sha512_final_def Let_def by (subst length_concat_map [where n = 8]) (simp_all add: sha512_put_be64_def)

lemma length_sha384_final [simp]: "length (sha384_final s) = 48"
  by (simp add: sha384_final_def)

lemma length_hmac [simp]: "length (hmac_sha256 k m) = 32" "length (hmac_sha384 k m) = 48" "length (hmac_sha512 k m) = 64"
  by (simp_all add: hmac_sha256_def hmac_sha384_def hmac_sha512_def hmac512_mac_def hmac512_pad_hash_def hmac512_hash2_def
      HMAC512_SHA384_def HMAC512_SHA512_def Let_def)

section \<open>hkdf.c and hkdf\_expand.c\<close>

definition HKDF_PRK :: nat where "HKDF_PRK = SHA256_DIGEST"
definition HKDF_PRK_384 :: nat where "HKDF_PRK_384 = SHA384_DIGEST"

record hkdf_xctx =
  hx_prk :: bytes
  hx_info :: bytes

text \<open>
  A key is passed as a pointer, of which \<open>HKDF_PRK\<close> bytes are read. The output key material is the list of
  the bytes written so far; a call that returns 0 writes nothing.
\<close>

definition hkdf_extract :: "bytes \<Rightarrow> bytes \<Rightarrow> bytes" where
  "hkdf_extract salt ikm = hmac_sha256 salt ikm"

definition expand_block :: "hkdf_xctx \<Rightarrow> bytes \<Rightarrow> u8 \<Rightarrow> bytes" where
  "expand_block c t counter = hmac_sha256 (take HKDF_PRK (hx_prk c)) (t @ hx_info c @ [counter])"

definition emit :: "bytes \<Rightarrow> nat \<Rightarrow> bytes \<Rightarrow> bytes" where
  "emit okm len t =
     (let tk = (if len - length okm < SHA256_DIGEST then len - length okm else SHA256_DIGEST) in okm @ take tk t)"

definition expand_ok :: "nat \<Rightarrow> nat \<Rightarrow> bool" where
  "expand_ok info_len len \<longleftrightarrow> len \<le> 255 * SHA256_DIGEST \<and> info_len \<le> 256"

function expand_loop :: "hkdf_xctx \<Rightarrow> nat \<Rightarrow> bytes \<Rightarrow> bytes \<Rightarrow> u8 \<Rightarrow> bytes" where
  "expand_loop c len okm t counter =
     (if length okm < len
      then let t = expand_block c t counter in expand_loop c len (emit okm len t) t (counter + 1)
      else okm)"
  by pat_completeness auto
termination
  by (relation "measure (\<lambda>(c, len, okm, t, counter). len - length okm)")
    (auto simp: emit_def expand_block_def SHA256_DIGEST_def Let_def)

declare expand_loop.simps [simp del]

definition hkdf_expand :: "bytes \<Rightarrow> bytes \<Rightarrow> nat \<Rightarrow> bytes option" where
  "hkdf_expand prk info n =
     (if \<not> expand_ok (length info) n then None
      else Some (expand_loop \<lparr>hx_prk = prk, hx_info = info\<rparr> n [] [] 1))"

record hkdf_label =
  hl_label :: bytes
  hl_ctx :: bytes

definition ascii :: "string \<Rightarrow> bytes" where
  "ascii s = map of_char s"

definition build_label :: "hkdf_label \<Rightarrow> nat \<Rightarrow> bytes" where
  "build_label l len =
     [of_nat (len div 256), of_nat len, of_nat (6 + length (hl_label l))] @ ascii ''tls13 '' @ hl_label l
     @ [of_nat (length (hl_ctx l))] @ hl_ctx l"

definition hkdf_expand_label :: "bytes \<Rightarrow> hkdf_label \<Rightarrow> nat \<Rightarrow> bytes option" where
  "hkdf_expand_label prk l n =
     (if length (hl_label l) > 64 \<or> length (hl_ctx l) > 64 then None else hkdf_expand prk (build_label l n) n)"

definition hkdf_extract_384 :: "bytes \<Rightarrow> bytes \<Rightarrow> bytes" where
  "hkdf_extract_384 salt ikm = hmac_sha384 salt ikm"

definition expand_block_384 :: "hkdf_xctx \<Rightarrow> bytes \<Rightarrow> u8 \<Rightarrow> bytes" where
  "expand_block_384 c t counter = hmac_sha384 (take HKDF_PRK_384 (hx_prk c)) (t @ hx_info c @ [counter])"

definition emit_384 :: "bytes \<Rightarrow> nat \<Rightarrow> bytes \<Rightarrow> bytes" where
  "emit_384 okm len t =
     (let tk = (if len - length okm < SHA384_DIGEST then len - length okm else SHA384_DIGEST) in okm @ take tk t)"

definition expand_ok_384 :: "nat \<Rightarrow> nat \<Rightarrow> bool" where
  "expand_ok_384 info_len len \<longleftrightarrow> len \<le> 255 * SHA384_DIGEST \<and> info_len \<le> 256"

function expand_loop_384 :: "hkdf_xctx \<Rightarrow> nat \<Rightarrow> bytes \<Rightarrow> bytes \<Rightarrow> u8 \<Rightarrow> bytes" where
  "expand_loop_384 c len okm t counter =
     (if length okm < len
      then let t = expand_block_384 c t counter in expand_loop_384 c len (emit_384 okm len t) t (counter + 1)
      else okm)"
  by pat_completeness auto
termination
  by (relation "measure (\<lambda>(c, len, okm, t, counter). len - length okm)")
    (auto simp: emit_384_def expand_block_384_def SHA384_DIGEST_def Let_def)

declare expand_loop_384.simps [simp del]

definition hkdf_expand_384 :: "bytes \<Rightarrow> bytes \<Rightarrow> nat \<Rightarrow> bytes option" where
  "hkdf_expand_384 prk info n =
     (if \<not> expand_ok_384 (length info) n then None
      else Some (expand_loop_384 \<lparr>hx_prk = prk, hx_info = info\<rparr> n [] [] 1))"

definition build_label_384 :: "hkdf_label \<Rightarrow> nat \<Rightarrow> bytes" where
  "build_label_384 l len =
     [of_nat (len div 256), of_nat len, of_nat (6 + length (hl_label l))] @ ascii ''tls13 '' @ hl_label l
     @ [of_nat (length (hl_ctx l))] @ hl_ctx l"

definition hkdf_expand_label_384 :: "bytes \<Rightarrow> hkdf_label \<Rightarrow> nat \<Rightarrow> bytes option" where
  "hkdf_expand_label_384 prk l n =
     (if length (hl_label l) > 64 \<or> length (hl_ctx l) > 64 then None else hkdf_expand_384 prk (build_label_384 l n) n)"

section \<open>suitehash.c\<close>

record tls_hash =
  th_len :: nat
  th_digest :: "bytes \<Rightarrow> bytes"
  th_extract :: "bytes \<Rightarrow> bytes \<Rightarrow> bytes"
  th_expand_label :: "bytes \<Rightarrow> hkdf_label \<Rightarrow> nat \<Rightarrow> bytes option"
  th_mac :: "bytes \<Rightarrow> bytes \<Rightarrow> bytes"

definition TLS_HASH_MAX :: nat where "TLS_HASH_MAX = HKDF_PRK_384"

definition suitehash_sha256 :: tls_hash where
  "suitehash_sha256 = \<lparr>th_len = SHA256_DIGEST, th_digest = wired_sha256, th_extract = hkdf_extract,
     th_expand_label = hkdf_expand_label, th_mac = hmac_sha256\<rparr>"

definition suitehash_sha384 :: tls_hash where
  "suitehash_sha384 = \<lparr>th_len = SHA384_DIGEST, th_digest = sha384, th_extract = hkdf_extract_384,
     th_expand_label = hkdf_expand_label_384, th_mac = hmac_sha384\<rparr>"

definition tls_hash_of :: "u16 \<Rightarrow> tls_hash" where
  "tls_hash_of suite = (if suite = TLS_AES_256_GCM_SHA384 then suitehash_sha384 else suitehash_sha256)"

section \<open>v2keys.c and initial.c\<close>

definition INITIAL_KEY :: nat where "INITIAL_KEY = 16"
definition INITIAL_IV :: nat where "INITIAL_IV = 12"
definition INITIAL_HP :: nat where "INITIAL_HP = 16"
definition AEAD_KEY_MAX :: nat where "AEAD_KEY_MAX = 32"

definition V1_SALT :: bytes where
  "V1_SALT = [0x38, 0x76, 0x2c, 0xf7, 0xf5, 0x59, 0x34, 0xb3, 0x4d, 0x17, 0x9a, 0xe6, 0xa4, 0xc8, 0x0c, 0xad, 0xcc, 0xbb, 0x7f, 0x0a]"

definition V2_SALT :: bytes where
  "V2_SALT = [0x0d, 0xed, 0xe3, 0xde, 0xf7, 0x00, 0xa6, 0xdb, 0x81, 0x93, 0x81, 0xbe, 0x6e, 0x26, 0x9d, 0xcb, 0xf9, 0xbd, 0x2e, 0xd9]"

definition salt_for :: "u32 \<Rightarrow> bytes option" where
  "salt_for version = (if version = VERSION_1 then Some V1_SALT else if version = VERSION_2 then Some V2_SALT else None)"

definition version_initial_salt :: "u32 \<Rightarrow> bytes option" where
  "version_initial_salt version = (case salt_for version of None \<Rightarrow> None | Some s \<Rightarrow> Some s)"

definition version_label_prefix :: "u32 \<Rightarrow> bytes option" where
  "version_label_prefix version =
     (if version = VERSION_1 then Some (ascii ''quic '') else if version = VERSION_2 then Some (ascii ''quicv2 '') else None)"

definition version_quic_label :: "u32 \<Rightarrow> bytes \<Rightarrow> bytes" where
  "version_quic_label version suffix =
     (let prefix = (case version_label_prefix version of Some p \<Rightarrow> p | None \<Rightarrow> the (version_label_prefix VERSION_1))
      in prefix @ suffix)"

definition ilabel_build :: "u32 \<Rightarrow> bytes \<Rightarrow> bytes" where
  "ilabel_build version suffix =
     (let prefix = (case version_label_prefix version of Some p \<Rightarrow> p | None \<Rightarrow> the (version_label_prefix VERSION_1))
      in prefix @ suffix)"

text \<open>
  An output is the buffer \<open>out\<close> with \<open>n\<close> bytes written at its start. The status of the expansion is not
  tested: a refused one leaves the buffer as it was.
\<close>

definition derive_field :: "bytes \<Rightarrow> bytes \<Rightarrow> nat \<Rightarrow> bytes \<Rightarrow> bytes" where
  "derive_field secret label n out =
     (case hkdf_expand_label secret \<lparr>hl_label = label, hl_ctx = []\<rparr> n of Some okm \<Rightarrow> write_at out 0 okm | None \<Rightarrow> out)"

definition derive_keys :: "bytes \<Rightarrow> u32 \<Rightarrow> initial_keys \<Rightarrow> initial_keys" where
  "derive_keys secret version out =
     (let out = out\<lparr>ik_key := derive_field secret (ilabel_build version (ascii ''key'')) INITIAL_KEY (ik_key out)\<rparr>;
          out = out\<lparr>ik_iv := derive_field secret (ilabel_build version (ascii ''iv'')) INITIAL_IV (ik_iv out)\<rparr>
      in out\<lparr>ik_hp := derive_field secret (ilabel_build version (ascii ''hp'')) INITIAL_HP (ik_hp out)\<rparr>)"

definition initial_salt :: "u32 \<Rightarrow> bytes" where
  "initial_salt version =
     (case version_initial_salt version of Some s \<Rightarrow> s | None \<Rightarrow> the (version_initial_salt VERSION_1))"

definition side_label :: "bool \<Rightarrow> bytes" where
  "side_label is_server = (if is_server then ascii ''server in'' else ascii ''client in'')"

text \<open>\<open>stack\<close> is what the uninitialised \<open>side_secret\<close> holds.\<close>

definition initial_derive :: "bytes \<Rightarrow> bytes \<Rightarrow> bool \<Rightarrow> u32 \<Rightarrow> initial_keys \<Rightarrow> initial_keys" where
  "initial_derive stack dcid is_server version out =
     (let initial_secret = hkdf_extract (initial_salt version) dcid;
          side_secret = derive_field initial_secret (side_label is_server) HKDF_PRK stack
      in derive_keys side_secret version out)"

section \<open>schedule.c, appkeys.c, master.c, exporter.c, finished.c and binder.c\<close>

definition hp_is_chacha :: "u16 \<Rightarrow> bool" where "hp_is_chacha suite \<longleftrightarrow> suite = TLS_CHACHA20_POLY1305_SHA256"

definition hp_key_len :: "u16 \<Rightarrow> nat" where "hp_key_len suite = aead_key_len suite"

definition resolved_key_len :: "u16 \<Rightarrow> nat" where
  "resolved_key_len suite = (let n = aead_key_len suite in if n \<noteq> 0 then n else INITIAL_KEY)"

definition resolved_hp_len :: "u16 \<Rightarrow> nat" where
  "resolved_hp_len suite = (let n = hp_key_len suite in if n \<noteq> 0 then n else INITIAL_HP)"

record derive_secret_in =
  di_secret :: bytes
  di_label :: bytes
  di_messages :: bytes
  di_suite :: u16

text \<open>The secret returned is the \<open>Hash.length\<close> bytes written to \<open>out\<close>.\<close>

definition tls_derive_secret :: "derive_secret_in \<Rightarrow> bool \<times> bytes" where
  "tls_derive_secret i =
     (let h = tls_hash_of (di_suite i); thash = th_digest h (di_messages i);
          l = \<lparr>hl_label = di_label i, hl_ctx = take (th_len h) thash\<rparr>
      in case th_expand_label h (di_secret i) l (th_len h) of Some okm \<Rightarrow> (True, okm) | None \<Rightarrow> (False, replicate (th_len h) 0))"

definition derive_in :: "u16 \<Rightarrow> bytes \<Rightarrow> string \<Rightarrow> bytes \<Rightarrow> derive_secret_in" where
  "derive_in suite secret label messages = \<lparr>di_secret = secret, di_label = ascii label, di_messages = messages, di_suite = suite\<rparr>"

definition handshake_secret_from_early :: "u16 \<Rightarrow> bytes \<Rightarrow> bytes \<Rightarrow> bytes" where
  "handshake_secret_from_early suite early ecdhe =
     (let h = tls_hash_of suite; (_, derived) = tls_derive_secret (derive_in suite early ''derived'' [])
      in th_extract h (take (th_len h) derived) (take 32 ecdhe))"

definition sched_early_secret :: "u16 \<Rightarrow> bytes option \<Rightarrow> bytes" where
  "sched_early_secret suite ikm =
     (let h = tls_hash_of suite; zero = replicate TLS_HASH_MAX 0
      in th_extract h (take (th_len h) zero) (take (th_len h) (case ikm of Some p \<Rightarrow> p | None \<Rightarrow> zero)))"

definition tls_handshake_secret_psk_suite :: "u16 \<Rightarrow> bytes option \<Rightarrow> bytes \<Rightarrow> bytes" where
  "tls_handshake_secret_psk_suite suite psk ecdhe =
     (let early = sched_early_secret suite psk in handshake_secret_from_early suite early ecdhe)"

definition tls_handshake_secret_suite :: "u16 \<Rightarrow> bytes \<Rightarrow> bytes" where
  "tls_handshake_secret_suite suite ecdhe = tls_handshake_secret_psk_suite suite None ecdhe"

definition hs_field :: "u16 \<Rightarrow> bytes \<Rightarrow> bytes \<Rightarrow> nat \<Rightarrow> bytes \<Rightarrow> bytes" where
  "hs_field suite secret label n out =
     (case th_expand_label (tls_hash_of suite) secret \<lparr>hl_label = label, hl_ctx = []\<rparr> n of
        Some okm \<Rightarrow> write_at out 0 okm | None \<Rightarrow> out)"

definition protection_keys_zero_tail :: "initial_keys \<Rightarrow> nat \<Rightarrow> nat \<Rightarrow> initial_keys" where
  "protection_keys_zero_tail out key_len hp_len =
     out\<lparr>ik_key := write_at (ik_key out) key_len (replicate (AEAD_KEY_MAX - key_len) 0),
         ik_hp := write_at (ik_hp out) hp_len (replicate (AEAD_KEY_MAX - hp_len) 0)\<rparr>"

definition protection_keys_suite :: "bytes \<Rightarrow> u16 \<Rightarrow> u32 \<Rightarrow> initial_keys \<Rightarrow> initial_keys" where
  "protection_keys_suite ts suite version out =
     (let key_len = resolved_key_len suite; hp_len = resolved_hp_len suite;
          out = out\<lparr>ik_key := hs_field suite ts (version_quic_label version (ascii ''key'')) key_len (ik_key out)\<rparr>;
          out = out\<lparr>ik_iv := hs_field suite ts (version_quic_label version (ascii ''iv'')) INITIAL_IV (ik_iv out)\<rparr>;
          out = out\<lparr>ik_hp := hs_field suite ts (version_quic_label version (ascii ''hp'')) hp_len (ik_hp out)\<rparr>
      in protection_keys_zero_tail out key_len hp_len)"

record handshake_keys_in =
  hk_hs_secret :: bytes
  hk_transcript :: bytes
  hk_is_server :: bool
  hk_version :: u32

definition tls_handshake_keys_suite :: "handshake_keys_in \<Rightarrow> u16 \<Rightarrow> initial_keys \<Rightarrow> initial_keys" where
  "tls_handshake_keys_suite i suite out =
     (let label = (if hk_is_server i then ''s hs traffic'' else ''c hs traffic'');
          (_, ts) = tls_derive_secret (derive_in suite (hk_hs_secret i) label (hk_transcript i))
      in protection_keys_suite ts suite (hk_version i) out)"

definition tls_early_traffic_secret_suite :: "u16 \<Rightarrow> bytes option \<Rightarrow> bytes \<Rightarrow> bytes" where
  "tls_early_traffic_secret_suite suite psk client_hello =
     (let early = sched_early_secret suite psk in snd (tls_derive_secret (derive_in suite early ''c e traffic'' client_hello)))"

definition tls_early_keys_suite_ver :: "u16 \<Rightarrow> u32 \<Rightarrow> bytes option \<Rightarrow> bytes \<Rightarrow> initial_keys \<Rightarrow> initial_keys" where
  "tls_early_keys_suite_ver suite version psk client_hello out =
     (let ts = tls_early_traffic_secret_suite suite psk client_hello in protection_keys_suite ts suite version out)"

definition appkeys_key_len :: "u16 \<Rightarrow> nat" where
  "appkeys_key_len suite = (let n = aead_key_len suite in if n \<noteq> 0 then n else INITIAL_KEY)"

definition appkeys_hp_len :: "u16 \<Rightarrow> nat" where
  "appkeys_hp_len suite = (let n = hp_key_len suite in if n \<noteq> 0 then n else INITIAL_HP)"

definition appkeys_zero_tail :: "initial_keys \<Rightarrow> nat \<Rightarrow> nat \<Rightarrow> initial_keys" where
  "appkeys_zero_tail out key_len hp_len =
     out\<lparr>ik_key := write_at (ik_key out) key_len (replicate (AEAD_KEY_MAX - key_len) 0),
         ik_hp := write_at (ik_hp out) hp_len (replicate (AEAD_KEY_MAX - hp_len) 0)\<rparr>"

definition appkeys_field :: "u16 \<Rightarrow> bytes \<Rightarrow> u32 \<Rightarrow> string \<Rightarrow> nat \<Rightarrow> bytes \<Rightarrow> bytes" where
  "appkeys_field suite ts version sfx n out =
     (case th_expand_label (tls_hash_of suite) ts \<lparr>hl_label = version_quic_label version (ascii sfx), hl_ctx = []\<rparr> n of
        Some okm \<Rightarrow> write_at out 0 okm | None \<Rightarrow> out)"

record app_keys_in =
  ak_master :: bytes
  ak_transcript :: bytes
  ak_is_server :: bool
  ak_version :: u32

definition tls_app_keys_suite :: "app_keys_in \<Rightarrow> u16 \<Rightarrow> initial_keys \<Rightarrow> initial_keys" where
  "tls_app_keys_suite i suite out =
     (let label = (if ak_is_server i then ''s ap traffic'' else ''c ap traffic'');
          key_len = appkeys_key_len suite; hp_len = appkeys_hp_len suite;
          (_, ts) = tls_derive_secret \<lparr>di_secret = ak_master i, di_label = ascii label, di_messages = ak_transcript i, di_suite = suite\<rparr>;
          out = out\<lparr>ik_key := appkeys_field suite ts (ak_version i) ''key'' key_len (ik_key out)\<rparr>;
          out = out\<lparr>ik_iv := appkeys_field suite ts (ak_version i) ''iv'' INITIAL_IV (ik_iv out)\<rparr>;
          out = out\<lparr>ik_hp := appkeys_field suite ts (ak_version i) ''hp'' hp_len (ik_hp out)\<rparr>
      in appkeys_zero_tail out key_len hp_len)"

definition tls_master_secret_suite :: "u16 \<Rightarrow> bytes \<Rightarrow> bytes" where
  "tls_master_secret_suite suite hs_secret =
     (let h = tls_hash_of suite; zero = replicate TLS_HASH_MAX 0;
          (_, derived) = tls_derive_secret \<lparr>di_secret = hs_secret, di_label = ascii ''derived'', di_messages = [], di_suite = suite\<rparr>
      in th_extract h (take (th_len h) derived) (take (th_len h) zero))"

definition tls_exporter_master_secret_suite :: "u16 \<Rightarrow> bytes \<Rightarrow> bytes \<Rightarrow> bytes" where
  "tls_exporter_master_secret_suite suite master transcript =
     snd (tls_derive_secret \<lparr>di_secret = master, di_label = ascii ''exp master'', di_messages = transcript, di_suite = suite\<rparr>)"

definition tls_exporter_suite :: "u16 \<Rightarrow> bytes \<Rightarrow> bytes \<Rightarrow> bytes \<Rightarrow> nat \<Rightarrow> bytes option" where
  "tls_exporter_suite suite secret label context n =
     (let h = tls_hash_of suite;
          (ok, derived) = tls_derive_secret \<lparr>di_secret = secret, di_label = label, di_messages = [], di_suite = suite\<rparr>
      in if \<not> ok then None
         else let ctx_hash = th_digest h context
              in th_expand_label h derived \<lparr>hl_label = ascii ''exporter'', hl_ctx = take (th_len h) ctx_hash\<rparr> n)"

text \<open>\<open>stack\<close> is what the uninitialised \<open>finished_key\<close> holds.\<close>

definition tls_finished_verify_data_suite :: "bytes \<Rightarrow> u16 \<Rightarrow> bytes \<Rightarrow> bytes \<Rightarrow> bytes" where
  "tls_finished_verify_data_suite stack suite base_key transcript_hash =
     (let h = tls_hash_of suite;
          finished_key = (case th_expand_label h base_key \<lparr>hl_label = ascii ''finished'', hl_ctx = []\<rparr> (th_len h) of
            Some okm \<Rightarrow> write_at stack 0 okm | None \<Rightarrow> stack)
      in th_mac h (take (th_len h) finished_key) (take (th_len h) transcript_hash))"

definition tls_finished_check_suite :: "bytes \<Rightarrow> u16 \<Rightarrow> bytes \<Rightarrow> bytes \<Rightarrow> bytes \<Rightarrow> bool" where
  "tls_finished_check_suite stack suite base_key transcript_hash received =
     (let want = tls_finished_verify_data_suite stack suite base_key transcript_hash
      in ct_diffn want received (th_len (tls_hash_of suite)) = 0)"

definition binder_key_suite :: "u16 \<Rightarrow> bytes \<Rightarrow> bytes" where
  "binder_key_suite suite psk =
     (let h = tls_hash_of suite; zero = replicate TLS_HASH_MAX 0;
          early = th_extract h (take (th_len h) zero) (take (th_len h) psk)
      in snd (tls_derive_secret \<lparr>di_secret = early, di_label = ascii ''res binder'', di_messages = [], di_suite = suite\<rparr>))"

definition tls_binder_compute_hash :: "bytes \<Rightarrow> u16 \<Rightarrow> bytes \<Rightarrow> bytes \<Rightarrow> bytes" where
  "tls_binder_compute_hash stack suite psk thash =
     (let binder_key = binder_key_suite suite psk in tls_finished_verify_data_suite stack suite binder_key thash)"

definition tls_binder_compute_suite :: "bytes \<Rightarrow> u16 \<Rightarrow> bytes \<Rightarrow> bytes \<Rightarrow> bytes" where
  "tls_binder_compute_suite stack suite psk truncated_ch =
     (let thash = th_digest (tls_hash_of suite) truncated_ch in tls_binder_compute_hash stack suite psk thash)"

definition tls_binder_verify_hash :: "bytes \<Rightarrow> u16 \<Rightarrow> bytes \<Rightarrow> bytes \<Rightarrow> bytes \<Rightarrow> bool" where
  "tls_binder_verify_hash stack suite psk thash received =
     (let want = tls_binder_compute_hash stack suite psk thash in ct_diffn want received (th_len (tls_hash_of suite)) = 0)"

definition tls_binder_verify_suite :: "bytes \<Rightarrow> u16 \<Rightarrow> bytes \<Rightarrow> bytes \<Rightarrow> bytes \<Rightarrow> bool" where
  "tls_binder_verify_suite stack suite psk truncated_ch received =
     (let thash = th_digest (tls_hash_of suite) truncated_ch in tls_binder_verify_hash stack suite psk thash received)"

section \<open>transcript.c\<close>

record transcript =
  tr_h :: sha256_ctx
  tr_h384 :: sha512_ctx

definition transcript_init :: transcript where
  "transcript_init = \<lparr>tr_h = sha256_init, tr_h384 = sha384_init\<rparr>"

definition transcript_add :: "transcript \<Rightarrow> bytes \<Rightarrow> transcript" where
  "transcript_add t msg = t\<lparr>tr_h := sha256_update (tr_h t) msg, tr_h384 := sha512_update (tr_h384 t) msg\<rparr>"

definition transcript_hash :: "transcript \<Rightarrow> bytes" where
  "transcript_hash t = sha256_final (tr_h t)"

definition transcript_hash384 :: "transcript \<Rightarrow> bytes" where
  "transcript_hash384 t = sha384_final (tr_h384 t)"

definition transcript_hash_suite :: "transcript \<Rightarrow> u16 \<Rightarrow> bytes" where
  "transcript_hash_suite t suite = (if suite = TLS_AES_256_GCM_SHA384 then transcript_hash384 t else transcript_hash t)"

section \<open>keyschedule.c\<close>

definition KS_CLIENT_HS :: nat where "KS_CLIENT_HS = 0"
definition KS_SERVER_HS :: nat where "KS_SERVER_HS = 1"
definition KS_CLIENT_AP :: nat where "KS_CLIENT_AP = 2"
definition KS_SERVER_AP :: nat where "KS_SERVER_AP = 3"

record keysched =
  ks_stage :: nat
  ks_master :: bytes
  ks_keys :: "initial_keys list"
  ks_client_ap_secret :: bytes
  ks_server_ap_secret :: bytes
  ks_exporter_secret :: bytes
  ks_suite :: u16
  ks_version :: u32
  ks_hs_gone :: bool

definition save_client_ap_secret :: "keysched \<Rightarrow> bytes \<Rightarrow> keysched" where
  "save_client_ap_secret st transcript =
     (let (_, s) = tls_derive_secret \<lparr>di_secret = ks_master st, di_label = ascii ''c ap traffic'', di_messages = transcript, di_suite = ks_suite st\<rparr>
      in st\<lparr>ks_client_ap_secret := write_at (ks_client_ap_secret st) 0 s\<rparr>)"

definition save_server_ap_secret :: "keysched \<Rightarrow> bytes \<Rightarrow> keysched" where
  "save_server_ap_secret st transcript =
     (let (_, s) = tls_derive_secret \<lparr>di_secret = ks_master st, di_label = ascii ''s ap traffic'', di_messages = transcript, di_suite = ks_suite st\<rparr>
      in st\<lparr>ks_server_ap_secret := write_at (ks_server_ap_secret st) 0 s\<rparr>)"

definition keysched_init :: "keysched \<Rightarrow> keysched" where
  "keysched_init st = st\<lparr>ks_stage := 0, ks_suite := TLS_AES_128_GCM_SHA256, ks_version := VERSION_1, ks_hs_gone := False\<rparr>"

definition keysched_set_suite :: "keysched \<Rightarrow> u16 \<Rightarrow> keysched" where
  "keysched_set_suite st suite = st\<lparr>ks_suite := suite\<rparr>"

definition keysched_set_version :: "keysched \<Rightarrow> u32 \<Rightarrow> keysched" where
  "keysched_set_version st version = st\<lparr>ks_version := version\<rparr>"

definition ecdhe_ok :: "nat \<Rightarrow> nat \<Rightarrow> bool" where
  "ecdhe_ok stage ecdhe_len \<longleftrightarrow> stage = 0 \<and> ecdhe_len = 32"

definition install_handshake_secret :: "keysched \<Rightarrow> bytes \<Rightarrow> bytes \<Rightarrow> keysched" where
  "install_handshake_secret st hs transcript =
     (let i = \<lparr>hk_hs_secret = hs, hk_transcript = transcript, hk_is_server = False, hk_version = ks_version st\<rparr>;
          st = st\<lparr>ks_keys := (ks_keys st)[KS_CLIENT_HS := tls_handshake_keys_suite i (ks_suite st) (ks_keys st ! KS_CLIENT_HS)]\<rparr>;
          i = i\<lparr>hk_is_server := True\<rparr>;
          st = st\<lparr>ks_keys := (ks_keys st)[KS_SERVER_HS := tls_handshake_keys_suite i (ks_suite st) (ks_keys st ! KS_SERVER_HS)]\<rparr>
      in st\<lparr>ks_master := write_at (ks_master st) 0 (tls_master_secret_suite (ks_suite st) hs), ks_stage := 1\<rparr>)"

definition keysched_advance_handshake :: "keysched \<Rightarrow> bytes \<Rightarrow> bytes \<Rightarrow> bool \<times> keysched" where
  "keysched_advance_handshake st ecdhe transcript =
     (if \<not> ecdhe_ok (ks_stage st) (length ecdhe) then (False, st)
      else let hs = tls_handshake_secret_suite (ks_suite st) ecdhe in (True, install_handshake_secret st hs transcript))"

definition keysched_advance_handshake_psk :: "keysched \<Rightarrow> bytes \<Rightarrow> bytes \<Rightarrow> bytes \<Rightarrow> bool \<times> keysched" where
  "keysched_advance_handshake_psk st psk ecdhe transcript =
     (if \<not> ecdhe_ok (ks_stage st) (length ecdhe) then (False, st)
      else let hs = tls_handshake_secret_psk_suite (ks_suite st) (Some psk) ecdhe in (True, install_handshake_secret st hs transcript))"

definition keysched_advance_master :: "keysched \<Rightarrow> bytes \<Rightarrow> bool \<times> keysched" where
  "keysched_advance_master st transcript =
     (if ks_stage st \<noteq> 1 then (False, st)
      else let i = \<lparr>ak_master = ks_master st, ak_transcript = transcript, ak_is_server = False, ak_version = ks_version st\<rparr>;
               st = st\<lparr>ks_keys := (ks_keys st)[KS_CLIENT_AP := tls_app_keys_suite i (ks_suite st) (ks_keys st ! KS_CLIENT_AP)]\<rparr>;
               st = save_client_ap_secret st transcript;
               i = i\<lparr>ak_is_server := True\<rparr>;
               st = st\<lparr>ks_keys := (ks_keys st)[KS_SERVER_AP := tls_app_keys_suite i (ks_suite st) (ks_keys st ! KS_SERVER_AP)]\<rparr>;
               st = save_server_ap_secret st transcript
           in (True, st\<lparr>ks_exporter_secret := write_at (ks_exporter_secret st) 0
                 (tls_exporter_master_secret_suite (ks_suite st) (ks_master st) transcript), ks_stage := 2\<rparr>))"

definition keysched_have :: "keysched \<Rightarrow> nat \<Rightarrow> bool" where
  "keysched_have st which \<longleftrightarrow> (if which \<le> KS_SERVER_HS then ks_stage st \<ge> 1 \<and> \<not> ks_hs_gone st else ks_stage st \<ge> 2)"

definition keysched_get :: "keysched \<Rightarrow> nat \<Rightarrow> initial_keys option" where
  "keysched_get st which = (if \<not> keysched_have st which then None else Some (ks_keys st ! which))"

definition keysched_client_ap_secret :: "keysched \<Rightarrow> bytes option" where
  "keysched_client_ap_secret st = (if ks_stage st < 2 then None else Some (ks_client_ap_secret st))"

definition keysched_server_ap_secret :: "keysched \<Rightarrow> bytes option" where
  "keysched_server_ap_secret st = (if ks_stage st < 2 then None else Some (ks_server_ap_secret st))"

definition keysched_exporter_secret :: "keysched \<Rightarrow> bytes option" where
  "keysched_exporter_secret st = (if ks_stage st < 2 then None else Some (ks_exporter_secret st))"

definition zero_keys :: initial_keys where
  "zero_keys = \<lparr>ik_key = replicate AEAD_KEY_MAX 0, ik_iv = replicate INITIAL_IV 0, ik_hp = replicate AEAD_KEY_MAX 0\<rparr>"

definition keysched_wipe :: "keysched \<Rightarrow> keysched" where
  "keysched_wipe st =
     \<lparr>ks_stage = 0, ks_master = replicate TLS_HASH_MAX 0, ks_keys = replicate 4 zero_keys,
      ks_client_ap_secret = replicate TLS_HASH_MAX 0, ks_server_ap_secret = replicate TLS_HASH_MAX 0,
      ks_exporter_secret = replicate TLS_HASH_MAX 0, ks_suite = ks_suite st, ks_version = ks_version st, ks_hs_gone = False\<rparr>"

definition keysched_discard_handshake :: "keysched \<Rightarrow> keysched" where
  "keysched_discard_handshake st =
     st\<lparr>ks_keys := (ks_keys st)[KS_CLIENT_HS := zero_keys, KS_SERVER_HS := zero_keys], ks_hs_gone := True\<rparr>"

section \<open>HMAC and HKDF of RFC 2104 and RFC 5869\<close>

definition HMAC :: "(bytes \<Rightarrow> bytes) \<Rightarrow> nat \<Rightarrow> bytes \<Rightarrow> bytes \<Rightarrow> bytes" where
  "HMAC H B key msg =
     (let k0 = (if length key > B then H key else key); k = k0 @ replicate (B - length k0) 0
      in H (map (\<lambda>b. b XOR 0x5c) k @ H (map (\<lambda>b. b XOR 0x36) k @ msg)))"

fun hkdf_T :: "(bytes \<Rightarrow> bytes \<Rightarrow> bytes) \<Rightarrow> bytes \<Rightarrow> bytes \<Rightarrow> nat \<Rightarrow> bytes" where
  "hkdf_T mac prk info 0 = []"
| "hkdf_T mac prk info (Suc i) = mac prk (hkdf_T mac prk info i @ info @ [of_nat (Suc i)])"

definition HKDF_Expand :: "(bytes \<Rightarrow> bytes \<Rightarrow> bytes) \<Rightarrow> nat \<Rightarrow> bytes \<Rightarrow> bytes \<Rightarrow> nat \<Rightarrow> bytes" where
  "HKDF_Expand mac hl prk info L = take L (concat (map (hkdf_T mac prk info) [1..<Suc ((L + hl - 1) div hl)]))"

definition HkdfLabel :: "bytes \<Rightarrow> bytes \<Rightarrow> nat \<Rightarrow> bytes" where
  "HkdfLabel label ctx L =
     octets 2 L @ octets 1 (6 + length label) @ ascii ''tls13 '' @ label @ octets 1 (length ctx) @ ctx"

text \<open>
  What the expansion loop relies on: a MAC with outputs of \<open>hl\<close> bytes and the loop's unfolding. The loop
  then computes \<open>HKDF-Expand\<close>.
\<close>

locale hkdf_loop =
  fixes mac :: "bytes \<Rightarrow> bytes \<Rightarrow> bytes" and hl :: nat
    and loop :: "hkdf_xctx \<Rightarrow> nat \<Rightarrow> bytes \<Rightarrow> bytes \<Rightarrow> u8 \<Rightarrow> bytes"
  assumes hl: "0 < hl" and mac_length: "length (mac k m) = hl"
    and loop: "loop c L okm t n = (if length okm < L
      then let t = mac (take hl (hx_prk c)) (t @ hx_info c @ [n]) in loop c L (okm @ take (L - length okm) t) t (n + 1) else okm)"
begin

lemma T_length: "length (hkdf_T mac prk info (Suc i)) = hl"
  by (simp add: mac_length)

lemma blocks_length: "length (concat (map (hkdf_T mac prk info) [1..<Suc i])) = i * hl"
proof (induction i)
  case (Suc i)
  then show ?case using T_length [of prk info i] by (simp add: algebra_simps)
qed simp

lemma loop_from:
  assumes c: "take hl (hx_prk c) = prk" "hx_info c = info" and "i \<le> (L + hl - 1) div hl"
  shows "loop c L (take L (concat (map (hkdf_T mac prk info) [1..<Suc i]))) (hkdf_T mac prk info i) (of_nat (Suc i))
    = HKDF_Expand mac hl prk info L"
  using assms(3)
proof (induction "(L + hl - 1) div hl - i" arbitrary: i)
  case 0
  then have i: "i = (L + hl - 1) div hl" by simp
  moreover have "L \<le> (L + hl - 1) div hl * hl" using hl div_mult_mod_eq [of "L + hl - 1" hl] mod_less_divisor [OF hl, of "L + hl - 1"] by linarith
  ultimately have "length (take L (concat (map (hkdf_T mac prk info) [1..<Suc i]))) = L"
    unfolding length_take blocks_length by simp
  then show ?case unfolding HKDF_Expand_def i by (subst loop) (simp del: upt_Suc)
next
  case (Suc m)
  let ?b = "\<lambda>i. concat (map (hkdf_T mac prk info) [1..<Suc i])"
  have "Suc i \<le> (L + hl - 1) div hl" using Suc(2) by linarith
  then have "Suc i * hl \<le> L + hl - 1" using less_eq_div_iff_mult_less_eq [OF hl] by blast
  then have lt: "i * hl < L" using hl by simp
  then have b: "take L (?b i) = ?b i" by (intro take_all) (simp only: blocks_length)
  have s: "?b (Suc i) = ?b i @ hkdf_T mac prk info (Suc i)" by simp
  have "loop c L (?b i) (hkdf_T mac prk info i) (of_nat (Suc i))
      = loop c L (?b i @ take (L - length (?b i)) (hkdf_T mac prk info (Suc i))) (hkdf_T mac prk info (Suc i)) (of_nat (Suc (Suc i)))"
    using lt by (subst loop) (simp only: blocks_length Let_def if_True hkdf_T.simps c, simp add: add.commute)
  also have "?b i @ take (L - length (?b i)) (hkdf_T mac prk info (Suc i)) = take L (?b (Suc i))"
    using lt unfolding s take_append b by simp
  finally show ?case using Suc(1) [of "Suc i"] Suc(2,3) b by simp
qed

lemma loop_expand: "loop c L [] [] 1 = HKDF_Expand mac hl (take hl (hx_prk c)) (hx_info c) L"
  using loop_from [of c _ _ 0 L] by simp

end
interpretation x256: hkdf_loop hmac_sha256 32 expand_loop
proof
  show "expand_loop c L okm t n = (if length okm < L
      then let t = hmac_sha256 (take 32 (hx_prk c)) (t @ hx_info c @ [n]) in expand_loop c L (okm @ take (L - length okm) t) t (n + 1) else okm)"
    for c L okm t n
    by (subst expand_loop.simps) (auto simp: expand_block_def emit_def HKDF_PRK_def SHA256_DIGEST_def Let_def)
qed simp_all

interpretation x384: hkdf_loop hmac_sha384 48 expand_loop_384
proof
  show "expand_loop_384 c L okm t n = (if length okm < L
      then let t = hmac_sha384 (take 48 (hx_prk c)) (t @ hx_info c @ [n]) in expand_loop_384 c L (okm @ take (L - length okm) t) t (n + 1) else okm)"
    for c L okm t n
    by (subst expand_loop_384.simps) (auto simp: expand_block_384_def emit_384_def HKDF_PRK_384_def SHA384_DIGEST_def Let_def)
qed simp_all

lemma sha256_two: "length a + length b < 2 ^ 61 \<Longrightarrow> sha256_final (sha256_update (sha256_update sha256_init a) b) = SHA256_spec (a @ b)"
  using sha256_stream [of "[a, b]"] by simp

lemma sha512_two:
  "length a + length b < 2 ^ 61 \<Longrightarrow> sha512_final (sha512_update (sha512_update sha512_init a) b) = SHA512_spec (a @ b)"
  "length a + length b < 2 ^ 61 \<Longrightarrow> sha384_final (sha512_update (sha512_update sha384_init a) b) = SHA384_spec (a @ b)"
  using sha512_stream [of "[a, b]"] by simp_all

lemma sha_once:
  "length a < 2 ^ 61 \<Longrightarrow> wired_sha256 a = SHA256_spec a" "length a < 2 ^ 61 \<Longrightarrow> sha384 a = SHA384_spec a"
  using sha256_stream [of "[a]"] sha512_stream [of "[a]"] by (simp_all add: wired_sha256_def sha384_def)

lemma write_at_zeros: "length x \<le> n \<Longrightarrow> write_at (replicate n 0) 0 x = x @ replicate (n - length x) (0 :: u8)"
  by (simp add: write_at_eq)

lemma length_SHA256_spec: "length a < 2 ^ 61 \<Longrightarrow> length (SHA256_spec a) = 32"
  using sha256_two [of a "[]"] by (metis append_Nil2 add_0_right length_sha256_final list.size(3))

lemma hmac_sha256_spec:
  assumes "length key < 2 ^ 60" and "length msg < 2 ^ 60"
  shows "hmac_sha256 key msg = HMAC SHA256_spec 64 key msg"
proof -
  define k0 where "k0 = (if length key > 64 then SHA256_spec key else key)"
  have k: "length k0 \<le> 64" using assms length_SHA256_spec [of key] by (simp add: k0_def)
  have b: "key_block key = k0 @ replicate (64 - length k0) 0"
    using assms k by (auto simp: key_block_def short_key_def k0_def SHA256_BLOCK_def write_at_zeros sha_once)
  have i: "inner_hash (key_block key) msg = SHA256_spec (map (\<lambda>b. b XOR 0x36) (key_block key) @ msg)"
    using assms k by (simp add: inner_hash_def feed_pad_def sha256_two b)
  have "length (inner_hash (key_block key) msg) = 32" by (simp add: inner_hash_def Let_def)
  then have "hmac_sha256 key msg = SHA256_spec (map (\<lambda>b. b XOR 0x5c) (key_block key) @ inner_hash (key_block key) msg)"
    using k by (simp add: hmac_sha256_def feed_pad_def sha256_two b Let_def)
  then show ?thesis unfolding i by (simp only: HMAC_def Let_def k0_def [symmetric] b)
qed

lemma hmac512_spec:
  assumes "length key < 2 ^ 60" and "length msg < 2 ^ 60"
    and two: "\<And>a b. length a + length b < 2 ^ 61 \<Longrightarrow> hmac512_hash2 h a b = H (a @ b)"
    and n: "\<And>a b. length (hmac512_hash2 h a b) = hh_n h" "hh_n h \<le> 128"
  shows "hmac512_mac h key msg = HMAC H 128 key msg"
proof -
  define k0 where "k0 = (if length key > 128 then H key else key)"
  have k: "length k0 \<le> 128" using assms(1) n(1) [of key "[]"] n(2) two [of key "[]"] by (simp add: k0_def)
  have b: "hmac512_key_block h key = k0 @ replicate (128 - length k0) 0"
    using assms(1) k two [of key "[]"] by (auto simp: hmac512_key_block_def k0_def SHA512_BLOCK_def write_at_zeros Let_def)
  have p: "hmac512_pad_hash h (hmac512_key_block h key) pad m = H (map (\<lambda>b. b XOR pad) (hmac512_key_block h key) @ m)"
    if "length m < 2 ^ 60" for pad m
    unfolding hmac512_pad_hash_def by (rule two) (use that k in \<open>simp add: b\<close>)
  have l: "length (hmac512_pad_hash h kb pad m) = hh_n h" for kb pad m by (simp add: hmac512_pad_hash_def n)
  have "hmac512_mac h key msg = H (map (\<lambda>b. b XOR 0x5c) (hmac512_key_block h key) @ hmac512_pad_hash h (hmac512_key_block h key) 0x36 msg)"
    unfolding hmac512_mac_def Let_def using n(2) l by (subst p) simp_all
  then show ?thesis unfolding p [OF assms(2)] by (simp only: HMAC_def Let_def k0_def [symmetric] b)
qed

lemma hmac_sha384_spec:
  assumes "length key < 2 ^ 60" and "length msg < 2 ^ 60"
  shows "hmac_sha384 key msg = HMAC SHA384_spec 128 key msg" "hmac_sha512 key msg = HMAC SHA512_spec 128 key msg"
  unfolding hmac_sha384_def hmac_sha512_def
  by (rule hmac512_spec [OF assms];
      simp add: hmac512_hash2_def HMAC512_SHA384_def HMAC512_SHA512_def sha512_two SHA384_DIGEST_def SHA512_DIGEST_def)+

lemma hkdf_T_cong:
  assumes "\<And>m. length m < 2 ^ 60 \<Longrightarrow> f prk m = g prk m" and "\<And>m. length (f prk m) \<le> 64" and "length info \<le> 256"
  shows "hkdf_T f prk info i = hkdf_T g prk info i \<and> length (hkdf_T f prk info i) \<le> 64"
proof (induction i)
  case (Suc i)
  define m where "m = hkdf_T f prk info i @ info @ [of_nat (Suc i)]"
  have "length m < 2 ^ 60" using Suc assms(3) by (auto simp: m_def)
  then have "f prk m = g prk m" by (rule assms(1))
  moreover have "hkdf_T f prk info (Suc i) = f prk m" "hkdf_T g prk info (Suc i) = g prk m" using Suc by (simp_all add: m_def)
  ultimately show ?case using assms(2) [of m] by simp
qed simp

lemma HKDF_Expand_cong:
  assumes "\<And>m. length m < 2 ^ 60 \<Longrightarrow> f prk m = g prk m" and "\<And>m. length (f prk m) \<le> 64" and "length info \<le> 256"
  shows "HKDF_Expand f hl prk info L = HKDF_Expand g hl prk info L"
proof -
  have "hkdf_T f prk info = hkdf_T g prk info" by (rule ext) (rule conjunct1 [OF hkdf_T_cong [of f prk g info, OF assms]])
  then show ?thesis by (simp only: HKDF_Expand_def)
qed

lemma hkdf_expand_spec:
  "hkdf_expand prk info n = (if n \<le> 255 * 32 \<and> length info \<le> 256
     then Some (HKDF_Expand (HMAC SHA256_spec 64) 32 (take 32 prk) info n) else None)"
  using HKDF_Expand_cong [of hmac_sha256 "take 32 prk" "HMAC SHA256_spec 64" info 32 n]
  by (auto simp: hkdf_expand_def expand_ok_def SHA256_DIGEST_def x256.loop_expand hmac_sha256_spec)

lemma hkdf_expand_384_spec:
  "hkdf_expand_384 prk info n = (if n \<le> 255 * 48 \<and> length info \<le> 256
     then Some (HKDF_Expand (HMAC SHA384_spec 128) 48 (take 48 prk) info n) else None)"
  using HKDF_Expand_cong [of hmac_sha384 "take 48 prk" "HMAC SHA384_spec 128" info 48 n]
  by (auto simp: hkdf_expand_384_def expand_ok_384_def SHA384_DIGEST_def x384.loop_expand hmac_sha384_spec)

lemma octets_1: "octets (Suc 0) n = [of_nat n]" "octets 2 n = [of_nat (n div 256), of_nat n]"
  by (simp_all add: octets_def upt_rec)

lemma build_label_spec: "build_label l n = HkdfLabel (hl_label l) (hl_ctx l) n" "build_label_384 l n = HkdfLabel (hl_label l) (hl_ctx l) n"
  by (simp_all add: build_label_def build_label_384_def HkdfLabel_def octets_1)

lemma length_HkdfLabel: "length (HkdfLabel label ctx n) = 10 + length label + length ctx"
  by (simp add: HkdfLabel_def ascii_def)

section \<open>The key schedule of RFC 8446 and RFC 9001\<close>

definition hash_len :: "u16 \<Rightarrow> nat" where
  "hash_len suite = (if suite = TLS_AES_256_GCM_SHA384 then 48 else 32)"

definition suite_H :: "u16 \<Rightarrow> bytes \<Rightarrow> bytes" where
  "suite_H suite = (if suite = TLS_AES_256_GCM_SHA384 then SHA384_spec else SHA256_spec)"

definition suite_HMAC :: "u16 \<Rightarrow> bytes \<Rightarrow> bytes \<Rightarrow> bytes" where
  "suite_HMAC suite = HMAC (suite_H suite) (if suite = TLS_AES_256_GCM_SHA384 then 128 else 64)"

definition Expand_Label :: "u16 \<Rightarrow> bytes \<Rightarrow> bytes \<Rightarrow> bytes \<Rightarrow> nat \<Rightarrow> bytes" where
  "Expand_Label suite secret label ctx n = HKDF_Expand (suite_HMAC suite) (hash_len suite) secret (HkdfLabel label ctx n) n"

definition Derive_Secret :: "u16 \<Rightarrow> bytes \<Rightarrow> string \<Rightarrow> bytes \<Rightarrow> bytes" where
  "Derive_Secret suite secret label messages = Expand_Label suite secret (ascii label) (suite_H suite messages) (hash_len suite)"

definition Handshake_Secret :: "u16 \<Rightarrow> bytes option \<Rightarrow> bytes \<Rightarrow> bytes" where
  "Handshake_Secret suite psk ecdhe =
     (let zero = replicate (hash_len suite) 0; early = suite_HMAC suite zero (case psk of Some p \<Rightarrow> p | None \<Rightarrow> zero)
      in suite_HMAC suite (Derive_Secret suite early ''derived'' []) ecdhe)"

definition Master_Secret :: "u16 \<Rightarrow> bytes \<Rightarrow> bytes" where
  "Master_Secret suite hs = suite_HMAC suite (Derive_Secret suite hs ''derived'' []) (replicate (hash_len suite) 0)"

definition quic_label :: "u32 \<Rightarrow> string \<Rightarrow> bytes" where
  "quic_label version name = ascii ((if version = VERSION_2 then ''quicv2 '' else ''quic '') @ name)"

definition packet_keys :: "u16 \<Rightarrow> u32 \<Rightarrow> bytes \<Rightarrow> initial_keys" where
  "packet_keys suite version secret =
     (let n = (if suite \<in> {TLS_AES_256_GCM_SHA384, TLS_CHACHA20_POLY1305_SHA256} then 32 else 16)
      in \<lparr>ik_key = Expand_Label suite secret (quic_label version ''key'') [] n @ replicate (32 - n) 0,
          ik_iv = Expand_Label suite secret (quic_label version ''iv'') [] 12,
          ik_hp = Expand_Label suite secret (quic_label version ''hp'') [] n @ replicate (32 - n) 0\<rparr>)"

subsection \<open>The derivations of the code\<close>

context hkdf_loop
begin

lemma length_HKDF_Expand: "length (HKDF_Expand mac hl prk info L) = L"
proof -
  have "L \<le> (L + hl - 1) div hl * hl"
    using hl div_mult_mod_eq [of "L + hl - 1" hl] mod_less_divisor [OF hl, of "L + hl - 1"] by linarith
  then show ?thesis unfolding HKDF_Expand_def length_take blocks_length by simp
qed

end

lemma th_len_hash_len: "th_len (tls_hash_of suite) = hash_len suite"
  by (simp add: tls_hash_of_def hash_len_def suitehash_sha256_def suitehash_sha384_def SHA256_DIGEST_def SHA384_DIGEST_def)

lemma th_mac_spec:
  assumes "length key < 2 ^ 60" and "length msg < 2 ^ 60"
  shows "th_mac (tls_hash_of suite) key msg = suite_HMAC suite key msg" "th_extract (tls_hash_of suite) key msg = suite_HMAC suite key msg"
  using assms by (simp_all add: tls_hash_of_def suite_HMAC_def suite_H_def suitehash_sha256_def suitehash_sha384_def hkdf_extract_def
      hkdf_extract_384_def hmac_sha256_spec hmac_sha384_spec)

lemma th_digest_spec: "length msg < 2 ^ 61 \<Longrightarrow> th_digest (tls_hash_of suite) msg = suite_H suite msg"
  by (simp add: tls_hash_of_def suite_H_def suitehash_sha256_def suitehash_sha384_def sha_once)

lemma th_lengths: "length (th_digest (tls_hash_of suite) msg) = hash_len suite" "length (th_mac (tls_hash_of suite) key msg) = hash_len suite"
  by (simp_all add: tls_hash_of_def hash_len_def suitehash_sha256_def suitehash_sha384_def wired_sha256_def sha384_def)

lemma length_suite_H: "length msg < 2 ^ 61 \<Longrightarrow> length (suite_H suite msg) = hash_len suite"
  using th_lengths(1) [of suite msg] by (simp only: th_digest_spec)

lemma length_suite_HMAC: "length key < 2 ^ 60 \<Longrightarrow> length msg < 2 ^ 60 \<Longrightarrow> length (suite_HMAC suite key msg) = hash_len suite"
  using th_lengths(2) [of suite key msg] by (simp only: th_mac_spec)

lemma th_expand_label_spec:
  assumes "length (hl_label l) \<le> 64" and "length (hl_ctx l) \<le> 64" and "n \<le> 8160"
  shows "th_expand_label (tls_hash_of suite) secret l n
    = Some (Expand_Label suite (take (hash_len suite) secret) (hl_label l) (hl_ctx l) n)"
  using assms length_HkdfLabel [of "hl_label l" "hl_ctx l" n]
  by (simp add: tls_hash_of_def hash_len_def suitehash_sha256_def suitehash_sha384_def hkdf_expand_label_def hkdf_expand_label_384_def
      hkdf_expand_spec hkdf_expand_384_spec build_label_spec Expand_Label_def suite_HMAC_def suite_H_def)

lemma length_Expand_Label:
  assumes "length label \<le> 64" and "length ctx \<le> 64" and "length secret = hash_len suite"
  shows "length (Expand_Label suite secret label ctx n) = n"
proof -
  have i: "length (HkdfLabel label ctx n) \<le> 256" using assms by (simp add: length_HkdfLabel)
  show ?thesis
  proof (cases "suite = TLS_AES_256_GCM_SHA384")
    case True
    have "HKDF_Expand hmac_sha384 48 secret (HkdfLabel label ctx n) n = HKDF_Expand (HMAC SHA384_spec 128) 48 secret (HkdfLabel label ctx n) n"
      by (rule HKDF_Expand_cong) (use assms i True in \<open>simp_all add: hmac_sha384_spec hash_len_def\<close>)
    then show ?thesis using True x384.length_HKDF_Expand [of secret "HkdfLabel label ctx n" n]
      by (simp add: Expand_Label_def suite_HMAC_def suite_H_def hash_len_def)
  next
    case False
    have "HKDF_Expand hmac_sha256 32 secret (HkdfLabel label ctx n) n = HKDF_Expand (HMAC SHA256_spec 64) 32 secret (HkdfLabel label ctx n) n"
      by (rule HKDF_Expand_cong) (use assms i False in \<open>simp_all add: hmac_sha256_spec hash_len_def\<close>)
    then show ?thesis using False x256.length_HKDF_Expand [of secret "HkdfLabel label ctx n" n]
      by (simp add: Expand_Label_def suite_HMAC_def suite_H_def hash_len_def)
  qed
qed

lemma hash_len_le: "hash_len suite \<le> 48" "0 < hash_len suite"
  by (simp_all add: hash_len_def)

lemma length_ascii [simp]: "length (ascii s) = length s"
  by (simp add: ascii_def)

lemma tls_derive_secret_spec:
  assumes "length label \<le> 64" and "length messages < 2 ^ 61"
  shows "tls_derive_secret \<lparr>di_secret = secret, di_label = ascii label, di_messages = messages, di_suite = suite\<rparr>
    = (True, Derive_Secret suite (take (hash_len suite) secret) label messages)"
  using assms hash_len_le [of suite]
  by (simp add: tls_derive_secret_def th_digest_spec th_len_hash_len th_expand_label_spec length_suite_H Derive_Secret_def Let_def)

lemma length_Derive_Secret:
  "length label \<le> 64 \<Longrightarrow> length messages < 2 ^ 61 \<Longrightarrow> length secret = hash_len suite
   \<Longrightarrow> length (Derive_Secret suite secret label messages) = hash_len suite"
  using hash_len_le [of suite] by (simp add: Derive_Secret_def length_Expand_Label length_suite_H)

lemma version_label_spec: "version_quic_label version (ascii name) = quic_label version name"
  "ilabel_build version (ascii name) = quic_label version name"
  by (simp_all add: version_quic_label_def ilabel_build_def version_label_prefix_def quic_label_def VERSION_1_def VERSION_2_def ascii_def)

lemma length_quic_label: "length (quic_label version name) \<le> 7 + length name"
  by (simp add: quic_label_def)

lemma suite_key_len:
  "resolved_key_len suite = (if suite \<in> {TLS_AES_256_GCM_SHA384, TLS_CHACHA20_POLY1305_SHA256} then 32 else 16)"
  "resolved_hp_len suite = resolved_key_len suite" "appkeys_key_len = resolved_key_len" "appkeys_hp_len = resolved_hp_len"
  by (auto simp: fun_eq_iff resolved_key_len_def resolved_hp_len_def appkeys_key_len_def appkeys_hp_len_def hp_key_len_def aead_key_len_def
      aead_params_tab_def suite_codes INITIAL_KEY_def INITIAL_HP_def)

lemma hs_field_spec:
  assumes "n \<le> 32" and "length name \<le> 57"
  shows "hs_field suite ts (version_quic_label version (ascii name)) n out
     = write_at out 0 (Expand_Label suite (take (hash_len suite) ts) (quic_label version name) [] n)"
  using assms length_quic_label [of version name] by (simp add: hs_field_def version_label_spec th_expand_label_spec)

lemma appkeys_field_eq: "appkeys_field suite ts version name n out = hs_field suite ts (version_quic_label version (ascii name)) n out"
  by (simp add: appkeys_field_def hs_field_def)

lemma write_at_tail:
  "length out = m \<Longrightarrow> length x = n \<Longrightarrow> n \<le> m \<Longrightarrow> write_at (write_at out 0 x) n (replicate (m - n) 0) = x @ replicate (m - n) 0"
  by (simp add: write_at_eq)

lemma write_at_whole: "length out = length x \<Longrightarrow> write_at out 0 x = x"
  by (simp add: write_at_eq)

lemma protection_keys_spec:
  assumes "keys_ok out" and "hash_len suite \<le> length ts"
  shows "protection_keys_suite ts suite version out = packet_keys suite version (take (hash_len suite) ts)"
proof -
  let ?n = "resolved_key_len suite" and ?e = "\<lambda>name n. Expand_Label suite (take (hash_len suite) ts) (quic_label version name) [] n"
  have n: "?n \<le> 32" by (simp add: suite_key_len)
  have l: "length (?e name n) = n" if "length name \<le> 3" for name n
    by (rule length_Expand_Label) (use that length_quic_label [of version name] assms in simp_all)
  have f: "hs_field suite ts (version_quic_label version (ascii name)) n o' = write_at o' 0 (?e name n)" if "n \<le> 32" "length name \<le> 3" for name n o'
    using hs_field_spec [OF that(1), of name suite ts version o'] that(2) by simp
  have "protection_keys_suite ts suite version out
      = \<lparr>ik_key = ?e ''key'' ?n @ replicate (32 - ?n) 0, ik_iv = ?e ''iv'' 12, ik_hp = ?e ''hp'' ?n @ replicate (32 - ?n) 0\<rparr>"
    using assms(1) n
    by (simp add: protection_keys_suite_def protection_keys_zero_tail_def f l suite_key_len(2) keys_ok_def AEAD_KEY_MAX_def INITIAL_IV_def
        write_at_tail write_at_whole Let_def)
  then show ?thesis by (simp add: packet_keys_def suite_key_len(1) Let_def)
qed

lemma keys_ok_packet_keys: "length secret = hash_len suite \<Longrightarrow> keys_ok (packet_keys suite version secret)"
  using length_quic_label [of version "''key''"] length_quic_label [of version "''iv''"] length_quic_label [of version "''hp''"]
  by (simp add: keys_ok_def packet_keys_def length_Expand_Label Let_def)

lemma tls_handshake_secret_spec:
  assumes "case psk of Some p \<Rightarrow> length p = hash_len suite | None \<Rightarrow> True" and "length ecdhe = 32"
  shows "tls_handshake_secret_psk_suite suite psk ecdhe = Handshake_Secret suite psk ecdhe"
proof -
  let ?zero = "replicate (hash_len suite) 0" and ?early = "sched_early_secret suite psk"
  have z: "min (hash_len suite) TLS_HASH_MAX = hash_len suite"
    using hash_len_le [of suite] by (simp add: TLS_HASH_MAX_def HKDF_PRK_384_def SHA384_DIGEST_def)
  have p: "length (case psk of Some p \<Rightarrow> p | None \<Rightarrow> ?zero) = hash_len suite" using assms(1) by (auto split: option.splits)
  have e: "?early = suite_HMAC suite ?zero (case psk of Some p \<Rightarrow> p | None \<Rightarrow> ?zero)"
    using p hash_len_le [of suite] assms(1)
    by (auto simp: sched_early_secret_def th_len_hash_len z th_mac_spec Let_def split: option.splits)
  have "length ?early = hash_len suite" unfolding e using p hash_len_le [of suite] by (intro length_suite_HMAC) simp_all
  then show ?thesis using assms(2) hash_len_le [of suite]
    by (simp add: tls_handshake_secret_psk_suite_def handshake_secret_from_early_def derive_in_def tls_derive_secret_spec
        length_Derive_Secret th_len_hash_len th_mac_spec Handshake_Secret_def e Let_def)
qed

lemma length_Handshake_Secret:
  assumes "case psk of Some p \<Rightarrow> length p = hash_len suite | None \<Rightarrow> True" and "length ecdhe = 32"
  shows "length (Handshake_Secret suite psk ecdhe) = hash_len suite"
proof -
  have "length (Derive_Secret suite (suite_HMAC suite (replicate (hash_len suite) 0) (case psk of Some p \<Rightarrow> p | None \<Rightarrow> replicate (hash_len suite) 0)) ''derived'' [])
      = hash_len suite"
    using assms(1) hash_len_le [of suite] by (intro length_Derive_Secret length_suite_HMAC) (auto split: option.splits)
  then show ?thesis using assms(2) hash_len_le [of suite] by (simp add: Handshake_Secret_def length_suite_HMAC Let_def)
qed

lemma tls_master_secret_spec:
  assumes "length hs = hash_len suite"
  shows "tls_master_secret_suite suite hs = Master_Secret suite hs" "length (Master_Secret suite hs) = hash_len suite"
  using assms hash_len_le [of suite]
  by (simp_all add: tls_master_secret_suite_def tls_derive_secret_spec length_Derive_Secret th_len_hash_len th_mac_spec Master_Secret_def
      length_suite_HMAC TLS_HASH_MAX_def HKDF_PRK_384_def SHA384_DIGEST_def Let_def)

lemma tls_handshake_keys_spec:
  assumes "keys_ok out" and "length hs = hash_len suite" and "length tr < 2 ^ 61"
  shows "tls_handshake_keys_suite \<lparr>hk_hs_secret = hs, hk_transcript = tr, hk_is_server = srv, hk_version = v\<rparr> suite out
    = packet_keys suite v (Derive_Secret suite hs (if srv then ''s hs traffic'' else ''c hs traffic'') tr)"
  using assms by (simp add: tls_handshake_keys_suite_def derive_in_def tls_derive_secret_spec protection_keys_spec length_Derive_Secret)

lemma tls_app_keys_eq:
  "tls_app_keys_suite i suite out = (let (_, ts) = tls_derive_secret
      \<lparr>di_secret = ak_master i, di_label = ascii (if ak_is_server i then ''s ap traffic'' else ''c ap traffic''), di_messages = ak_transcript i, di_suite = suite\<rparr>
    in protection_keys_suite ts suite (ak_version i) out)"
  by (simp add: tls_app_keys_suite_def protection_keys_suite_def appkeys_zero_tail_def protection_keys_zero_tail_def suite_key_len(3,4)
      appkeys_field_eq suite_key_len(1,2) INITIAL_IV_def Let_def split_beta)

lemma tls_app_keys_spec:
  assumes "keys_ok out" and "hash_len suite \<le> length ms" and "length tr < 2 ^ 61"
  shows "tls_app_keys_suite \<lparr>ak_master = ms, ak_transcript = tr, ak_is_server = srv, ak_version = v\<rparr> suite out
    = packet_keys suite v (Derive_Secret suite (take (hash_len suite) ms) (if srv then ''s ap traffic'' else ''c ap traffic'') tr)"
  using assms by (simp add: tls_app_keys_eq tls_derive_secret_spec protection_keys_spec length_Derive_Secret)

section \<open>The key schedule as a state machine\<close>

text \<open>
  The operations on a key schedule, and the abstract schedule that only remembers what was fed in: the
  accepted pre-shared key, shared secret and transcripts.
\<close>

datatype ks_op = Set_Suite u16 | Set_Version u32 | Adv_Handshake bytes bytes | Adv_Handshake_Psk bytes bytes bytes
  | Adv_Master bytes | Discard_Handshake | Wipe

fun keysched_op :: "ks_op \<Rightarrow> keysched \<Rightarrow> keysched" where
  "keysched_op (Set_Suite s) st = keysched_set_suite st s"
| "keysched_op (Set_Version v) st = keysched_set_version st v"
| "keysched_op (Adv_Handshake e tr) st = snd (keysched_advance_handshake st e tr)"
| "keysched_op (Adv_Handshake_Psk p e tr) st = snd (keysched_advance_handshake_psk st p e tr)"
| "keysched_op (Adv_Master tr) st = snd (keysched_advance_master st tr)"
| "keysched_op Discard_Handshake st = keysched_discard_handshake st"
| "keysched_op Wipe st = keysched_wipe st"

record ks_abs =
  ka_suite :: u16
  ka_version :: u32
  ka_hs :: "(bytes option \<times> bytes \<times> bytes) option"
  ka_ap :: "bytes option"
  ka_gone :: bool

definition ks_start :: ks_abs where
  "ks_start = \<lparr>ka_suite = TLS_AES_128_GCM_SHA256, ka_version = VERSION_1, ka_hs = None, ka_ap = None, ka_gone = False\<rparr>"

fun ks_next :: "ks_op \<Rightarrow> ks_abs \<Rightarrow> ks_abs" where
  "ks_next (Set_Suite s) a = a\<lparr>ka_suite := s\<rparr>"
| "ks_next (Set_Version v) a = a\<lparr>ka_version := v\<rparr>"
| "ks_next (Adv_Handshake e tr) a = (if ka_hs a = None \<and> length e = 32 then a\<lparr>ka_hs := Some (None, e, tr)\<rparr> else a)"
| "ks_next (Adv_Handshake_Psk p e tr) a = (if ka_hs a = None \<and> length e = 32 then a\<lparr>ka_hs := Some (Some p, e, tr)\<rparr> else a)"
| "ks_next (Adv_Master tr) a = (if ka_hs a \<noteq> None \<and> ka_ap a = None then a\<lparr>ka_ap := Some tr\<rparr> else a)"
| "ks_next Discard_Handshake a = a\<lparr>ka_gone := True\<rparr>"
| "ks_next Wipe a = a\<lparr>ka_hs := None, ka_ap := None, ka_gone := False\<rparr>"

text \<open>
  What the callers keep to: suite and version are set before the handshake keys are derived, a pre-shared
  key has the length of the hash, and no transcript has \<open>2^60\<close> bytes.
\<close>

fun ks_allowed :: "ks_abs \<Rightarrow> ks_op \<Rightarrow> bool" where
  "ks_allowed a (Set_Suite s) \<longleftrightarrow> ka_hs a = None"
| "ks_allowed a (Set_Version v) \<longleftrightarrow> ka_hs a = None"
| "ks_allowed a (Adv_Handshake e tr) \<longleftrightarrow> length tr < 2 ^ 60"
| "ks_allowed a (Adv_Handshake_Psk p e tr) \<longleftrightarrow> length p = hash_len (ka_suite a) \<and> length tr < 2 ^ 60"
| "ks_allowed a (Adv_Master tr) \<longleftrightarrow> length tr < 2 ^ 60"
| "ks_allowed a Discard_Handshake \<longleftrightarrow> True"
| "ks_allowed a Wipe \<longleftrightarrow> True"

fun ks_run_allowed :: "ks_abs \<Rightarrow> ks_op list \<Rightarrow> bool" where
  "ks_run_allowed a [] \<longleftrightarrow> True"
| "ks_run_allowed a (x # xs) \<longleftrightarrow> ks_allowed a x \<and> ks_run_allowed (ks_next x a) xs"

definition ka_secret :: "ks_abs \<Rightarrow> string \<Rightarrow> bytes option" where
  "ka_secret a label = (case (ka_hs a, ka_ap a) of
     (Some (psk, e, tr), Some tr') \<Rightarrow> Some (Derive_Secret (ka_suite a) (Master_Secret (ka_suite a) (Handshake_Secret (ka_suite a) psk e)) label tr')
   | _ \<Rightarrow> None)"

definition ka_keys :: "ks_abs \<Rightarrow> nat \<Rightarrow> initial_keys option" where
  "ka_keys a which =
     (if which \<le> KS_SERVER_HS
      then (case ka_hs a of
          Some (psk, e, tr) \<Rightarrow> if ka_gone a then None
            else Some (packet_keys (ka_suite a) (ka_version a) (Derive_Secret (ka_suite a) (Handshake_Secret (ka_suite a) psk e)
              (if which = KS_SERVER_HS then ''s hs traffic'' else ''c hs traffic'') tr))
        | None \<Rightarrow> None)
      else map_option (packet_keys (ka_suite a) (ka_version a))
        (ka_secret a (if which = KS_SERVER_AP then ''s ap traffic'' else ''c ap traffic'')))"

definition ks_ok :: "keysched \<Rightarrow> bool" where
  "ks_ok st \<longleftrightarrow> length (ks_master st) = 48 \<and> length (ks_keys st) = 4 \<and> list_all keys_ok (ks_keys st)
     \<and> length (ks_client_ap_secret st) = 48 \<and> length (ks_server_ap_secret st) = 48 \<and> length (ks_exporter_secret st) = 48"

definition hs_ok :: "ks_abs \<Rightarrow> bool" where
  "hs_ok a \<longleftrightarrow> (case ka_hs a of None \<Rightarrow> True | Some (psk, e, tr) \<Rightarrow>
     (case psk of Some p \<Rightarrow> length p = hash_len (ka_suite a) | None \<Rightarrow> True) \<and> length e = 32 \<and> length tr < 2 ^ 60)"

definition ks_rel :: "keysched \<Rightarrow> ks_abs \<Rightarrow> bool" where
  "ks_rel st a \<longleftrightarrow> ks_ok st \<and> hs_ok a \<and> ks_suite st = ka_suite a \<and> ks_version st = ka_version a \<and> ks_hs_gone st = ka_gone a
     \<and> ks_stage st = (if ka_hs a = None then 0 else if ka_ap a = None then 1 else 2)
     \<and> (ka_hs a = None \<longrightarrow> ka_ap a = None)
     \<and> (\<forall>psk e tr. ka_hs a = Some (psk, e, tr) \<longrightarrow>
          take (hash_len (ka_suite a)) (ks_master st) = Master_Secret (ka_suite a) (Handshake_Secret (ka_suite a) psk e))
     \<and> (\<forall>which < 4. keysched_get st which = ka_keys a which)
     \<and> map_option (take (hash_len (ka_suite a))) (keysched_client_ap_secret st) = ka_secret a ''c ap traffic''
     \<and> map_option (take (hash_len (ka_suite a))) (keysched_server_ap_secret st) = ka_secret a ''s ap traffic''
     \<and> map_option (take (hash_len (ka_suite a))) (keysched_exporter_secret st) = ka_secret a ''exp master''"

lemmas ks_which = KS_CLIENT_HS_def KS_SERVER_HS_def KS_CLIENT_AP_def KS_SERVER_AP_def
lemmas ks_gets = keysched_get_def keysched_have_def keysched_client_ap_secret_def keysched_server_ap_secret_def keysched_exporter_secret_def

lemma hs_ok_same: "hs_ok a \<Longrightarrow> ka_hs b = ka_hs a \<Longrightarrow> ka_suite b = ka_suite a \<Longrightarrow> hs_ok b" "ka_hs b = None \<Longrightarrow> hs_ok b"
  by (auto simp: hs_ok_def split: option.splits)

lemma ka_secret_same:
  "ka_hs b = ka_hs a \<Longrightarrow> ka_ap b = ka_ap a \<Longrightarrow> ka_suite b = ka_suite a \<Longrightarrow> ka_secret b label = ka_secret a label"
  "ka_hs b = None \<Longrightarrow> ka_secret b label = None" "ka_hs b = None \<Longrightarrow> ka_keys b w = None"
  by (auto simp: ka_secret_def ka_keys_def split: option.splits)

lemma which_cases: "(\<forall>w < 4. P w) \<longleftrightarrow> P 0 \<and> P 1 \<and> P 2 \<and> P (3 :: nat)"
  by (auto simp: less_Suc_eq eval_nat_numeral)

lemma ks_rel_install:
  assumes r: "ks_rel st a" and hs: "ka_hs a = None" and e: "length e = 32" and tr: "length tr < 2 ^ 60"
    and psk: "case psk of Some p \<Rightarrow> length p = hash_len (ka_suite a) | None \<Rightarrow> True"
  shows "ks_rel (install_handshake_secret st (Handshake_Secret (ka_suite a) psk e) tr) (a\<lparr>ka_hs := Some (psk, e, tr)\<rparr>)"
proof -
  let ?hs = "Handshake_Secret (ka_suite a) psk e" and ?st = "install_handshake_secret st (Handshake_Secret (ka_suite a) psk e) tr"
  have l: "length ?hs = hash_len (ka_suite a)" by (rule length_Handshake_Secret [OF psk e])
  have ok: "ks_ok st" and s: "ks_suite st = ka_suite a" "ks_version st = ka_version a" and ap: "ka_ap a = None" using r hs by (auto simp: ks_rel_def)
  have k: "keys_ok (ks_keys st ! 0)" "keys_ok (ks_keys st ! 1)" "length (ks_keys st) = 4" using ok by (auto simp: ks_ok_def list_all_length)
  let ?k = "\<lambda>lab. packet_keys (ka_suite a) (ka_version a) (Derive_Secret (ka_suite a) ?hs lab tr)"
  have keys: "ks_keys ?st = (ks_keys st)[0 := ?k ''c hs traffic'', 1 := ?k ''s hs traffic'']"
    using k tr by (simp add: install_handshake_secret_def ks_which tls_handshake_keys_spec l s Let_def)
  have m: "ks_master ?st = write_at (ks_master st) 0 (Master_Secret (ka_suite a) ?hs)"
    by (simp add: install_handshake_secret_def tls_master_secret_spec l s Let_def)
  have rest: "ks_stage ?st = 1" "ks_suite ?st = ka_suite a" "ks_version ?st = ka_version a" "ks_hs_gone ?st = ks_hs_gone st"
    "ks_client_ap_secret ?st = ks_client_ap_secret st" "ks_server_ap_secret ?st = ks_server_ap_secret st" "ks_exporter_secret ?st = ks_exporter_secret st"
    by (simp_all add: install_handshake_secret_def s Let_def)
  have "keys_ok (?k lab)" if "length lab \<le> 64" for lab using that tr l by (intro keys_ok_packet_keys length_Derive_Secret) simp_all
  then have "ks_ok ?st" using ok by (auto simp: ks_ok_def keys m rest list_all_length nth_list_update)
  moreover have "take (hash_len (ka_suite a)) (ks_master ?st) = Master_Secret (ka_suite a) ?hs"
    using ok hash_len_le [of "ka_suite a"] by (simp add: m write_at_eq ks_ok_def tls_master_secret_spec l)
  moreover have "hs_ok (a\<lparr>ka_hs := Some (psk, e, tr)\<rparr>)" using psk e tr by (simp add: hs_ok_def split: option.splits)
  ultimately show ?thesis
    using r hs ap k
    by (auto simp: ks_rel_def rest which_cases ka_keys_def ka_secret_def ks_gets keys ks_which)
qed


lemma ks_rel_master:
  assumes r: "ks_rel st a" and hs: "ka_hs a = Some (psk, e, tr)" and ap: "ka_ap a = None" and tr': "length tr' < 2 ^ 60"
  shows "ks_rel (snd (keysched_advance_master st tr')) (a\<lparr>ka_ap := Some tr'\<rparr>)"
proof -
  let ?ms = "Master_Secret (ka_suite a) (Handshake_Secret (ka_suite a) psk e)" and ?st = "snd (keysched_advance_master st tr')"
  let ?hl = "hash_len (ka_suite a)"
  have ok: "ks_ok st" and s: "ks_suite st = ka_suite a" "ks_version st = ka_version a" "ks_stage st = 1"
    and m: "take ?hl (ks_master st) = ?ms" using r hs ap by (auto simp: ks_rel_def)
  have "hs_ok a" using r by (simp add: ks_rel_def)
  then have ml: "length ?ms = ?hl" using hs by (intro tls_master_secret_spec length_Handshake_Secret) (simp_all add: hs_ok_def)
  have ms48: "?hl \<le> length (ks_master st)" using ok hash_len_le [of "ka_suite a"] by (simp add: ks_ok_def)
  have k: "keys_ok (ks_keys st ! 2)" "keys_ok (ks_keys st ! 3)" "length (ks_keys st) = 4" using ok by (auto simp: ks_ok_def list_all_length)
  let ?s = "\<lambda>lab. Derive_Secret (ka_suite a) ?ms lab tr'"
  let ?k = "\<lambda>lab. packet_keys (ka_suite a) (ka_version a) (?s lab)"
  have sl: "length (?s lab) = ?hl" if "length lab \<le> 64" for lab using that tr' ml by (intro length_Derive_Secret) simp_all
  have st: "?st = st\<lparr>ks_keys := (ks_keys st)[2 := ?k ''c ap traffic'', 3 := ?k ''s ap traffic''],
      ks_client_ap_secret := write_at (ks_client_ap_secret st) 0 (?s ''c ap traffic''),
      ks_server_ap_secret := write_at (ks_server_ap_secret st) 0 (?s ''s ap traffic''),
      ks_exporter_secret := write_at (ks_exporter_secret st) 0 (?s ''exp master''), ks_stage := 2\<rparr>"
    using k tr' ms48
    by (simp add: keysched_advance_master_def save_client_ap_secret_def save_server_ap_secret_def tls_exporter_master_secret_suite_def
        ks_which tls_app_keys_spec tls_derive_secret_spec s m Let_def)
  have kok: "keys_ok (?k lab)" if "length lab \<le> 64" for lab using that sl by (intro keys_ok_packet_keys) simp_all
  have t: "take ?hl (write_at x 0 (?s lab)) = ?s lab" if "length x = 48" "length lab \<le> 64" for x lab
    using that sl [of lab] hash_len_le [of "ka_suite a"] by (simp add: write_at_eq)
  have "ks_ok ?st" using ok kok by (auto simp: ks_ok_def st list_all_length nth_list_update)
  moreover have "hs_ok (a\<lparr>ka_ap := Some tr'\<rparr>)" using \<open>hs_ok a\<close> by (rule hs_ok_same) simp_all
  ultimately show ?thesis using r hs ap k t ok
    by (auto simp: ks_rel_def st which_cases ka_keys_def ka_secret_def ks_gets ks_which ks_ok_def)
qed

lemma zero_keys_ok: "keys_ok zero_keys"
  by (simp add: zero_keys_def keys_ok_def AEAD_KEY_MAX_def INITIAL_IV_def)

lemma ks_rel_step:
  assumes r: "ks_rel st a" and ok: "ks_allowed a x"
  shows "ks_rel (keysched_op x st) (ks_next x a)"
proof (cases x)
  case (Set_Suite s)
  then show ?thesis using r ok by (simp add: ks_rel_def keysched_set_suite_def hs_ok_same(2) ks_ok_def ka_secret_same(2,3) ks_gets)
next
  case (Set_Version v)
  then show ?thesis using r ok by (simp add: ks_rel_def keysched_set_version_def hs_ok_same(2) ks_ok_def ka_secret_same(2,3) ks_gets)
next
  case (Adv_Handshake e tr)
  have "ecdhe_ok (ks_stage st) (length e) \<longleftrightarrow> ka_hs a = None \<and> length e = 32" using r by (auto simp: ks_rel_def ecdhe_ok_def)
  moreover have "ks_suite st = ka_suite a" using r by (simp add: ks_rel_def)
  ultimately show ?thesis using Adv_Handshake r ok ks_rel_install [OF r, of e tr None]
    by (simp add: keysched_advance_handshake_def tls_handshake_secret_suite_def tls_handshake_secret_spec)
next
  case (Adv_Handshake_Psk p e tr)
  have "ecdhe_ok (ks_stage st) (length e) \<longleftrightarrow> ka_hs a = None \<and> length e = 32" using r by (auto simp: ks_rel_def ecdhe_ok_def)
  moreover have "ks_suite st = ka_suite a" using r by (simp add: ks_rel_def)
  ultimately show ?thesis using Adv_Handshake_Psk r ok ks_rel_install [OF r, of e tr "Some p"]
    by (simp add: keysched_advance_handshake_psk_def tls_handshake_secret_spec)
next
  case (Adv_Master tr)
  show ?thesis
  proof (cases "ka_hs a \<noteq> None \<and> ka_ap a = None")
    case True
    then show ?thesis using Adv_Master r ok ks_rel_master [OF r] by auto
  next
    case False
    then have "ks_stage st \<noteq> 1" using r by (auto simp: ks_rel_def)
    then show ?thesis using False Adv_Master r by (auto simp: keysched_advance_master_def)
  qed
next
  case Discard_Handshake
  let ?st = "keysched_discard_handshake st" and ?a = "a\<lparr>ka_gone := True\<rparr>"
  have "ks_ok st" using r by (simp add: ks_rel_def)
  then have "ks_ok ?st" using zero_keys_ok
    by (simp add: ks_ok_def keysched_discard_handshake_def list_all_length nth_list_update ks_which)
  moreover have "hs_ok ?a" using r hs_ok_same(1) [of a ?a] by (simp add: ks_rel_def)
  moreover have "keysched_get ?st w = ka_keys ?a w" if "w < 4" for w
  proof (cases "w \<le> KS_SERVER_HS")
    case True
    then show ?thesis by (auto simp: ks_gets ka_keys_def keysched_discard_handshake_def split: option.splits)
  next
    case False
    then have "keysched_get ?st w = keysched_get st w" "ka_keys ?a w = ka_keys a w"
      using ka_secret_same(1) [of ?a a] by (simp_all add: ks_gets ka_keys_def keysched_discard_handshake_def ks_which)
    then show ?thesis using r that by (simp add: ks_rel_def)
  qed
  moreover have "keysched_client_ap_secret ?st = keysched_client_ap_secret st" "keysched_server_ap_secret ?st = keysched_server_ap_secret st"
    "keysched_exporter_secret ?st = keysched_exporter_secret st" "ks_suite ?st = ks_suite st" "ks_version ?st = ks_version st"
    "ks_hs_gone ?st" "ks_stage ?st = ks_stage st" "ks_master ?st = ks_master st"
    by (simp_all add: ks_gets keysched_discard_handshake_def)
  ultimately show ?thesis using Discard_Handshake r ka_secret_same(1) [of ?a a] by (simp add: ks_rel_def)
next
  case Wipe
  then show ?thesis using r
    by (simp add: ks_rel_def keysched_wipe_def hs_ok_same(2) ks_ok_def ka_secret_same(2,3) ks_gets
        zero_keys_ok TLS_HASH_MAX_def HKDF_PRK_384_def SHA384_DIGEST_def list_all_length)
qed

lemma ks_rel_run:
  "ks_rel st a \<Longrightarrow> ks_run_allowed a xs \<Longrightarrow> ks_rel (fold keysched_op xs st) (fold ks_next xs a)"
  by (induction xs arbitrary: st a) (simp_all add: ks_rel_step)

lemma ks_rel_init: "ks_ok st \<Longrightarrow> ks_rel (keysched_init st) ks_start"
  by (simp add: ks_rel_def keysched_init_def ks_start_def ks_ok_def hs_ok_def ka_keys_def ka_secret_def ks_gets)

text \<open>
  C10. The key schedule derives the keys of RFC 8446 section 7.1 and RFC 9001 section 5.1. Through any sequence of
  operations, out-of-order ones included, the keys of each direction and level, the application traffic
  secrets and the exporter secret that can be read are those the RFCs define from the accepted pre-shared
  key, shared secret and transcripts, for SHA-256 and SHA-384 suites and versions 1 and 2, and none can be
  read before its stage, after the Handshake keys were discarded or after a wipe.
\<close>

theorem keysched_refines:
  assumes "ks_ok st" and "ks_run_allowed ks_start xs" and "which < 4"
  defines "st' \<equiv> fold keysched_op xs (keysched_init st)" and "a \<equiv> fold ks_next xs ks_start"
  shows "keysched_get st' which = ka_keys a which
    \<and> map_option (take (hash_len (ka_suite a))) (keysched_client_ap_secret st') = ka_secret a ''c ap traffic''
    \<and> map_option (take (hash_len (ka_suite a))) (keysched_server_ap_secret st') = ka_secret a ''s ap traffic''
    \<and> map_option (take (hash_len (ka_suite a))) (keysched_exporter_secret st') = ka_secret a ''exp master''"
  using ks_rel_run [OF ks_rel_init [OF assms(1)] assms(2)] assms(3) unfolding st'_def a_def ks_rel_def by blast

definition example_sched :: keysched where
  "example_sched = keysched_wipe \<lparr>ks_stage = 0, ks_master = [], ks_keys = [], ks_client_ap_secret = [], ks_server_ap_secret = [],
     ks_exporter_secret = [], ks_suite = 0, ks_version = 0, ks_hs_gone = True\<rparr>"

definition example_ops :: "ks_op list" where
  "example_ops = [Set_Suite TLS_AES_256_GCM_SHA384, Adv_Master [9], Adv_Handshake (replicate 32 7) [1, 2], Adv_Handshake (replicate 32 8) [3],
     Adv_Master [1, 2, 3], Discard_Handshake]"

theorem keysched_refines_witness:
  "keysched_get (fold keysched_op example_ops (keysched_init example_sched)) KS_SERVER_AP
     = Some (packet_keys TLS_AES_256_GCM_SHA384 VERSION_1 (Derive_Secret TLS_AES_256_GCM_SHA384
         (Master_Secret TLS_AES_256_GCM_SHA384 (Handshake_Secret TLS_AES_256_GCM_SHA384 None (replicate 32 7))) ''s ap traffic'' [1, 2, 3]))
   \<and> keysched_get (fold keysched_op example_ops (keysched_init example_sched)) KS_CLIENT_HS = None"
proof -
  have ok: "ks_ok example_sched"
    by (simp add: example_sched_def keysched_wipe_def ks_ok_def zero_keys_def keys_ok_def AEAD_KEY_MAX_def INITIAL_IV_def TLS_HASH_MAX_def
        HKDF_PRK_384_def SHA384_DIGEST_def list_all_length)
  have run: "ks_run_allowed ks_start example_ops" by (simp add: example_ops_def ks_start_def)
  have a: "fold ks_next example_ops ks_start = \<lparr>ka_suite = TLS_AES_256_GCM_SHA384, ka_version = VERSION_1,
      ka_hs = Some (None, replicate 32 7, [1, 2]), ka_ap = Some [1, 2, 3], ka_gone = True\<rparr>"
    by (simp add: example_ops_def ks_start_def)
  show ?thesis
    using keysched_refines [OF ok run, of KS_SERVER_AP] keysched_refines [OF ok run, of KS_CLIENT_HS]
    unfolding a by (simp add: ks_which ka_keys_def ka_secret_def)
qed

section \<open>HKDF, the transcript, Finished and the Initial keys\<close>

text \<open>
  C14. HMAC and HKDF are those of RFC 2104, RFC 5869 and RFC 8446. For both hash functions \<open>hkdf_expand\<close> accepts
  exactly the lengths HKDF-Expand defines with at most 256 bytes of info and returns its output,
  \<open>hkdf_expand_label\<close> returns HKDF-Expand-Label for labels and contexts of up to 64 bytes and refuses others,
  and the MAC is HMAC for messages and keys of fewer than \<open>2^60\<close> bytes.
\<close>

theorem hkdf_exact:
  "hkdf_expand prk info n = (if n \<le> 255 * 32 \<and> length info \<le> 256
     then Some (HKDF_Expand (HMAC SHA256_spec 64) 32 (take 32 prk) info n) else None)
   \<and> hkdf_expand_384 prk info n = (if n \<le> 255 * 48 \<and> length info \<le> 256
     then Some (HKDF_Expand (HMAC SHA384_spec 128) 48 (take 48 prk) info n) else None)
   \<and> hkdf_expand_label prk l n = (if length (hl_label l) \<le> 64 \<and> length (hl_ctx l) \<le> 64
     then hkdf_expand prk (HkdfLabel (hl_label l) (hl_ctx l) n) n else None)
   \<and> hkdf_expand_label_384 prk l n = (if length (hl_label l) \<le> 64 \<and> length (hl_ctx l) \<le> 64
     then hkdf_expand_384 prk (HkdfLabel (hl_label l) (hl_ctx l) n) n else None)
   \<and> (length key < 2 ^ 60 \<and> length msg < 2 ^ 60 \<longrightarrow>
       hmac_sha256 key msg = HMAC SHA256_spec 64 key msg \<and> hmac_sha384 key msg = HMAC SHA384_spec 128 key msg
       \<and> hmac_sha512 key msg = HMAC SHA512_spec 128 key msg)"
  by (auto simp: hkdf_expand_spec hkdf_expand_384_spec hkdf_expand_label_def hkdf_expand_label_384_def build_label_spec
      hmac_sha256_spec hmac_sha384_spec)

theorem hkdf_exact_witness:
  "hmac_sha256 [1, 2] [3] = HMAC SHA256_spec 64 [1, 2] [3]
   \<and> hkdf_expand (replicate 32 1) [2, 3] 42 = Some (HKDF_Expand (HMAC SHA256_spec 64) 32 (replicate 32 1) [2, 3] 42)"
  using hkdf_exact [of "replicate 32 1" "[2, 3]" 42 undefined "[1, 2]" "[3]"] by simp

lemma transcript_run:
  "tr_h (fold (\<lambda>m t. transcript_add t m) msgs t) = fold (\<lambda>m s. sha256_update s m) msgs (tr_h t)"
  "tr_h384 (fold (\<lambda>m t. transcript_add t m) msgs t) = fold (\<lambda>m s. sha512_update s m) msgs (tr_h384 t)"
  by (induction msgs arbitrary: t) (simp_all add: transcript_add_def)

lemma transcript_hash_spec:
  "length (concat msgs) < 2 ^ 61 \<Longrightarrow>
   transcript_hash_suite (fold (\<lambda>m t. transcript_add t m) msgs transcript_init) suite = suite_H suite (concat msgs)"
  by (simp add: transcript_hash_suite_def transcript_hash384_def transcript_hash_def transcript_run transcript_init_def sha256_stream
      sha512_stream suite_H_def)

lemma finished_spec:
  assumes "length stack = 48" and "hash_len suite \<le> length base_key" and "length th = hash_len suite"
  shows "tls_finished_verify_data_suite stack suite base_key th
    = suite_HMAC suite (Expand_Label suite (take (hash_len suite) base_key) (ascii ''finished'') [] (hash_len suite)) th"
  using assms hash_len_le [of suite]
  by (simp add: tls_finished_verify_data_suite_def th_len_hash_len th_expand_label_spec th_mac_spec length_Expand_Label write_at_eq Let_def)

lemma length_finished_key:
  "hash_len suite \<le> length base_key \<Longrightarrow>
   length (Expand_Label suite (take (hash_len suite) base_key) (ascii ''finished'') [] (hash_len suite)) = hash_len suite"
  by (simp add: length_Expand_Label)

text \<open>
  C12. A Finished message is accepted exactly when it is the MAC of the transcript under the peer's finished key.
  The running transcript hash of the messages, in whatever pieces they were added, is the hash of their
  concatenation, and the check compares all of the received bytes with \<open>HMAC(finished_key, transcript hash)\<close>
  of RFC 8446 section 4.4.4; the binder of a pre-shared key is checked in the same way.
\<close>

theorem finished_exact:
  assumes "length stack = 48" and "length base_key = hash_len suite" and "length received = hash_len suite"
    and "length psk = hash_len suite" and "length (concat msgs) < 2 ^ 60"
  defines "tr \<equiv> fold (\<lambda>m t. transcript_add t m) msgs transcript_init"
    and "verify \<equiv> \<lambda>key. suite_HMAC suite (Expand_Label suite key (ascii ''finished'') [] (hash_len suite)) (suite_H suite (concat msgs))"
  shows "(tls_finished_check_suite stack suite base_key (transcript_hash_suite tr suite) received \<longleftrightarrow> received = verify base_key)
    \<and> (tls_binder_verify_suite stack suite psk (concat msgs) received \<longleftrightarrow>
        received = verify (Derive_Secret suite (suite_HMAC suite (replicate (hash_len suite) 0) psk) ''res binder'' []))"
proof
  have th: "transcript_hash_suite tr suite = suite_H suite (concat msgs)" unfolding tr_def using assms(5) by (simp add: transcript_hash_spec)
  have l: "length (suite_H suite (concat msgs)) = hash_len suite" using assms(5) by (simp add: length_suite_H)
  have v: "length (verify key) = hash_len suite" if "length key = hash_len suite" for key
    unfolding verify_def using that l hash_len_le [of suite] by (intro length_suite_HMAC) (simp_all add: length_Expand_Label)
  have ct: "ct_diffn (verify key) received (hash_len suite) = 0 \<longleftrightarrow> received = verify key" if "length key = hash_len suite" for key
    using ct_diffn_0 [of "hash_len suite" "verify key" received] v [OF that] assms(3) by auto
  show "tls_finished_check_suite stack suite base_key (transcript_hash_suite tr suite) received \<longleftrightarrow> received = verify base_key"
    using ct [of base_key] assms(1,2) l by (simp add: tls_finished_check_suite_def th finished_spec th_len_hash_len verify_def)
  define bk where "bk = Derive_Secret suite (suite_HMAC suite (replicate (hash_len suite) 0) psk) ''res binder'' []"
  have h: "length (suite_HMAC suite (replicate (hash_len suite) 0) psk) = hash_len suite"
    using assms(4) hash_len_le [of suite] by (intro length_suite_HMAC) simp_all
  then have bl: "length bk = hash_len suite" unfolding bk_def by (intro length_Derive_Secret) simp_all
  have "binder_key_suite suite psk = bk"
    using assms(4) hash_len_le [of suite] h
    by (simp add: binder_key_suite_def bk_def th_len_hash_len th_mac_spec tls_derive_secret_spec TLS_HASH_MAX_def HKDF_PRK_384_def
        SHA384_DIGEST_def Let_def)
  then show "tls_binder_verify_suite stack suite psk (concat msgs) received \<longleftrightarrow> received = verify bk"
    using ct [OF bl] assms(1,5) l bl
    by (simp add: tls_binder_verify_suite_def tls_binder_verify_hash_def tls_binder_compute_hash_def th_digest_spec th_len_hash_len
        finished_spec verify_def)
qed

theorem finished_exact_witness:
  "tls_finished_check_suite (replicate 48 0) TLS_AES_256_GCM_SHA384 (replicate 48 1)
     (transcript_hash_suite (transcript_add (transcript_add transcript_init [1]) [2, 3]) TLS_AES_256_GCM_SHA384) (replicate 48 5)
   \<longleftrightarrow> replicate 48 5 = suite_HMAC TLS_AES_256_GCM_SHA384
         (Expand_Label TLS_AES_256_GCM_SHA384 (replicate 48 1) (ascii ''finished'') [] 48) (suite_H TLS_AES_256_GCM_SHA384 [1, 2, 3])"
  using finished_exact [of "replicate 48 0" "replicate 48 1" TLS_AES_256_GCM_SHA384 "replicate 48 5" "replicate 48 2" "[[1], [2, 3]]"]
  by (simp add: hash_len_def)

definition Initial_Secret :: "u32 \<Rightarrow> bytes \<Rightarrow> bool \<Rightarrow> bytes" where
  "Initial_Secret version dcid is_server =
     Expand_Label TLS_AES_128_GCM_SHA256 (suite_HMAC TLS_AES_128_GCM_SHA256 (if version = VERSION_2 then V2_SALT else V1_SALT) dcid)
       (ascii (if is_server then ''server in'' else ''client in'')) [] 32"

lemma derive_field_eq: "derive_field = hs_field TLS_AES_128_GCM_SHA256"
  by (simp add: fun_eq_iff derive_field_def hs_field_def tls_hash_of_def suitehash_sha256_def suite_codes)

lemma initial_salt_spec: "initial_salt version = (if version = VERSION_2 then V2_SALT else V1_SALT)"
  by (simp add: initial_salt_def version_initial_salt_def salt_for_def VERSION_1_def VERSION_2_def)

lemma initial_derive_spec:
  fixes version :: u32 and is_server :: bool
  assumes "keys_ok out" and "length stack = 32" and "length dcid < 2 ^ 60"
  defines "e \<equiv> \<lambda>name n. Expand_Label TLS_AES_128_GCM_SHA256 (Initial_Secret version dcid is_server) (quic_label version name) [] n"
  shows "initial_derive stack dcid is_server version out
    = \<lparr>ik_key = e ''key'' 16 @ drop 16 (ik_key out), ik_iv = e ''iv'' 12, ik_hp = e ''hp'' 16 @ drop 16 (ik_hp out)\<rparr>"
    and "length (e ''key'' 16) = 16" "length (e ''iv'' 12) = 12" "length (e ''hp'' 16) = 16"
proof -
  let ?s = TLS_AES_128_GCM_SHA256
  have hl: "hash_len ?s = 32" by (simp add: hash_len_def suite_codes)
  have hm: "hmac_sha256 (initial_salt version) dcid = suite_HMAC ?s (initial_salt version) dcid"
    using assms(3) by (simp add: hmac_sha256_spec suite_HMAC_def suite_H_def suite_codes initial_salt_spec V1_SALT_def V2_SALT_def)
  have il: "length (suite_HMAC ?s (initial_salt version) dcid) = 32" unfolding hm [symmetric] by simp
  have lab: "side_label is_server = ascii (if is_server then ''server in'' else ''client in'')" by (simp add: side_label_def)
  have sl: "length (Initial_Secret version dcid is_server) = 32"
    unfolding Initial_Secret_def by (rule length_Expand_Label) (use il in \<open>simp_all add: hl initial_salt_spec\<close>)
  have s: "derive_field (hkdf_extract (initial_salt version) dcid) (side_label is_server) HKDF_PRK stack = Initial_Secret version dcid is_server"
    using assms(2) il sl
    by (simp add: derive_field_eq hs_field_def th_expand_label_spec lab hl HKDF_PRK_def SHA256_DIGEST_def hkdf_extract_def hm
        Initial_Secret_def initial_salt_spec [symmetric] write_at_whole)
  have l: "length (e name n) = n" if "length name \<le> 3" for name n
    unfolding e_def by (rule length_Expand_Label) (use that length_quic_label [of version name] sl hl in simp_all)
  then show "length (e ''key'' 16) = 16" "length (e ''iv'' 12) = 12" "length (e ''hp'' 16) = 16" by simp_all
  have f: "derive_field (Initial_Secret version dcid is_server) (ilabel_build version (ascii name)) n o' = write_at o' 0 (e name n)"
    if "n \<le> 32" "length name \<le> 3" for name n o'
    using hs_field_spec [OF that(1), of name ?s "Initial_Secret version dcid is_server" version o'] that(2) sl
    by (simp add: derive_field_eq version_label_spec hl e_def)
  show "initial_derive stack dcid is_server version out
    = \<lparr>ik_key = e ''key'' 16 @ drop 16 (ik_key out), ik_iv = e ''iv'' 12, ik_hp = e ''hp'' 16 @ drop 16 (ik_hp out)\<rparr>"
    using assms(1) l
    by (simp add: initial_derive_def s derive_keys_def f INITIAL_KEY_def INITIAL_IV_def INITIAL_HP_def keys_ok_def write_at_eq Let_def)
qed

end
