(* ===== verification/Key_Update.thy ===== *)
theory Key_Update
  imports Key_Schedule
begin

text \<open>
  Key update (RFC 9001 section 6): the key phase and update state machines and the packet limits
  (\<open>tls/keys/keyupdate\<close>), the two-generation key store (\<open>tls/keys/kuswitch\<close>), the key fields of the server
  (\<open>tls/handshake/roles/server\<close>), and the receive and send paths of 1-RTT packets that use them
  (\<open>app/http3/server/srvloop/recv_onertt.c\<close> and \<open>send.c\<close>). The lemmas show that the server follows the
  client's updates with reordered packets and that no generation of keys seals more packets than its limit.
\<close>

unbundle bit_operations_syntax

section \<open>keyupdate.c, keyphase.c and the limits\<close>

record keyupdate =
  kp_gen :: u64
  kp_lowest :: u64
  kp_updating :: bool

definition keyupdate_init :: keyupdate where
  "keyupdate_init = \<lparr>kp_gen = 0, kp_lowest = 0, kp_updating = False\<rparr>"

definition keyupdate_phase :: "keyupdate \<Rightarrow> u8" where
  "keyupdate_phase k = ucast (kp_gen k AND 1)"

definition keyupdate_advance :: "keyupdate \<Rightarrow> keyupdate" where
  "keyupdate_advance k = (let k = k\<lparr>kp_gen := kp_gen k + 1\<rparr> in k\<lparr>kp_lowest := kp_gen k - 1\<rparr>)"

definition keyupdate_initiate :: "keyupdate \<Rightarrow> bool \<times> keyupdate" where
  "keyupdate_initiate k = (if kp_updating k then (False, k) else (True, (keyupdate_advance k)\<lparr>kp_updating := True\<rparr>))"

definition keyupdate_acked :: "keyupdate \<Rightarrow> keyupdate" where
  "keyupdate_acked k = k\<lparr>kp_updating := False\<rparr>"

definition keyupdate_follow :: "keyupdate \<Rightarrow> bool \<times> keyupdate" where
  "keyupdate_follow k = (if kp_updating k then (False, k) else (True, keyupdate_advance k))"

definition keyupdate_can_decrypt :: "keyupdate \<Rightarrow> u64 \<Rightarrow> bool" where
  "keyupdate_can_decrypt k g \<longleftrightarrow> g \<ge> kp_lowest k \<and> g \<le> kp_gen k + 1"

definition keyphase_bit :: "u64 \<Rightarrow> u8" where
  "keyphase_bit generation = ucast (generation AND 1)"

definition keyphase_get :: "u8 \<Rightarrow> u8" where
  "keyphase_get byte0 = drop_bit 2 byte0 AND 1"

definition aead_is_chacha :: "u16 \<Rightarrow> bool" where
  "aead_is_chacha suite \<longleftrightarrow> suite = TLS_CHACHA20_POLY1305_SHA256"

definition AEAD_LIMIT_AESGCM :: u64 where "AEAD_LIMIT_AESGCM = push_bit 23 1"
definition AEAD_LIMIT_CHACHA :: u64 where "AEAD_LIMIT_CHACHA = push_bit 62 1"
definition AEAD_INTEGRITY_LIMIT_AESGCM :: u64 where "AEAD_INTEGRITY_LIMIT_AESGCM = push_bit 52 1"
definition AEAD_INTEGRITY_LIMIT_CHACHA :: u64 where "AEAD_INTEGRITY_LIMIT_CHACHA = push_bit 36 1"

definition aead_needs_update :: "u64 \<Rightarrow> bool \<Rightarrow> bool" where
  "aead_needs_update packets_encrypted is_chacha =
     (let limit = (if is_chacha then AEAD_LIMIT_CHACHA else AEAD_LIMIT_AESGCM) in packets_encrypted \<ge> limit)"

definition aead_integrity_exceeded :: "u64 \<Rightarrow> bool \<Rightarrow> bool" where
  "aead_integrity_exceeded auth_failures is_chacha =
     (let limit = (if is_chacha then AEAD_INTEGRITY_LIMIT_CHACHA else AEAD_INTEGRITY_LIMIT_AESGCM) in auth_failures \<ge> limit)"

definition keyupdate_pn_violates :: "u64 \<Rightarrow> u64 \<Rightarrow> bool" where
  "keyupdate_pn_violates new_phase_min_pn old_key_pn \<longleftrightarrow> old_key_pn > new_phase_min_pn"

section \<open>kuderive.c, derive.c and twogen.c\<close>

definition ku_label_build :: "u32 \<Rightarrow> bytes" where
  "ku_label_build version =
     (let prefix = (case version_label_prefix version of Some p \<Rightarrow> p | None \<Rightarrow> the (version_label_prefix VERSION_1))
      in prefix @ ascii ''ku'')"

text \<open>As for the other derivations, a refused expansion leaves the output as it was.\<close>

definition ku_next_secret_v :: "u32 \<Rightarrow> bytes \<Rightarrow> bytes \<Rightarrow> bytes" where
  "ku_next_secret_v version cur out =
     (case hkdf_expand_label cur \<lparr>hl_label = ku_label_build version, hl_ctx = []\<rparr> 32 of Some okm \<Rightarrow> write_at out 0 okm | None \<Rightarrow> out)"

definition kuswitch_expand :: "u16 \<Rightarrow> u32 \<Rightarrow> bytes \<Rightarrow> string \<Rightarrow> nat \<Rightarrow> bytes \<Rightarrow> bytes" where
  "kuswitch_expand suite version secret sfx n out =
     (case th_expand_label (tls_hash_of suite) secret \<lparr>hl_label = version_quic_label version (ascii sfx), hl_ctx = []\<rparr> n of
        Some okm \<Rightarrow> write_at out 0 okm | None \<Rightarrow> out)"

definition kuswitch_derive_key_iv :: "u16 \<Rightarrow> u32 \<Rightarrow> bytes \<Rightarrow> initial_keys \<Rightarrow> nat \<Rightarrow> initial_keys" where
  "kuswitch_derive_key_iv suite version next_secret next_keys key_len =
     (let next_keys = next_keys\<lparr>ik_key := kuswitch_expand suite version next_secret ''key'' key_len (ik_key next_keys)\<rparr>
      in next_keys\<lparr>ik_iv := kuswitch_expand suite version next_secret ''iv'' INITIAL_IV (ik_iv next_keys)\<rparr>)"

definition kuswitch_next_keys :: "bytes \<Rightarrow> initial_keys \<Rightarrow> bytes \<Rightarrow> initial_keys \<times> bytes" where
  "kuswitch_next_keys current_secret next_keys next_secret =
     (let next_secret = ku_next_secret_v VERSION_1 current_secret next_secret
      in (kuswitch_derive_key_iv 0 VERSION_1 next_secret next_keys INITIAL_KEY, next_secret))"

definition kuswitch_next_keys_suite :: "u16 \<Rightarrow> u32 \<Rightarrow> bytes \<Rightarrow> initial_keys \<Rightarrow> bytes \<Rightarrow> initial_keys \<times> bytes" where
  "kuswitch_next_keys_suite suite version current_secret next_keys next_secret =
     (let next_secret = kuswitch_expand suite version current_secret ''ku'' (th_len (tls_hash_of suite)) next_secret
      in (kuswitch_derive_key_iv suite version next_secret next_keys (aead_key_len suite), next_secret))"

record kuswitch_state =
  kw_cur :: initial_keys
  kw_old :: initial_keys
  kw_generation :: u64
  kw_have_old :: bool

definition kuswitch_init :: "kuswitch_state \<Rightarrow> initial_keys \<Rightarrow> kuswitch_state" where
  "kuswitch_init state gen0 = state\<lparr>kw_cur := gen0, kw_generation := 0, kw_have_old := False\<rparr>"

definition kuswitch_rotate :: "kuswitch_state \<Rightarrow> initial_keys \<Rightarrow> kuswitch_state" where
  "kuswitch_rotate state next =
     state\<lparr>kw_old := kw_cur state, kw_cur := next, kw_generation := kw_generation state + 1, kw_have_old := True\<rparr>"

definition wants_current :: "kuswitch_state \<Rightarrow> u8 \<Rightarrow> bool" where
  "wants_current state recv_phase_bit \<longleftrightarrow> recv_phase_bit = keyphase_bit (kw_generation state)"

definition kuswitch_key_for_phase :: "kuswitch_state \<Rightarrow> u8 \<Rightarrow> initial_keys option" where
  "kuswitch_key_for_phase state recv_phase_bit =
     (if wants_current state recv_phase_bit then Some (kw_cur state)
      else if \<not> kw_have_old state then None else Some (kw_old state))"

definition kuswitch_discard_old :: "kuswitch_state \<Rightarrow> kuswitch_state" where
  "kuswitch_discard_old state = state\<lparr>kw_have_old := False, kw_old := zero_keys\<rparr>"

section \<open>The server's key state\<close>

text \<open>
  The fields of \<open>wired_server\<close> (and of its handshake driver \<open>sdrv\<close>) that the 1-RTT receive and send
  paths read or write.
\<close>

record wired_server =
  sv_iscid_len :: u8
  sv_cipher_suite :: u16
  sv_negotiated_version :: u32
  sv_client_version :: u32
  sv_sched :: keysched
  sv_ku :: kuswitch_state
  sv_ku_secret :: bytes
  sv_ku_send :: kuswitch_state
  sv_ku_send_secret :: bytes
  sv_ku_seeded :: bool
  sv_ku_next :: initial_keys
  sv_ku_next_secret :: bytes
  sv_ku_cur_lo :: u64
  sv_ku_cur_hi :: u64
  sv_ku_error :: u64
  sv_ku_send_count :: u64
  sv_ku_auth_fail :: u64
  sv_grease_seed :: u64
  sv_peer_grease_quic_bit :: bool
  sv_spin_rx :: u8
  sv_spin_off :: bool

definition sdrv_wire_version :: "wired_server \<Rightarrow> u32" where
  "sdrv_wire_version s =
     (if sv_negotiated_version s \<noteq> 0 then sv_negotiated_version s
      else if sv_client_version s \<noteq> 0 then sv_client_version s else VERSION_1)"

definition server_ku_derive_next :: "wired_server \<Rightarrow> wired_server" where
  "server_ku_derive_next s =
     (let (next, secret) = kuswitch_next_keys_suite (sv_cipher_suite s) (sdrv_wire_version s) (sv_ku_secret s) (sv_ku_next s) (sv_ku_next_secret s);
          next = next\<lparr>ik_hp := ik_hp (kw_cur (sv_ku s))\<rparr>
      in s\<lparr>sv_ku_next := next, sv_ku_next_secret := secret, sv_ku_cur_lo := NOT 0, sv_ku_cur_hi := 0\<rparr>)"

definition srv_seed_kuswitch_recv :: "wired_server \<Rightarrow> bool \<times> wired_server" where
  "srv_seed_kuswitch_recv s =
     (case keysched_get (sv_sched s) KS_CLIENT_AP of None \<Rightarrow> (False, s)
      | Some client_ap \<Rightarrow>
         (case keysched_client_ap_secret (sv_sched s) of None \<Rightarrow> (False, s)
          | Some secret \<Rightarrow>
             let s = s\<lparr>sv_ku := kuswitch_init (sv_ku s) client_ap\<rparr>;
                 s = s\<lparr>sv_ku_secret := write_at (sv_ku_secret s) 0 (take (th_len (tls_hash_of (sv_cipher_suite s))) secret)\<rparr>
             in (True, server_ku_derive_next s)))"

definition srv_seed_kuswitch_send :: "wired_server \<Rightarrow> bool \<times> wired_server" where
  "srv_seed_kuswitch_send s =
     (case keysched_get (sv_sched s) KS_SERVER_AP of None \<Rightarrow> (False, s)
      | Some server_ap \<Rightarrow>
         (case keysched_server_ap_secret (sv_sched s) of None \<Rightarrow> (False, s)
          | Some secret \<Rightarrow>
             let s = s\<lparr>sv_ku_send := kuswitch_init (sv_ku_send s) server_ap\<rparr>
             in (True, s\<lparr>sv_ku_send_secret := write_at (sv_ku_send_secret s) 0 (take (th_len (tls_hash_of (sv_cipher_suite s))) secret)\<rparr>)))"

definition srv_seed_kuswitch :: "wired_server \<Rightarrow> wired_server" where
  "srv_seed_kuswitch s =
     (let (recv_ok, s) = srv_seed_kuswitch_recv s; (send_ok, s) = srv_seed_kuswitch_send s
      in s\<lparr>sv_ku_seeded := (recv_ok \<and> send_ok)\<rparr>)"

section \<open>recv\_onertt.c\<close>

datatype kurx = KURX_CUR | KURX_OLD | KURX_NEXT

record kurx_hdr =
  kx_phase :: u8
  kx_pn :: u64

definition kurx_peek :: "wired_server \<Rightarrow> bytes \<Rightarrow> u64 \<Rightarrow> kurx_hdr option" where
  "kurx_peek s dgram largest_pn =
     (let pn_off = 1 + unat (sv_iscid_len s)
      in if \<not> hp_sample_ok (length dgram) (hp_sample_offset pn_off) then None
         else case hp_suite_mask (sv_cipher_suite s) (ik_hp (kw_cur (sv_ku s))) (take 16 (drop (hp_sample_offset pn_off) dgram)) of
             None \<Rightarrow> None
           | Some msk \<Rightarrow>
               let b0 = dgram ! 0 XOR (msk ! 0 AND HP_SHORT_MASK); pn_len = unat (b0 AND 0x03) + 1;
                   pnb = hp_protect_pn (take 4 (drop pn_off dgram)) 0 pn_len msk
               in Some \<lparr>kx_phase = keyphase_get b0, kx_pn = pnum_decode pnb pn_len largest_pn\<rparr>)"

definition kurx_pick_other :: "wired_server \<Rightarrow> u64 \<Rightarrow> kurx" where
  "kurx_pick_other s pn = (if \<not> kw_have_old (sv_ku s) \<or> pn > sv_ku_cur_hi s then KURX_NEXT else KURX_OLD)"

definition kurx_pick :: "wired_server \<Rightarrow> kurx_hdr \<Rightarrow> kurx" where
  "kurx_pick s h = (if kx_phase h = keyphase_bit (kw_generation (sv_ku s)) then KURX_CUR else kurx_pick_other s (kx_pn h))"

fun kurx_keys :: "wired_server \<Rightarrow> kurx \<Rightarrow> initial_keys" where
  "kurx_keys s KURX_CUR = kw_cur (sv_ku s)"
| "kurx_keys s KURX_OLD = kw_old (sv_ku s)"
| "kurx_keys s KURX_NEXT = sv_ku_next s"

definition kurx_open :: "bool \<Rightarrow> wired_server \<Rightarrow> bytes \<Rightarrow> u64 \<Rightarrow> initial_keys \<Rightarrow> bytes option option" where
  "kurx_open supported s dgram largest_pn keys =
     (let pk = \<lparr>pk_keys = keys, pk_hp = aes128_init (ik_hp keys)\<rparr>
      in hspkt_onertt_open_suite supported (sv_cipher_suite s) pk
           \<lparr>oo_pkt = dgram, oo_dcid_len = sv_iscid_len s, oo_largest_pn = largest_pn\<rparr>)"

text \<open>\<open>stack\<close> is what the uninitialised locals \<open>send_next\<close> and \<open>send_next_secret\<close> hold.\<close>

definition srvloop_ku_rotate_send :: "initial_keys \<times> bytes \<Rightarrow> wired_server \<Rightarrow> wired_server" where
  "srvloop_ku_rotate_send stack s =
     (let (send_next, send_next_secret) =
            kuswitch_next_keys_suite (sv_cipher_suite s) (sdrv_wire_version s) (sv_ku_send_secret s) (fst stack) (snd stack);
          send_next = send_next\<lparr>ik_hp := ik_hp (kw_cur (sv_ku_send s))\<rparr>
      in s\<lparr>sv_ku_send := kuswitch_rotate (sv_ku_send s) send_next, sv_ku_send_secret := send_next_secret, sv_ku_send_count := 0\<rparr>)"

definition kurx_took_cur :: "wired_server \<Rightarrow> u64 \<Rightarrow> bool \<times> wired_server" where
  "kurx_took_cur s pn = (True, s\<lparr>sv_ku_cur_lo := u64_min (sv_ku_cur_lo s) pn, sv_ku_cur_hi := u64_max (sv_ku_cur_hi s) pn\<rparr>)"

definition ERR_KEY_UPDATE_ERROR :: u64 where "ERR_KEY_UPDATE_ERROR = 0x0e"
definition ERR_AEAD_LIMIT_REACHED :: u64 where "ERR_AEAD_LIMIT_REACHED = 0x0f"

definition kurx_took_old :: "wired_server \<Rightarrow> u64 \<Rightarrow> bool \<times> wired_server" where
  "kurx_took_old s pn =
     (if \<not> keyupdate_pn_violates (sv_ku_cur_lo s) pn then (True, s) else (False, s\<lparr>sv_ku_error := ERR_KEY_UPDATE_ERROR\<rparr>))"

definition kurx_took_next :: "initial_keys \<times> bytes \<Rightarrow> wired_server \<Rightarrow> u64 \<Rightarrow> bool \<times> wired_server" where
  "kurx_took_next stack s pn =
     (let s = s\<lparr>sv_ku := kuswitch_rotate (sv_ku s) (sv_ku_next s)\<rparr>;
          s = s\<lparr>sv_ku_secret := sv_ku_next_secret s\<rparr>;
          s = server_ku_derive_next s;
          s = (if kw_generation (sv_ku_send s) < kw_generation (sv_ku s) then srvloop_ku_rotate_send stack s else s)
      in kurx_took_cur s pn)"

fun kurx_took :: "initial_keys \<times> bytes \<Rightarrow> wired_server \<Rightarrow> kurx \<Rightarrow> u64 \<Rightarrow> bool \<times> wired_server" where
  "kurx_took stack s KURX_CUR pn = kurx_took_cur s pn"
| "kurx_took stack s KURX_OLD pn = kurx_took_old s pn"
| "kurx_took stack s KURX_NEXT pn = kurx_took_next stack s pn"

definition kurx_open_picked ::
    "bool \<Rightarrow> initial_keys \<times> bytes \<Rightarrow> wired_server \<Rightarrow> bytes \<Rightarrow> u64 \<Rightarrow> (bytes option \<times> wired_server) option" where
  "kurx_open_picked supported stack s dgram largest_pn =
     (case kurx_peek s dgram largest_pn of None \<Rightarrow> Some (None, s)
      | Some h \<Rightarrow>
         let pick = kurx_pick s h
         in (case kurx_open supported s dgram largest_pn (kurx_keys s pick) of
               None \<Rightarrow> None
             | Some None \<Rightarrow> Some (None, s\<lparr>sv_ku_auth_fail := sv_ku_auth_fail s + 1\<rparr>)
             | Some (Some payload) \<Rightarrow>
                 (case kurx_took stack s pick (kx_pn h) of (ok, s) \<Rightarrow> Some (if ok then Some payload else None, s))))"

definition srvloop_recv_onertt ::
    "bool \<Rightarrow> initial_keys \<times> bytes \<Rightarrow> wired_server \<Rightarrow> bytes \<Rightarrow> u64 \<Rightarrow> (bytes option \<times> wired_server) option" where
  "srvloop_recv_onertt supported stack s dgram largest_pn =
     (if \<not> sv_ku_seeded s then Some (None, s) else kurx_open_picked supported stack s dgram largest_pn)"

section \<open>send.c\<close>

definition spin_outgoing :: "bool \<Rightarrow> u8 \<Rightarrow> u8" where
  "spin_outgoing is_server peer_spin = (if is_server then peer_spin AND 1 else (peer_spin AND 1) XOR 1)"

definition spin_outgoing_ex :: "bool \<Rightarrow> u8 \<Rightarrow> bool \<Rightarrow> u8" where
  "spin_outgoing_ex is_server peer_spin disabled = (if disabled then 0 else spin_outgoing is_server peer_spin)"

definition greasebit_may_clear :: "bool \<Rightarrow> bool" where "greasebit_may_clear peer_advertised \<longleftrightarrow> peer_advertised"

record wired_srvloop_send_in =
  si_cli_scid :: bytes
  si_pn :: u64
  si_payload :: bytes

definition send_onertt_keys :: "wired_server \<Rightarrow> protect_keys option" where
  "send_onertt_keys s =
     (if sv_ku_seeded s
      then let keys = kw_cur (sv_ku_send s) in Some \<lparr>pk_keys = keys, pk_hp = aes128_init (ik_hp keys)\<rparr>
      else map_option (\<lambda>keys. \<lparr>pk_keys = keys, pk_hp = aes128_init (ik_hp keys)\<rparr>) (keysched_get (sv_sched s) KS_SERVER_AP))"

definition send_onertt_phase :: "wired_server \<Rightarrow> u8" where
  "send_onertt_phase s = (if sv_ku_seeded s then keyphase_bit (kw_generation (sv_ku_send s)) else 0)"

definition ku_can_initiate :: "wired_server \<Rightarrow> bool" where
  "ku_can_initiate s \<longleftrightarrow> sv_ku_seeded s \<and> kw_generation (sv_ku_send s) = kw_generation (sv_ku s)"

definition SRVLOOP_KU_CLOSE_MARGIN :: u64 where "SRVLOOP_KU_CLOSE_MARGIN = 64"

definition ku_limit_near_stuck :: "wired_server \<Rightarrow> bool \<Rightarrow> bool" where
  "ku_limit_near_stuck s chacha \<longleftrightarrow>
     aead_needs_update (sv_ku_send_count s + SRVLOOP_KU_CLOSE_MARGIN) chacha \<and> \<not> ku_can_initiate s"

definition ku_note_limit_near :: "wired_server \<Rightarrow> bool \<Rightarrow> wired_server" where
  "ku_note_limit_near s chacha =
     (if ku_limit_near_stuck s chacha \<and> sv_ku_error s = 0 then s\<lparr>sv_ku_error := ERR_AEAD_LIMIT_REACHED\<rparr> else s)"

definition ku_limit_gate :: "initial_keys \<times> bytes \<Rightarrow> wired_server \<Rightarrow> bool \<times> wired_server" where
  "ku_limit_gate stack s =
     (let chacha = aead_is_chacha (sv_cipher_suite s); s = ku_note_limit_near s chacha
      in if \<not> aead_needs_update (sv_ku_send_count s) chacha then (True, s)
         else if \<not> ku_can_initiate s then (False, s)
         else (True, srvloop_ku_rotate_send stack s))"

definition send_onertt_min_payload :: "wired_server \<Rightarrow> wired_srvloop_send_in \<Rightarrow> nat" where
  "send_onertt_min_payload s i =
     (let fixed = 5 + length (si_cli_scid i) + aead_tag_len (sv_cipher_suite s); want = 22 + unat (sv_iscid_len s)
      in if want > fixed then want - fixed else 0)"

definition send_onertt_padded :: "bytes \<Rightarrow> nat \<Rightarrow> bytes" where
  "send_onertt_padded pl min' =
     (if length pl \<ge> min' then pl else let pad = min' - length pl in replicate pad 0 @ pl)"

definition send_onertt_clear_bit :: "wired_server \<Rightarrow> u64 \<Rightarrow> bool" where
  "send_onertt_clear_bit s pn =
     (let x = (sv_grease_seed s XOR pn) * 0x9e3779b97f4a7c15
      in greasebit_may_clear (sv_peer_grease_quic_bit s) \<and> drop_bit 63 x \<noteq> 0)"

definition send_onertt_spin :: "wired_server \<Rightarrow> u8" where
  "send_onertt_spin s = spin_outgoing_ex True (sv_spin_rx s) (sv_spin_off s)"

definition send_onertt_seal :: "bool \<Rightarrow> wired_server \<Rightarrow> wired_srvloop_send_in \<Rightarrow> nat \<Rightarrow> bytes option option" where
  "send_onertt_seal supported s i cap =
     (let d = \<lparr>on_dcid = si_cli_scid i, on_pn = si_pn i,
            on_payload = send_onertt_padded (si_payload i) (send_onertt_min_payload s i),
            on_phase_bit = (send_onertt_phase s \<noteq> 0), on_spin = (send_onertt_spin s \<noteq> 0),
            on_clear_quic_bit = send_onertt_clear_bit s (si_pn i)\<rparr>
      in case send_onertt_keys s of None \<Rightarrow> Some None
         | Some pk \<Rightarrow> hspkt_onertt_build_suite supported (sv_cipher_suite s) pk d cap)"

definition wired_srvloop_send_onertt ::
    "bool \<Rightarrow> initial_keys \<times> bytes \<Rightarrow> wired_server \<Rightarrow> wired_srvloop_send_in \<Rightarrow> nat \<Rightarrow> (bytes option \<times> wired_server) option" where
  "wired_srvloop_send_onertt supported stack s i cap =
     (case ku_limit_gate stack s of (ok, s) \<Rightarrow>
        if \<not> ok then Some (None, s)
        else case send_onertt_seal supported s i cap of
            None \<Rightarrow> None
          | Some None \<Rightarrow> Some (None, s)
          | Some (Some pkt) \<Rightarrow> Some (Some pkt, s\<lparr>sv_ku_send_count := sv_ku_send_count s + 1\<rparr>))"

section \<open>Generations of keys\<close>

text \<open>
  RFC 9001 section 6.1: each generation's secret is expanded from the one before, its key and IV from the
  secret; the header protection key does not change.
\<close>

fun gen_secret :: "u16 \<Rightarrow> u32 \<Rightarrow> bytes \<Rightarrow> nat \<Rightarrow> bytes" where
  "gen_secret suite version secret 0 = secret"
| "gen_secret suite version secret (Suc n) = Expand_Label suite (gen_secret suite version secret n) (quic_label version ''ku'') [] (hash_len suite)"

definition gen_keys :: "u16 \<Rightarrow> u32 \<Rightarrow> bytes \<Rightarrow> nat \<Rightarrow> initial_keys" where
  "gen_keys suite version secret n =
     (packet_keys suite version (gen_secret suite version secret n))\<lparr>ik_hp := ik_hp (packet_keys suite version secret)\<rparr>"

text \<open>Two key structures that agree on the bytes the suite uses protect the same packets.\<close>

definition keys_same :: "u16 \<Rightarrow> initial_keys \<Rightarrow> initial_keys \<Rightarrow> bool" where
  "keys_same suite k k' \<longleftrightarrow> keys_ok k \<and> keys_ok k' \<and> take (aead_key_len suite) (ik_key k) = take (aead_key_len suite) (ik_key k')
     \<and> ik_iv k = ik_iv k' \<and> take (aead_key_len suite) (ik_hp k) = take (aead_key_len suite) (ik_hp k')"

lemma suite_key_lens: "aead_key_len TLS_AES_128_GCM_SHA256 = 16" "aead_key_len TLS_AES_256_GCM_SHA384 = 32" "aead_key_len TLS_CHACHA20_POLY1305_SHA256 = 32"
  by (simp_all add: aead_key_len_def aead_params_tab_def suite_codes)

lemma keys_same_init:
  assumes "keys_same TLS_AES_128_GCM_SHA256 k k'"
  shows "aes128_init (ik_key k) = aes128_init (ik_key k')" "aes128_init (ik_hp k) = aes128_init (ik_hp k')"
  using assms aes128_init_take [of "ik_key k"] aes128_init_take [of "ik_key k'"] aes128_init_take [of "ik_hp k"] aes128_init_take [of "ik_hp k'"]
  by (simp_all add: keys_same_def keys_ok_def suite_key_lens)

lemma keys_same_32: "keys_same suite k k' \<Longrightarrow> aead_key_len suite = 32 \<Longrightarrow> k = k'"
  by (cases k; cases k') (auto simp: keys_same_def keys_ok_def)

lemma keys_same_mask:
  assumes "suite_known suite" and "keys_same suite k k'"
  shows "hp_suite_mask suite (ik_hp k) = hp_suite_mask suite (ik_hp k')"
  using assms(1)
proof (cases rule: suite_knownE)
  case 1
  then show ?thesis using assms(2) keys_same_init [of k k']
    by (simp add: fun_eq_iff hp_suite_mask_def hps_tab_def hps_aes128_def suite_codes)
qed (use keys_same_32 [OF assms(2)] in \<open>simp_all add: suite_key_lens\<close>)

lemma keys_same_aead:
  assumes "suite_known suite" and "keys_same suite k k'"
  shows "aead_suite_open s (suite_op suite k pn aad) = aead_suite_open s (suite_op suite k' pn aad)"
    "aead_suite_seal s (suite_op suite k pn aad) = aead_suite_seal s (suite_op suite k' pn aad)"
proof -
  have "aead_suite_open s (suite_op suite k pn aad) = aead_suite_open s (suite_op suite k' pn aad)
      \<and> aead_suite_seal s (suite_op suite k pn aad) = aead_suite_seal s (suite_op suite k' pn aad)"
    using assms(1)
  proof (cases rule: suite_knownE)
    case 1
    then show ?thesis using assms(2) keys_same_init [of k k']
      by (simp add: fun_eq_iff aead_suite_open_def aead_suite_seal_def aead_suite_tab_def suite_codes aead_gcm_open_def aead_gcm_seal_def
          suite_io_def suite_op_def keys_same_def cong: option.case_cong)
  qed (use keys_same_32 [OF assms(2)] in \<open>simp_all add: suite_key_lens\<close>)
  then show "aead_suite_open s (suite_op suite k pn aad) = aead_suite_open s (suite_op suite k' pn aad)"
    "aead_suite_seal s (suite_op suite k pn aad) = aead_suite_seal s (suite_op suite k' pn aad)" by blast+
qed

lemma keys_same_open:
  assumes "suite_known suite" and "keys_same suite (pk_keys k) (pk_keys k')"
  shows "hspkt_onertt_open_suite s suite k d = hspkt_onertt_open_suite s suite k' d"
proof -
  have "open_pkt_suite s suite (pk_keys k) = open_pkt_suite s suite (pk_keys k')"
    by (simp add: fun_eq_iff open_pkt_suite_def aead_open_suite_def keys_same_aead [OF assms] cong: option.case_cong)
  then show ?thesis by (simp add: hspkt_onertt_open_suite_def hspkt_unprotect_suite_def keys_same_mask [OF assms] cong: option.case_cong)
qed

section \<open>The server follows the generations\<close>

lemma kuswitch_expand_eq: "kuswitch_expand suite version secret sfx n out = hs_field suite secret (version_quic_label version (ascii sfx)) n out"
  by (simp add: kuswitch_expand_def hs_field_def)

lemma length_gen_secret: "length secret = hash_len suite \<Longrightarrow> length (gen_secret suite version secret n) = hash_len suite"
  by (induction n) (simp_all add: length_Expand_Label quic_label_def)

lemma keys_ok_gen_keys: "length secret = hash_len suite \<Longrightarrow> keys_ok (gen_keys suite version secret n)"
  using keys_ok_packet_keys [of secret suite version] keys_ok_packet_keys [OF length_gen_secret, of secret suite version version n]
  by (simp add: gen_keys_def keys_ok_def)

lemma known_key_len: "suite_known suite \<Longrightarrow> aead_key_len suite = resolved_key_len suite \<and> resolved_key_len suite \<le> 32"
  by (auto simp: suite_known_def resolved_key_len_def suite_key_lens INITIAL_KEY_def)

text \<open>The next generation is derived from the secret of the current one.\<close>

lemma next_keys:
  assumes known: "suite_known suite" and secret: "length secret = hash_len suite" and sec: "take (hash_len suite) sec = gen_secret suite version secret n"
    and nk: "keys_ok nk" and ns: "length ns = 48" and r: "kuswitch_next_keys_suite suite version sec nk ns = (nk', ns')"
    and hp: "length hp = 32" "take (aead_key_len suite) hp = take (aead_key_len suite) (ik_hp (gen_keys suite version secret 0))"
  shows "length ns' = 48 \<and> take (hash_len suite) ns' = gen_secret suite version secret (Suc n)
    \<and> keys_same suite (nk'\<lparr>ik_hp := hp\<rparr>) (gen_keys suite version secret (Suc n))"
proof -
  let ?S = "gen_secret suite version secret (Suc n)" and ?kl = "aead_key_len suite"
  have kl: "?kl = resolved_key_len suite" "?kl \<le> 32" using known_key_len [OF known] by simp_all
  have S: "length ?S = hash_len suite" by (rule length_gen_secret [OF secret])
  have "ns' = write_at ns 0 ?S"
    using r hash_len_le [of suite]
    by (simp add: kuswitch_next_keys_suite_def kuswitch_expand_def th_len_hash_len version_label_spec th_expand_label_spec sec
        quic_label_def Let_def)
  then have ns': "length ns' = 48" "take (hash_len suite) ns' = ?S" using ns S hash_len_le [of suite] by (simp_all add: write_at_eq)
  define e where "e name n = Expand_Label suite ?S (quic_label version name) [] n" for name n
  have l: "length (e name n) = n" if "length name \<le> 3" for name n
    unfolding e_def by (rule length_Expand_Label) (use that length_quic_label [of version name] S in simp_all)
  have f: "kuswitch_expand suite version ns' name m out = write_at out 0 (e name m)" if "m \<le> 32" "length name \<le> 3" for name m out
    using hs_field_spec [OF that(1), of name suite ns' version out] that(2) ns'(2) by (simp add: kuswitch_expand_eq e_def)
  have "nk' = kuswitch_derive_key_iv suite version ns' nk ?kl" using r by (auto simp: kuswitch_next_keys_suite_def Let_def)
  then have nk': "ik_key nk' = write_at (ik_key nk) 0 (e ''key'' ?kl)" "ik_iv nk' = write_at (ik_iv nk) 0 (e ''iv'' 12)" "length (ik_hp nk') = 32"
    using nk kl by (simp_all add: kuswitch_derive_key_iv_def f INITIAL_IV_def keys_ok_def)
  have g: "take ?kl (ik_key (gen_keys suite version secret (Suc n))) = e ''key'' ?kl" "ik_iv (gen_keys suite version secret (Suc n)) = e ''iv'' 12"
    using kl l [of "''key''" ?kl] by (simp_all add: gen_keys_def packet_keys_def e_def suite_key_len Let_def)
  have "ik_hp (gen_keys suite version secret (Suc n)) = ik_hp (gen_keys suite version secret 0)" by (simp add: gen_keys_def)
  then show ?thesis
    using ns' hp nk kl l [of "''key''" ?kl] l [of "''iv''" 12] keys_ok_gen_keys [OF secret, of version "Suc n"]
    by (simp add: keys_same_def nk' g [unfolded kl(1)] keys_ok_def write_at_eq)
qed

definition ku_side :: "u16 \<Rightarrow> u32 \<Rightarrow> bytes \<Rightarrow> nat \<Rightarrow> kuswitch_state \<Rightarrow> bytes \<Rightarrow> bool" where
  "ku_side suite version secret n w sec \<longleftrightarrow> length secret = hash_len suite \<and> keys_same suite (kw_cur w) (gen_keys suite version secret n)
     \<and> kw_generation w = of_nat n \<and> length sec = 48 \<and> take (hash_len suite) sec = gen_secret suite version secret n"

text \<open>
  The server has received generation \<open>n\<close> of the client's keys and sends with generation \<open>m\<close> of its own.
\<close>

definition ku_inv :: "wired_server \<Rightarrow> bytes \<Rightarrow> nat \<Rightarrow> bytes \<Rightarrow> nat \<Rightarrow> bool" where
  "ku_inv s csec n ssec m \<longleftrightarrow> suite_known (sv_cipher_suite s) \<and> sv_ku_seeded s
     \<and> ku_side (sv_cipher_suite s) (sdrv_wire_version s) csec n (sv_ku s) (sv_ku_secret s)
     \<and> ku_side (sv_cipher_suite s) (sdrv_wire_version s) ssec m (sv_ku_send s) (sv_ku_send_secret s)
     \<and> keys_same (sv_cipher_suite s) (sv_ku_next s) (gen_keys (sv_cipher_suite s) (sdrv_wire_version s) csec (Suc n))
     \<and> length (sv_ku_next_secret s) = 48
     \<and> take (hash_len (sv_cipher_suite s)) (sv_ku_next_secret s) = gen_secret (sv_cipher_suite s) (sdrv_wire_version s) csec (Suc n)
     \<and> (kw_have_old (sv_ku s) \<longrightarrow> 0 < n \<and> keys_same (sv_cipher_suite s) (kw_old (sv_ku s))
          (gen_keys (sv_cipher_suite s) (sdrv_wire_version s) csec (n - 1)))
     \<and> n \<le> m \<and> m \<le> Suc n"

lemma gen_hp: "ik_hp (gen_keys suite version secret n) = ik_hp (gen_keys suite version secret 0)"
  by (simp add: gen_keys_def)

lemma keys_same_hp:
  "keys_same suite k (gen_keys suite version secret n) \<Longrightarrow>
   length (ik_hp k) = 32 \<and> take (aead_key_len suite) (ik_hp k) = take (aead_key_len suite) (ik_hp (gen_keys suite version secret 0))"
  using gen_hp [of suite version secret n] by (simp add: keys_same_def keys_ok_def)

lemma derive_next_inv:
  assumes known: "suite_known (sv_cipher_suite s)" and side: "ku_side (sv_cipher_suite s) (sdrv_wire_version s) csec n (sv_ku s) (sv_ku_secret s)"
    and nk: "keys_ok (sv_ku_next s)" "length (sv_ku_next_secret s) = 48"
  shows "let s' = server_ku_derive_next s in
      keys_same (sv_cipher_suite s) (sv_ku_next s') (gen_keys (sv_cipher_suite s) (sdrv_wire_version s) csec (Suc n))
      \<and> length (sv_ku_next_secret s') = 48
      \<and> take (hash_len (sv_cipher_suite s)) (sv_ku_next_secret s') = gen_secret (sv_cipher_suite s) (sdrv_wire_version s) csec (Suc n)"
proof -
  obtain nk' ns' where r: "kuswitch_next_keys_suite (sv_cipher_suite s) (sdrv_wire_version s) (sv_ku_secret s) (sv_ku_next s) (sv_ku_next_secret s) = (nk', ns')"
    by fastforce
  have f: "length csec = hash_len (sv_cipher_suite s)"
    "take (hash_len (sv_cipher_suite s)) (sv_ku_secret s) = gen_secret (sv_cipher_suite s) (sdrv_wire_version s) csec n"
    "keys_same (sv_cipher_suite s) (kw_cur (sv_ku s)) (gen_keys (sv_cipher_suite s) (sdrv_wire_version s) csec n)"
    using side by (simp_all add: ku_side_def)
  from next_keys [OF known f(1,2) nk r conjunct1 [OF keys_same_hp [OF f(3)]] conjunct2 [OF keys_same_hp [OF f(3)]]] show ?thesis
    by (simp add: server_ku_derive_next_def r Let_def)
qed

lemma rotate_send_inv:
  assumes known: "suite_known (sv_cipher_suite s)"
    and side: "ku_side (sv_cipher_suite s) (sdrv_wire_version s) ssec m (sv_ku_send s) (sv_ku_send_secret s)"
    and stack: "keys_ok (fst stack)" "length (snd stack) = 48"
  shows "let s' = srvloop_ku_rotate_send stack s in ku_side (sv_cipher_suite s) (sdrv_wire_version s) ssec (Suc m) (sv_ku_send s') (sv_ku_send_secret s')"
proof -
  obtain nk' ns' where r: "kuswitch_next_keys_suite (sv_cipher_suite s) (sdrv_wire_version s) (sv_ku_send_secret s) (fst stack) (snd stack) = (nk', ns')"
    by fastforce
  have f: "length ssec = hash_len (sv_cipher_suite s)"
    "take (hash_len (sv_cipher_suite s)) (sv_ku_send_secret s) = gen_secret (sv_cipher_suite s) (sdrv_wire_version s) ssec m"
    "keys_same (sv_cipher_suite s) (kw_cur (sv_ku_send s)) (gen_keys (sv_cipher_suite s) (sdrv_wire_version s) ssec m)"
    using side by (simp_all add: ku_side_def)
  from next_keys [OF known f(1,2) stack r conjunct1 [OF keys_same_hp [OF f(3)]] conjunct2 [OF keys_same_hp [OF f(3)]]] side show ?thesis
    by (simp add: srvloop_ku_rotate_send_def r ku_side_def kuswitch_rotate_def Let_def)
qed

lemma wire_version_same:
  "sv_negotiated_version s' = sv_negotiated_version s \<Longrightarrow> sv_client_version s' = sv_client_version s \<Longrightarrow> sdrv_wire_version s' = sdrv_wire_version s"
  by (simp add: sdrv_wire_version_def)

lemma wire_version_upd [simp]:
  "sdrv_wire_version (s\<lparr>sv_ku_cur_lo := x, sv_ku_cur_hi := y\<rparr>) = sdrv_wire_version s"
  "sdrv_wire_version (s\<lparr>sv_ku_auth_fail := x\<rparr>) = sdrv_wire_version s" "sdrv_wire_version (s\<lparr>sv_ku_error := x\<rparr>) = sdrv_wire_version s"
  "sdrv_wire_version (s\<lparr>sv_ku_send_count := x\<rparr>) = sdrv_wire_version s"
  by (simp_all add: sdrv_wire_version_def)

lemma derive_next_frame:
  "sdrv_wire_version (server_ku_derive_next s) = sdrv_wire_version s" "sv_cipher_suite (server_ku_derive_next s) = sv_cipher_suite s"
  "sv_ku (server_ku_derive_next s) = sv_ku s" "sv_ku_secret (server_ku_derive_next s) = sv_ku_secret s"
  "sv_ku_seeded (server_ku_derive_next s) = sv_ku_seeded s" "sv_ku_send (server_ku_derive_next s) = sv_ku_send s"
  "sv_ku_send_secret (server_ku_derive_next s) = sv_ku_send_secret s" "sv_ku_cur_lo (server_ku_derive_next s) = NOT 0"
  "sv_ku_cur_hi (server_ku_derive_next s) = 0" "sv_iscid_len (server_ku_derive_next s) = sv_iscid_len s"
  "sv_sched (server_ku_derive_next s) = sv_sched s" "sv_ku_send_count (server_ku_derive_next s) = sv_ku_send_count s"
  by (rule wire_version_same) (simp_all add: server_ku_derive_next_def split_beta Let_def)

lemma rotate_send_frame:
  "sdrv_wire_version (srvloop_ku_rotate_send st s) = sdrv_wire_version s" "sv_cipher_suite (srvloop_ku_rotate_send st s) = sv_cipher_suite s"
  "sv_ku (srvloop_ku_rotate_send st s) = sv_ku s" "sv_ku_secret (srvloop_ku_rotate_send st s) = sv_ku_secret s"
  "sv_ku_seeded (srvloop_ku_rotate_send st s) = sv_ku_seeded s" "sv_ku_next (srvloop_ku_rotate_send st s) = sv_ku_next s"
  "sv_ku_next_secret (srvloop_ku_rotate_send st s) = sv_ku_next_secret s" "sv_ku_cur_lo (srvloop_ku_rotate_send st s) = sv_ku_cur_lo s"
  "sv_ku_cur_hi (srvloop_ku_rotate_send st s) = sv_ku_cur_hi s" "sv_iscid_len (srvloop_ku_rotate_send st s) = sv_iscid_len s"
  "kw_generation (sv_ku_send (srvloop_ku_rotate_send st s)) = kw_generation (sv_ku_send s) + 1"
  "sv_ku_send_count (srvloop_ku_rotate_send st s) = 0"
  by (rule wire_version_same) (simp_all add: srvloop_ku_rotate_send_def kuswitch_rotate_def split_beta Let_def)

lemma took_next_inv:
  assumes inv: "ku_inv s csec n ssec m" and bound: "Suc n < 2 ^ 64" and stack: "keys_ok (fst stack)" "length (snd stack) = 48"
  shows "\<exists>s'. kurx_took_next stack s pn = (True, s') \<and> ku_inv s' csec (Suc n) ssec (max m (Suc n)) \<and> kw_have_old (sv_ku s')
    \<and> sv_ku_cur_lo s' = pn \<and> sv_ku_cur_hi s' = pn \<and> sv_cipher_suite s' = sv_cipher_suite s \<and> sdrv_wire_version s' = sdrv_wire_version s
    \<and> sv_iscid_len s' = sv_iscid_len s"
proof -
  let ?su = "sv_cipher_suite s" and ?v = "sdrv_wire_version s"
  define s1 where "s1 = s\<lparr>sv_ku := kuswitch_rotate (sv_ku s) (sv_ku_next s), sv_ku_secret := sv_ku_next_secret s\<rparr>"
  have f1: "sdrv_wire_version s1 = ?v" "sv_cipher_suite s1 = ?su" by (rule wire_version_same) (simp_all add: s1_def)
  have known: "suite_known ?su" and cs: "length csec = hash_len ?su" using inv by (simp_all add: ku_inv_def ku_side_def)
  have side1: "ku_side ?su ?v csec (Suc n) (sv_ku s1) (sv_ku_secret s1)"
    using inv by (simp add: s1_def kuswitch_rotate_def ku_inv_def ku_side_def)
  have old1: "kw_have_old (sv_ku s1)" "keys_same ?su (kw_old (sv_ku s1)) (gen_keys ?su ?v csec n)"
    using inv by (simp_all add: s1_def kuswitch_rotate_def ku_inv_def ku_side_def)
  define s2 where "s2 = server_ku_derive_next s1"
  have f2: "sv_cipher_suite s2 = ?su" "sdrv_wire_version s2 = ?v" "sv_ku s2 = sv_ku s1" "sv_ku_secret s2 = sv_ku_secret s1" "sv_ku_seeded s2 = sv_ku_seeded s"
    "sv_ku_send s2 = sv_ku_send s" "sv_ku_send_secret s2 = sv_ku_send_secret s" "sv_ku_cur_lo s2 = NOT 0" "sv_ku_cur_hi s2 = 0" "sv_iscid_len s2 = sv_iscid_len s"
    using f1 by (simp_all add: s2_def derive_next_frame) (simp_all add: s1_def)
  have nx: "keys_same ?su (sv_ku_next s2) (gen_keys ?su ?v csec (Suc (Suc n))) \<and> length (sv_ku_next_secret s2) = 48
      \<and> take (hash_len ?su) (sv_ku_next_secret s2) = gen_secret ?su ?v csec (Suc (Suc n))"
    using derive_next_inv [of s1 csec "Suc n"] known side1 inv unfolding s2_def f1 Let_def
    by (simp add: s1_def ku_inv_def keys_same_def)
  define s3 where "s3 = (if kw_generation (sv_ku_send s2) < kw_generation (sv_ku s2) then srvloop_ku_rotate_send stack s2 else s2)"
  have f3: "sv_cipher_suite s3 = ?su" "sdrv_wire_version s3 = ?v" "sv_ku s3 = sv_ku s1" "sv_ku_secret s3 = sv_ku_secret s1" "sv_ku_seeded s3 = sv_ku_seeded s"
    "sv_ku_next s3 = sv_ku_next s2" "sv_ku_next_secret s3 = sv_ku_next_secret s2" "sv_ku_cur_lo s3 = NOT 0" "sv_ku_cur_hi s3 = 0" "sv_iscid_len s3 = sv_iscid_len s"
    using f2 by (simp_all add: s3_def rotate_send_frame)
  have sends: "ku_side ?su ?v ssec m (sv_ku_send s2) (sv_ku_send_secret s2)" using inv by (simp add: f2 ku_inv_def)
  have m: "n \<le> m" "m \<le> Suc n" using inv by (simp_all add: ku_inv_def)
  have g: "kw_generation (sv_ku_send s2) = of_nat m" "kw_generation (sv_ku s2) = of_nat (Suc n)"
    using sends side1 unfolding f2 ku_side_def by blast+
  have "unat (of_nat m :: u64) = m" "unat (of_nat (Suc n) :: u64) = Suc n" using m bound by (intro unat_of_nat_u64; simp)+
  then have "kw_generation (sv_ku_send s2) < kw_generation (sv_ku s2) \<longleftrightarrow> m < Suc n" unfolding g word_less_nat_alt by simp
  then have send3: "ku_side ?su ?v ssec (max m (Suc n)) (sv_ku_send s3) (sv_ku_send_secret s3)"
    using sends rotate_send_inv [of s2 ssec m stack] known stack m unfolding s3_def f2(1,2) Let_def
    by (cases "m = n") (simp_all add: max_def le_Suc_eq)
  define s' where "s' = s3\<lparr>sv_ku_cur_lo := pn, sv_ku_cur_hi := pn\<rparr>"
  have v: "sdrv_wire_version s' = ?v" using f3(2) wire_version_same [of s' s3] by (simp add: s'_def)
  have "kurx_took_next stack s pn = (True, s')"
  proof -
    have "kurx_took_next stack s pn = kurx_took_cur s3 pn" by (simp add: kurx_took_next_def s3_def s2_def s1_def Let_def)
    also have "\<dots> = (True, s')" by (simp add: kurx_took_cur_def f3 u64_min_eq u64_max_eq s'_def min_absorb2)
    finally show ?thesis .
  qed
  moreover have "ku_inv s' csec (Suc n) ssec (max m (Suc n))"
    using known side1 send3 nx old1 f3 inv m v by (simp add: s'_def ku_inv_def)
  ultimately show ?thesis using f3 old1 v by (auto simp: s'_def)
qed

lemma kurx_peek_unprotected:
  assumes "unprotected (hp_suite_mask (sv_cipher_suite s) (ik_hp (kw_cur (sv_ku s)))) HP_SHORT_MASK (1 + unat (sv_iscid_len s)) pkt = Some (hdr, ct)"
  shows "kurx_peek s pkt largest
    = Some \<lparr>kx_phase = keyphase_get (hdr ! 0), kx_pn = pnum_decode (drop (1 + unat (sv_iscid_len s)) hdr) (pn_len_of (hdr ! 0)) largest\<rparr>"
proof -
  let ?off = "1 + unat (sv_iscid_len s)" and ?f = "hp_suite_mask (sv_cipher_suite s) (ik_hp (kw_cur (sv_ku s)))"
  obtain m where l: "?off + 20 \<le> length pkt" and m: "?f (take 16 (drop (?off + 4) pkt)) = Some m"
    and hdr: "hdr = take (?off + pn_len_of (pkt ! 0 XOR (m ! 0 AND HP_SHORT_MASK)))
        (hp_apply m pkt ?off (pn_len_of (pkt ! 0 XOR (m ! 0 AND HP_SHORT_MASK))) HP_SHORT_MASK)"
    using assms by (auto simp: unprotected_def Let_def split: if_splits)
  define n where "n = pn_len_of (pkt ! 0 XOR (m ! 0 AND HP_SHORT_MASK))"
  have n: "1 \<le> n" "n \<le> 4" using pn_len_range n_def by simp_all
  have h: "hdr = take (?off + n) (hp_apply m pkt ?off n HP_SHORT_MASK)" by (simp add: hdr n_def)
  have b0: "hdr ! 0 = pkt ! 0 XOR (m ! 0 AND HP_SHORT_MASK)" unfolding h using l n by (simp add: nth_hp_apply)
  have "take n (hp_protect_pn (take 4 (drop ?off pkt)) 0 n m) = take n (drop ?off hdr)"
    unfolding h using l n by (intro nth_equalityI) (simp_all add: nth_hp_protect_pn nth_hp_apply)
  then have "pnum_decode (hp_protect_pn (take 4 (drop ?off pkt)) 0 n m) n largest = pnum_decode (drop ?off hdr) n largest"
    by (simp only: pnum_decode_def read_be_def)
  moreover have "pn_len_of (hdr ! 0) = n" by (simp add: b0 n_def)
  moreover have "unat (hdr ! 0 AND 3) + 1 = n" using calculation(2) by (simp add: pn_len_of_def)
  ultimately show ?thesis using l m
    by (simp add: kurx_peek_def hp_sample_ok_def hp_sample_offset_def b0 [symmetric] Let_def)
qed

text \<open>A packet the client built under generation \<open>g\<close> of its keys, in generation \<open>g\<close>'s key phase.\<close>

definition client_packet :: "u16 \<Rightarrow> u32 \<Rightarrow> bytes \<Rightarrow> nat \<Rightarrow> nat \<Rightarrow> hspkt_onertt_desc \<Rightarrow> bytes \<Rightarrow> bool" where
  "client_packet suite version csec dcid_len g d pkt \<longleftrightarrow>
     (\<exists>supported k cap. hspkt_onertt_build_suite supported suite k d cap = Some (Some pkt) \<and> keys_same suite (pk_keys k) (gen_keys suite version csec g)
        \<and> length (on_dcid d) + length (on_payload d) + 21 \<le> cap)
     \<and> on_phase_bit d = odd g \<and> length (on_dcid d) = dcid_len \<and> on_payload d \<noteq> []
     \<and> length (on_dcid d) + length (on_payload d) + 5 \<le> 2984"

lemma odd_bit: "keyphase_bit (of_nat g) = (if odd g then 1 else 0)"
proof -
  have "(of_nat g :: u64) AND 1 = (if odd g then 1 else 0)"
    by (simp add: and_one_eq mod_2_eq_odd)
  then show ?thesis by (simp add: keyphase_bit_def)
qed

lemma keyphase_get_byte0: "keyphase_get (onertt_byte0 d) = (if on_phase_bit d then 1 else 0)"
  by (cases "on_phase_bit d"; cases "on_spin d"; cases "on_clear_quic_bit d")
    (simp_all add: keyphase_get_def onertt_byte0_def ONERTT_BYTE0_def keyphase_set_def spin_set_def greasebit_apply_def Let_def)

lemma client_packet_seen:
  assumes c: "client_packet suite version csec (unat (sv_iscid_len s)) g d pkt" and pn: "pn_in_window (on_pn d) largest"
    and known: "suite_known suite" and cs: "length csec = hash_len suite"
    and su: "sv_cipher_suite s = suite" and hp: "keys_same suite (kw_cur (sv_ku s)) (gen_keys suite version csec n)"
  shows "kurx_peek s pkt largest = Some \<lparr>kx_phase = keyphase_bit (of_nat g), kx_pn = on_pn d\<rparr>"
    and "keys_same suite keys (gen_keys suite version csec g) \<Longrightarrow> kurx_open supported' s pkt largest keys = Some (Some (on_payload d))"
proof -
  obtain supported k cap where b: "hspkt_onertt_build_suite supported suite k d cap = Some (Some pkt)"
    and k: "keys_same suite (pk_keys k) (gen_keys suite version csec g)" and cap: "length (on_dcid d) + length (on_payload d) + 21 \<le> cap"
    using c by (auto simp: client_packet_def)
  have d: "on_phase_bit d = odd g" "length (on_dcid d) = unat (sv_iscid_len s)" "on_payload d \<noteq> []"
    "length (on_dcid d) + length (on_payload d) + 5 \<le> 2984" using c by (simp_all add: client_packet_def)
  have ok: "suite_ok (suite, k)" using known k by (simp add: suite_ok_def keys_same_def)
  let ?hdr = "build_short_header d" and ?off = "1 + unat (sv_iscid_len s)"
  have hl: "length ?hdr = length (on_dcid d) + 5" by (simp add: build_short_header_def)
  from b obtain ct where ct: "suite_seal supported (suite, k) (on_pn d) ?hdr (on_payload d) = Some ct"
    and p: "protected (suite_msk (suite, k)) HP_SHORT_MASK ?off ?hdr ct = Some pkt"
    using onertt_build_suite_eq [OF ok, of d cap supported] cap d(2) by (auto simp: hl)
  have cl: "length ct = length (on_payload d) + 16" by (rule suite.seal_length [OF ok ct])
  have "ik_hp (gen_keys suite version csec n) = ik_hp (gen_keys suite version csec g)" using gen_hp [of suite version csec n] gen_hp [of suite version csec g] by simp
  then have "keys_same suite ((kw_cur (sv_ku s))\<lparr>ik_key := ik_key (pk_keys k), ik_iv := ik_iv (pk_keys k)\<rparr>) (pk_keys k)"
    using hp k by (simp add: keys_same_def keys_ok_def)
  from keys_same_mask [OF known this] have msk: "hp_suite_mask suite (ik_hp (kw_cur (sv_ku s))) = suite_msk (suite, k)"
    by (simp add: suite_msk_def)
  have "unprotected (suite_msk (suite, k)) HP_SHORT_MASK ?off pkt = Some (?hdr, ct)"
    using p d cl hl by (subst unprotected_iff) (simp_all add: short_header_facts onertt_pn_len)
  have off: "?off = Suc (length (on_dcid d))" by (simp add: d)
  from \<open>unprotected _ _ _ _ = _\<close> have "kurx_peek s pkt largest = Some \<lparr>kx_phase = keyphase_get (?hdr ! 0), kx_pn = pnum_decode (drop ?off ?hdr) (pn_len_of (?hdr ! 0)) largest\<rparr>"
    by (intro kurx_peek_unprotected) (simp add: su msk)
  then show "kurx_peek s pkt largest = Some \<lparr>kx_phase = keyphase_bit (of_nat g), kx_pn = on_pn d\<rparr>"
    unfolding off short_header_facts onertt_pn_len pnum_decode_window [OF pn] keyphase_get_byte0 odd_bit d(1) by simp
  assume same: "keys_same suite keys (gen_keys suite version csec g)"
  have ks: "keys_same suite keys (pk_keys k)" using same k by (simp add: keys_same_def)
  have "unat (sv_iscid_len s) \<le> unat (-1 :: u8)" using word_n1_ge [of "sv_iscid_len s"] by (simp only: word_le_nat_alt)
  also have "unat (-1 :: u8) = 255" by (simp add: unsigned_minus_1_eq_mask mask_eq_exp_minus_1)
  finally have "length (on_dcid d) \<le> 255" by (simp add: d)
  from onertt_opens [OF known _ this d(3) cap d(4) pn, of k supported supported'] b ok
  have "hspkt_onertt_open_suite supported' suite k \<lparr>oo_pkt = pkt, oo_dcid_len = sv_iscid_len s, oo_largest_pn = largest\<rparr> = Some (Some (on_payload d))"
    by (auto simp: suite_ok_def d)
  then show "kurx_open supported' s pkt largest keys = Some (Some (on_payload d))"
    using keys_same_open [OF known, of "\<lparr>pk_keys = keys, pk_hp = aes128_init (ik_hp keys)\<rparr>" k] ks by (simp add: kurx_open_def su)
qed

lemma phase_differs: "keyphase_bit (of_nat n) = keyphase_bit (of_nat (Suc n)) \<longleftrightarrow> False"
  by (simp add: odd_bit del: of_nat_Suc)

lemma recv_client_packet:
  assumes inv: "ku_inv s csec n ssec m" and bound: "Suc n < 2 ^ 64" and stack: "keys_ok (fst stack)" "length (snd stack) = 48"
    and c: "client_packet (sv_cipher_suite s) (sdrv_wire_version s) csec (unat (sv_iscid_len s)) g d pkt" and pn: "pn_in_window (on_pn d) largest"
    and g: "g = n \<or> g = Suc n \<and> (\<not> kw_have_old (sv_ku s) \<or> on_pn d > sv_ku_cur_hi s)
      \<or> Suc g = n \<and> kw_have_old (sv_ku s) \<and> on_pn d \<le> sv_ku_cur_hi s \<and> on_pn d \<le> sv_ku_cur_lo s"
  shows "\<exists>s'. srvloop_recv_onertt supported stack s pkt largest = Some (Some (on_payload d), s') \<and> ku_inv s' csec (max n g) ssec (max m g)
    \<and> sv_cipher_suite s' = sv_cipher_suite s \<and> sdrv_wire_version s' = sdrv_wire_version s \<and> sv_iscid_len s' = sv_iscid_len s
    \<and> (kw_have_old (sv_ku s') \<longleftrightarrow> kw_have_old (sv_ku s) \<or> g = Suc n)
    \<and> sv_ku_cur_lo s' = (if g = n then min (sv_ku_cur_lo s) (on_pn d) else if g = Suc n then on_pn d else sv_ku_cur_lo s)
    \<and> sv_ku_cur_hi s' = (if g = n then max (sv_ku_cur_hi s) (on_pn d) else if g = Suc n then on_pn d else sv_ku_cur_hi s)"
proof -
  let ?su = "sv_cipher_suite s" and ?v = "sdrv_wire_version s"
  have known: "suite_known ?su" and cs: "length csec = hash_len ?su" and cur: "keys_same ?su (kw_cur (sv_ku s)) (gen_keys ?su ?v csec n)"
    and gen: "kw_generation (sv_ku s) = of_nat n" and seeded: "sv_ku_seeded s" and m: "n \<le> m" using inv by (simp_all add: ku_inv_def ku_side_def)
  note seen = client_packet_seen [OF c pn known cs refl cur]
  define pick where "pick = kurx_pick s \<lparr>kx_phase = keyphase_bit (of_nat g), kx_pn = on_pn d\<rparr>"
  have step: "srvloop_recv_onertt supported stack s pkt largest = (case kurx_took stack s pick (on_pn d) of (ok, s) \<Rightarrow> Some (if ok then Some (on_payload d) else None, s))"
    if "keys_same ?su (kurx_keys s pick) (gen_keys ?su ?v csec g)"
    using seeded seen(1) seen(2) [OF that] by (simp add: srvloop_recv_onertt_def kurx_open_picked_def pick_def [symmetric] Let_def)
  consider (cur) "g = n" | (next') "g = Suc n" "\<not> kw_have_old (sv_ku s) \<or> on_pn d > sv_ku_cur_hi s"
    | (old) "Suc g = n" "kw_have_old (sv_ku s)" "on_pn d \<le> sv_ku_cur_hi s" "on_pn d \<le> sv_ku_cur_lo s" using g by blast
  then show ?thesis
  proof cases
    case cur
    then have "pick = KURX_CUR" by (simp add: pick_def kurx_pick_def gen)
    moreover have "ku_inv (s\<lparr>sv_ku_cur_lo := x, sv_ku_cur_hi := y\<rparr>) csec n ssec m" "sdrv_wire_version (s\<lparr>sv_ku_cur_lo := x, sv_ku_cur_hi := y\<rparr>) = ?v" for x y
      using inv by (simp_all add: ku_inv_def)
    ultimately show ?thesis using step \<open>keys_same ?su (kw_cur (sv_ku s)) _\<close> cur m by (simp add: kurx_took_cur_def u64_min_eq u64_max_eq max_absorb1)
  next
    case next'
    have "pick = KURX_NEXT" using next' phase_differs [of n] by (auto simp: pick_def kurx_pick_def gen kurx_pick_other_def)
    moreover have "keys_same ?su (sv_ku_next s) (gen_keys ?su ?v csec g)" using inv next'(1) by (simp add: ku_inv_def)
    moreover obtain s' where "kurx_took_next stack s (on_pn d) = (True, s')" "ku_inv s' csec (Suc n) ssec (max m (Suc n))" "kw_have_old (sv_ku s')"
      "sv_ku_cur_lo s' = on_pn d" "sv_ku_cur_hi s' = on_pn d" "sv_cipher_suite s' = ?su" "sdrv_wire_version s' = ?v" "sv_iscid_len s' = sv_iscid_len s"
      using took_next_inv [OF inv bound stack] by blast
    ultimately show ?thesis using step next'(1) by simp
  next
    case old
    have "pick = KURX_OLD" using old phase_differs [of g] by (auto simp: pick_def kurx_pick_def gen kurx_pick_other_def)
    moreover have "keys_same ?su (kw_old (sv_ku s)) (gen_keys ?su ?v csec g)" using inv old by (auto simp: ku_inv_def)
    moreover have "kurx_took_old s (on_pn d) = (True, s)" using old by (simp add: kurx_took_old_def keyupdate_pn_violates_def)
    ultimately show ?thesis using step old inv m by (auto simp: max_absorb1)
  qed
qed

section \<open>Seeding and following updates\<close>

lemma gen_keys_0: "gen_keys suite version secret 0 = packet_keys suite version secret"
  by (simp add: gen_keys_def)

lemma write_at_prefix: "length x = h \<Longrightarrow> h \<le> length buf \<Longrightarrow> take h (write_at buf 0 x) = x"
  by (simp add: write_at_eq)

definition ku_bufs :: "wired_server \<Rightarrow> bool" where
  "ku_bufs s \<longleftrightarrow> length (sv_ku_secret s) = 48 \<and> length (sv_ku_send_secret s) = 48 \<and> keys_ok (sv_ku_next s) \<and> length (sv_ku_next_secret s) = 48"

lemma seed_inv:
  assumes rel: "ks_rel (sv_sched s) a" and known: "suite_known (sv_cipher_suite s)" and bufs: "ku_bufs s"
    and su: "ka_suite a = sv_cipher_suite s" and v: "ka_version a = sdrv_wire_version s"
    and sec: "ka_secret a ''c ap traffic'' = Some csec" "ka_secret a ''s ap traffic'' = Some ssec"
  shows "let s' = srv_seed_kuswitch s in ku_inv s' csec 0 ssec 0 \<and> \<not> kw_have_old (sv_ku s') \<and> sv_cipher_suite s' = sv_cipher_suite s
    \<and> sdrv_wire_version s' = sdrv_wire_version s \<and> sv_iscid_len s' = sv_iscid_len s"
proof -
  let ?su = "sv_cipher_suite s" and ?v = "sdrv_wire_version s"
  have get: "keysched_get (sv_sched s) KS_CLIENT_AP = Some (packet_keys ?su ?v csec)" "keysched_get (sv_sched s) KS_SERVER_AP = Some (packet_keys ?su ?v ssec)"
    using rel sec su v by (simp_all add: ks_rel_def which_cases ka_keys_def ks_which)
  have "ks_ok (sv_sched s)" using rel by (simp add: ks_rel_def)
  then obtain cs ss where cs: "keysched_client_ap_secret (sv_sched s) = Some cs" "take (hash_len ?su) cs = csec" "length cs = 48"
    and ss: "keysched_server_ap_secret (sv_sched s) = Some ss" "take (hash_len ?su) ss = ssec" "length ss = 48"
    using rel sec su by (auto simp: ks_rel_def ks_ok_def keysched_client_ap_secret_def keysched_server_ap_secret_def split: if_splits)
  have l: "length csec = hash_len ?su" "length ssec = hash_len ?su" using cs ss hash_len_le [of ?su] by auto
  have same: "keys_same ?su (packet_keys ?su ?v x) (gen_keys ?su ?v x 0)" if "length x = hash_len ?su" for x
    using keys_ok_packet_keys [OF that, of ?v] by (simp add: gen_keys_0 keys_same_def)
  define s1 where "s1 = s\<lparr>sv_ku := kuswitch_init (sv_ku s) (packet_keys ?su ?v csec), sv_ku_secret := write_at (sv_ku_secret s) 0 csec\<rparr>"
  have f1: "sdrv_wire_version s1 = ?v" "sv_cipher_suite s1 = ?su" "sv_iscid_len s1 = sv_iscid_len s" "sv_sched s1 = sv_sched s" "sv_ku_send s1 = sv_ku_send s"
    "sv_ku_send_secret s1 = sv_ku_send_secret s" by (rule wire_version_same) (simp_all add: s1_def)
  have side1: "ku_side ?su ?v csec 0 (sv_ku s1) (sv_ku_secret s1)"
    using l same bufs hash_len_le [of ?su] by (simp add: s1_def ku_side_def kuswitch_init_def ku_bufs_def write_at_prefix)
  have r: "srv_seed_kuswitch_recv s = (True, server_ku_derive_next s1)"
    by (simp add: srv_seed_kuswitch_recv_def get cs th_len_hash_len s1_def Let_def)
  have nx: "keys_same ?su (sv_ku_next (server_ku_derive_next s1)) (gen_keys ?su ?v csec (Suc 0)) \<and> length (sv_ku_next_secret (server_ku_derive_next s1)) = 48
      \<and> take (hash_len ?su) (sv_ku_next_secret (server_ku_derive_next s1)) = gen_secret ?su ?v csec (Suc 0)"
    using derive_next_inv [of s1 csec 0] known side1 bufs unfolding f1 Let_def by (simp add: s1_def ku_bufs_def)
  define s2 where "s2 = (server_ku_derive_next s1)\<lparr>sv_ku_send := kuswitch_init (sv_ku_send s) (packet_keys ?su ?v ssec),
      sv_ku_send_secret := write_at (sv_ku_send_secret s) 0 ssec\<rparr>"
  have f2: "sdrv_wire_version s2 = sdrv_wire_version (server_ku_derive_next s1)" by (rule wire_version_same) (simp_all add: s2_def)
  have "srv_seed_kuswitch_send (server_ku_derive_next s1) = (True, s2)"
    by (simp add: srv_seed_kuswitch_send_def derive_next_frame f1 get ss th_len_hash_len s2_def Let_def)
  then have seed: "srv_seed_kuswitch s = s2\<lparr>sv_ku_seeded := True\<rparr>" by (simp add: srv_seed_kuswitch_def r)
  have f3: "sdrv_wire_version (s2\<lparr>sv_ku_seeded := True\<rparr>) = ?v" by (rule trans [OF wire_version_same [of _ s2]]) (simp_all add: f2 derive_next_frame f1)
  have send: "ku_side ?su ?v ssec 0 (sv_ku_send s2) (sv_ku_send_secret s2)"
    using l same bufs hash_len_le [of ?su] by (simp add: s2_def ku_side_def kuswitch_init_def ku_bufs_def write_at_prefix)
  have "\<not> kw_have_old (sv_ku s1)" by (simp add: s1_def kuswitch_init_def)
  then show ?thesis using known side1 send nx f3
    by (simp add: seed Let_def ku_inv_def) (simp add: s2_def derive_next_frame f1)
qed

fun recv_run :: "bool \<Rightarrow> initial_keys \<times> bytes \<Rightarrow> wired_server \<Rightarrow> (bytes \<times> u64) list \<Rightarrow> (bytes option list \<times> wired_server) option" where
  "recv_run supported stack s [] = Some ([], s)"
| "recv_run supported stack s ((pkt, largest) # xs) =
     (case srvloop_recv_onertt supported stack s pkt largest of None \<Rightarrow> None
      | Some (r, s) \<Rightarrow> map_option (\<lambda>(rs, s). (r # rs, s)) (recv_run supported stack s xs))"

text \<open>
  What the network may do: packets get lost and arrive in any order, but a packet arrives neither two
  generations before nor two after the newest generation that has arrived.
\<close>

fun in_reach :: "nat \<Rightarrow> nat list \<Rightarrow> bool" where
  "in_reach n [] \<longleftrightarrow> True"
| "in_reach n (g # gs) \<longleftrightarrow> g \<le> Suc n \<and> n \<le> Suc g \<and> in_reach (max n g) gs"

definition client_traffic :: "u16 \<Rightarrow> u32 \<Rightarrow> bytes \<Rightarrow> nat \<Rightarrow> (nat \<times> hspkt_onertt_desc \<times> bytes) set \<Rightarrow> bool" where
  "client_traffic suite version csec dcid_len sent \<longleftrightarrow>
     (\<forall>(g, d, pkt) \<in> sent. client_packet suite version csec dcid_len g d pkt \<and> Suc g < 2 ^ 64
        \<and> (\<forall>(g', d', pkt') \<in> sent. g < g' \<longrightarrow> on_pn d < on_pn d'))"

definition window_seen :: "(nat \<times> hspkt_onertt_desc \<times> bytes) set \<Rightarrow> wired_server \<Rightarrow> nat \<Rightarrow> bool" where
  "window_seen sent s n \<longleftrightarrow> (if n = 0 then \<not> kw_have_old (sv_ku s) else kw_have_old (sv_ku s)
     \<and> (\<exists>(g, d, pkt) \<in> sent. g = n \<and> on_pn d = sv_ku_cur_lo s) \<and> (\<exists>(g, d, pkt) \<in> sent. g = n \<and> on_pn d = sv_ku_cur_hi s))"

lemma recv_run_follows:
  assumes "ku_inv s csec n ssec n" and "window_seen sent s n"
    and "client_traffic (sv_cipher_suite s) (sdrv_wire_version s) csec (unat (sv_iscid_len s)) sent" and "Suc n < 2 ^ 64"
    and "keys_ok (fst stack)" "length (snd stack) = 48"
    and "\<forall>(g, d, pkt, largest) \<in> set arr. (g, d, pkt) \<in> sent \<and> pn_in_window (on_pn d) largest" and "in_reach n (map fst arr)"
  shows "\<exists>s'. recv_run supported stack s (map (\<lambda>x. snd (snd x)) arr) = Some (map (\<lambda>x. Some (on_payload (fst (snd x)))) arr, s')
    \<and> ku_inv s' csec (fold max (map fst arr) n) ssec (fold max (map fst arr) n)"
  using assms(1,2,3,4,7,8)
proof (induction arr arbitrary: s n)
  case (Cons x arr)
  obtain g d pkt largest where x: "x = (g, d, pkt, largest)" by (cases x)
  have sent: "(g, d, pkt) \<in> sent" and pn: "pn_in_window (on_pn d) largest" using Cons.prems(5) by (auto simp: x)
  have c: "client_packet (sv_cipher_suite s) (sdrv_wire_version s) csec (unat (sv_iscid_len s)) g d pkt" and gb: "Suc g < 2 ^ 64"
    and mono: "\<And>g' d' pkt' g'' d'' pkt''. (g', d', pkt') \<in> sent \<Longrightarrow> (g'', d'', pkt'') \<in> sent \<Longrightarrow> g' < g'' \<Longrightarrow> on_pn d' < on_pn d''"
    using Cons.prems(3) sent unfolding client_traffic_def by fast+
  have reach: "g \<le> Suc n" "n \<le> Suc g" using Cons.prems(6) by (simp_all add: x)
  have "g = n \<or> g = Suc n \<and> (\<not> kw_have_old (sv_ku s) \<or> on_pn d > sv_ku_cur_hi s)
      \<or> Suc g = n \<and> kw_have_old (sv_ku s) \<and> on_pn d \<le> sv_ku_cur_hi s \<and> on_pn d \<le> sv_ku_cur_lo s"
  proof -
    consider "g = n" | "g = Suc n" | "Suc g = n" using reach by linarith
    then show ?thesis using Cons.prems(2) mono sent by cases (fastforce simp: window_seen_def split: if_splits)+
  qed
  from recv_client_packet [OF Cons.prems(1,4) assms(5,6) c pn this] obtain s' where
    r: "srvloop_recv_onertt supported stack s pkt largest = Some (Some (on_payload d), s')" and inv: "ku_inv s' csec (max n g) ssec (max n g)"
    and f: "sv_cipher_suite s' = sv_cipher_suite s" "sdrv_wire_version s' = sdrv_wire_version s" "sv_iscid_len s' = sv_iscid_len s"
    and ho: "kw_have_old (sv_ku s') \<longleftrightarrow> kw_have_old (sv_ku s) \<or> g = Suc n"
    and lo: "sv_ku_cur_lo s' = (if g = n then min (sv_ku_cur_lo s) (on_pn d) else if g = Suc n then on_pn d else sv_ku_cur_lo s)"
    and hi: "sv_ku_cur_hi s' = (if g = n then max (sv_ku_cur_hi s) (on_pn d) else if g = Suc n then on_pn d else sv_ku_cur_hi s)" by blast
  have w: "window_seen sent s' (max n g)"
  proof -
    consider "g = n" | "g = Suc n" | "Suc g = n" using reach by linarith
    then show ?thesis
    proof cases
      case 1
      then show ?thesis using Cons.prems(2) sent ho lo hi by (auto simp: window_seen_def min_def max_def split: if_splits)
    next
      case 2
      then show ?thesis using sent ho lo hi by (auto simp: window_seen_def)
    next
      case 3
      then show ?thesis using Cons.prems(2) ho lo hi by (auto simp: window_seen_def)
    qed
  qed
  have "\<exists>s''. recv_run supported stack s' (map (\<lambda>x. snd (snd x)) arr) = Some (map (\<lambda>x. Some (on_payload (fst (snd x)))) arr, s'')
    \<and> ku_inv s'' csec (fold max (map fst arr) (max n g)) ssec (fold max (map fst arr) (max n g))"
    by (rule Cons.IH [OF inv w]) (use Cons.prems f gb in \<open>auto simp: x\<close>)
  then show ?case using r by (auto simp: x max.commute)
qed auto

lemma took_frame:
  "sv_cipher_suite (snd (kurx_took stack s pick pn)) = sv_cipher_suite s \<and> sdrv_wire_version (snd (kurx_took stack s pick pn)) = sdrv_wire_version s"
proof (cases pick)
  case KURX_NEXT
  have "sdrv_wire_version (s\<lparr>sv_ku := x, sv_ku_secret := y\<rparr>) = sdrv_wire_version s" for x y by (rule wire_version_same) simp_all
  then show ?thesis using KURX_NEXT by (simp add: kurx_took_next_def kurx_took_cur_def derive_next_frame rotate_send_frame Let_def)
qed (auto simp: kurx_took_cur_def kurx_took_old_def)

lemma recv_frame:
  assumes "srvloop_recv_onertt supported stack s pkt largest = Some (r, s')"
  shows "sv_cipher_suite s' = sv_cipher_suite s \<and> sdrv_wire_version s' = sdrv_wire_version s"
proof -
  have "kurx_took stack s pick pn = (ok, t) \<Longrightarrow> sv_cipher_suite t = sv_cipher_suite s \<and> sdrv_wire_version t = sdrv_wire_version s" for pick pn ok t
    using took_frame [of stack s pick pn] by simp
  then show ?thesis using assms
    by (auto simp: srvloop_recv_onertt_def kurx_open_picked_def Let_def split: if_splits option.splits prod.splits)
qed

lemma recv_run_frame:
  "recv_run supported stack s xs = Some (rs, s') \<Longrightarrow> sv_cipher_suite s' = sv_cipher_suite s \<and> sdrv_wire_version s' = sdrv_wire_version s"
proof (induction supported stack s xs arbitrary: rs rule: recv_run.induct)
  case (2 supported stack s pkt largest xs)
  then obtain r t rs' where "srvloop_recv_onertt supported stack s pkt largest = Some (r, t)" "recv_run supported stack t xs = Some (rs', s')"
    by (auto split: option.splits)
  then show ?case using 2(1) recv_frame by (metis prod.collapse)
qed simp


section \<open>How often a key is used\<close>

datatype onertt_op = Op_Recv bytes u64 | Op_Send wired_srvloop_send_in nat

text \<open>A run of the 1-RTT path, with the packets sealed and the generation each was sealed under.\<close>

fun onertt_run :: "bool \<Rightarrow> initial_keys \<times> bytes \<Rightarrow> wired_server \<Rightarrow> onertt_op list \<Rightarrow> ((u64 \<times> bytes) list \<times> wired_server) option" where
  "onertt_run supported stack s [] = Some ([], s)"
| "onertt_run supported stack s (Op_Recv pkt largest # xs) =
     (case srvloop_recv_onertt supported stack s pkt largest of None \<Rightarrow> None
      | Some (_, s) \<Rightarrow> onertt_run supported stack s xs)"
| "onertt_run supported stack s (Op_Send i cap # xs) =
     (case wired_srvloop_send_onertt supported stack s i cap of None \<Rightarrow> None
      | Some (None, s) \<Rightarrow> onertt_run supported stack s xs
      | Some (Some pkt, s) \<Rightarrow> map_option (\<lambda>(ps, s'). ((kw_generation (sv_ku_send s), pkt) # ps, s')) (onertt_run supported stack s xs))"

definition key_limit :: "u16 \<Rightarrow> nat" where
  "key_limit suite = (if suite = TLS_CHACHA20_POLY1305_SHA256 then 2 ^ 62 else 2 ^ 23)"

lemma needs_update_iff: "aead_needs_update n (aead_is_chacha suite) \<longleftrightarrow> key_limit suite \<le> unat n"
  by (simp add: aead_needs_update_def aead_is_chacha_def key_limit_def AEAD_LIMIT_CHACHA_def AEAD_LIMIT_AESGCM_def word_le_nat_alt)

text \<open>The send state is left alone, or moves to a new generation with a fresh count.\<close>

definition send_step :: "wired_server \<Rightarrow> wired_server \<Rightarrow> bool" where
  "send_step s s' \<longleftrightarrow> sv_cipher_suite s' = sv_cipher_suite s
     \<and> (kw_generation (sv_ku_send s') = kw_generation (sv_ku_send s) \<and> sv_ku_send_count s' = sv_ku_send_count s
        \<or> kw_generation (sv_ku_send s') = kw_generation (sv_ku_send s) + 1 \<and> sv_ku_send_count s' = 0)"

lemma recv_send_step:
  assumes "srvloop_recv_onertt supported stack s pkt largest = Some (r, s')"
  shows "send_step s s'"
proof -
  have took: "send_step s (snd (kurx_took stack s pick pn))" for pick pn
  proof (cases pick)
    case KURX_NEXT
    then show ?thesis
      by (auto simp: kurx_took_next_def kurx_took_cur_def send_step_def derive_next_frame rotate_send_frame Let_def)
  qed (auto simp: kurx_took_cur_def kurx_took_old_def send_step_def)
  show ?thesis using assms took
    by (auto simp: srvloop_recv_onertt_def kurx_open_picked_def send_step_def Let_def split: if_splits option.splits prod.splits) (metis snd_conv)+
qed

lemma send_sealed:
  assumes "wired_srvloop_send_onertt supported stack s i cap = Some (r, s')"
  obtains t where "send_step s t" "r = None \<longrightarrow> s' = t"
    "r \<noteq> None \<longrightarrow> unat (sv_ku_send_count t) < key_limit (sv_cipher_suite s) \<and> s' = t\<lparr>sv_ku_send_count := sv_ku_send_count t + 1\<rparr>"
proof -
  obtain ok t where g: "ku_limit_gate stack s = (ok, t)" by fastforce
  have nt: "kw_generation (sv_ku_send (ku_note_limit_near s c)) = kw_generation (sv_ku_send s)" "sv_ku_send_count (ku_note_limit_near s c) = sv_ku_send_count s"
    "sv_cipher_suite (ku_note_limit_near s c) = sv_cipher_suite s" for c by (simp_all add: ku_note_limit_near_def)
  have "send_step s t"
    using g by (auto simp: ku_limit_gate_def send_step_def nt rotate_send_frame Let_def split: if_splits)
  moreover have "ok \<Longrightarrow> unat (sv_ku_send_count t) < key_limit (sv_cipher_suite s)"
    using g by (auto simp: ku_limit_gate_def nt rotate_send_frame needs_update_iff Let_def not_le split: if_splits) (simp add: key_limit_def)
  ultimately show thesis using that [of t] assms g
    by (auto simp: wired_srvloop_send_onertt_def split: if_splits option.splits)
qed

text \<open>How many more packets may be sealed under generation \<open>g\<close>.\<close>

definition sealed_room :: "wired_server \<Rightarrow> u64 \<Rightarrow> nat" where
  "sealed_room s g = (if g < kw_generation (sv_ku_send s) then 0
     else if g = kw_generation (sv_ku_send s) then key_limit (sv_cipher_suite s) - unat (sv_ku_send_count s) else key_limit (sv_cipher_suite s))"

lemma sealed_room_step:
  assumes "send_step s t" and "unat (kw_generation (sv_ku_send s)) < 2 ^ 64 - 1"
  shows "sealed_room t g \<le> sealed_room s g" "unat (kw_generation (sv_ku_send t)) \<le> Suc (unat (kw_generation (sv_ku_send s)))"
proof -
  have u: "unat (kw_generation (sv_ku_send s) + 1) = Suc (unat (kw_generation (sv_ku_send s)))" using assms(2) by (simp add: unat_Suc_u64)
  have su: "sv_cipher_suite t = sv_cipher_suite s" using assms(1) by (simp add: send_step_def)
  consider (same) "kw_generation (sv_ku_send t) = kw_generation (sv_ku_send s)" "sv_ku_send_count t = sv_ku_send_count s"
    | (next') "kw_generation (sv_ku_send t) = kw_generation (sv_ku_send s) + 1" using assms(1) by (auto simp: send_step_def)
  then show "sealed_room t g \<le> sealed_room s g"
  proof cases
    case same
    then show ?thesis by (simp add: sealed_room_def su)
  next
    case next'
    show ?thesis
    proof (cases "g < kw_generation (sv_ku_send t)")
      case True
      then show ?thesis by (simp add: sealed_room_def)
    next
      case False
      then have "unat (kw_generation (sv_ku_send s)) < unat g" unfolding next' word_less_nat_alt u by linarith
      then have "\<not> g < kw_generation (sv_ku_send s)" "g \<noteq> kw_generation (sv_ku_send s)" by (auto simp: word_less_nat_alt)
      then show ?thesis using False by (simp add: sealed_room_def su)
    qed
  qed
  show "unat (kw_generation (sv_ku_send t)) \<le> Suc (unat (kw_generation (sv_ku_send s)))" using assms(1) u by (auto simp: send_step_def)
qed

lemma sealed_room_seal:
  assumes "unat (sv_ku_send_count t) < key_limit (sv_cipher_suite t)"
  shows "sealed_room (t\<lparr>sv_ku_send_count := sv_ku_send_count t + 1\<rparr>) g + (if kw_generation (sv_ku_send t) = g then 1 else 0) \<le> sealed_room t g"
proof -
  have "unat (sv_ku_send_count t + 1) = Suc (unat (sv_ku_send_count t))"
    using assms by (intro unat_Suc_u64) (auto simp: key_limit_def split: if_splits)
  then show ?thesis using assms by (simp add: sealed_room_def Suc_diff_Suc)
qed

lemma limit_run:
  assumes "onertt_run supported stack s xs = Some (ps, s')" and "unat (kw_generation (sv_ku_send s)) + length xs < 2 ^ 64"
  shows "length (filter (\<lambda>p. fst p = g) ps) \<le> sealed_room s g"
  using assms
proof (induction xs arbitrary: s ps)
  case (Cons x xs)
  have b: "unat (kw_generation (sv_ku_send s)) < 2 ^ 64 - 1" using Cons.prems(2) by simp
  have go: "length (filter (\<lambda>p. fst p = g) qs) \<le> sealed_room t g" if "send_step s u" "onertt_run supported stack t xs = Some (qs, s')"
    "sv_ku_send t = sv_ku_send u" for t u qs
    using Cons.IH [OF that(2)] sealed_room_step(2) [OF that(1) b] Cons.prems(2) that(3) by simp
  show ?case
  proof (cases x)
    case (Op_Recv pkt largest)
    then obtain q t where "srvloop_recv_onertt supported stack s pkt largest = Some (q, t)" "onertt_run supported stack t xs = Some (ps, s')"
      using Cons.prems(1) by (auto split: option.splits)
    then show ?thesis using go [of t t ps] recv_send_step sealed_room_step(1) [OF _ b] by (meson order_trans)
  next
    case (Op_Send i cap)
    then obtain r t where r: "wired_srvloop_send_onertt supported stack s i cap = Some (r, t)" using Cons.prems(1) by (auto split: option.splits)
    obtain u where u: "send_step s u" "r = None \<longrightarrow> t = u"
      "r \<noteq> None \<longrightarrow> unat (sv_ku_send_count u) < key_limit (sv_cipher_suite s) \<and> t = u\<lparr>sv_ku_send_count := sv_ku_send_count u + 1\<rparr>"
      by (rule send_sealed [OF r])
    have su: "sv_cipher_suite u = sv_cipher_suite s" using u(1) by (simp add: send_step_def)
    note le = sealed_room_step(1) [OF u(1) b, of g]
    show ?thesis
    proof (cases r)
      case None
      then show ?thesis using go [OF u(1), of t ps] u(2) le Cons.prems(1) r Op_Send by simp
    next
      case (Some pkt)
      then obtain qs where q: "onertt_run supported stack t xs = Some (qs, s')" "ps = (kw_generation (sv_ku_send t), pkt) # qs"
        using Cons.prems(1) r Op_Send by auto
      have t: "t = u\<lparr>sv_ku_send_count := sv_ku_send_count u + 1\<rparr>" "unat (sv_ku_send_count u) < key_limit (sv_cipher_suite u)" using Some u(3) su by simp_all
      have "length (filter (\<lambda>p. fst p = g) qs) \<le> sealed_room t g" using go [OF u(1) q(1)] t(1) by simp
      then show ?thesis using sealed_room_seal [OF t(2), of g] le t(1) q(2) by (auto split: if_splits)
    qed
  qed
qed simp

text \<open>
  C11. No key seals more packets than RFC 9001 section 6.6 allows. From a server that has sealed nothing under
  its current keys, through any sequence of packets received, hostile ones included, and packets sent, the
  number of packets sealed under one generation of keys never exceeds \<open>2^23\<close> for AES-GCM and \<open>2^62\<close> for
  ChaCha20-Poly1305. The 64-bit generation counter bounds the length of the run.
\<close>

theorem key_limit_kept:
  assumes "onertt_run supported stack s xs = Some (ps, s')" and "sv_ku_send_count s = 0" and "unat (kw_generation (sv_ku_send s)) + length xs < 2 ^ 64"
  shows "length (filter (\<lambda>p. fst p = g) ps) \<le> (if sv_cipher_suite s = TLS_CHACHA20_POLY1305_SHA256 then 2 ^ 62 else 2 ^ 23)"
  using limit_run [OF assms(1,3), of g] assms(2) by (auto simp: sealed_room_def key_limit_def split: if_splits)


lemma example_sched_ok: "ks_ok example_sched"
  by (simp add: example_sched_def keysched_wipe_def ks_ok_def zero_keys_ok TLS_HASH_MAX_def HKDF_PRK_384_def SHA384_DIGEST_def list_all_length)

lemma example_ops_allowed: "ks_run_allowed ks_start example_ops"
  by (simp add: example_ops_def ks_start_def)

definition example_state :: kuswitch_state where
  "example_state = \<lparr>kw_cur = zero_keys, kw_old = zero_keys, kw_generation = 0, kw_have_old = False\<rparr>"

definition example_server :: wired_server where
  "example_server = \<lparr>sv_iscid_len = 8, sv_cipher_suite = TLS_AES_256_GCM_SHA384, sv_negotiated_version = 0, sv_client_version = 0,
     sv_sched = fold keysched_op example_ops (keysched_init example_sched), sv_ku = example_state, sv_ku_secret = replicate 48 0,
     sv_ku_send = example_state, sv_ku_send_secret = replicate 48 0, sv_ku_seeded = True, sv_ku_next = zero_keys, sv_ku_next_secret = replicate 48 0,
     sv_ku_cur_lo = 0, sv_ku_cur_hi = 0, sv_ku_error = 0, sv_ku_send_count = 0, sv_ku_auth_fail = 0, sv_grease_seed = 7,
     sv_peer_grease_quic_bit = True, sv_spin_rx = 1, sv_spin_off = False\<rparr>"

lemma example_seal:
  "\<exists>pkt. send_onertt_seal True example_server \<lparr>si_cli_scid = [1, 2, 3, 4], si_pn = 9, si_payload = [1, 0]\<rparr> 1200 = Some (Some pkt)"
proof -
  let ?d = "\<lambda>p q r. \<lparr>on_dcid = [1, 2, 3, 4], on_pn = 9, on_payload = [0, 0, 0, 1, 0], on_phase_bit = p, on_spin = q, on_clear_quic_bit = r\<rparr>"
  have "\<exists>pkt. hspkt_onertt_build_suite True TLS_AES_256_GCM_SHA384 \<lparr>pk_keys = zero_keys, pk_hp = h\<rparr> (?d p q r) 1200 = Some (Some pkt)" for p q r h
    using onertt_opens [of TLS_AES_256_GCM_SHA384 "\<lparr>pk_keys = zero_keys, pk_hp = h\<rparr>" "?d p q r" 1200 9 True True]
    by (auto simp: suite_known_def zero_keys_ok pn_in_window_def)
  moreover have "send_onertt_padded [1, 0] (send_onertt_min_payload example_server \<lparr>si_cli_scid = [1, 2, 3, 4], si_pn = 9, si_payload = [1, 0]\<rparr>) = [0, 0, 0, 1, 0]"
    by (simp add: send_onertt_padded_def send_onertt_min_payload_def example_server_def suite_tag_len suite_known_def numeral_3_eq_3)
  moreover have "send_onertt_keys example_server = Some \<lparr>pk_keys = zero_keys, pk_hp = aes128_init (ik_hp zero_keys)\<rparr>"
    "sv_cipher_suite example_server = TLS_AES_256_GCM_SHA384"
    by (simp_all add: send_onertt_keys_def example_server_def example_state_def)
  ultimately show ?thesis by (simp add: send_onertt_seal_def Let_def)
qed

theorem key_limit_kept_witness:
  "\<exists>pkt s'. onertt_run True (zero_keys, replicate 48 0) example_server [Op_Send \<lparr>si_cli_scid = [1, 2, 3, 4], si_pn = 9, si_payload = [1, 0]\<rparr> 1200, Op_Recv [] 0]
       = Some ([(0, pkt)], s') \<and> length (filter (\<lambda>p. fst p = 0) [(0 :: u64, pkt)]) \<le> 2 ^ 23"
proof -
  let ?i = "\<lparr>si_cli_scid = [1, 2, 3, 4], si_pn = 9, si_payload = [1, 0]\<rparr>"
  obtain pkt where p: "send_onertt_seal True example_server ?i 1200 = Some (Some pkt)" using example_seal by blast
  have "\<not> aead_needs_update 0 c" "\<not> aead_needs_update 64 c" for c
    by (simp_all add: aead_needs_update_def AEAD_LIMIT_CHACHA_def AEAD_LIMIT_AESGCM_def Let_def)
  then have g: "ku_limit_gate (zero_keys, replicate 48 0) example_server = (True, example_server)"
    by (simp add: ku_limit_gate_def ku_note_limit_near_def ku_limit_near_stuck_def SRVLOOP_KU_CLOSE_MARGIN_def Let_def) (simp add: example_server_def)
  have r: "onertt_run True (zero_keys, replicate 48 0) example_server [Op_Send ?i 1200, Op_Recv [] 0]
      = Some ([(0, pkt)], example_server\<lparr>sv_ku_send_count := 1\<rparr>)"
    by (simp add: wired_srvloop_send_onertt_def g p srvloop_recv_onertt_def kurx_open_picked_def kurx_peek_def hp_sample_ok_def)
      (simp add: example_server_def example_state_def)
  have "length (filter (\<lambda>p. fst p = 0) [(0 :: u64, pkt)]) \<le> 2 ^ 23"
    using key_limit_kept [OF r, of 0] by (simp add: example_server_def example_state_def suite_codes)
  then show ?thesis using r by blast
qed


end
