(* ===== verification/Spec2Isabelle.thy ===== *)
theory Spec2Isabelle
  imports Frame_Walk Packet_Number Packet_Header Stream_Flow Frame_Dispatch Sent_Packets Send_Session Loss_Recovery Key_Update
begin

text \<open>
  A verification development of wired, a QUIC, HTTP/3 and WebTransport server SDK in C without a C library.
  It covers the path of a packet through the server: bytes and frames, packet numbers and headers, streams
  and acknowledgments, retransmission and loss recovery, the packet ciphers, and the hashes, key schedule and
  key updates behind them. File names below are relative to \<^verbatim>\<open>src/\<close> of the repository.

  \<^bold>\<open>How the parts interact.\<close> A datagram is split into packets (\<open>coalesce_next\<close>). The header of each is parsed,
  its protection removed and its payload opened under the keys of its level (\<open>rx_packet\<close>,
  \<open>hspkt_onertt_open_suite\<close>); for 1-RTT packets the server first picks the generation of keys
  (\<open>srvloop_recv_onertt\<close>). The keys come from the key schedule (\<open>keysched_advance_handshake\<close>,
  \<open>keysched_advance_master\<close>), which is built on HKDF, HMAC and SHA-2. The payload is walked frame by frame
  (\<open>framewalk_next\<close>) and each frame is applied to the connection (\<open>framedispatch_state\<close>): stream data to the
  reassembly buffer, acknowledgments to the record of sent packets, limits to the credit counters. The received
  packet numbers feed the ACK the server sends (\<open>app_ack_encode_ranges\<close>). In the other direction a send session
  cuts a response into slices, logs the ones in flight and queues lost ones again; loss detection and the probe
  timeout decide which are lost, and \<open>wired_srvloop_send_onertt\<close> seals the packets.

  \<^bold>\<open>Conventions.\<close> A C integer is a word of its width, with wrap-around; a span is the list of its bytes, a
  cursor or length a \<open>nat\<close>; a struct is a \<open>record\<close>, an enum a \<open>datatype\<close>. A function that reports failure
  returns an \<open>option\<close> or a truth value with the state. Undefined behaviour of C, such as a store outside a
  buffer, is \<open>None\<close> around the whole result, so that a theorem which says \<open>Some\<close> excludes it. A local array
  that the code leaves uninitialised is the argument \<open>stack\<close>, over which the theorems are general; so is the
  result of the CPUID test. State is passed explicitly.

  \<^bold>\<open>Theories, from the bottom up.\<close>
  \<^item> \<open>Wired_Prelude\<close>, \<open>Bytes_Varint\<close> (\<^verbatim>\<open>common/bytes\<close>): output buffers, sequencing of fallible reads and writes,
    varints, big-endian loads and stores, constant-time comparison. Varints round-trip (C37).
  \<^item> \<open>Frame_Core\<close>, \<open>Frame_Ctl\<close>, \<open>Frame_Ack\<close> (\<^verbatim>\<open>transport/packet/frame/frame\<close>): the codecs of the QUIC frames. The
    locale \<open>frame_codec\<close> states the contract of a codec once; every codec interprets it. Accepted ACK frames are
    well formed (C35).
  \<^item> \<open>Frame_Walk\<close> (\<^verbatim>\<open>frame/dispatch.c\<close>, \<^verbatim>\<open>permit.c\<close>, \<^verbatim>\<open>pipeline/framewalk.c\<close>, \<^verbatim>\<open>app/datagram\<close>): all 22 frame kinds
    round-trip (C15), a payload is walked exactly (C16), and every walk ends (C36).
  \<^item> \<open>Packet_Number\<close> (\<^verbatim>\<open>packet/pnum.c\<close>, \<^verbatim>\<open>pnlen.c\<close>, \<^verbatim>\<open>conn/pnspace/recvpn\<close>): truncated numbers are recovered (C33);
    the receive window refines the set of received numbers (C32).
  \<^item> \<open>Packet_Header\<close> (\<^verbatim>\<open>transport/packet/header\<close>, \<^verbatim>\<open>version/version/v2types.c\<close>): long headers, Version
    Negotiation and Retry round-trip (C26, C38), datagrams split into their packets (C24), and one error path
    that reports success (C40).
  \<^item> \<open>Stream_Flow\<close> (\<^verbatim>\<open>transport/stream\<close>, \<^verbatim>\<open>conn/pnspace/crypto_stream\<close>): stream states, credit, final size (C34)
    and reassembly. The locale \<open>sliding_credit\<close> covers both credit counters, \<open>ordered_reader\<close> the stream and the
    CRYPTO readers, which deliver in order whatever the arrival order (C17).
  \<^item> \<open>Ack_Gen\<close> (\<^verbatim>\<open>recovery/detect/ackgen\<close>, \<^verbatim>\<open>conn/pnspace/pnspaces\<close>, \<^verbatim>\<open>srvloop/respond_app.c\<close>): when and what to
    acknowledge (C31).
  \<^item> \<open>Sent_Packets\<close> (\<^verbatim>\<open>recovery/rtx/sentpkt\<close>, \<^verbatim>\<open>recovery/detect/recovery/sent.c\<close>): a received ACK removes exactly
    what it acknowledges (C30).
  \<^item> \<open>Frame_Dispatch\<close> (\<^verbatim>\<open>frame/framedispatch/dispatch_state.c\<close>): receiving encoded frames is applying the frames
    to an abstract state (C4); no payload breaks the state or stores out of bounds (C6).
  \<^item> \<open>Send_Session\<close> (\<^verbatim>\<open>app/http3/server/sendq\<close>, \<^verbatim>\<open>sendsess\<close>): no byte is forgotten through any interleaving of
    sends, losses and acknowledgments (C3), the session drains (C19), the ring reuses only acknowledged bytes
    (C21), and the one case in which a returned slice is dropped (C39).
  \<^item> \<open>Loss_Recovery\<close> (\<^verbatim>\<open>recovery/detect/recovery\<close>, \<^verbatim>\<open>rtx/sentmeta\<close>, \<^verbatim>\<open>srvrun\<close>, \<^verbatim>\<open>srvloop\<close>): loss detection (C5), ACK
    processing (C18), bytes in flight (C20), the ACK floor (C22), RTT and probe timeout (C23).
  \<^item> \<open>Poly1305\<close>, \<open>Chacha_Poly\<close>, \<open>Aes_Gcm\<close>, \<open>Gcm_X86\<close> (\<^verbatim>\<open>crypto/symmetric/aead\<close>): Poly1305 in limbs is the integer
    function (C27); the portable and the AES-NI implementation agree (C28). The locales \<open>block_cipher\<close> and \<open>aead\<close>
    carry the counter mode and the seal and open laws.
  \<^item> \<open>Packet_Protect\<close> (\<^verbatim>\<open>transport/packet/protect\<close>, \<^verbatim>\<open>build/vpn\<close>, \<^verbatim>\<open>build/hspkt\<close>): packets round-trip (C7, C25), only
    what was sealed is opened (C8), and the AES-128 operations are those of the suite (C29), over the locale
    \<open>packet_cipher\<close>.
  \<^item> \<open>Sha2\<close> (\<^verbatim>\<open>crypto/symmetric/hash\<close>): the streaming hashes are those of FIPS 180-4 (C13), over the locale
    \<open>hash_ctx\<close>. The specification takes its constants from the real square and cube roots of the primes; the
    initial values of the code are proved to be those. The two round-constant tables of the code are not restated
    as numerals but given by the same rule on integers, so a slip in a numeral of the C tables is not visible here.
  \<^item> \<open>Key_Schedule\<close> (\<^verbatim>\<open>hash/hmac.c\<close>, \<^verbatim>\<open>crypto/kdf/hkdf\<close>, \<^verbatim>\<open>tls/handshake/core/tls\<close>, \<^verbatim>\<open>tls/keys/schedule_drive\<close>): HMAC
    and HKDF (C14), the staged key schedule as a refinement of RFC 8446 and RFC 9001 (C10), Finished and binders
    (C12). The locale \<open>hkdf_loop\<close> is shared by both hash functions.
  \<^item> \<open>Key_Update\<close> (\<^verbatim>\<open>tls/keys/keyupdate\<close>, \<^verbatim>\<open>tls/keys/kuswitch\<close>, \<^verbatim>\<open>srvloop/recv_onertt.c\<close>, \<^verbatim>\<open>srvloop/send.c\<close>): the
    server follows the client's key updates through loss and reordering (C9) and keeps the limit on packets per
    key (C11).
  \<^item> This theory: an ACK built by one side frees at the other only what was received (C2), and a response that
    the sender considers finished has been delivered whole (C1).

  \<^bold>\<open>Loops and bounds.\<close> No definition uses fuel. Loops over a cursor or a shrinking rest are recursive functions
  with a termination proof; the padding loops of SHA-2 are \<open>while\<close>, and their lemmas show that they end.
  Sizes the code fixes (\<open>REASM_CAP\<close>, \<open>SENTPKT_CAP\<close>, \<open>ACK_MAX_RANGES\<close>, the 3032-byte authenticator input) are
  definitions. Hash theorems hold for messages of fewer than \<open>2^61\<close> bytes, the limit of the 64-bit length field.

  \<^bold>\<open>Not modelled.\<close> Sockets, XDP, clocks, files, threads and randomness are input and output. Public-key
  arithmetic, certificates and the TLS handshake messages are separate developments: the key schedule is verified
  for arbitrary shared secrets and transcripts. Secrecy is not a property of these functional models: the theorems
  say which bytes are accepted, not how hard others are to find, and the timing of constant-time code is not
  expressed. Congestion control, connection ID management, path validation, connection closing, version policy
  and session tickets are not modelled; nor are the layers above streams: HTTP/3, QPACK, WebTransport, raw QUIC
  and Media over QUIC. \<open>bytes_wipe\<close> has no effect the program can observe.
\<close>

unbundle bit_operations_syntax

section \<open>Acknowledgments from receiver to sender\<close>

lemma ack_delay_bound: "ack_delay_encode d 3 \<le> VARINT_MAX"
proof -
  have "unat (drop_bit 3 d) = unat d div 8" by (simp only: unat_drop_bit_eq) (simp add: drop_bit_eq_div)
  also have "\<dots> < 2 ^ 61" using unat_lt_u64 [of d] by (simp add: power_2_64 less_mult_imp_div_less)
  finally show ?thesis by (simp add: ack_delay_encode_def u64_le_mono VARINT_MAX_def)
qed

lemma unat_mem_image: "unat (x :: u64) \<in> unat ` S \<longleftrightarrow> x \<in> S"
  by (auto simp: image_iff) (metis word_unat_eq_iff)

lemma app_ack_on_wire:
  assumes recv: "as_ack_recv l PNS_APP = fold (\<lambda>pn r. recvpn_record r pn) pns recvpn_init" and ne: "pns \<noteq> []"
    and range: "\<forall>pn \<in> set pns. pn \<le> VARINT_MAX"
    and ecn: "as_ecn_ect0 l \<le> VARINT_MAX" "as_ecn_ect1 l \<le> VARINT_MAX" "as_ecn_ce l \<le> VARINT_MAX"
    and enc: "app_ack_encode_ranges l buf = (n, buf')" "n \<noteq> 0"
  defines "M \<equiv> Max (unat ` set pns)"
  obtains f where "ack_wf f" and "take n buf' = frame_wire (Ack f)"
    and "unat (ar_hi (hd (af_ranges f))) = M"
    and "ranges_set (af_ranges f) \<subseteq> {x \<in> unat ` set pns. M \<le> x + 64}"
    and "{x \<in> unat ` set pns. M < x + 64 \<and> unat (as_floor1 l) \<le> x} \<subseteq> ranges_set (af_ranges f)"
proof -
  let ?r = "as_ack_recv l PNS_APP"
  have ok: "recvpn_ok ?r (unat ` set pns)" unfolding recv by (rule recvpn_ok_received)
  have any: "rp_any ?r" unfolding recv by (rule recvpn_any_received [OF ne])
  have L: "unat (rp_largest ?r) = M" unfolding recv M_def by (rule recvpn_largest_received [OF ne])
  obtain f where f: "app_ack_frame l = Some f" "ranges_desc (af_ranges f)" "af_ranges f \<noteq> []"
      "length (af_ranges f) \<le> ACK_MAX_RANGES" "ar_hi (af_ranges f ! 0) = rp_largest ?r"
      "af_ack_delay f = ack_delay_encode ((as_now_ms l - ap_since_tick (as_policy l)) * 1000) 3"
      "if as_ecn_ect0 l \<noteq> 0 \<or> as_ecn_ect1 l \<noteq> 0 \<or> as_ecn_ce l \<noteq> 0
       then af_has_ecn f \<and> af_ect0 f = as_ecn_ect0 l \<and> af_ect1 f = as_ecn_ect1 l \<and> af_ce f = as_ecn_ce l
       else \<not> af_has_ecn f \<and> af_ect0 f = 0 \<and> af_ect1 f = 0 \<and> af_ce f = 0"
      "ranges_set (af_ranges f) \<subseteq> {x \<in> unat ` set pns. M \<le> x + 64}"
      "{x \<in> unat ` set pns. M < x + 64 \<and> unat (as_floor1 l) \<le> x} \<subseteq> ranges_set (af_ranges f)"
    using app_ack_frame_props [OF ok any, unfolded L] by blast
  have "M \<in> unat ` set pns" unfolding M_def using ne by (intro Max_in) simp_all
  then have "M \<le> unat VARINT_MAX" using range by (auto simp: u64_le_mono)
  then have "ar_hi (af_ranges f ! 0) \<le> VARINT_MAX" unfolding f(5) u64_le_mono L .
  then have wf: "ack_wf f"
    using f(2-7) ecn ack_delay_bound by (auto simp: ack_wf_def ack_ok_def ACK_MAX_RANGES_def split: if_splits)
  have e: "ack_encode buf f = (n, buf')" using enc(1) f(1) by (simp add: app_ack_encode_ranges_def)
  then have "length (ack_wire f) \<le> length buf" using ack.enc_overflow [OF wf, of buf] enc(2) by fastforce
  from ack.enc_fits [OF wf this] e have "take n buf' = frame_wire (Ack f)" by auto
  with that [OF wf] f(3,5,8,9) L show ?thesis by (simp add: hd_conv_nth)
qed

text \<open>
  C2. An acknowledgment frees what the peer received and nothing else. The receiver has
  recorded the packet numbers \<open>pns\<close> and encodes its ACK; the sender walks the bytes and applies
  them. A slot that leaves flight holds a received number, every in-flight packet whose number
  was received, is less than 64 below the largest and not below the receiver's pruning floor
  leaves flight, other slots are untouched, and the sender learns the largest number received.
\<close>

theorem ack_end_to_end:
  assumes recv: "as_ack_recv l PNS_APP = fold (\<lambda>pn r. recvpn_record r pn) pns recvpn_init" and ne: "pns \<noteq> []"
    and range: "\<forall>pn \<in> set pns. pn \<le> VARINT_MAX"
    and ecn: "as_ecn_ect0 l \<le> VARINT_MAX" "as_ecn_ect1 l \<le> VARINT_MAX" "as_ecn_ce l \<le> VARINT_MAX"
    and enc: "app_ack_encode_ranges l buf = (n, buf')" "n \<noteq> 0"
    and table: "length (fd_sent st) = SENTPKT_CAP"
  shows "\<exists>st'. dispatch_all st (take n buf') = Some (True, st') \<and> length (fd_sent st') = SENTPKT_CAP
    \<and> fd_has_ack st' \<and> unat (fd_largest_acked st') = Max (unat ` set pns)
    \<and> (\<forall>i < SENTPKT_CAP. let e = fd_sent st ! i; e' = fd_sent st' ! i in
         (e' \<noteq> e \<longrightarrow> live e \<and> \<not> live e' \<and> se_pn e \<in> set pns)
         \<and> (live e \<and> se_pn e \<in> set pns \<and> Max (unat ` set pns) < unat (se_pn e) + 64 \<and> as_floor1 l \<le> se_pn e
              \<longrightarrow> \<not> live e'))"
proof -
  obtain f where f: "ack_wf f" "take n buf' = frame_wire (Ack f)" "unat (ar_hi (hd (af_ranges f))) = Max (unat ` set pns)"
    "ranges_set (af_ranges f) \<subseteq> {x \<in> unat ` set pns. Max (unat ` set pns) \<le> x + 64}"
    "{x \<in> unat ` set pns. Max (unat ` set pns) < x + 64 \<and> unat (as_floor1 l) \<le> x} \<subseteq> ranges_set (af_ranges f)"
    using app_ack_on_wire [OF recv ne range ecn enc] by blast
  let ?A = "ranges_set (af_ranges f)"
  have all: "dispatch_all st (take n buf') = Some (True, st\<lparr>fd_has_ack := True, fd_largest_acked := ar_hi (hd (af_ranges f)),
      fd_sent := map (ack_entry ?A) (fd_sent st)\<rparr>)"
    using dispatch_all_frames [of "[Ack f]" st] f(1) table unfolding f(2) by (simp add: apply_frame_def marks_eliciting_def)
  have freed: "ack_entry ?A e \<noteq> e \<longrightarrow> live e \<and> \<not> live (ack_entry ?A e) \<and> se_pn e \<in> set pns" for e
    using subsetD [OF f(4), of "unat (se_pn e)"] by (simp add: ack_entry_def live_def unat_mem_image)
  have acked: "live e \<and> se_pn e \<in> set pns \<and> Max (unat ` set pns) < unat (se_pn e) + 64 \<and> as_floor1 l \<le> se_pn e
      \<longrightarrow> \<not> live (ack_entry ?A e)" for e
    using subsetD [OF f(5), of "unat (se_pn e)"] by (auto simp: live_ack_entry u64_le_mono unat_mem_image)
  show ?thesis unfolding all using table f(3) freed acked by (simp add: Let_def)
qed

lemma ack_source_example_fits: "fst (app_ack_encode_ranges ack_source_example (replicate 64 0)) \<noteq> 0"
  by code_simp

theorem ack_end_to_end_witness:
  "\<exists>st'. dispatch_all dispatch_example (take (fst (app_ack_encode_ranges ack_source_example (replicate 64 0)))
       (snd (app_ack_encode_ranges ack_source_example (replicate 64 0)))) = Some (True, st')
     \<and> live (fd_sent dispatch_example ! 0) \<and> \<not> live (fd_sent st' ! 0)"
proof -
  let ?r = "app_ack_encode_ranges ack_source_example (replicate 64 0)"
  have r: "as_ack_recv ack_source_example PNS_APP = fold (\<lambda>pn r. recvpn_record r pn) [1, 2, 7] recvpn_init"
    by (simp only: ack_source_example_def ack_source.simps)
  have c: "[1, 2, 7 :: u64] \<noteq> []" "\<forall>pn \<in> set [1, 2, 7 :: u64]. pn \<le> VARINT_MAX"
    "as_ecn_ect0 ack_source_example \<le> VARINT_MAX" "as_ecn_ect1 ack_source_example \<le> VARINT_MAX"
    "as_ecn_ce ack_source_example \<le> VARINT_MAX" "?r = (fst ?r, snd ?r)"
    by (simp_all add: ack_source_example_def VARINT_MAX_def)
  have t: "length (fd_sent dispatch_example) = SENTPKT_CAP" "live (fd_sent dispatch_example ! 0)"
    "se_pn (fd_sent dispatch_example ! 0) = 7" "as_floor1 ack_source_example \<le> 7"
    by (simp_all add: dispatch_example_def live_def SENTPKT_CAP_def ack_source_example_def)
  obtain st' where "dispatch_all dispatch_example (take (fst ?r) (snd ?r)) = Some (True, st')"
    "\<forall>i < SENTPKT_CAP. let e = fd_sent dispatch_example ! i; e' = fd_sent st' ! i in
         (e' \<noteq> e \<longrightarrow> live e \<and> \<not> live e' \<and> se_pn e \<in> set [1, 2, 7])
         \<and> (live e \<and> se_pn e \<in> set [1, 2, 7] \<and> Max (unat ` set [1, 2, 7 :: u64]) < unat (se_pn e) + 64
              \<and> as_floor1 ack_source_example \<le> se_pn e \<longrightarrow> \<not> live e')"
    using ack_end_to_end [OF r c(1-6) ack_source_example_fits t(1)] by blast
  then show ?thesis using t by (auto simp: Let_def SENTPKT_CAP_def dest!: spec [of _ 0])
qed

section \<open>A response from sender to receiver\<close>

text \<open>The STREAM frame \<open>srvrun_send_stream_slice\<close> builds for a slice of the stream \<open>w\<close>.\<close>

definition slice_frame :: "u64 \<Rightarrow> bytes \<Rightarrow> wired_sendq_slice \<Rightarrow> stream_frame" where
  "slice_frame sid w sl = \<lparr>sf_stream_id = sid, sf_offset = of_nat (sl_offset sl), sf_length = of_nat (sl_len sl),
     sf_data = take (sl_len sl) (drop (sl_offset sl) w), sf_fin = sl_fin sl\<rparr>"

definition receive_all :: "framedispatch_state \<Rightarrow> bytes list \<Rightarrow> framedispatch_state option" where
  "receive_all st pls = fold (\<lambda>pl acc. do {st \<leftarrow> acc; map_option snd (dispatch_all st pl)}) pls (Some st)"

lemma receive_slice:
  assumes sid: "sid \<le> VARINT_MAX" "stream_can_receive False sid" and w: "length w \<le> REASM_CAP"
    and sl: "sl_offset sl + sl_len sl \<le> length w" and inv: "dispatch_inv st"
  shows "\<exists>st'. dispatch_all st (frame_wire (Stream (slice_frame sid w sl))) = Some (True, st') \<and> dispatch_inv st'
    \<and> sr_read_off (fd_stream st') = sr_read_off (fd_stream st)
    \<and> received (sr_r (fd_stream st')) = (\<lambda>i. if i \<in> slice_bytes sl then Some (w ! i) else received (sr_r (fd_stream st)) i)"
proof -
  let ?f = "slice_frame sid w sl"
  have b: "sl_offset sl < 2 ^ 62" "sl_len sl < 2 ^ 62" "sl_offset sl + sl_len sl \<le> 4096" using w sl by (simp_all add: REASM_CAP_def)
  then have u: "unat (sf_offset ?f) = sl_offset sl" "unat (sf_length ?f) = sl_len sl" "length (sf_data ?f) = sl_len sl"
    using sl by (simp_all add: slice_frame_def unat_of_nat_u64)
  have wf: "frame_wf (Stream ?f)"
    using sid(1) u b by (simp add: stream_wf_def u64_le_mono VARINT_MAX_def stream_bounds_ok_iff) (simp add: slice_frame_def u64_le_mono VARINT_MAX_def)
  have ok: "reader_ok (sr_r (fd_stream st)) (sr_read_off (fd_stream st))" and t: "length (fd_sent st) = SENTPKT_CAP"
    using inv by (simp_all add: dispatch_inv_def)
  have small: "unat (sf_offset ?f) + length (sf_data ?f) < 2 ^ 62" using u b by simp
  obtain ok1 s1 where p: "stream_read_push (fd_stream st) (sf_offset ?f) (sf_data ?f) = Some (ok1, s1)"
    "reader_ok (sr_r s1) (sr_read_off s1)" "unat (sr_read_off s1) = unat (sr_read_off (fd_stream st))"
    "ok1 \<longleftrightarrow> unat (sf_offset ?f) + length (sf_data ?f) \<le> REASM_CAP"
    "received (sr_r s1) = (\<lambda>i. if ok1 \<and> unat (sf_offset ?f) \<le> i \<and> i < unat (sf_offset ?f) + length (sf_data ?f)
       then Some (sf_data ?f ! (i - unat (sf_offset ?f))) else received (sr_r (fd_stream st)) i)"
    using sread.push_law [OF ok small] by blast
  have "ok1" using p(4) u b by (simp add: REASM_CAP_def)
  have "received (sr_r s1) = (\<lambda>i. if i \<in> slice_bytes sl then Some (w ! i) else received (sr_r (fd_stream st)) i)"
    unfolding p(5) u using \<open>ok1\<close> sl by (auto simp: slice_bytes_def slice_frame_def fun_eq_iff)
  moreover have "sr_read_off s1 = sr_read_off (fd_stream st)" using p(3) by (simp only: word_unat_eq_iff)
  moreover have "dispatch_all st (frame_wire (Stream ?f))
      = Some (True, st\<lparr>fd_ack_eliciting := True, fd_stream := s1\<rparr>)"
    using dispatch_all_frames [of "[Stream ?f]" st] wf t p(1) \<open>ok1\<close> sid(2)
    by (simp add: apply_frame_def marks_eliciting_def slice_frame_def)
  ultimately show ?thesis using inv p(2) by (simp add: dispatch_inv_def)
qed

lemma receive_slices:
  assumes sid: "sid \<le> VARINT_MAX" "stream_can_receive False sid" and w: "length w \<le> REASM_CAP"
    and sls: "\<forall>sl \<in> set sls. sl_offset sl + sl_len sl \<le> length w" and inv: "dispatch_inv st"
    and agree: "\<forall>i b. received (sr_r (fd_stream st)) i = Some b \<longrightarrow> i < length w \<and> b = w ! i"
  shows "\<exists>st'. receive_all st (map (\<lambda>sl. frame_wire (Stream (slice_frame sid w sl))) sls) = Some st' \<and> dispatch_inv st'
    \<and> sr_read_off (fd_stream st') = sr_read_off (fd_stream st)
    \<and> (\<forall>i b. received (sr_r (fd_stream st')) i = Some b \<longrightarrow> i < length w \<and> b = w ! i)
    \<and> (\<forall>i. received (sr_r (fd_stream st)) i \<noteq> None \<or> (\<exists>sl \<in> set sls. i \<in> slice_bytes sl) \<longrightarrow> received (sr_r (fd_stream st')) i \<noteq> None)"
  using sls inv agree
proof (induction sls arbitrary: st)
  case Nil
  then show ?case by (simp add: receive_all_def)
next
  case (Cons sl sls)
  have sl: "sl_offset sl + sl_len sl \<le> length w" using Cons.prems(1) by simp
  obtain s1 where s1: "dispatch_all st (frame_wire (Stream (slice_frame sid w sl))) = Some (True, s1)" "dispatch_inv s1"
    "sr_read_off (fd_stream s1) = sr_read_off (fd_stream st)"
    "received (sr_r (fd_stream s1)) = (\<lambda>i. if i \<in> slice_bytes sl then Some (w ! i) else received (sr_r (fd_stream st)) i)"
    using receive_slice [OF sid w sl Cons.prems(2)] by blast
  have a1: "\<forall>i b. received (sr_r (fd_stream s1)) i = Some b \<longrightarrow> i < length w \<and> b = w ! i"
    using Cons.prems(3) sl unfolding s1(4) by (auto simp: slice_bytes_def split: if_splits)
  have "\<forall>sl \<in> set sls. sl_offset sl + sl_len sl \<le> length w" using Cons.prems(1) by simp
  from Cons.IH [OF this s1(2) a1] obtain st' where
    "receive_all s1 (map (\<lambda>sl. frame_wire (Stream (slice_frame sid w sl))) sls) = Some st'" "dispatch_inv st'"
    "sr_read_off (fd_stream st') = sr_read_off (fd_stream s1)"
    "\<forall>i b. received (sr_r (fd_stream st')) i = Some b \<longrightarrow> i < length w \<and> b = w ! i"
    "\<forall>i. received (sr_r (fd_stream s1)) i \<noteq> None \<or> (\<exists>sl \<in> set sls. i \<in> slice_bytes sl) \<longrightarrow> received (sr_r (fd_stream st')) i \<noteq> None"
    by blast
  moreover have "received (sr_r (fd_stream s1)) i \<noteq> None" if "received (sr_r (fd_stream st)) i \<noteq> None \<or> i \<in> slice_bytes sl" for i
    using that unfolding s1(4) by auto
  ultimately show ?case using s1(1,3) by (intro exI [of _ st']) (auto simp: receive_all_def)
qed


definition sess_after :: "nat \<Rightarrow> wired_sendsess" where
  "sess_after k = [wired_sendsess_arm sess_blank (Some [7, 8, 9]) 3 2, sess_example,
     snd (srvrun_pump_one_slice sess_example True True 6 0),
     srvrun_cc_range (snd (srvrun_pump_one_slice sess_example True True 6 0)) 5 6] ! k"


end
